(* ===== verification/Prelude.thy ===== *)
theory Prelude
  imports Main "HOL-Library.Word" "HOL-Library.Monad_Syntax"
begin

text \<open>
  What every component of the model shares: the machine integers by their Rust names, the
  arithmetic of an overflow-checked build, array indexing that fails, loops in the option monad,
  and the automation collections.

  A kernel operation that can panic returns an \<open>option\<close>: \<open>None\<close> is the panic (a failed
  \<open>assert!\<close> or \<open>expect\<close>, an index out of bounds, an arithmetic overflow in the
  \<open>dev\<close> profile, which is the one \<open>cargo run\<close> and the boot test build), and
  \<open>Some\<close> carries what the Rust returns with the new state. A Rust \<open>Result\<close> is a sum
  with the error on the left.
\<close>

unbundle bit_operations_syntax

type_synonym u8 = "8 word"
type_synonym u16 = "16 word"
type_synonym u32 = "32 word"
type_synonym u64 = "64 word"

section \<open>Automation collections\<close>

text \<open>
  \<open>frame_simps\<close>: what an operation leaves alone. \<open>wf_simps\<close>: what a well-formed state
  lets an operation compute. \<open>ok_simps\<close>: operations that cannot panic, with their result.
\<close>

named_theorems frame_simps
named_theorems wf_simps
named_theorems ok_simps

section \<open>Checked arithmetic\<close>

text \<open>
  Rust's \<open>checked_add\<close> and, in an overflow-checked build, the plain operators, for which
  \<open>None\<close> is the panic.
\<close>

definition checked_add :: "'a::len word \<Rightarrow> 'a word \<Rightarrow> 'a word option" where
  "checked_add x y = (if unat x + unat y < 2 ^ LENGTH('a) then Some (x + y) else None)"

definition checked_sub :: "'a::len word \<Rightarrow> 'a word \<Rightarrow> 'a word option" where
  "checked_sub x y = (if y \<le> x then Some (x - y) else None)"

definition checked_mul :: "'a::len word \<Rightarrow> 'a word \<Rightarrow> 'a word option" where
  "checked_mul x y = (if unat x * unat y < 2 ^ LENGTH('a) then Some (x * y) else None)"

text \<open>\<open>usize\<close> values that count or index are naturals; subtraction below zero panics.\<close>

definition nat_sub :: "nat \<Rightarrow> nat \<Rightarrow> nat option" where
  "nat_sub a b = (if b \<le> a then Some (a - b) else None)"

definition saturating_add :: "'a::len word \<Rightarrow> 'a word \<Rightarrow> 'a word" where
  "saturating_add x y = (if unat x + unat y < 2 ^ LENGTH('a) then x + y else - 1)"

definition div_ceil :: "'a::len word \<Rightarrow> 'a word \<Rightarrow> 'a word" where
  "div_ceil x y = (if 0 < x mod y then x div y + 1 else x div y)"

definition next_multiple_of :: "nat \<Rightarrow> nat \<Rightarrow> nat" where
  "next_multiple_of n k = (if n mod k = 0 then n else n + (k - n mod k))"

definition is_multiple_of :: "'a::len word \<Rightarrow> 'a word \<Rightarrow> bool" where
  "is_multiple_of x k = (x mod k = 0)"

lemma checked_add_Some_iff:
  "checked_add x y = Some z \<longleftrightarrow>
     unat (x :: 'a::len word) + unat y < 2 ^ LENGTH('a) \<and> z = x + y"
  by (auto simp: checked_add_def)

lemma checked_sub_Some_iff: "checked_sub x y = Some z \<longleftrightarrow> y \<le> x \<and> z = x - y"
  by (auto simp: checked_sub_def)

lemma checked_mul_Some_iff:
  "checked_mul x y = Some z \<longleftrightarrow>
     unat (x :: 'a::len word) * unat y < 2 ^ LENGTH('a) \<and> z = x * y"
  by (auto simp: checked_mul_def)

lemma nat_sub_Some_iff [simp]: "nat_sub a b = Some c \<longleftrightarrow> b \<le> a \<and> c = a - b"
  by (auto simp: nat_sub_def)

lemma nat_sub_le [simp]: "b \<le> a \<Longrightarrow> nat_sub a b = Some (a - b)"
  by (simp add: nat_sub_def)

lemma unat_add_no_overflow:
  "unat (x :: 'a::len word) + unat y < 2 ^ LENGTH('a) \<Longrightarrow> unat (x + y) = unat x + unat y"
  by (simp add: unat_word_ariths)

lemma unat_mult_no_overflow:
  "unat (x :: 'a::len word) * unat y < 2 ^ LENGTH('a) \<Longrightarrow> unat (x * y) = unat x * unat y"
  by (simp add: unat_word_ariths)

lemma unat_sub_no_underflow: "y \<le> x \<Longrightarrow> unat (x - y) = unat (x :: 'a::len word) - unat y"
  by (simp add: unat_sub)

lemma unat_div_mod: "unat (x div y) = unat (x :: 'a::len word) div unat y"
  "unat (x mod y) = unat (x :: 'a::len word) mod unat y"
  by (simp_all add: unat_div unat_mod)

lemma checked_addD:
  "checked_add x y = Some z \<Longrightarrow> unat z = unat (x :: 'a::len word) + unat y"
  by (auto simp: checked_add_Some_iff unat_add_no_overflow)

lemma checked_add_None_iff:
  "checked_add x y = None \<longleftrightarrow> 2 ^ LENGTH('a) \<le> unat (x :: 'a::len word) + unat y"
  by (auto simp: checked_add_def)

section \<open>Arrays and loops that may panic\<close>

definition idx :: "'a list \<Rightarrow> nat \<Rightarrow> 'a option" where
  "idx xs i = (if i < length xs then Some (xs ! i) else None)"

lemma idx_nth [simp]: "i < length xs \<Longrightarrow> idx xs i = Some (xs ! i)"
  by (simp add: idx_def)

lemma idx_Some_iff: "idx xs i = Some x \<longleftrightarrow> i < length xs \<and> x = xs ! i"
  by (auto simp: idx_def)

lemma idx_None_iff [simp]: "idx xs i = None \<longleftrightarrow> length xs \<le> i"
  by (auto simp: idx_def)

definition assert_that :: "bool \<Rightarrow> unit option" where
  "assert_that b = (if b then Some () else None)"

lemma assert_that_simps [simp]: "assert_that True = Some ()" "assert_that False = None"
  by (simp_all add: assert_that_def)

lemma assert_that_Some_iff [simp]: "assert_that b = Some u \<longleftrightarrow> b"
  by (simp add: assert_that_def)

text \<open>\<open>for x in xs { s = f(x, s) }\<close>, stopping at the first panic.\<close>

primrec for_each :: "('a \<Rightarrow> 's \<Rightarrow> 's option) \<Rightarrow> 'a list \<Rightarrow> 's \<Rightarrow> 's option" where
  "for_each f [] s = Some s"
| "for_each f (x # xs) s = do { s \<leftarrow> f x s; for_each f xs s }"

lemma for_each_append:
  "for_each f (xs @ ys) s = do { s \<leftarrow> for_each f xs s; for_each f ys s }"
  by (induction xs arbitrary: s) simp_all

text \<open>
  The loop rule: an invariant indexed by the part of the list already consumed, preserved by
  every step from a state that satisfies it, holds for the result, and the loop does not panic.
\<close>

lemma for_each_rule:
  assumes "P [] s"
    and "\<And>ys x s. P ys s \<Longrightarrow> x \<in> set xs \<Longrightarrow> \<exists>s'. f x s = Some s' \<and> P (ys @ [x]) s'"
  shows "\<exists>s'. for_each f xs s = Some s' \<and> P xs s'"
proof -
  have "\<exists>s'. for_each f zs s = Some s' \<and> P (ys @ zs) s'"
    if "P ys s" "set zs \<subseteq> set xs" for ys zs s
    using that
  proof (induction zs arbitrary: ys s)
    case (Cons z zs)
    then obtain s' where "f z s = Some s'" "P (ys @ [z]) s'"
      using assms(2) by fastforce
    with Cons show ?case by fastforce
  qed simp
  from this [OF assms(1), of xs] show ?thesis by simp
qed

section \<open>Maps and lists\<close>

lemma list_update_same_nth [simp]: "xs[i := xs ! i] = xs"
  by (rule list_update_id)

lemma takeWhile_upt_less:
  "takeWhile P [a..<b] = [a..<a + length (takeWhile P [a..<b])]"
proof -
  define n where "n = length (takeWhile P [a..<b])"
  have "n \<le> b - a"
    unfolding n_def by (metis length_takeWhile_le length_upt)
  have "takeWhile P [a..<b] = take n [a..<b]"
    unfolding n_def by (rule takeWhile_eq_take)
  also have "\<dots> = [a..<a + n]"
    using \<open>n \<le> b - a\<close> by (cases "a \<le> b") (auto simp: take_upt)
  finally show ?thesis by (simp add: n_def)
qed

end
