(* ===== verification/Memory.thy ===== *)
theory Memory
  imports Prelude
begin

text \<open>
  Physical memory and the kernel's linear view of it.

  \<^item> \<open>phys\<close>: the bytes of physical memory, and \<open>PHYS_OFFSET\<close> of \<open>paging.rs\<close>,
    which is zero while the MMU is off and \<open>KERNEL_BASE\<close> in the high half. In both phases the
    kernel reaches physical address \<open>pa\<close> at virtual address \<open>pa + phys_offset\<close>, so a
    kernel access to virtual address \<open>va\<close> touches \<open>va - phys_offset\<close>. The sum is
    written with wrap-around: it overflows only for a \<open>pa\<close> of 2 ^ 48 or more, which no
    physical address of this machine is.
  \<^item> raw accesses through such a pointer: \<open>read_volatile\<close>, \<open>write_volatile\<close>,
    \<open>write_bytes\<close>, \<open>copy_nonoverlapping\<close>.
  \<^item> little endian (the machine) and big endian (the device tree) words as byte lists.

  The lemmas are the usual ones of an array: reading back what was written, and leaving alone
  what lies elsewhere.
\<close>

section \<open>Words as bytes\<close>

definition le_join :: "u8 list \<Rightarrow> 'a::len word" where
  "le_join bs = foldr (\<lambda>b acc. ucast b OR push_bit 8 acc) bs 0"

definition le_split :: "nat \<Rightarrow> 'a::len word \<Rightarrow> u8 list" where
  "le_split n w = map (\<lambda>i. ucast (drop_bit (8 * i) w)) [0..<n]"

definition be_join :: "u8 list \<Rightarrow> 'a::len word" where
  "be_join bs = le_join (rev bs)"

definition be_split :: "nat \<Rightarrow> 'a::len word \<Rightarrow> u8 list" where
  "be_split n w = rev (le_split n w)"

lemma length_le_split [simp]: "length (le_split n w) = n"
  by (simp add: le_split_def)

lemma length_be_split [simp]: "length (be_split n w) = n"
  by (simp add: be_split_def)

lemma bit_le_join:
  "bit (le_join bs :: 'a::len word) n \<longleftrightarrow>
     n < LENGTH('a) \<and> n div 8 < length bs \<and> bit (bs ! (n div 8)) (n mod 8)"
proof (induction bs arbitrary: n)
  case Nil
  then show ?case by (simp add: le_join_def)
next
  case (Cons b bs)
  have step: "le_join (b # bs) = (ucast b OR push_bit 8 (le_join bs) :: 'a word)"
    by (simp add: le_join_def)
  show ?case
  proof (cases "n < 8")
    case True
    then show ?thesis
      by (auto simp: step bit_simps)
  next
    case False
    then obtain m where n: "n = m + 8"
      by (metis add.commute le_Suc_ex not_less)
    have "\<not> bit b n"
      using False by (auto dest: bit_imp_le_length)
    moreover have "(m + 8) div 8 = Suc (m div 8)" by simp
    ultimately show ?thesis
      using Cons.IH [of m] by (auto simp: step n bit_simps dest: bit_imp_le_length)
  qed
qed

lemma le_split_nth: "i < n \<Longrightarrow> le_split n w ! i = ucast (drop_bit (8 * i) w)"
  by (simp add: le_split_def)

lemma le_join_split: "LENGTH('a) = 8 * n \<Longrightarrow> le_join (le_split n w) = (w :: 'a::len word)"
proof (rule bit_word_eqI)
  fix k assume len: "LENGTH('a) = 8 * n" and k: "k < LENGTH('a)"
  then have "k div 8 < n" by simp
  then show "bit (le_join (le_split n w) :: 'a word) k \<longleftrightarrow> bit w k"
    using k by (simp add: bit_le_join le_split_nth bit_simps)
qed

lemma be_join_split: "LENGTH('a) = 8 * n \<Longrightarrow> be_join (be_split n w) = (w :: 'a::len word)"
  by (simp add: be_join_def be_split_def le_join_split)

section \<open>Memory and the kernel's pointers\<close>

record phys =
  pmem :: "u64 \<Rightarrow> u8"
  phys_offset :: u64

definition phys_to_virt :: "phys \<Rightarrow> u64 \<Rightarrow> u64" where
  "phys_to_virt p pa = pa + phys_offset p"

text \<open>The physical byte behind a kernel pointer.\<close>

definition kernel_pa :: "phys \<Rightarrow> u64 \<Rightarrow> u64" where
  "kernel_pa p va = va - phys_offset p"

lemma kernel_pa_phys_to_virt [simp]: "kernel_pa p (phys_to_virt p pa) = pa"
  by (simp add: kernel_pa_def phys_to_virt_def)

lemma phys_to_virt_add: "phys_to_virt p pa + n = phys_to_virt p (pa + n)"
  by (simp add: phys_to_virt_def)

definition load :: "phys \<Rightarrow> u64 \<Rightarrow> u8" where
  "load p va = pmem p (kernel_pa p va)"

definition read_bytes :: "phys \<Rightarrow> u64 \<Rightarrow> nat \<Rightarrow> u8 list" where
  "read_bytes p va n = map (\<lambda>i. load p (va + of_nat i)) [0..<n]"

definition store_bytes :: "phys \<Rightarrow> u64 \<Rightarrow> u8 list \<Rightarrow> phys" where
  "store_bytes p va bs =
     p\<lparr>pmem := (\<lambda>a. let i = unat (a - kernel_pa p va) in
                       if i < length bs then bs ! i else pmem p a)\<rparr>"

definition read_u64 :: "phys \<Rightarrow> u64 \<Rightarrow> u64" where
  "read_u64 p va = le_join (read_bytes p va 8)"

definition write_u64 :: "phys \<Rightarrow> u64 \<Rightarrow> u64 \<Rightarrow> phys" where
  "write_u64 p va v = store_bytes p va (le_split 8 v)"

text \<open>\<open>core::ptr::write_bytes(va, byte, n)\<close>\<close>

definition write_bytes :: "phys \<Rightarrow> u64 \<Rightarrow> u8 \<Rightarrow> nat \<Rightarrow> phys" where
  "write_bytes p va byte n =
     p\<lparr>pmem := (\<lambda>a. if unat (a - kernel_pa p va) < n then byte else pmem p a)\<rparr>"

text \<open>\<open>core::ptr::copy_nonoverlapping(src, dst, n)\<close>\<close>

definition copy_nonoverlapping :: "phys \<Rightarrow> u64 \<Rightarrow> u64 \<Rightarrow> nat \<Rightarrow> phys" where
  "copy_nonoverlapping p src dst n =
     p\<lparr>pmem := (\<lambda>a. if unat (a - kernel_pa p dst) < n
                     then pmem p (kernel_pa p src + (a - kernel_pa p dst))
                     else pmem p a)\<rparr>"

lemma phys_offset_simps [simp, frame_simps]:
  "phys_offset (store_bytes p va bs) = phys_offset p"
  "phys_offset (write_u64 p va v) = phys_offset p"
  "phys_offset (write_bytes p va byte n) = phys_offset p"
  "phys_offset (copy_nonoverlapping p src dst n) = phys_offset p"
  by (simp_all add: store_bytes_def write_u64_def write_bytes_def copy_nonoverlapping_def)

lemma kernel_pa_cong: "phys_offset p = phys_offset q \<Longrightarrow> kernel_pa p = kernel_pa q"
  by (simp add: kernel_pa_def fun_eq_iff)

lemma phys_to_virt_cong: "phys_offset p = phys_offset q \<Longrightarrow> phys_to_virt p = phys_to_virt q"
  by (simp add: phys_to_virt_def fun_eq_iff)

lemma phys_to_virt_simps [simp, frame_simps]:
  "phys_to_virt (store_bytes p va bs) = phys_to_virt p"
  "phys_to_virt (write_u64 p va v) = phys_to_virt p"
  "phys_to_virt (write_bytes p va byte n) = phys_to_virt p"
  "phys_to_virt (copy_nonoverlapping p src dst n) = phys_to_virt p"
  by (rule phys_to_virt_cong, simp)+

lemma length_read_bytes [simp]: "length (read_bytes p va n) = n"
  by (simp add: read_bytes_def)

section \<open>Reading back\<close>

lemma unat_of_nat_u64: "n < 2 ^ 64 \<Longrightarrow> unat (of_nat n :: u64) = n"
  by (simp add: unat_of_nat)

lemma pmem_store_bytes:
  "pmem (store_bytes p va bs) a =
     (if unat (a - kernel_pa p va) < length bs then bs ! unat (a - kernel_pa p va) else pmem p a)"
  by (simp add: store_bytes_def Let_def)

lemma load_phys: "load p (phys_to_virt p pa + n) = pmem p (pa + n)"
  by (simp add: load_def phys_to_virt_add)

lemma read_bytes_phys:
  "read_bytes p (phys_to_virt p pa) n = map (\<lambda>i. pmem p (pa + of_nat i)) [0..<n]"
  by (simp add: read_bytes_def load_phys)

lemma read_bytes_store_bytes:
  assumes "length bs < 2 ^ 64"
  shows "read_bytes (store_bytes p va bs) va (length bs) = bs"
proof (rule nth_equalityI)
  fix i assume "i < length (read_bytes (store_bytes p va bs) va (length bs))"
  then have i: "i < length bs" by simp
  then have "unat (va + of_nat i - va) = i"
    using assms by (simp add: unat_of_nat_u64)
  then have "unat (va + of_nat i - phys_offset p - (va - phys_offset p)) = i"
    by simp
  with i show "read_bytes (store_bytes p va bs) va (length bs) ! i = bs ! i"
    by (simp add: read_bytes_def load_def kernel_pa_def pmem_store_bytes)
qed simp

lemma read_u64_write_u64 [simp]: "read_u64 (write_u64 p va v) va = v"
  using read_bytes_store_bytes [of "le_split 8 v" p va]
  by (simp add: read_u64_def write_u64_def le_join_split)

text \<open>Two byte ranges of physical memory that do not meet.\<close>

definition apart :: "u64 \<Rightarrow> nat \<Rightarrow> u64 \<Rightarrow> nat \<Rightarrow> bool" where
  "apart a n b m \<longleftrightarrow> (\<forall>i < n. m \<le> unat (a + of_nat i - b))"

lemma read_bytes_cong:
  assumes "phys_offset q = phys_offset p"
    and "\<And>i. i < n \<Longrightarrow> pmem q (kernel_pa p va + of_nat i) = pmem p (kernel_pa p va + of_nat i)"
  shows "read_bytes q va n = read_bytes p va n"
proof -
  have "load q (va + of_nat i) = load p (va + of_nat i)" if "i < n" for i
    using assms that by (simp add: load_def kernel_pa_def algebra_simps)
  then show ?thesis by (simp add: read_bytes_def)
qed

lemma read_u64_cong:
  assumes "phys_offset q = phys_offset p"
    and "\<And>i. i < 8 \<Longrightarrow> pmem q (kernel_pa p va + of_nat i) = pmem p (kernel_pa p va + of_nat i)"
  shows "read_u64 q va = read_u64 p va"
  using read_bytes_cong [OF assms] by (simp add: read_u64_def)

lemma read_u64_write_u64_apart:
  assumes "apart (kernel_pa p va) 8 (kernel_pa p va') 8"
  shows "read_u64 (write_u64 p va' v) va = read_u64 p va"
  by (rule read_u64_cong) (use assms in \<open>auto simp: write_u64_def pmem_store_bytes apart_def leD\<close>)

section \<open>Pages and aligned words\<close>

text \<open>
  An aligned block of \<open>2 ^ k\<close> bytes is the set of addresses that share their upper bits, which
  is how the ranges of different frames and of different table entries are told apart.
\<close>

lemma drop_bit_add_offset:
  assumes "take_bit k a = (0 :: u64)" "i < 2 ^ k" "k < 64"
  shows "drop_bit k (a + of_nat i) = drop_bit k a"
proof -
  have lt: "(2::nat) ^ k < 2 ^ 64"
    by (rule power_strict_increasing) (use assms in simp_all)
  have i: "unat (of_nat i :: u64) = i"
    using assms(2) lt by (intro unat_of_nat_u64) linarith
  have dvd: "2 ^ k dvd unat a"
    using assms(1) by (metis take_bit_nat_def unat_0 unsigned_take_bit_eq dvd_eq_mod_eq_0)
  have le: "unat a + 2 ^ k \<le> 2 ^ 64"
  proof -
    obtain q where q: "unat a = 2 ^ k * q" using dvd by (auto elim: dvdE)
    have p64: "(2::nat) ^ 64 = 2 ^ k * 2 ^ (64 - k)"
      using assms(3) by (simp add: power_add [symmetric])
    have "2 ^ k * q < (2::nat) ^ k * 2 ^ (64 - k)"
      using unsigned_less [of a, where 'a = nat] q p64 by (simp only: len_num1 len_num0 len_bit0 len_bit1) simp
    then have "Suc q \<le> 2 ^ (64 - k)" by simp
    then have "2 ^ k * Suc q \<le> (2::nat) ^ k * 2 ^ (64 - k)" by (intro mult_le_mono2)
    then show ?thesis using q p64 by simp
  qed
  have sum: "unat (a + of_nat i) = unat a + i"
    using assms(2) le i unat_add_no_overflow [of a "of_nat i"] by simp
  have "unat (drop_bit k (a + of_nat i)) = unat (drop_bit k a)"
    using assms(2) dvd by (auto simp: unat_drop_bit_eq drop_bit_nat_def sum elim!: dvdE)
  then show ?thesis by (simp add: unsigned_word_eqI)
qed

lemma apart_blocks:
  assumes "take_bit k a = (0 :: u64)" "take_bit k b = 0" "drop_bit k a \<noteq> drop_bit k b" "k < 64"
    and "n \<le> 2 ^ k" "m \<le> 2 ^ k"
  shows "apart a n b m"
  unfolding apart_def
proof (intro allI impI, rule ccontr)
  fix i assume i: "i < n" and "\<not> m \<le> unat (a + of_nat i - b)"
  then have j: "unat (a + of_nat i - b) < 2 ^ k" using assms(6) by simp
  have "b + of_nat (unat (a + of_nat i - b)) = a + of_nat i" by simp
  with drop_bit_add_offset [OF assms(2) j assms(4)]
  have "drop_bit k (a + of_nat i) = drop_bit k b" by metis
  moreover have "drop_bit k (a + of_nat i) = drop_bit k a"
    using i assms(5) by (intro drop_bit_add_offset assms) simp
  ultimately show False using assms(3) by simp
qed

lemma aligned_eqI:
  "take_bit k a = (0 :: u64) \<Longrightarrow> take_bit k b = 0 \<Longrightarrow> drop_bit k a = drop_bit k b \<Longrightarrow> a = b"
  by (metis bits_ident)

end
