(* ===== verification/Bitmap.thy ===== *)
theory Bitmap
  imports Memory
begin

text \<open>
  The allocator's bitmap (\<open>struct Bitmap\<close> of \<open>frames.rs\<close>): one bit per frame, set when the
  frame is taken, with the two counters the allocator keeps beside it.

  The locale \<open>index_set\<close> is the interface the range operations and the searches are written
  against: a membership test, an insertion and a deletion on indexes below a capacity. It is
  interpreted on the bit operations, and the word-wise \<open>set_range\<close> and \<open>clear_range\<close> are
  shown to be the plain loops over the range that they replace.
\<close>

section \<open>The bitmap and its bit operations\<close>

record bitmap =
  bm_bits :: "u64 list"
  bm_free :: nat
  bm_reserved :: nat

definition bm_is_set :: "bitmap \<Rightarrow> nat \<Rightarrow> bool option" where
  "bm_is_set b index = do {
     w \<leftarrow> idx (bm_bits b) (index div 64);
     Some (w AND push_bit (index mod 64) 1 \<noteq> 0)
   }"

definition bm_set :: "bitmap \<Rightarrow> nat \<Rightarrow> bitmap option" where
  "bm_set b index = do {
     w \<leftarrow> idx (bm_bits b) (index div 64);
     Some (b\<lparr>bm_bits := (bm_bits b)[index div 64 := w OR push_bit (index mod 64) 1]\<rparr>)
   }"

definition bm_clear :: "bitmap \<Rightarrow> nat \<Rightarrow> bitmap option" where
  "bm_clear b index = do {
     w \<leftarrow> idx (bm_bits b) (index div 64);
     Some (b\<lparr>bm_bits := (bm_bits b)[index div 64 := w AND NOT (push_bit (index mod 64) 1)]\<rparr>)
   }"

text \<open>\<open>self.bits[from..to].fill(value)\<close>: slicing panics on a bad range.\<close>

definition bm_fill :: "bitmap \<Rightarrow> nat \<Rightarrow> nat \<Rightarrow> u64 \<Rightarrow> bitmap option" where
  "bm_fill b from to v =
     (if from \<le> to \<and> to \<le> length (bm_bits b)
      then Some (b\<lparr>bm_bits := take from (bm_bits b) @ replicate (to - from) v @
                               drop to (bm_bits b)\<rparr>)
      else None)"

definition bm_set_range :: "bitmap \<Rightarrow> nat \<Rightarrow> nat \<Rightarrow> bitmap option" where
  "bm_set_range b start end = do {
     b \<leftarrow> for_each (\<lambda>i b. bm_set b i) (takeWhile (\<lambda>i. i mod 64 \<noteq> 0) [start..<end]) b;
     let first_whole_word = next_multiple_of start 64;
     if end \<le> first_whole_word then Some b
     else do {
       b \<leftarrow> bm_fill b (first_whole_word div 64) (end div 64) (- 1);
       for_each (\<lambda>i b. bm_set b i) [end div 64 * 64..<end] b
     }
   }"

definition bm_clear_range :: "bitmap \<Rightarrow> nat \<Rightarrow> nat \<Rightarrow> bitmap option" where
  "bm_clear_range b start end = do {
     b \<leftarrow> for_each (\<lambda>i b. bm_clear b i) (takeWhile (\<lambda>i. i mod 64 \<noteq> 0) [start..<end]) b;
     let first_whole_word = next_multiple_of start 64;
     if end \<le> first_whole_word then Some b
     else do {
       b \<leftarrow> bm_fill b (first_whole_word div 64) (end div 64) 0;
       for_each (\<lambda>i b. bm_clear b i) [end div 64 * 64..<end] b
     }
   }"

text \<open>\<open>u64::trailing_ones\<close>\<close>

definition trailing_ones :: "u64 \<Rightarrow> nat" where
  "trailing_ones w = length (takeWhile (bit w) [0..<64])"

fun first_clear_from :: "nat \<Rightarrow> u64 list \<Rightarrow> nat option" where
  "first_clear_from word_index [] = None"
| "first_clear_from word_index (word # words) =
     (if word = - 1 then first_clear_from (Suc word_index) words
      else Some (word_index * 64 + trailing_ones word))"

definition bm_first_clear :: "bitmap \<Rightarrow> nat option" where
  "bm_first_clear b = first_clear_from 0 (bm_bits b)"

text \<open>The loop that looks for an index that is already set, in \<open>reserve_range\<close> and
  \<open>adopt\<close>.\<close>

fun find_set :: "bitmap \<Rightarrow> nat list \<Rightarrow> nat option option" where
  "find_set b [] = Some None"
| "find_set b (index # rest) = do {
     hit \<leftarrow> bm_is_set b index;
     if hit then Some (Some index) else find_set b rest
   }"

section \<open>The set of taken indexes\<close>

definition bm_capacity :: "bitmap \<Rightarrow> nat" where
  "bm_capacity b = 64 * length (bm_bits b)"

definition taken :: "bitmap \<Rightarrow> nat set" where
  "taken b = {i. i < bm_capacity b \<and> bit (bm_bits b ! (i div 64)) (i mod 64)}"

definition bm_counters :: "bitmap \<Rightarrow> nat \<times> nat" where
  "bm_counters b = (bm_free b, bm_reserved b)"

lemma taken_counters [simp]:
  "taken (b\<lparr>bm_free := n\<rparr>) = taken b" "taken (b\<lparr>bm_reserved := n\<rparr>) = taken b"
  "bm_capacity (b\<lparr>bm_free := n\<rparr>) = bm_capacity b"
  "bm_capacity (b\<lparr>bm_reserved := n\<rparr>) = bm_capacity b"
  by (simp_all add: taken_def bm_capacity_def)

lemma taken_iff: "i < bm_capacity b \<Longrightarrow> i \<in> taken b \<longleftrightarrow> bit (bm_bits b ! (i div 64)) (i mod 64)"
  by (simp add: taken_def)

lemma div64_less_capacity: "i < bm_capacity b \<Longrightarrow> i div 64 < length (bm_bits b)"
  by (simp add: bm_capacity_def)

lemma same_bit_index: "i div 64 = j div 64 \<Longrightarrow> i mod 64 = j mod 64 \<Longrightarrow> i = (j::nat)"
  by (metis div_mult_mod_eq)

locale index_set =
  fixes member :: "'b \<Rightarrow> nat \<Rightarrow> bool option"
    and add :: "'b \<Rightarrow> nat \<Rightarrow> 'b option"
    and remove :: "'b \<Rightarrow> nat \<Rightarrow> 'b option"
    and contents :: "'b \<Rightarrow> nat set"
    and capacity :: "'b \<Rightarrow> nat"
    and aside :: "'b \<Rightarrow> 'c"
  assumes member_law: "i < capacity b \<Longrightarrow> member b i = Some (i \<in> contents b)"
    and add_law: "i < capacity b \<Longrightarrow> \<exists>b'. add b i = Some b' \<and>
      contents b' = insert i (contents b) \<and> capacity b' = capacity b \<and> aside b' = aside b"
    and remove_law: "i < capacity b \<Longrightarrow> \<exists>b'. remove b i = Some b' \<and>
      contents b' = contents b - {i} \<and> capacity b' = capacity b \<and> aside b' = aside b"
begin

lemma add_all:
  assumes "\<And>i. i \<in> set xs \<Longrightarrow> i < capacity b"
  shows "\<exists>b'. for_each (\<lambda>i b. add b i) xs b = Some b' \<and> contents b' = contents b \<union> set xs \<and>
    capacity b' = capacity b \<and> aside b' = aside b"
proof (rule for_each_rule [where P = "\<lambda>ys c. contents c = contents b \<union> set ys \<and>
        capacity c = capacity b \<and> aside c = aside b"])
  fix ys x c
  assume c: "contents c = contents b \<union> set ys \<and> capacity c = capacity b \<and> aside c = aside b"
    and x: "x \<in> set xs"
  then have "x < capacity c" using assms by simp
  from add_law [OF this] c show "\<exists>s'. add c x = Some s' \<and>
      contents s' = contents b \<union> set (ys @ [x]) \<and> capacity s' = capacity b \<and> aside s' = aside b"
    by auto
qed simp

lemma remove_all:
  assumes "\<And>i. i \<in> set xs \<Longrightarrow> i < capacity b"
  shows "\<exists>b'. for_each (\<lambda>i b. remove b i) xs b = Some b' \<and> contents b' = contents b - set xs \<and>
    capacity b' = capacity b \<and> aside b' = aside b"
proof (rule for_each_rule [where P = "\<lambda>ys c. contents c = contents b - set ys \<and>
        capacity c = capacity b \<and> aside c = aside b"])
  fix ys x c
  assume c: "contents c = contents b - set ys \<and> capacity c = capacity b \<and> aside c = aside b"
    and x: "x \<in> set xs"
  then have "x < capacity c" using assms by simp
  from remove_law [OF this] c show "\<exists>s'. remove c x = Some s' \<and>
      contents s' = contents b - set (ys @ [x]) \<and> capacity s' = capacity b \<and> aside s' = aside b"
    by auto
qed simp

text \<open>Removing what was added gives the contents back.\<close>

lemma remove_added:
  assumes "i < capacity b" "i \<notin> contents b" "add b i = Some b'"
  shows "\<exists>b''. remove b' i = Some b'' \<and> contents b'' = contents b \<and>
    capacity b'' = capacity b \<and> aside b'' = aside b"
proof -
  from add_law [OF assms(1)] assms(3) have b': "contents b' = insert i (contents b)"
    "capacity b' = capacity b" "aside b' = aside b" by auto
  with remove_law [of i b'] assms(1,2) show ?thesis by auto
qed

end

section \<open>The bit operations implement the interface\<close>

lemma bm_is_set_taken: "i < bm_capacity b \<Longrightarrow> bm_is_set b i = Some (i \<in> taken b)"
  by (simp add: bm_is_set_def div64_less_capacity taken_iff bit_iff_and_push_bit_not_eq_0)

lemma bm_set_taken:
  assumes i: "i < bm_capacity b"
  shows "\<exists>b'. bm_set b i = Some b' \<and> taken b' = insert i (taken b) \<and>
    bm_capacity b' = bm_capacity b \<and> bm_counters b' = bm_counters b"
proof -
  let ?w = "bm_bits b ! (i div 64) OR push_bit (i mod 64) 1"
  let ?b = "b\<lparr>bm_bits := (bm_bits b)[i div 64 := ?w]\<rparr>"
  have len: "i div 64 < length (bm_bits b)" by (rule div64_less_capacity [OF i])
  have cap: "bm_capacity ?b = bm_capacity b" by (simp add: bm_capacity_def)
  have "taken ?b = insert i (taken b)"
  proof (rule set_eqI)
    fix j
    show "j \<in> taken ?b \<longleftrightarrow> j \<in> insert i (taken b)"
    proof (cases "j div 64 = i div 64")
      case True
      then show ?thesis
        using i len cap same_bit_index [of j i]
        by (auto simp: taken_def bit_simps)
    next
      case False
      then show ?thesis using cap by (auto simp: taken_def)
    qed
  qed
  with cap show ?thesis using len by (simp add: bm_set_def bm_counters_def)
qed

lemma bm_clear_taken:
  assumes i: "i < bm_capacity b"
  shows "\<exists>b'. bm_clear b i = Some b' \<and> taken b' = taken b - {i} \<and>
    bm_capacity b' = bm_capacity b \<and> bm_counters b' = bm_counters b"
proof -
  let ?w = "bm_bits b ! (i div 64) AND NOT (push_bit (i mod 64) 1)"
  let ?b = "b\<lparr>bm_bits := (bm_bits b)[i div 64 := ?w]\<rparr>"
  have len: "i div 64 < length (bm_bits b)" by (rule div64_less_capacity [OF i])
  have cap: "bm_capacity ?b = bm_capacity b" by (simp add: bm_capacity_def)
  have "taken ?b = taken b - {i}"
  proof (rule set_eqI)
    fix j
    show "j \<in> taken ?b \<longleftrightarrow> j \<in> taken b - {i}"
    proof (cases "j div 64 = i div 64")
      case True
      then show ?thesis
        using i len cap same_bit_index [of j i]
        by (auto simp: taken_def bit_simps)
    next
      case False
      then show ?thesis using cap by (auto simp: taken_def)
    qed
  qed
  with cap show ?thesis using len by (simp add: bm_clear_def bm_counters_def)
qed

interpretation bm: index_set bm_is_set bm_set bm_clear taken bm_capacity bm_counters
  by unfold_locales (auto simp: bm_is_set_taken bm_set_taken bm_clear_taken)

section \<open>Word-wise ranges\<close>

lemma taken_fill:
  assumes "from \<le> to" "to \<le> length (bm_bits b)"
  shows "\<exists>b'. bm_fill b from to v = Some b' \<and>
    taken b' = {i. i < bm_capacity b \<and>
      (if i \<in> {64 * from..<64 * to} then bit v (i mod 64) else i \<in> taken b)} \<and>
    bm_capacity b' = bm_capacity b \<and> bm_counters b' = bm_counters b"
proof -
  let ?bits = "take from (bm_bits b) @ replicate (to - from) v @ drop to (bm_bits b)"
  have len: "length ?bits = length (bm_bits b)" using assms by simp
  have nth: "?bits ! k = (if from \<le> k \<and> k < to then v else bm_bits b ! k)"
    if "k < length (bm_bits b)" for k
    using that assms by (auto simp: nth_append)
  have mid: "i \<in> {64 * from..<64 * to} \<longleftrightarrow> from \<le> i div 64 \<and> i div 64 < to" for i
    by auto
  show ?thesis
    using assms len nth mid
    by (auto simp: bm_fill_def taken_def bm_capacity_def bm_counters_def)
qed

lemma fill_ones:
  assumes "from \<le> to" "to \<le> length (bm_bits b)"
  shows "\<exists>b'. bm_fill b from to (- 1) = Some b' \<and> taken b' = taken b \<union> {64 * from..<64 * to} \<and>
    bm_capacity b' = bm_capacity b \<and> bm_counters b' = bm_counters b"
proof -
  have sub: "64 * to \<le> bm_capacity b" using assms by (simp add: bm_capacity_def)
  have "{i. i < bm_capacity b \<and> (if i \<in> {64 * from..<64 * to} then bit (- 1 :: u64) (i mod 64)
      else i \<in> taken b)} = taken b \<union> {64 * from..<64 * to}"
    using sub by (auto simp: taken_def bit_simps)
  with taken_fill [OF assms, of "- 1"] show ?thesis by auto
qed

lemma fill_zeros:
  assumes "from \<le> to" "to \<le> length (bm_bits b)"
  shows "\<exists>b'. bm_fill b from to 0 = Some b' \<and> taken b' = taken b - {64 * from..<64 * to} \<and>
    bm_capacity b' = bm_capacity b \<and> bm_counters b' = bm_counters b"
proof -
  have "{i. i < bm_capacity b \<and> (if i \<in> {64 * from..<64 * to} then bit (0 :: u64) (i mod 64)
      else i \<in> taken b)} = taken b - {64 * from..<64 * to}"
    by (auto simp: taken_def)
  with taken_fill [OF assms, of 0] show ?thesis by auto
qed

lemma next_multiple_of_bounds:
  assumes "0 < k"
  shows "n \<le> next_multiple_of n k" "next_multiple_of n k < n + k"
    "next_multiple_of n k mod k = 0"
proof -
  show "n \<le> next_multiple_of n k" by (simp add: next_multiple_of_def)
  show "next_multiple_of n k < n + k" using assms by (simp add: next_multiple_of_def)
  have "n mod k < k" using assms by simp
  moreover have "k * (n div k) + n mod k = n" by simp
  ultimately have "n + (k - n mod k) = k * Suc (n div k)"
    unfolding mult_Suc_right by linarith
  then show "next_multiple_of n k mod k = 0"
    by (auto simp: next_multiple_of_def)
qed

text \<open>The indexes before the first whole word of a range.\<close>

lemma set_head_of_range:
  "set (takeWhile (\<lambda>i. i mod 64 \<noteq> 0) [start..<end]) =
     {start..<min end (next_multiple_of start 64)}"
proof -
  define m where "m = next_multiple_of start 64"
  have m: "start \<le> m" "m < start + 64" "m mod 64 = 0"
    using next_multiple_of_bounds [of 64 start] by (simp_all add: m_def)
  obtain q where q: "m = 64 * q" using m(3) by (auto elim: dvdE [OF mod_0_imp_dvd])
  have nz: "i mod 64 \<noteq> 0" if i: "start \<le> i" "i < m" for i
  proof
    assume "i mod 64 = 0"
    then obtain r where r: "i = 64 * r" by (auto elim: dvdE [OF mod_0_imp_dvd])
    then have "Suc r \<le> q" using i(2) q by simp
    then have "i + 64 \<le> m" using r q by simp
    then show False using i(1) m(2) by simp
  qed
  show ?thesis
  proof (cases "end \<le> m")
    case True
    then have tw: "takeWhile (\<lambda>i. i mod 64 \<noteq> 0) [start..<end] = [start..<end]"
      using nz by (auto simp: takeWhile_eq_all_conv)
    show ?thesis unfolding tw using True by (auto simp: m_def [symmetric])
  next
    case False
    then have "[start..<end] = [start..<m] @ [m..<end]"
      using m upt_add_eq_append [of start m "end - m"] by simp
    moreover have "[m..<end] = m # [Suc m..<end]"
      using False by (simp add: upt_conv_Cons)
    ultimately have tw: "takeWhile (\<lambda>i. i mod 64 \<noteq> 0) [start..<end] = [start..<m]"
      using nz m by (simp add: takeWhile_append)
    show ?thesis unfolding tw using False by (auto simp: m_def [symmetric])
  qed
qed

lemma range_pieces:
  fixes m e :: nat
  assumes "start \<le> m" "m < e" "m mod 64 = 0"
  shows "{start..<m} \<union> {64 * (m div 64)..<64 * (e div 64)} \<union> {e div 64 * 64..<e} = {start..<e}"
    "m div 64 \<le> e div 64"
proof -
  obtain q where q: "m = 64 * q" using assms(3) by (auto elim: dvdE [OF mod_0_imp_dvd])
  have e: "64 * (e div 64) + e mod 64 = e" "e mod 64 < 64" by simp_all
  show le: "m div 64 \<le> e div 64" using assms(2) by (simp add: div_le_mono)
  show "{start..<m} \<union> {64 * (m div 64)..<64 * (e div 64)} \<union> {e div 64 * 64..<e} = {start..<e}"
    using assms(1,2) q e le by auto
qed

lemma bm_set_range_taken:
  assumes "end \<le> bm_capacity b"
  shows "\<exists>b'. bm_set_range b start end = Some b' \<and> taken b' = taken b \<union> {start..<end} \<and>
    bm_capacity b' = bm_capacity b \<and> bm_counters b' = bm_counters b"
proof -
  define m where "m = next_multiple_of start 64"
  have m: "start \<le> m" "m mod 64 = 0"
    using next_multiple_of_bounds [of 64 start] by (simp_all add: m_def)
  let ?head = "takeWhile (\<lambda>i. i mod 64 \<noteq> 0) [start..<end]"
  have head: "set ?head = {start..<min end m}" by (simp only: set_head_of_range m_def)
  then obtain b1 where b1: "for_each (\<lambda>i b. bm_set b i) ?head b = Some b1"
    "taken b1 = taken b \<union> {start..<min end m}" "bm_capacity b1 = bm_capacity b"
    "bm_counters b1 = bm_counters b"
    using bm.add_all [of ?head b] assms by auto
  show ?thesis
  proof (cases "end \<le> m")
    case True
    with b1 show ?thesis by (simp add: bm_set_range_def m_def [symmetric] min_def)
  next
    case False
    have "end div 64 \<le> length (bm_bits b1)"
      using assms b1(3) by (simp add: bm_capacity_def)
    then obtain b2 where b2: "bm_fill b1 (m div 64) (end div 64) (- 1) = Some b2"
      "taken b2 = taken b1 \<union> {64 * (m div 64)..<64 * (end div 64)}"
      "bm_capacity b2 = bm_capacity b" "bm_counters b2 = bm_counters b"
      using fill_ones [of "m div 64" "end div 64" b1] range_pieces(2) [of start m "end"] m False b1
      by auto
    obtain b3 where b3: "for_each (\<lambda>i b. bm_set b i) [end div 64 * 64..<end] b2 = Some b3"
      "taken b3 = taken b2 \<union> {end div 64 * 64..<end}"
      "bm_capacity b3 = bm_capacity b" "bm_counters b3 = bm_counters b"
      using bm.add_all [of "[end div 64 * 64..<end]" b2] b2 assms by auto
    have "taken b3 = taken b \<union> {start..<end}"
      using range_pieces(1) [of start m "end"] m False b1 b2 b3 by (auto simp: min_def)
    with False b1 b2 b3 show ?thesis by (simp add: bm_set_range_def m_def [symmetric])
  qed
qed

lemma bm_clear_range_taken:
  assumes "end \<le> bm_capacity b"
  shows "\<exists>b'. bm_clear_range b start end = Some b' \<and> taken b' = taken b - {start..<end} \<and>
    bm_capacity b' = bm_capacity b \<and> bm_counters b' = bm_counters b"
proof -
  define m where "m = next_multiple_of start 64"
  have m: "start \<le> m" "m mod 64 = 0"
    using next_multiple_of_bounds [of 64 start] by (simp_all add: m_def)
  let ?head = "takeWhile (\<lambda>i. i mod 64 \<noteq> 0) [start..<end]"
  have head: "set ?head = {start..<min end m}" by (simp only: set_head_of_range m_def)
  then obtain b1 where b1: "for_each (\<lambda>i b. bm_clear b i) ?head b = Some b1"
    "taken b1 = taken b - {start..<min end m}" "bm_capacity b1 = bm_capacity b"
    "bm_counters b1 = bm_counters b"
    using bm.remove_all [of ?head b] assms by auto
  show ?thesis
  proof (cases "end \<le> m")
    case True
    with b1 show ?thesis by (simp add: bm_clear_range_def m_def [symmetric] min_def)
  next
    case False
    have "end div 64 \<le> length (bm_bits b1)"
      using assms b1(3) by (simp add: bm_capacity_def)
    then obtain b2 where b2: "bm_fill b1 (m div 64) (end div 64) 0 = Some b2"
      "taken b2 = taken b1 - {64 * (m div 64)..<64 * (end div 64)}"
      "bm_capacity b2 = bm_capacity b" "bm_counters b2 = bm_counters b"
      using fill_zeros [of "m div 64" "end div 64" b1] range_pieces(2) [of start m "end"] m False b1
      by auto
    obtain b3 where b3: "for_each (\<lambda>i b. bm_clear b i) [end div 64 * 64..<end] b2 = Some b3"
      "taken b3 = taken b2 - {end div 64 * 64..<end}"
      "bm_capacity b3 = bm_capacity b" "bm_counters b3 = bm_counters b"
      using bm.remove_all [of "[end div 64 * 64..<end]" b2] b2 assms by auto
    have "taken b3 = taken b - {start..<end}"
      using range_pieces(1) [of start m "end"] m False b1 b2 b3 by (auto simp: min_def)
    with False b1 b2 b3 show ?thesis by (simp add: bm_clear_range_def m_def [symmetric])
  qed
qed

section \<open>Searches\<close>

lemma trailing_ones_spec:
  assumes "w \<noteq> (- 1 :: u64)"
  shows "trailing_ones w < 64" "\<not> bit w (trailing_ones w)"
    "\<And>k. k < trailing_ones w \<Longrightarrow> bit w k"
proof -
  define n where "n = trailing_ones w"
  have tw: "takeWhile (bit w) [0..<64] = [0..<n]"
    using takeWhile_upt_less [of "bit w" 0 64] by (simp add: n_def trailing_ones_def)
  have le: "n \<le> 64"
    unfolding n_def trailing_ones_def by (metis diff_zero length_takeWhile_le length_upt)
  show below: "bit w k" if "k < trailing_ones w" for k
    using that tw set_takeWhileD [of k "bit w" "[0..<64]"] by (auto simp: n_def)
  have "n \<noteq> 64"
  proof
    assume "n = 64"
    then have "w = - 1"
      using below by (intro bit_word_eqI) (auto simp: n_def bit_simps)
    with assms show False by simp
  qed
  then have "n < 64" using le by simp
  then show "trailing_ones w < 64" by (simp add: n_def)
  show "\<not> bit w (trailing_ones w)"
    using nth_length_takeWhile [of "bit w" "[0..<64]"] \<open>n < 64\<close>
    by (simp add: n_def trailing_ones_def)
qed

lemma bits_of_all_ones: "bit (- 1 :: u64) k \<longleftrightarrow> k < 64"
  by (simp add: bit_simps)

lemma first_clear_from_Some:
  assumes "first_clear_from k ws = Some i"
  shows "64 * k \<le> i" "i < 64 * (k + length ws)" "\<not> bit (ws ! (i div 64 - k)) (i mod 64)"
    "\<And>j. 64 * k \<le> j \<Longrightarrow> j < i \<Longrightarrow> bit (ws ! (j div 64 - k)) (j mod 64)"
proof -
  have "64 * k \<le> i \<and> i < 64 * (k + length ws) \<and> \<not> bit (ws ! (i div 64 - k)) (i mod 64) \<and>
    (\<forall>j. 64 * k \<le> j \<and> j < i \<longrightarrow> bit (ws ! (j div 64 - k)) (j mod 64))"
    using assms
  proof (induction k ws rule: first_clear_from.induct)
    case (2 k w ws)
    show ?case
    proof (cases "w = - 1")
      case True
      with 2 have IH: "64 * Suc k \<le> i" "i < 64 * (Suc k + length ws)"
        "\<not> bit (ws ! (i div 64 - Suc k)) (i mod 64)"
        "\<And>j. 64 * Suc k \<le> j \<Longrightarrow> j < i \<Longrightarrow> bit (ws ! (j div 64 - Suc k)) (j mod 64)"
        by auto
      have shift: "(w # ws) ! (j div 64 - k) = ws ! (j div 64 - Suc k)" if "64 * Suc k \<le> j" for j
      proof -
        have "Suc k \<le> j div 64" using that by auto
        then have "j div 64 - k = Suc (j div 64 - Suc k)" by simp
        then show ?thesis by simp
      qed
      have "bit ((w # ws) ! (j div 64 - k)) (j mod 64)" if "64 * k \<le> j" "j < i" for j
      proof (cases "64 * Suc k \<le> j")
        case True
        with IH(4) [of j] that shift show ?thesis by simp
      next
        case False
        with that have "j div 64 = k" by auto
        with \<open>w = - 1\<close> show ?thesis by (simp add: bits_of_all_ones)
      qed
      with IH shift show ?thesis by simp
    next
      case False
      then have i: "i = k * 64 + trailing_ones w" using 2 by simp
      have t: "trailing_ones w < 64" by (rule trailing_ones_spec [OF False])
      have "bit w (j mod 64) \<and> j div 64 = k" if "64 * k \<le> j" "j < i" for j
      proof -
        define r where "r = j - 64 * k"
        have r: "j = 64 * k + r" "r < trailing_ones w" using that i by (simp_all add: r_def)
        then have "r < 64" using t by simp
        then have "j div 64 = k" "j mod 64 = r" using r by simp_all
        then show ?thesis using trailing_ones_spec(3) [OF False] r by blast
      qed
      then show ?thesis
        using i t trailing_ones_spec(2) [OF False] by auto
    qed
  qed simp
  then show "64 * k \<le> i" "i < 64 * (k + length ws)" "\<not> bit (ws ! (i div 64 - k)) (i mod 64)"
    "\<And>j. 64 * k \<le> j \<Longrightarrow> j < i \<Longrightarrow> bit (ws ! (j div 64 - k)) (j mod 64)"
    by auto
qed

lemma first_clear_from_None: "first_clear_from k ws = None \<longleftrightarrow> (\<forall>w \<in> set ws. w = - 1)"
  by (induction k ws rule: first_clear_from.induct) auto

text \<open>The search finds the least index that is not taken.\<close>

lemma bm_first_clear_Some:
  assumes "bm_first_clear b = Some i"
  shows "i < bm_capacity b" "i \<notin> taken b" "\<And>j. j < i \<Longrightarrow> j \<in> taken b"
proof -
  note spec = first_clear_from_Some [OF assms [unfolded bm_first_clear_def]]
  show i: "i < bm_capacity b" using spec(2) by (simp add: bm_capacity_def)
  show "i \<notin> taken b" using spec(3) by (simp add: taken_def)
  show "j \<in> taken b" if "j < i" for j
    using spec(4) [of j] that i by (simp add: taken_def)
qed

lemma bm_first_clear_None:
  assumes "bm_first_clear b = None" "i < bm_capacity b"
  shows "i \<in> taken b"
proof -
  have "bm_bits b ! (i div 64) = - 1"
    using assms div64_less_capacity [OF assms(2)]
    by (auto simp: bm_first_clear_def first_clear_from_None)
  with assms(2) show ?thesis by (simp add: taken_def bits_of_all_ones)
qed

lemma find_set_spec:
  assumes "\<And>i. i \<in> set xs \<Longrightarrow> i < bm_capacity b"
  shows "find_set b xs = Some (find (\<lambda>i. i \<in> taken b) xs)"
  using assms by (induction xs) (simp_all add: bm_is_set_taken)

end
