(* ===== verification/Frames.thy ===== *)
theory Frames
  imports Bitmap
begin

text \<open>
  The physical frame allocator (\<open>frames.rs\<close>): where RAM is, which of its frames are taken, and
  the operations that hand them out, take them back, reserve ranges of them and adopt the memory
  map the device tree describes.

  The state \<open>frame_state\<close> has one field for each of the module's statics. Operations that also
  clear the memory they hand out work on \<open>mach\<close>, which adds physical memory. The linker's
  \<open>__kernel_end\<close> is an argument of \<open>frames_init\<close>.

  The well-formedness predicate \<open>frames_wf\<close> says that the bits past the end of RAM are set, that
  the counter \<open>free\<close> counts the clear bits, and that the addresses of RAM do not wrap. Every
  operation keeps it. The abstract state is the set \<open>avail\<close> of the indexes of free frames.
\<close>

section \<open>Frames and the allocator's state\<close>

datatype frame = Frame (addr: u64)

text \<open>\<open>derive(PartialOrd, Ord)\<close>: frames are ordered by address.\<close>

instantiation frame :: linorder
begin

definition less_eq_frame :: "frame \<Rightarrow> frame \<Rightarrow> bool" where
  "less_eq_frame f g \<longleftrightarrow> addr f \<le> addr g"

definition less_frame :: "frame \<Rightarrow> frame \<Rightarrow> bool" where
  "less_frame f g \<longleftrightarrow> addr f < addr g"

instance
  by intro_classes (auto simp: less_eq_frame_def less_frame_def frame.expand)

end

definition FRAME_SIZE :: u64 where "FRAME_SIZE = 4096"
definition DEFAULT_RAM_BASE :: u64 where "DEFAULT_RAM_BASE = 0x40000000"
definition DEFAULT_RAM_SIZE :: u64 where "DEFAULT_RAM_SIZE = 256 * 1024 * 1024"
definition MAX_RAM :: u64 where "MAX_RAM = 4 * 1024 * 1024 * 1024"
definition MAX_FRAMES :: nat where "MAX_FRAMES = unat (MAX_RAM div FRAME_SIZE)"
definition BITMAP_WORDS :: nat where "BITMAP_WORDS = MAX_FRAMES div 64"

lemma frame_consts:
  "unat FRAME_SIZE = 4096" "unat MAX_RAM = 4294967296" "MAX_FRAMES = 1048576"
  "BITMAP_WORDS = 16384"
  by (simp_all add: FRAME_SIZE_def MAX_RAM_def MAX_FRAMES_def BITMAP_WORDS_def)

record frame_state =
  ram_base_addr :: u64
  ram_length :: u64
  image_end :: u64
  allocator :: bitmap

record mach =
  mphys :: phys
  mframes :: frame_state

definition bitmap_new :: bitmap where
  "bitmap_new = \<lparr>bm_bits = replicate BITMAP_WORDS 0, bm_free = 0, bm_reserved = 0\<rparr>"

text \<open>The statics before \<open>init\<close> has run.\<close>

definition frames_boot :: frame_state where
  "frames_boot = \<lparr>ram_base_addr = DEFAULT_RAM_BASE, ram_length = DEFAULT_RAM_SIZE, image_end = 0,
                  allocator = bitmap_new\<rparr>"

definition ram_base :: "frame_state \<Rightarrow> u64" where "ram_base fs = ram_base_addr fs"

definition ram_size :: "frame_state \<Rightarrow> u64" where "ram_size fs = ram_length fs"

definition frame_count :: "frame_state \<Rightarrow> nat" where
  "frame_count fs = unat (ram_size fs div FRAME_SIZE)"

definition frame_index :: "frame_state \<Rightarrow> frame \<Rightarrow> nat option" where
  "frame_index fs f = do {
     off \<leftarrow> checked_sub (addr f) (ram_base fs);
     Some (unat (off div FRAME_SIZE))
   }"

definition frame_from_index :: "frame_state \<Rightarrow> nat \<Rightarrow> frame option" where
  "frame_from_index fs index = do {
     off \<leftarrow> checked_mul (of_nat index) FRAME_SIZE;
     a \<leftarrow> checked_add (ram_base fs) off;
     Some (Frame a)
   }"

text \<open>\<open>Frame::from_addr\<close>, with its \<open>debug_assert!\<close>.\<close>

definition frame_from_addr :: "u64 \<Rightarrow> frame option" where
  "frame_from_addr a = (if is_multiple_of a FRAME_SIZE then Some (Frame a) else None)"

definition frame_ptr :: "phys \<Rightarrow> frame \<Rightarrow> u64" where
  "frame_ptr p f = phys_to_virt p (addr f)"

definition zero_frames :: "phys \<Rightarrow> frame \<Rightarrow> nat \<Rightarrow> phys" where
  "zero_frames p f count = write_bytes p (frame_ptr p f) 0 (count * unat FRAME_SIZE)"

section \<open>Starting up\<close>

definition whole_frames :: "u64 \<Rightarrow> u64" where
  "whole_frames len = min len MAX_RAM div FRAME_SIZE * FRAME_SIZE"

definition frames_init :: "u64 \<Rightarrow> frame_state \<Rightarrow> u64 \<Rightarrow> u64 \<Rightarrow> frame_state option" where
  "frames_init kernel_end fs base len = do {
     let len = whole_frames len;
     let frames = unat (len div FRAME_SIZE);
     first_free \<leftarrow> checked_mul (div_ceil kernel_end FRAME_SIZE) FRAME_SIZE;
     image \<leftarrow> checked_sub first_free base;
     let reserved_frames = unat (image div FRAME_SIZE);
     a \<leftarrow> bm_set_range (allocator fs) 0 reserved_frames;
     a \<leftarrow> bm_set_range a frames MAX_FRAMES;
     n \<leftarrow> nat_sub frames reserved_frames;
     Some \<lparr>ram_base_addr = base, ram_length = len, image_end = first_free,
           allocator = a\<lparr>bm_reserved := reserved_frames, bm_free := n\<rparr>\<rparr>
   }"

section \<open>Reserving and adopting\<close>

datatype reserve_error = OutsideRam u64 | AlreadyTaken u64

definition reserve_range ::
  "frame_state \<Rightarrow> u64 \<Rightarrow> u64 \<Rightarrow> ((reserve_error + nat) \<times> frame_state) option" where
  "reserve_range fs base len =
     (if len = 0 then Some (Inr 0, fs)
      else let start = base div FRAME_SIZE * FRAME_SIZE in
        (case checked_add base len of
           None \<Rightarrow> Some (Inl (OutsideRam base), fs)
         | Some past \<Rightarrow> do {
             end \<leftarrow> checked_mul (div_ceil past FRAME_SIZE) FRAME_SIZE;
             ram_end \<leftarrow> checked_add (ram_base fs) (ram_size fs);
             if start < ram_base fs \<or> ram_end < end then Some (Inl (OutsideRam base), fs)
             else do {
               let first = unat ((start - ram_base fs) div FRAME_SIZE);
               let count = unat ((end - start) div FRAME_SIZE);
               hit \<leftarrow> find_set (allocator fs) [first..<first + count];
               case hit of
                 Some index \<Rightarrow>
                   Some (Inl (AlreadyTaken (ram_base fs + of_nat index * FRAME_SIZE)), fs)
               | None \<Rightarrow> do {
                   a \<leftarrow> for_each (\<lambda>i b. bm_set b i) [first..<first + count] (allocator fs);
                   n \<leftarrow> nat_sub (bm_free a) count;
                   Some (Inr count,
                     fs\<lparr>allocator := a\<lparr>bm_reserved := bm_reserved a + count, bm_free := n\<rparr>\<rparr>)
                 }
             }
           }))"

definition is_taken :: "frame_state \<Rightarrow> u64 \<Rightarrow> bool option" where
  "is_taken fs a = do {
     ram_end \<leftarrow> checked_add (ram_base fs) (ram_size fs);
     if \<not> (ram_base fs \<le> a \<and> a < ram_end) then Some False
     else bm_is_set (allocator fs) (unat ((a - ram_base fs) div FRAME_SIZE))
   }"

definition adopt ::
  "frame_state \<Rightarrow> u64 \<Rightarrow> u64 \<Rightarrow> ((reserve_error + int) \<times> frame_state) option" where
  "adopt fs base len =
     (if base \<noteq> ram_base fs then Some (Inl (OutsideRam base), fs)
      else
        let len = whole_frames len;
            old = frame_count fs;
            new = unat (len div FRAME_SIZE);
            adopted = (\<lambda>a. (Inr (int new - int old), fs\<lparr>allocator := a, ram_length := len\<rparr>))
        in
        if old < new then do {
          a \<leftarrow> bm_clear_range (allocator fs) old new;
          Some (adopted (a\<lparr>bm_free := bm_free a + (new - old)\<rparr>))
        }
        else do {
          hit \<leftarrow> find_set (allocator fs) [new..<old];
          case hit of
            Some index \<Rightarrow>
              Some (Inl (AlreadyTaken (ram_base fs + of_nat index * FRAME_SIZE)), fs)
          | None \<Rightarrow> do {
              a \<leftarrow> bm_set_range (allocator fs) new old;
              n \<leftarrow> nat_sub (bm_free a) (old - new);
              Some (adopted (a\<lparr>bm_free := n\<rparr>))
            }
        })"

section \<open>Handing out and taking back\<close>

definition alloc :: "mach \<Rightarrow> (frame option \<times> mach) option" where
  "alloc m = (let a = allocator (mframes m) in
     case bm_first_clear a of
       None \<Rightarrow> Some (None, m)
     | Some index \<Rightarrow> do {
         a \<leftarrow> bm_set a index;
         n \<leftarrow> nat_sub (bm_free a) 1;
         f \<leftarrow> frame_from_index (mframes m) index;
         Some (Some f,
           \<lparr>mphys = zero_frames (mphys m) f 1,
            mframes = (mframes m)\<lparr>allocator := a\<lparr>bm_free := n\<rparr>\<rparr>\<rparr>)
       })"

text \<open>The scan of \<open>alloc_contiguous\<close>: the indexes still to visit, \<open>run_start\<close> and
  \<open>run\<close>. The result is the start of the first run of \<open>count\<close> clear bits.\<close>

fun scan_run :: "bitmap \<Rightarrow> nat \<Rightarrow> nat list \<Rightarrow> nat \<Rightarrow> nat \<Rightarrow> nat option option" where
  "scan_run b count [] run_start run = Some None"
| "scan_run b count (index # rest) run_start run = do {
     hit \<leftarrow> bm_is_set b index;
     if hit then scan_run b count rest run_start 0
     else
       let run_start = (if run = 0 then index else run_start);
           run = run + 1
       in if run < count then scan_run b count rest run_start run
          else Some (Some run_start)
   }"

definition alloc_contiguous :: "mach \<Rightarrow> nat \<Rightarrow> (frame option \<times> mach) option" where
  "alloc_contiguous m count = do {
     assert_that (0 < count);
     let a = allocator (mframes m);
     run \<leftarrow> scan_run a count [0..<frame_count (mframes m)] 0 0;
     case run of
       None \<Rightarrow> Some (None, m)
     | Some run_start \<Rightarrow> do {
         a \<leftarrow> for_each (\<lambda>i b. bm_set b i) [run_start..<run_start + count] a;
         n \<leftarrow> nat_sub (bm_free a) count;
         f \<leftarrow> frame_from_index (mframes m) run_start;
         Some (Some f,
           \<lparr>mphys = zero_frames (mphys m) f count,
            mframes = (mframes m)\<lparr>allocator := a\<lparr>bm_free := n\<rparr>\<rparr>\<rparr>)
       }
   }"

definition free :: "frame_state \<Rightarrow> frame \<Rightarrow> frame_state option" where
  "free fs f = do {
     ram_end \<leftarrow> checked_add (ram_base fs) (ram_size fs);
     assert_that (ram_base fs \<le> addr f \<and> addr f < ram_end);
     assert_that (is_multiple_of (addr f) FRAME_SIZE);
     index \<leftarrow> frame_index fs f;
     held \<leftarrow> bm_is_set (allocator fs) index;
     assert_that held;
     a \<leftarrow> bm_clear (allocator fs) index;
     Some (fs\<lparr>allocator := a\<lparr>bm_free := bm_free a + 1\<rparr>\<rparr>)
   }"

definition free_contiguous :: "frame_state \<Rightarrow> frame \<Rightarrow> nat \<Rightarrow> frame_state option" where
  "free_contiguous fs first count =
     for_each (\<lambda>index fs. do {
       off \<leftarrow> checked_mul (of_nat index) FRAME_SIZE;
       a \<leftarrow> checked_add (addr first) off;
       f \<leftarrow> frame_from_addr a;
       free fs f
     }) [0..<count] fs"

definition free_frames :: "frame_state \<Rightarrow> nat" where
  "free_frames fs = bm_free (allocator fs)"

definition reserved_frames :: "frame_state \<Rightarrow> nat" where
  "reserved_frames fs = bm_reserved (allocator fs)"

section \<open>Well-formed states\<close>

text \<open>The abstract state: the indexes of the frames that can be handed out.\<close>

definition avail :: "frame_state \<Rightarrow> nat set" where
  "avail fs = {i. i < frame_count fs \<and> i \<notin> taken (allocator fs)}"

definition frames_wf :: "frame_state \<Rightarrow> bool" where
  "frames_wf fs \<longleftrightarrow>
     bm_capacity (allocator fs) = MAX_FRAMES \<and>
     unat (ram_base_addr fs) mod 4096 = 0 \<and>
     unat (ram_length fs) mod 4096 = 0 \<and>
     unat (ram_length fs) \<le> unat MAX_RAM \<and>
     unat (ram_base_addr fs) + unat (ram_length fs) < 2 ^ 64 \<and>
     {frame_count fs..<MAX_FRAMES} \<subseteq> taken (allocator fs) \<and>
     bm_free (allocator fs) = card (avail fs)"

text \<open>The frame with a given index, without the overflow checks.\<close>

definition frame_of :: "frame_state \<Rightarrow> nat \<Rightarrow> frame" where
  "frame_of fs i = Frame (ram_base fs + of_nat i * FRAME_SIZE)"

definition same_ram :: "frame_state \<Rightarrow> frame_state \<Rightarrow> bool" where
  "same_ram fs fs' \<longleftrightarrow> ram_base_addr fs' = ram_base_addr fs \<and> ram_length fs' = ram_length fs \<and>
     image_end fs' = image_end fs \<and> bm_reserved (allocator fs') = bm_reserved (allocator fs)"

lemma finite_avail [simp]: "finite (avail fs)"
  by (simp add: avail_def)

lemma frame_count_unat: "frame_count fs = unat (ram_length fs) div 4096"
  by (simp add: frame_count_def ram_size_def unat_div_mod frame_consts)

lemma same_ramD:
  assumes "same_ram fs fs'"
  shows "ram_base fs' = ram_base fs" "ram_size fs' = ram_size fs"
    "frame_count fs' = frame_count fs" "frame_of fs' = frame_of fs"
  using assms
  by (simp_all add: same_ram_def ram_base_def ram_size_def frame_count_unat frame_of_def fun_eq_iff)

lemma same_ram_refl [simp]: "same_ram fs fs"
  by (simp add: same_ram_def)

lemma same_ram_trans: "same_ram a b \<Longrightarrow> same_ram b c \<Longrightarrow> same_ram a c"
  by (simp add: same_ram_def)

lemma wf_capacity: "frames_wf fs \<Longrightarrow> bm_capacity (allocator fs) = MAX_FRAMES"
  by (simp add: frames_wf_def)

lemma wf_free: "frames_wf fs \<Longrightarrow> bm_free (allocator fs) = card (avail fs)"
  by (simp add: frames_wf_def)

lemma wf_count:
  assumes wf: "frames_wf fs"
  shows "4096 * frame_count fs = unat (ram_size fs)" "frame_count fs \<le> MAX_FRAMES"
  using wf by (auto simp: frames_wf_def frame_count_unat ram_size_def frame_consts)

lemma wf_end:
  assumes wf: "frames_wf fs"
  shows "checked_add (ram_base fs) (ram_size fs) = Some (ram_base fs + ram_size fs)"
  "unat (ram_base fs + ram_size fs) = unat (ram_base fs) + 4096 * frame_count fs"
proof -
  have lt: "unat (ram_base fs) + unat (ram_size fs) < 2 ^ 64"
    using wf by (simp add: frames_wf_def ram_base_def ram_size_def)
  then show "checked_add (ram_base fs) (ram_size fs) = Some (ram_base fs + ram_size fs)"
    by (simp add: checked_add_def)
  show "unat (ram_base fs + ram_size fs) = unat (ram_base fs) + 4096 * frame_count fs"
    using lt unat_add_no_overflow [of "ram_base fs" "ram_size fs"] wf_count(1) [OF wf] by simp
qed

lemma wf_frame:
  assumes wf: "frames_wf fs" and "i \<le> frame_count fs"
  shows "unat (of_nat i * FRAME_SIZE :: u64) = 4096 * i"
    "unat (addr (frame_of fs i)) = unat (ram_base fs) + 4096 * i"
    "frame_from_index fs i = Some (frame_of fs i)"
proof -
  have i: "i \<le> 1048576" using assms wf_count(2) [OF wf] by (simp add: frame_consts)
  then have u: "unat (of_nat i :: u64) = i" by (intro unat_of_nat_u64) simp
  have m: "unat (of_nat i :: u64) * unat FRAME_SIZE < 2 ^ 64" using i by (simp add: u frame_consts)
  show off: "unat (of_nat i * FRAME_SIZE :: u64) = 4096 * i"
    using unat_mult_no_overflow [of "of_nat i" FRAME_SIZE] m by (simp add: u frame_consts)
  have "unat (ram_base fs) + 4096 * frame_count fs < 2 ^ 64"
    using wf_end(2) [OF wf] unsigned_less [of "ram_base fs + ram_size fs", where 'a = nat] by simp
  then have a: "unat (ram_base fs) + unat (of_nat i * FRAME_SIZE :: u64) < 2 ^ 64"
    using assms off by simp
  then show "unat (addr (frame_of fs i)) = unat (ram_base fs) + 4096 * i"
    using unat_add_no_overflow [of "ram_base fs" "of_nat i * FRAME_SIZE"] off
    by (simp add: frame_of_def)
  show "frame_from_index fs i = Some (frame_of fs i)"
    using m a by (simp add: frame_from_index_def checked_mul_def checked_add_def frame_of_def)
qed

lemma wf_frame_aligned:
  assumes wf: "frames_wf fs" and "i \<le> frame_count fs"
  shows "is_multiple_of (addr (frame_of fs i)) FRAME_SIZE"
proof -
  have "unat (addr (frame_of fs i)) mod 4096 = 0"
    using wf wf_frame(2) [OF assms] by (simp add: frames_wf_def ram_base_def mod_add_eq [symmetric])
  then have "unat (addr (frame_of fs i) mod FRAME_SIZE) = 0"
    by (simp add: unat_div_mod frame_consts)
  then show ?thesis by (simp add: is_multiple_of_def unat_eq_0)
qed

lemma frame_of_inj:
  assumes wf: "frames_wf fs" and "i \<le> frame_count fs" "j \<le> frame_count fs"
  shows "frame_of fs i = frame_of fs j \<longleftrightarrow> i = j"
proof
  assume "frame_of fs i = frame_of fs j"
  with wf_frame(2) [OF assms(1,2)] wf_frame(2) [OF assms(1,3)]
  have "unat (ram_base fs) + 4096 * i = unat (ram_base fs) + 4096 * j" by metis
  then show "i = j" by simp
qed simp

lemma frame_index_of:
  assumes wf: "frames_wf fs" and "i < frame_count fs"
  shows "frame_index fs (frame_of fs i) = Some i"
proof -
  have le: "ram_base fs \<le> addr (frame_of fs i)"
    using wf_frame(2) [OF wf, of i] assms by (simp add: word_le_nat_alt)
  have "unat (addr (frame_of fs i) - ram_base fs) = 4096 * i"
    using unat_sub_no_underflow [OF le] wf_frame(2) [OF wf, of i] assms by simp
  with le show ?thesis
    by (simp add: frame_index_def checked_sub_def unat_div_mod frame_consts)
qed

text \<open>An address of RAM that is a multiple of the frame size is a frame's.\<close>

lemma frame_cases:
  assumes wf: "frames_wf fs" and "ram_base fs \<le> a" "a < ram_base fs + ram_size fs"
  shows "\<exists>i < frame_count fs. unat ((a - ram_base fs) div FRAME_SIZE) = i \<and>
    (is_multiple_of a FRAME_SIZE \<longrightarrow> a = addr (frame_of fs i))"
proof -
  let ?d = "unat (a - ram_base fs)"
  have d: "?d = unat a - unat (ram_base fs)" "unat (ram_base fs) \<le> unat a"
    using assms(2) unat_sub_no_underflow by (auto simp: word_le_nat_alt)
  have lt: "?d < 4096 * frame_count fs"
    using assms(3) wf_end(2) [OF wf] d by (simp add: word_less_nat_alt)
  then have i: "?d div 4096 < frame_count fs" by auto
  have "a = addr (frame_of fs (?d div 4096))" if "is_multiple_of a FRAME_SIZE"
  proof -
    from that have "unat (a mod FRAME_SIZE) = 0" by (simp add: is_multiple_of_def)
    then have am: "unat a mod 4096 = 0" by (simp add: unat_div_mod frame_consts)
    have bm: "unat (ram_base fs) mod 4096 = 0"
      using wf by (simp add: frames_wf_def ram_base_def)
    have "(unat a - unat (ram_base fs)) mod 4096 = 0"
      using am bm by (simp add: mod_eq_0_iff_dvd dvd_diff_nat)
    then have dm: "4096 * (?d div 4096) = ?d" by (simp add: d(1) mult_div_mod_eq mod_0_imp_dvd)
    have "unat (addr (frame_of fs (?d div 4096))) = unat a"
      using wf_frame(2) [OF wf, of "?d div 4096"] i dm d by simp
    then show ?thesis by (metis word_unat_eq_iff)
  qed
  with i show ?thesis by (simp add: unat_div_mod frame_consts)
qed

lemma taken_or_avail: "i < frame_count fs \<Longrightarrow> i \<in> taken (allocator fs) \<longleftrightarrow> i \<notin> avail fs"
  by (simp add: avail_def)

lemma avail_iff:
  assumes wf: "frames_wf fs"
  shows "i \<in> avail fs \<longleftrightarrow> i < MAX_FRAMES \<and> i \<notin> taken (allocator fs)"
proof -
  have "{frame_count fs..<MAX_FRAMES} \<subseteq> taken (allocator fs)"
    using wf by (simp add: frames_wf_def)
  then have "i < frame_count fs" if "i < MAX_FRAMES" "i \<notin> taken (allocator fs)"
    using that by (metis atLeastLessThan_iff not_less subsetD)
  then show ?thesis using wf_count(2) [OF wf] by (auto simp: avail_def)
qed

lemma availD: "i \<in> avail fs \<Longrightarrow> i < frame_count fs"
  by (simp add: avail_def)

text \<open>
  How an operation on the bits becomes one on the set of free frames: changing the taken set and
  recounting keeps well-formedness.
\<close>

lemma frames_wf_update:
  assumes wf: "frames_wf fs"
    and "bm_capacity a = MAX_FRAMES" "{frame_count fs..<MAX_FRAMES} \<subseteq> taken a"
    and n: "n = card {i. i < frame_count fs \<and> i \<notin> taken a}"
  shows "frames_wf (fs\<lparr>allocator := a\<lparr>bm_free := n\<rparr>\<rparr>)"
    "frames_wf (fs\<lparr>allocator := a\<lparr>bm_reserved := r, bm_free := n\<rparr>\<rparr>)"
  using assms by (auto simp: frames_wf_def frame_count_unat avail_def)

section \<open>What the operations do\<close>

lemma mframes_simp [simp]: "mframes \<lparr>mphys = p, mframes = fs\<rparr> = fs"
  by simp

text \<open>Handing a frame out takes it from the free set.\<close>

lemma avail_take:
  assumes wf: "frames_wf fs" and "bm_capacity a = MAX_FRAMES"
    "taken a = taken (allocator fs) \<union> I" "I \<subseteq> avail fs" "n = bm_free (allocator fs) - card I"
    "bm_reserved a = bm_reserved (allocator fs)"
  shows "avail (fs\<lparr>allocator := a\<lparr>bm_free := n\<rparr>\<rparr>) = avail fs - I"
    "frames_wf (fs\<lparr>allocator := a\<lparr>bm_free := n\<rparr>\<rparr>)"
    "same_ram fs (fs\<lparr>allocator := a\<lparr>bm_free := n\<rparr>\<rparr>)"
proof -
  have e: "{i. i < frame_count fs \<and> i \<notin> taken a} = avail fs - I"
    using assms(3) by (auto simp: avail_def)
  have fin: "finite I" using assms(4) finite_avail by (rule finite_subset)
  have "n = card {i. i < frame_count fs \<and> i \<notin> taken a}"
    using assms(4,5) wf_free [OF wf] fin by (simp add: e card_Diff_subset)
  moreover have "{frame_count fs..<MAX_FRAMES} \<subseteq> taken a"
    using wf assms(3) by (auto simp: frames_wf_def)
  ultimately show "frames_wf (fs\<lparr>allocator := a\<lparr>bm_free := n\<rparr>\<rparr>)"
    using frames_wf_update [OF wf assms(2)] by blast
  show "avail (fs\<lparr>allocator := a\<lparr>bm_free := n\<rparr>\<rparr>) = avail fs - I"
    using e by (simp add: avail_def frame_count_unat)
  show "same_ram fs (fs\<lparr>allocator := a\<lparr>bm_free := n\<rparr>\<rparr>)"
    using assms(6) by (simp add: same_ram_def)
qed

lemma bm_first_clear_avail:
  assumes wf: "frames_wf fs"
  shows "bm_first_clear (allocator fs) =
    (if avail fs = {} then None else Some (Min (avail fs)))"
proof (cases "bm_first_clear (allocator fs)")
  case None
  then have "avail fs = {}"
    using bm_first_clear_None [OF None] wf_capacity [OF wf] by (auto simp: avail_iff [OF wf])
  with None show ?thesis by simp
next
  case (Some i)
  note spec = bm_first_clear_Some [OF Some]
  have i: "i \<in> avail fs" using spec wf_capacity [OF wf] by (simp add: avail_iff [OF wf])
  have "Min (avail fs) = i"
    using i spec(3) by (intro Min_eqI) (auto simp: avail_def not_less [symmetric])
  with Some i show ?thesis by auto
qed

lemma alloc_spec:
  assumes wf: "frames_wf (mframes m)"
  shows "avail (mframes m) = {} \<Longrightarrow> alloc m = Some (None, m)"
    and "avail (mframes m) \<noteq> {} \<Longrightarrow>
      \<exists>fs. alloc m = Some (Some (frame_of (mframes m) (Min (avail (mframes m)))),
              \<lparr>mphys = zero_frames (mphys m) (frame_of (mframes m) (Min (avail (mframes m)))) 1,
               mframes = fs\<rparr>) \<and>
        avail fs = avail (mframes m) - {Min (avail (mframes m))} \<and>
        frames_wf fs \<and> same_ram (mframes m) fs"
proof -
  show "alloc m = Some (None, m)" if "avail (mframes m) = {}"
    using bm_first_clear_avail [OF wf] that by (simp add: alloc_def)
  assume ne: "avail (mframes m) \<noteq> {}"
  let ?fs = "mframes m" and ?i = "Min (avail (mframes m))"
  have i: "?i \<in> avail ?fs" using ne by simp
  then have lt: "?i < frame_count ?fs" by (rule availD)
  obtain a where a: "bm_set (allocator ?fs) ?i = Some a" "taken a = insert ?i (taken (allocator ?fs))"
    "bm_capacity a = MAX_FRAMES" "bm_counters a = bm_counters (allocator ?fs)"
    using bm_set_taken [of ?i "allocator ?fs"] lt wf_count(2) [OF wf] wf_capacity [OF wf] by auto
  have pos: "1 \<le> bm_free (allocator ?fs)"
    using i wf_free [OF wf] card_gt_0_iff [of "avail ?fs"] by auto
  let ?n = "bm_free (allocator ?fs) - 1"
  let ?fs' = "?fs\<lparr>allocator := a\<lparr>bm_free := ?n\<rparr>\<rparr>"
  have "frame_from_index ?fs ?i = Some (frame_of ?fs ?i)"
    using wf_frame(3) [OF wf] lt by simp
  then have "alloc m = Some (Some (frame_of ?fs ?i),
      \<lparr>mphys = zero_frames (mphys m) (frame_of ?fs ?i) 1, mframes = ?fs'\<rparr>)"
    using ne a pos bm_first_clear_avail [OF wf] by (simp add: alloc_def bm_counters_def Let_def)
  moreover have "avail ?fs' = avail ?fs - {?i}" "frames_wf ?fs'" "same_ram ?fs ?fs'"
    using avail_take [OF wf a(3), of "{?i}" ?n] a i by (simp_all add: bm_counters_def)
  ultimately show "\<exists>fs. alloc m = Some (Some (frame_of ?fs ?i),
      \<lparr>mphys = zero_frames (mphys m) (frame_of ?fs ?i) 1, mframes = fs\<rparr>) \<and>
      avail fs = avail ?fs - {?i} \<and> frames_wf fs \<and> same_ram ?fs fs" by blast
qed

text \<open>Taking a frame back returns it to the free set, and anything else panics.\<close>

lemma free_spec:
  assumes wf: "frames_wf fs" and i: "i < frame_count fs" "i \<notin> avail fs"
  shows "\<exists>fs'. free fs (frame_of fs i) = Some fs' \<and> avail fs' = insert i (avail fs) \<and>
    frames_wf fs' \<and> same_ram fs fs'"
proof -
  have cap: "i < bm_capacity (allocator fs)"
    using i wf_count(2) [OF wf] wf_capacity [OF wf] by simp
  have tk: "i \<in> taken (allocator fs)" using i by (simp add: avail_def)
  obtain a where a: "bm_clear (allocator fs) i = Some a" "taken a = taken (allocator fs) - {i}"
    "bm_capacity a = MAX_FRAMES" "bm_counters a = bm_counters (allocator fs)"
    using bm_clear_taken [OF cap] wf_capacity [OF wf] by auto
  let ?fs' = "fs\<lparr>allocator := a\<lparr>bm_free := bm_free a + 1\<rparr>\<rparr>"
  have e: "{j. j < frame_count fs \<and> j \<notin> taken a} = insert i (avail fs)"
    using a(2) i by (auto simp: avail_def)
  have "bm_free a + 1 = card {j. j < frame_count fs \<and> j \<notin> taken a}"
    using a(4) i wf_free [OF wf] by (simp add: e bm_counters_def)
  moreover have "{frame_count fs..<MAX_FRAMES} \<subseteq> taken a"
    using wf a(2) i by (auto simp: frames_wf_def)
  ultimately have "frames_wf ?fs'" using frames_wf_update(1) [OF wf a(3)] by blast
  moreover have "avail ?fs' = insert i (avail fs)"
    using e by (simp add: avail_def frame_count_unat)
  moreover have "same_ram fs ?fs'" using a(4) by (simp add: same_ram_def bm_counters_def)
  moreover have "free fs (frame_of fs i) = Some ?fs'"
  proof -
    have "ram_base fs \<le> addr (frame_of fs i)" "addr (frame_of fs i) < ram_base fs + ram_size fs"
      using wf_frame(2) [OF wf, of i] wf_end(2) [OF wf] i
      by (simp_all add: word_le_nat_alt word_less_nat_alt)
    then show ?thesis
      using wf_end(1) [OF wf] wf_frame_aligned [OF wf, of i] frame_index_of [OF wf i(1)] i
        bm_is_set_taken [OF cap] tk a(1)
      by (simp add: free_def)
  qed
  ultimately show ?thesis by blast
qed

lemma free_Some_iff:
  assumes wf: "frames_wf fs"
  shows "(\<exists>fs'. free fs f = Some fs') \<longleftrightarrow>
    (\<exists>i < frame_count fs. f = frame_of fs i \<and> i \<notin> avail fs)"
proof
  assume "\<exists>fs'. free fs f = Some fs'"
  then obtain index where ram: "ram_base fs \<le> addr f" "addr f < ram_base fs + ram_size fs"
    and al: "is_multiple_of (addr f) FRAME_SIZE" and ix: "frame_index fs f = Some index"
    and set: "bm_is_set (allocator fs) index = Some True"
    using wf_end(1) [OF wf] by (auto simp: free_def bind_eq_Some_conv)
  obtain i where i: "i < frame_count fs" "addr f = addr (frame_of fs i)"
    using frame_cases [OF wf ram] al by auto
  then have f: "f = frame_of fs i" by (simp add: frame.expand)
  then have "index = i" using ix frame_index_of [OF wf i(1)] by simp
  then have "i \<in> taken (allocator fs)"
    using set i bm_is_set_taken [of i "allocator fs"] wf_count(2) [OF wf] wf_capacity [OF wf] by simp
  with i f show "\<exists>i < frame_count fs. f = frame_of fs i \<and> i \<notin> avail fs"
    by (auto simp: avail_def)
qed (use free_spec [OF wf] in blast)

section \<open>Reserving ranges\<close>

text \<open>The frames of RAM that have a byte in \<open>base .. base + len\<close>.\<close>

definition covered :: "frame_state \<Rightarrow> u64 \<Rightarrow> u64 \<Rightarrow> nat set" where
  "covered fs base len =
     {i. i < frame_count fs \<and> unat (ram_base fs) + 4096 * i < unat base + unat len \<and>
         unat base < unat (ram_base fs) + 4096 * Suc i}"

definition inside_ram :: "frame_state \<Rightarrow> u64 \<Rightarrow> u64 \<Rightarrow> bool" where
  "inside_ram fs base len \<longleftrightarrow> ram_base fs \<le> base \<and>
     unat base + unat len \<le> unat (ram_base fs + ram_size fs)"

text \<open>Rounding down and up to frames, as comparisons.\<close>

lemma floor_frame:
  "r \<le> b div 4096 \<longleftrightarrow> 4096 * r \<le> (b::nat)" "b div 4096 \<le> r \<longleftrightarrow> b < 4096 * Suc r"
  using less_eq_div_iff_mult_less_eq [of 4096 r b] div_less_iff_less_mult [of 4096 b "Suc r"]
  by (auto simp: mult.commute)

lemma ceil_frame:
  "(p + 4095) div 4096 \<le> r \<longleftrightarrow> p \<le> 4096 * (r::nat)"
  "r < (p + 4095) div 4096 \<longleftrightarrow> 4096 * r < p"
proof -
  show le: "(p + 4095) div 4096 \<le> r \<longleftrightarrow> p \<le> 4096 * r" using floor_frame(2) [of "p + 4095" r] by auto
  show "r < (p + 4095) div 4096 \<longleftrightarrow> 4096 * r < p" using le by (simp only: not_le [symmetric])
qed

lemma unat_frame_floor: "unat (x div FRAME_SIZE * FRAME_SIZE) = unat x div 4096 * 4096"
proof -
  have "unat (x div FRAME_SIZE) * unat FRAME_SIZE < 2 ^ 64"
    using unsigned_less [of x, where 'a = nat]
      div_times_less_eq_dividend [of "unat x" 4096]
    by (simp add: unat_div_mod frame_consts)
  from unat_mult_no_overflow [of "x div FRAME_SIZE" FRAME_SIZE] this
  show ?thesis by (simp add: unat_div_mod frame_consts)
qed

lemma unat_div_ceil: "unat (div_ceil x FRAME_SIZE) = (unat x + 4095) div 4096"
proof -
  have "unat (x div FRAME_SIZE) < 2 ^ 52"
    using unsigned_less [of x, where 'a = nat] by (simp add: unat_div_mod frame_consts div_less_iff_less_mult)
  then have s: "unat (x div FRAME_SIZE + 1) = unat x div 4096 + 1"
    using unat_add_no_overflow [of "x div FRAME_SIZE" 1] by (simp add: unat_div_mod frame_consts)
  have z: "0 < x mod FRAME_SIZE \<longleftrightarrow> 0 < unat x mod 4096"
    by (simp add: word_less_nat_alt unat_div_mod frame_consts)
  show ?thesis
  proof (cases "0 < unat x mod 4096")
    case True
    have "unat x \<le> 4096 * (unat x div 4096 + 1)"
      using floor_frame(2) [of "unat x" "unat x div 4096"] by simp
    moreover have "4096 * (unat x div 4096) < unat x"
      using True mult_div_mod_eq [of 4096 "unat x"] by linarith
    ultimately have "(unat x + 4095) div 4096 = unat x div 4096 + 1"
      unfolding ceil_frame [symmetric] by simp
    then show ?thesis using s z True by (simp add: div_ceil_def)
  next
    case False
    have "unat x = 4096 * (unat x div 4096) + unat x mod 4096" by simp
    with False have "(unat x + 4095) div 4096 = unat x div 4096"
      using ceil_frame(1) [of "unat x" "unat x div 4096"] div_le_mono [of "unat x" "unat x + 4095" 4096]
      by simp
    then show ?thesis using z False by (simp add: div_ceil_def unat_div_mod frame_consts)
  qed
qed

lemma checked_frame_ceil:
  "checked_mul (div_ceil x FRAME_SIZE) FRAME_SIZE = Some y \<longleftrightarrow>
     unat x \<le> 2 ^ 64 - 4096 \<and> y = div_ceil x FRAME_SIZE * FRAME_SIZE"
proof -
  have "(unat x + 4095) div 4096 * 4096 < 2 ^ 64 \<longleftrightarrow> (unat x + 4095) div 4096 \<le> 2 ^ 52 - 1"
    by auto
  also have "\<dots> \<longleftrightarrow> unat x \<le> 2 ^ 64 - 4096" by (simp add: ceil_frame(1))
  finally have "(unat x + 4095) div 4096 * 4096 < 2 ^ 64 \<longleftrightarrow> unat x \<le> 2 ^ 64 - 4096" .
  then show ?thesis by (auto simp: checked_mul_Some_iff unat_div_ceil frame_consts)
qed

lemma unat_frame_ceil:
  assumes "unat x \<le> 2 ^ 64 - 4096"
  shows "unat (div_ceil x FRAME_SIZE * FRAME_SIZE) = (unat x + 4095) div 4096 * 4096"
proof -
  have "(unat x + 4095) div 4096 * 4096 \<le> unat x + 4095" by (rule div_times_less_eq_dividend)
  then have "unat (div_ceil x FRAME_SIZE) * unat FRAME_SIZE < 2 ^ 64"
    using assms by (simp add: unat_div_ceil frame_consts)
  from unat_mult_no_overflow [of "div_ceil x FRAME_SIZE" FRAME_SIZE] this
  show ?thesis by (simp add: unat_div_ceil frame_consts)
qed

text \<open>The frames the code counts are the frames with a byte in the range.\<close>

lemma reserve_frames:
  assumes wf: "frames_wf fs" and len: "len \<noteq> 0"
    and past: "unat past = unat base + unat len" "unat past \<le> 2 ^ 64 - 4096"
  defines "start \<equiv> base div FRAME_SIZE * FRAME_SIZE"
    and "fin \<equiv> div_ceil past FRAME_SIZE * FRAME_SIZE"
  shows "\<not> (start < ram_base fs \<or> ram_base fs + ram_size fs < fin) \<longleftrightarrow> inside_ram fs base len"
    and "inside_ram fs base len \<Longrightarrow>
      {unat ((start - ram_base fs) div FRAME_SIZE)..<
       unat ((start - ram_base fs) div FRAME_SIZE) + unat ((fin - start) div FRAME_SIZE)} =
      covered fs base len"
    and "inside_ram fs base len \<Longrightarrow> card (covered fs base len) = unat ((fin - start) div FRAME_SIZE)"
proof -
  define B P R where bpr: "B = unat base" "P = unat past" "R = unat (ram_base fs) div 4096"
  have R: "unat (ram_base fs) = 4096 * R"
    using wf by (auto simp: bpr frames_wf_def ram_base_def)
  have s: "unat start = B div 4096 * 4096" by (simp add: start_def unat_frame_floor bpr)
  have e: "unat fin = (P + 4095) div 4096 * 4096"
    using unat_frame_ceil [OF past(2)] by (simp add: fin_def bpr)
  have BP: "B < P" using len past(1) by (simp add: bpr unat_gt_0)
  have ram_end: "unat (ram_base fs + ram_size fs) = 4096 * (R + frame_count fs)"
    using wf_end(2) [OF wf] R by simp
  show in_iff: "\<not> (start < ram_base fs \<or> ram_base fs + ram_size fs < fin) \<longleftrightarrow> inside_ram fs base len"
  proof -
    have up: "4096 * R \<le> B div 4096 * 4096 \<longleftrightarrow> 4096 * R \<le> B"
      using floor_frame(1) [of R B] by linarith
    have cancel: "x * 4096 \<le> 4096 * y \<longleftrightarrow> x \<le> y" for x y :: nat by linarith
    have down: "(P + 4095) div 4096 * 4096 \<le> 4096 * (R + frame_count fs) \<longleftrightarrow>
        P \<le> 4096 * (R + frame_count fs)"
      by (simp only: cancel ceil_frame(1))
    show ?thesis
      using past(1) up down
      by (simp only: not_less de_Morgan_disj inside_ram_def word_le_nat_alt s e R ram_end
          bpr(1,2) [symmetric])
  qed
  assume "inside_ram fs base len"
  then have ins: "R \<le> B div 4096" "(P + 4095) div 4096 \<le> R + frame_count fs"
    using in_iff by (simp_all add: word_less_nat_alt s e R ram_end not_less)
  have bp: "B div 4096 \<le> (P + 4095) div 4096" using BP by (intro div_le_mono) simp
  have "start \<le> fin" "ram_base fs \<le> start"
    using bp ins by (simp_all add: word_le_nat_alt s e R)
  then have "unat (start - ram_base fs) = 4096 * (B div 4096 - R)"
    "unat (fin - start) = 4096 * ((P + 4095) div 4096 - B div 4096)"
    using ins by (simp_all add: unat_sub_no_underflow s e R algebra_simps diff_mult_distrib2)
  then have f: "unat ((start - ram_base fs) div FRAME_SIZE) = B div 4096 - R"
    "unat ((fin - start) div FRAME_SIZE) = (P + 4095) div 4096 - B div 4096"
    by (simp_all add: unat_div_mod frame_consts)
  show cov: "{unat ((start - ram_base fs) div FRAME_SIZE)..<
       unat ((start - ram_base fs) div FRAME_SIZE) + unat ((fin - start) div FRAME_SIZE)} =
      covered fs base len"
  proof -
    have lower: "B < 4096 * R + 4096 * Suc i \<longleftrightarrow> B div 4096 - R \<le> i" for i
      using floor_frame(2) [of B "R + i"] ins(1) by auto
    have upper: "4096 * R + 4096 * i < P \<longleftrightarrow> i < (P + 4095) div 4096 - R" for i
      using ceil_frame(2) [of "R + i" P] by auto
    have "i < (P + 4095) div 4096 - R \<Longrightarrow> i < frame_count fs" for i
      using ins(2) by simp
    then show ?thesis
      using ins bp past(1) lower upper
      by (auto simp: covered_def f R bpr [symmetric])
  qed
  show "card (covered fs base len) = unat ((fin - start) div FRAME_SIZE)"
    by (simp add: cov [symmetric])
qed

lemma covered_bounds: "covered fs base len \<subseteq> {..<frame_count fs}"
  by (auto simp: covered_def)

lemma covered_capacity:
  assumes "frames_wf fs" "i \<in> covered fs base len"
  shows "i < bm_capacity (allocator fs)"
  using assms covered_bounds [of fs base len] wf_count(2) [OF assms(1)] wf_capacity [OF assms(1)]
  by auto

lemma reserve_range_past:
  assumes "unat (base :: u64) + unat len < 2 ^ 64"
  shows "checked_add base len = Some (base + len)" "unat (base + len) = unat base + unat len"
  using assms by (simp_all add: checked_add_def unat_add_no_overflow)

text \<open>Refusals leave the state alone.\<close>

lemma reserve_range_outside:
  assumes wf: "frames_wf fs" and "len \<noteq> 0" "unat base + unat len \<le> 2 ^ 64 - 4096"
    "\<not> inside_ram fs base len"
  shows "reserve_range fs base len = Some (Inl (OutsideRam base), fs)"
proof -
  note p = reserve_range_past [of base len]
  have le: "unat (base + len) \<le> 2 ^ 64 - 4096" using p assms(3) by simp
  show ?thesis
    using reserve_frames(1) [OF wf assms(2) p(2) le] assms p le
    by (simp add: reserve_range_def wf_end(1) [OF wf] checked_frame_ceil [THEN iffD2])
qed

lemma reserve_range_wraps:
  assumes "len \<noteq> 0" "2 ^ 64 \<le> unat base + unat len"
  shows "reserve_range fs base len = Some (Inl (OutsideRam base), fs)"
  using assms by (simp add: reserve_range_def checked_add_def)

lemma reserve_range_overflow:
  assumes "len \<noteq> 0" "2 ^ 64 - 4096 < unat base + unat len" "unat base + unat len < 2 ^ 64"
  shows "reserve_range fs base len = None"
proof -
  note p = reserve_range_past [OF assms(3)]
  have "checked_mul (div_ceil (base + len) FRAME_SIZE) FRAME_SIZE = None"
    using checked_frame_ceil [of "base + len"] p(2) assms(2) by (metis leD not_None_eq)
  then show ?thesis using assms p by (simp add: reserve_range_def)
qed

text \<open>Inside RAM, the frames covered are taken together or not at all.\<close>

lemma reserve_range_inside:
  assumes wf: "frames_wf fs" and len: "len \<noteq> 0" and ins: "inside_ram fs base len"
    and past: "unat base + unat len \<le> 2 ^ 64 - 4096"
  shows "covered fs base len \<subseteq> avail fs \<Longrightarrow>
      \<exists>fs'. reserve_range fs base len = Some (Inr (card (covered fs base len)), fs') \<and>
        avail fs' = avail fs - covered fs base len \<and> frames_wf fs' \<and>
        ram_base fs' = ram_base fs \<and> ram_size fs' = ram_size fs \<and>
        reserved_frames fs' = reserved_frames fs + card (covered fs base len)"
    and "\<not> covered fs base len \<subseteq> avail fs \<Longrightarrow>
      reserve_range fs base len =
        Some (Inl (AlreadyTaken (addr (frame_of fs (Min (covered fs base len - avail fs))))), fs)"
proof -
  let ?C = "covered fs base len"
  note p = reserve_range_past [of base len]
  have pw: "unat (base + len) = unat base + unat len" "checked_add base len = Some (base + len)"
    using p past by simp_all
  have le: "unat (base + len) \<le> 2 ^ 64 - 4096" using pw past by simp
  note rf = reserve_frames [OF wf len pw(1) le]
  let ?start = "base div FRAME_SIZE * FRAME_SIZE"
  let ?fin = "div_ceil (base + len) FRAME_SIZE * FRAME_SIZE"
  let ?first = "unat ((?start - ram_base fs) div FRAME_SIZE)"
  let ?count = "unat ((?fin - ?start) div FRAME_SIZE)"
  let ?xs = "[?first..<?first + ?count]"
  have xs: "set ?xs = ?C" using rf(2) [OF ins] by simp
  have cap: "\<And>i. i \<in> set ?xs \<Longrightarrow> i < bm_capacity (allocator fs)"
    unfolding xs by (rule covered_capacity [OF wf])
  have search: "find_set (allocator fs) ?xs = Some (find (\<lambda>i. i \<in> taken (allocator fs)) ?xs)"
    by (rule find_set_spec [OF cap])
  have tk: "i \<in> taken (allocator fs) \<longleftrightarrow> i \<notin> avail fs" if "i \<in> ?C" for i
    using that by (auto simp: avail_def covered_def)
  note unfold = reserve_range_def Let_def pw(2) wf_end(1) [OF wf]
    checked_frame_ceil [THEN iffD2, OF conjI, OF le refl]
  show "\<exists>fs'. reserve_range fs base len = Some (Inr (card ?C), fs') \<and>
        avail fs' = avail fs - ?C \<and> frames_wf fs' \<and>
        ram_base fs' = ram_base fs \<and> ram_size fs' = ram_size fs \<and>
        reserved_frames fs' = reserved_frames fs + card ?C" if sub: "?C \<subseteq> avail fs"
  proof -
    have none: "find_set (allocator fs) ?xs = Some None"
      using search sub tk xs by (auto simp: find_None_iff)
    obtain a where a: "for_each (\<lambda>i b. bm_set b i) ?xs (allocator fs) = Some a"
      "taken a = taken (allocator fs) \<union> ?C" "bm_capacity a = MAX_FRAMES"
      "bm_counters a = bm_counters (allocator fs)"
      using bm.add_all [of ?xs "allocator fs"] cap wf_capacity [OF wf] unfolding xs by auto
    have cnt: "?count = card ?C" using rf(3) [OF ins] by simp
    have ge: "card ?C \<le> bm_free a"
      using a(4) wf_free [OF wf] card_mono [OF finite_avail sub] by (simp add: bm_counters_def)
    let ?n = "bm_free a - card ?C" and ?r = "bm_reserved a + card ?C"
    let ?fs' = "fs\<lparr>allocator := a\<lparr>bm_reserved := ?r, bm_free := ?n\<rparr>\<rparr>"
    have "reserve_range fs base len = Some (Inr (card ?C), ?fs')"
      using len rf(1) ins none a(1) ge by (simp add: unfold cnt [symmetric])
    moreover have e: "{i. i < frame_count fs \<and> i \<notin> taken a} = avail fs - ?C"
      using a(2) by (auto simp: avail_def)
    moreover have "?n = card {i. i < frame_count fs \<and> i \<notin> taken a}"
      using a(4) wf_free [OF wf] card_Diff_subset [OF finite_subset [OF sub finite_avail] sub]
      by (simp add: e bm_counters_def)
    moreover have "{frame_count fs..<MAX_FRAMES} \<subseteq> taken a"
      using wf a(2) by (auto simp: frames_wf_def)
    ultimately have "frames_wf ?fs'" using frames_wf_update(2) [OF wf a(3)] by blast
    moreover have "avail ?fs' = avail fs - ?C" using e by (simp add: avail_def frame_count_unat)
    ultimately show ?thesis
      using \<open>reserve_range fs base len = Some (Inr (card ?C), ?fs')\<close> a(4)
      by (auto simp: ram_base_def ram_size_def reserved_frames_def bm_counters_def)
  qed
  show "reserve_range fs base len =
      Some (Inl (AlreadyTaken (addr (frame_of fs (Min (?C - avail fs))))), fs)"
    if "\<not> ?C \<subseteq> avail fs"
  proof -
    have fin: "finite (?C - avail fs)" using xs by (metis List.finite_set finite_Diff)
    have ne: "?C - avail fs \<noteq> {}" using that by blast
    define i where "i = Min (?C - avail fs)"
    have i: "i \<in> ?C" "i \<in> taken (allocator fs)"
      using Min_in [OF fin ne] tk by (auto simp: i_def)
    have min: "j \<notin> taken (allocator fs)" if "j \<in> ?C" "j < i" for j
      using that Min_le [OF fin, of j] tk by (metis DiffI not_le i_def)
    have "find (\<lambda>i. i \<in> taken (allocator fs)) ?xs = Some i"
    proof -
      have "?first \<le> i" "i < ?first + ?count" using i(1) xs by auto
      then have "?xs ! (i - ?first) = i" "i - ?first < length ?xs" by simp_all
      moreover have "?xs ! j \<notin> taken (allocator fs)" if "j < i - ?first" for j
      proof -
        have lt: "?first + j < i" using that by linarith
        then have "?first + j \<in> set ?xs" using \<open>i < ?first + ?count\<close> by simp
        then have "?first + j \<notin> taken (allocator fs)" unfolding xs using lt by (rule min)
        moreover have "?xs ! j = ?first + j"
          using lt \<open>i < ?first + ?count\<close> by simp
        ultimately show ?thesis by simp
      qed
      ultimately show ?thesis using i(2) unfolding find_Some_iff by metis
    qed
    with search have hit: "find_set (allocator fs) ?xs = Some (Some i)" by simp
    show ?thesis
      using len rf(1) ins by (simp add: unfold frame_of_def hit i_def [symmetric])
  qed
qed

section \<open>Contiguous runs\<close>

definition free_run :: "frame_state \<Rightarrow> nat \<Rightarrow> nat \<Rightarrow> bool" where
  "free_run fs count s \<longleftrightarrow> {s..<s + count} \<subseteq> avail fs"

text \<open>
  The loop invariant of the scan at index \<open>k\<close>: the last \<open>run\<close> indexes are clear and
  start at \<open>run_start\<close>, the run is still too short, and no run of \<open>count\<close> clear bits
  starts before it.
\<close>

lemma scan_run_result:
  assumes "n \<le> bm_capacity b" "k \<le> n" "run < count" "run \<le> k" "0 < run \<longrightarrow> run_start = k - run"
    and "\<forall>j. k - run \<le> j \<and> j < k \<longrightarrow> j \<notin> taken b"
    and "\<forall>s < k - run. \<exists>j. s \<le> j \<and> j < s + count \<and> j \<in> taken b"
  shows "\<exists>r. scan_run b count [k..<n] run_start run = Some r \<and>
    (case r of
       None \<Rightarrow> \<forall>s. s + count \<le> n \<longrightarrow> (\<exists>j. s \<le> j \<and> j < s + count \<and> j \<in> taken b)
     | Some t \<Rightarrow> t + count \<le> n \<and> (\<forall>j. t \<le> j \<and> j < t + count \<longrightarrow> j \<notin> taken b) \<and>
         (\<forall>s < t. \<exists>j. s \<le> j \<and> j < s + count \<and> j \<in> taken b))"
  using assms
proof (induction "n - k" arbitrary: k run_start run)
  case 0
  then have e: "[k..<n] = []" by simp
  have "\<exists>j. s \<le> j \<and> j < s + count \<and> j \<in> taken b" if "s + count \<le> n" for s
    using 0 that by simp
  then show ?case unfolding e by simp
next
  case (Suc d)
  then have k: "k < n" by simp
  then have upt: "[k..<n] = k # [Suc k..<n]" by (simp add: upt_conv_Cons)
  have hit: "bm_is_set b k = Some (k \<in> taken b)"
    using k Suc.prems(1) by (intro bm_is_set_taken) simp
  show ?case
  proof (cases "k \<in> taken b")
    case True
    have "\<exists>j. s \<le> j \<and> j < s + count \<and> j \<in> taken b" if "s < Suc k" for s
    proof (cases "s < k - run")
      case False
      then have "s \<le> k \<and> k < s + count" using that Suc.prems(3) by simp
      with True show ?thesis by blast
    qed (use Suc.prems(7) in blast)
    then have "\<exists>r. scan_run b count [Suc k..<n] run_start 0 = Some r \<and>
      (case r of
         None \<Rightarrow> \<forall>s. s + count \<le> n \<longrightarrow> (\<exists>j. s \<le> j \<and> j < s + count \<and> j \<in> taken b)
       | Some t \<Rightarrow> t + count \<le> n \<and> (\<forall>j. t \<le> j \<and> j < t + count \<longrightarrow> j \<notin> taken b) \<and>
           (\<forall>s < t. \<exists>j. s \<le> j \<and> j < s + count \<and> j \<in> taken b))"
      using Suc.prems Suc.hyps(2) k by (intro Suc.hyps(1)) auto
    then show ?thesis using True by (simp add: upt hit)
  next
    case False
    define start where "start = (if run = 0 then k else run_start)"
    have start: "start = k - run" using Suc.prems(5) by (simp add: start_def)
    have clear: "j \<notin> taken b" if "k - run \<le> j" "j < Suc k" for j
      using that False Suc.prems(6) by (cases "j = k") auto
    show ?thesis
    proof (cases "run + 1 < count")
      case True
      have "\<exists>r. scan_run b count [Suc k..<n] start (run + 1) = Some r \<and>
        (case r of
           None \<Rightarrow> \<forall>s. s + count \<le> n \<longrightarrow> (\<exists>j. s \<le> j \<and> j < s + count \<and> j \<in> taken b)
         | Some t \<Rightarrow> t + count \<le> n \<and> (\<forall>j. t \<le> j \<and> j < t + count \<longrightarrow> j \<notin> taken b) \<and>
             (\<forall>s < t. \<exists>j. s \<le> j \<and> j < s + count \<and> j \<in> taken b))"
        using Suc.prems Suc.hyps(2) k True clear start by (intro Suc.hyps(1)) auto
      then show ?thesis using False True by (simp add: upt hit Let_def start_def [symmetric])
    next
      case False2: False
      then have "start + count = Suc k" using Suc.prems(3,4) start by simp
      then show ?thesis
        using False False2 k clear start Suc.prems(7)
        by (simp add: upt hit Let_def start_def [symmetric])
    qed
  qed
qed

lemma scan_run_avail:
  assumes wf: "frames_wf fs" and "0 < count"
  shows "scan_run (allocator fs) count [0..<frame_count fs] 0 0 =
    Some (if \<exists>s. free_run fs count s then Some (LEAST s. free_run fs count s) else None)"
proof -
  have tk: "free_run fs count s \<longleftrightarrow>
      s + count \<le> frame_count fs \<and> (\<forall>j. s \<le> j \<and> j < s + count \<longrightarrow> j \<notin> taken (allocator fs))" for s
  proof
    assume r: "free_run fs count s"
    then have "s + count - 1 \<in> avail fs" using assms(2) by (auto simp: free_run_def)
    with r assms(2) show "s + count \<le> frame_count fs \<and>
      (\<forall>j. s \<le> j \<and> j < s + count \<longrightarrow> j \<notin> taken (allocator fs))"
      by (auto simp: free_run_def avail_def)
  qed (auto simp: free_run_def avail_def)
  have "frame_count fs \<le> bm_capacity (allocator fs)"
    using wf_count(2) [OF wf] wf_capacity [OF wf] by simp
  then obtain r where r: "scan_run (allocator fs) count [0..<frame_count fs] 0 0 = Some r"
    "case r of
       None \<Rightarrow> \<forall>s. s + count \<le> frame_count fs \<longrightarrow>
         (\<exists>j. s \<le> j \<and> j < s + count \<and> j \<in> taken (allocator fs))
     | Some t \<Rightarrow> t + count \<le> frame_count fs \<and>
         (\<forall>j. t \<le> j \<and> j < t + count \<longrightarrow> j \<notin> taken (allocator fs)) \<and>
         (\<forall>s < t. \<exists>j. s \<le> j \<and> j < s + count \<and> j \<in> taken (allocator fs))"
    using scan_run_result [of "frame_count fs" "allocator fs" 0 0 count 0] assms(2) by auto
  show ?thesis
  proof (cases r)
    case None
    with r(2) have "\<nexists>s. free_run fs count s" by (auto simp: tk)
    with r(1) None show ?thesis by simp
  next
    case (Some t)
    with r(2) have "free_run fs count t" "\<And>s. s < t \<Longrightarrow> \<not> free_run fs count s"
      by (auto simp: tk)
    then have "(LEAST s. free_run fs count s) = t" "\<exists>s. free_run fs count s"
      by (auto intro!: Least_equality simp: not_less [symmetric])
    with r(1) Some show ?thesis by simp
  qed
qed

lemma alloc_contiguous_spec:
  assumes wf: "frames_wf (mframes m)" and pos: "0 < count"
  shows "\<nexists>s. free_run (mframes m) count s \<Longrightarrow> alloc_contiguous m count = Some (None, m)"
    and "free_run (mframes m) count s \<Longrightarrow> (\<And>t. t < s \<Longrightarrow> \<not> free_run (mframes m) count t) \<Longrightarrow>
      \<exists>fs. alloc_contiguous m count = Some (Some (frame_of (mframes m) s),
              \<lparr>mphys = zero_frames (mphys m) (frame_of (mframes m) s) count, mframes = fs\<rparr>) \<and>
        avail fs = avail (mframes m) - {s..<s + count} \<and> frames_wf fs \<and> same_ram (mframes m) fs"
proof -
  let ?fs = "mframes m"
  show "alloc_contiguous m count = Some (None, m)" if "\<nexists>s. free_run ?fs count s"
    using scan_run_avail [OF wf pos] that pos by (simp add: alloc_contiguous_def)
  assume run: "free_run ?fs count s" and least: "\<And>t. t < s \<Longrightarrow> \<not> free_run ?fs count t"
  have "(LEAST s. free_run ?fs count s) = s"
    using run least by (auto intro!: Least_equality simp: not_less [symmetric])
  with run have scan: "scan_run (allocator ?fs) count [0..<frame_count ?fs] 0 0 = Some (Some s)"
    using scan_run_avail [OF wf pos] by auto
  have sub: "{s..<s + count} \<subseteq> avail ?fs" using run by (simp add: free_run_def)
  have "s \<in> avail ?fs" using sub pos by auto
  then have s: "s < frame_count ?fs" by (rule availD)
  have "i < bm_capacity (allocator ?fs)" if "i \<in> set [s..<s + count]" for i
  proof -
    have "i \<in> avail ?fs" using sub that by auto
    then show ?thesis using wf_count(2) [OF wf] wf_capacity [OF wf] by (auto dest: availD)
  qed
  then obtain a where a: "for_each (\<lambda>i b. bm_set b i) [s..<s + count] (allocator ?fs) = Some a"
    "taken a = taken (allocator ?fs) \<union> {s..<s + count}" "bm_capacity a = MAX_FRAMES"
    "bm_counters a = bm_counters (allocator ?fs)"
    using bm.add_all [of "[s..<s + count]" "allocator ?fs"] wf_capacity [OF wf] by auto
  have ge: "count \<le> bm_free (allocator ?fs)"
    using wf_free [OF wf] card_mono [OF finite_avail sub] by simp
  let ?n = "bm_free (allocator ?fs) - count"
  let ?fs' = "?fs\<lparr>allocator := a\<lparr>bm_free := ?n\<rparr>\<rparr>"
  have "alloc_contiguous m count = Some (Some (frame_of ?fs s),
      \<lparr>mphys = zero_frames (mphys m) (frame_of ?fs s) count, mframes = ?fs'\<rparr>)"
    using scan a ge pos wf_frame(3) [OF wf, of s] s
    by (simp add: alloc_contiguous_def Let_def bm_counters_def)
  moreover have "avail ?fs' = avail ?fs - {s..<s + count}" "frames_wf ?fs'" "same_ram ?fs ?fs'"
    using avail_take [OF wf a(3) a(2) sub, of ?n] a(4) by (simp_all add: bm_counters_def)
  ultimately show "\<exists>fs. alloc_contiguous m count = Some (Some (frame_of ?fs s),
              \<lparr>mphys = zero_frames (mphys m) (frame_of ?fs s) count, mframes = fs\<rparr>) \<and>
        avail fs = avail ?fs - {s..<s + count} \<and> frames_wf fs \<and> same_ram ?fs fs" by blast
qed

lemma free_contiguous_spec:
  assumes wf: "frames_wf fs"
  shows "s + count \<le> frame_count fs \<Longrightarrow> {s..<s + count} \<inter> avail fs = {} \<Longrightarrow>
    \<exists>fs'. free_contiguous fs (frame_of fs s) count = Some fs' \<and>
      avail fs' = avail fs \<union> {s..<s + count} \<and> frames_wf fs' \<and> same_ram fs fs'"
proof (induction count)
  case 0
  then show ?case using wf by (simp add: free_contiguous_def)
next
  case (Suc c)
  have "{s..<s + c} \<subseteq> {s..<s + Suc c}" by auto
  with Suc.prems have "{s..<s + c} \<inter> avail fs = {}" "s + c \<le> frame_count fs" by (blast, linarith)
  with Suc.IH obtain fs1 where fs1: "free_contiguous fs (frame_of fs s) c = Some fs1"
    "avail fs1 = avail fs \<union> {s..<s + c}" "frames_wf fs1" "same_ram fs fs1" by auto
  have "s + c \<in> {s..<s + Suc c}" by simp
  with Suc.prems(2) have "s + c \<notin> avail fs" by blast
  with Suc.prems(1) have i: "s + c < frame_count fs1" "s + c \<notin> avail fs1"
    using fs1(2) same_ramD(3) [OF fs1(4)] by auto
  obtain fs2 where fs2: "free fs1 (frame_of fs1 (s + c)) = Some fs2"
    "avail fs2 = insert (s + c) (avail fs1)" "frames_wf fs2" "same_ram fs1 fs2"
    using free_spec [OF fs1(3) i] by blast
  have off: "checked_mul (of_nat c) FRAME_SIZE = Some (of_nat c * FRAME_SIZE)"
  proof -
    have "c \<le> 1048576" using Suc.prems wf_count(2) [OF wf] by (simp add: frame_consts)
    then show ?thesis by (simp add: checked_mul_def unat_of_nat_u64 frame_consts)
  qed
  have f: "frame_of fs (s + c) = Frame (addr (frame_of fs s) + of_nat c * FRAME_SIZE)"
    by (simp add: frame_of_def algebra_simps)
  have "unat (addr (frame_of fs s)) + unat (of_nat c * FRAME_SIZE :: u64) < 2 ^ 64"
  proof -
    have "unat (addr (frame_of fs s)) + unat (of_nat c * FRAME_SIZE :: u64) =
        unat (addr (frame_of fs (s + c)))"
      using wf_frame(1,2) [OF wf] Suc.prems by simp
    then show ?thesis using unsigned_less [of "addr (frame_of fs (s + c))", where 'a = nat] by simp
  qed
  then have "checked_add (addr (frame_of fs s)) (of_nat c * FRAME_SIZE) = Some (addr (frame_of fs (s + c)))"
    by (simp add: checked_add_def f)
  moreover have "frame_from_addr (addr (frame_of fs (s + c))) = Some (frame_of fs (s + c))"
    using wf_frame_aligned [OF wf, of "s + c"] Suc.prems by (simp add: frame_from_addr_def)
  ultimately have "free_contiguous fs (frame_of fs s) (Suc c) = Some fs2"
    using fs1(1) fs2(1) off same_ramD(4) [OF fs1(4)]
    by (simp add: free_contiguous_def for_each_append)
  moreover have "{s..<s + Suc c} = insert (s + c) {s..<s + c}" by auto
  ultimately show ?case using fs1 fs2 same_ram_trans by auto
qed

section \<open>Adopting a memory map, and starting up\<close>

lemma unat_whole_frames:
  "unat (whole_frames len) = unat (min len MAX_RAM) div 4096 * 4096"
  "unat (whole_frames len div FRAME_SIZE) = unat (min len MAX_RAM) div 4096"
  by (simp_all add: whole_frames_def unat_frame_floor unat_div_mod frame_consts)

lemma whole_frames_bounds:
  "unat (whole_frames len) mod 4096 = 0" "unat (whole_frames len) \<le> unat MAX_RAM"
  "unat (whole_frames len) \<le> unat len" "unat (whole_frames len div FRAME_SIZE) \<le> MAX_FRAMES"
proof -
  have le: "unat (min len MAX_RAM) \<le> unat len" "unat (min len MAX_RAM) \<le> 4294967296"
    using frame_consts(2) by (auto simp: min_def word_le_nat_alt)
  show "unat (whole_frames len) mod 4096 = 0" by (simp add: unat_whole_frames)
  have fl: "unat (whole_frames len) \<le> unat (min len MAX_RAM)"
    by (simp add: unat_whole_frames)
  show "unat (whole_frames len) \<le> unat MAX_RAM" "unat (whole_frames len) \<le> unat len"
    using le fl by (simp_all add: frame_consts)
  have "unat (min len MAX_RAM) div 4096 \<le> 4294967296 div 4096"
    by (intro div_le_mono le)
  then show "unat (whole_frames len div FRAME_SIZE) \<le> MAX_FRAMES"
    by (simp add: unat_whole_frames frame_consts)
qed

lemma adopt_other_base:
  "base \<noteq> ram_base fs \<Longrightarrow> adopt fs base len = Some (Inl (OutsideRam base), fs)"
  by (simp add: adopt_def)

text \<open>What adopting a map with \<open>new\<close> frames does, growing or shrinking.\<close>

lemma adopt_spec:
  assumes wf: "frames_wf fs" and fits: "unat (ram_base fs) + unat (whole_frames len) < 2 ^ 64"
  defines "new \<equiv> unat (whole_frames len div FRAME_SIZE)"
  shows "{new..<frame_count fs} \<subseteq> avail fs \<Longrightarrow>
      \<exists>fs'. adopt fs (ram_base fs) len = Some (Inr (int new - int (frame_count fs)), fs') \<and>
        frames_wf fs' \<and> ram_base fs' = ram_base fs \<and> frame_count fs' = new \<and>
        reserved_frames fs' = reserved_frames fs \<and>
        avail fs' = (if new < frame_count fs then avail fs - {new..<frame_count fs}
                     else avail fs \<union> {frame_count fs..<new})"
    and "\<not> {new..<frame_count fs} \<subseteq> avail fs \<Longrightarrow>
      \<exists>i \<in> {new..<frame_count fs} - avail fs.
        adopt fs (ram_base fs) len = Some (Inl (AlreadyTaken (addr (frame_of fs i))), fs)"
proof -
  let ?old = "frame_count fs" and ?len = "whole_frames len"
  have new: "new \<le> MAX_FRAMES" using whole_frames_bounds(4) by (simp add: new_def)
  have old: "?old \<le> MAX_FRAMES" by (rule wf_count(2) [OF wf])
  have cap: "bm_capacity (allocator fs) = MAX_FRAMES" by (rule wf_capacity [OF wf])
  have count: "frame_count (fs\<lparr>allocator := a, ram_length := ?len\<rparr>) = new" for a
    by (simp add: frame_count_def ram_size_def new_def)
  have done_wf: "frames_wf (fs\<lparr>allocator := a\<lparr>bm_free := n\<rparr>, ram_length := ?len\<rparr>)"
    if "bm_capacity a = MAX_FRAMES" "{new..<MAX_FRAMES} \<subseteq> taken a"
      "n = card {i. i < new \<and> i \<notin> taken a}" for a n
    using wf fits that whole_frames_bounds [of len] count
    by (simp add: frames_wf_def ram_base_def avail_def)
  have done_avail: "avail (fs\<lparr>allocator := a\<lparr>bm_free := n\<rparr>, ram_length := ?len\<rparr>) =
      {i. i < new \<and> i \<notin> taken a}" for a n
    by (simp add: avail_def count)
  have tail: "{?old..<MAX_FRAMES} \<subseteq> taken (allocator fs)" using wf by (simp add: frames_wf_def)
  show "\<exists>fs'. adopt fs (ram_base fs) len = Some (Inr (int new - int ?old), fs') \<and>
        frames_wf fs' \<and> ram_base fs' = ram_base fs \<and> frame_count fs' = new \<and>
        reserved_frames fs' = reserved_frames fs \<and>
        avail fs' = (if new < ?old then avail fs - {new..<?old} else avail fs \<union> {?old..<new})"
    if sub: "{new..<?old} \<subseteq> avail fs"
  proof (cases "?old < new")
    case True
    obtain a where a: "bm_clear_range (allocator fs) ?old new = Some a"
      "taken a = taken (allocator fs) - {?old..<new}" "bm_capacity a = MAX_FRAMES"
      "bm_counters a = bm_counters (allocator fs)"
      using bm_clear_range_taken [of new "allocator fs" ?old] new cap by auto
    let ?fs' = "fs\<lparr>allocator := a\<lparr>bm_free := bm_free a + (new - ?old)\<rparr>, ram_length := ?len\<rparr>"
    have e: "{i. i < new \<and> i \<notin> taken a} = avail fs \<union> {?old..<new}"
      unfolding avail_def a(2) using True by (intro set_eqI) (simp, linarith)
    have "avail fs \<inter> {?old..<new} = {}" by (auto simp: avail_def)
    then have "bm_free a + (new - ?old) = card {i. i < new \<and> i \<notin> taken a}"
      using a(4) wf_free [OF wf] by (simp add: e card_Un_disjoint bm_counters_def)
    moreover have "{new..<MAX_FRAMES} \<subseteq> taken a" using tail a(2) True by auto
    ultimately have "frames_wf ?fs'" using done_wf [OF a(3)] by blast
    moreover have "adopt fs (ram_base fs) len = Some (Inr (int new - int ?old), ?fs')"
      using a(1) True by (simp add: adopt_def Let_def new_def)
    ultimately show ?thesis
      using done_avail e True count a(4)
      by (auto simp: ram_base_def reserved_frames_def bm_counters_def)
  next
    case False
    have inb: "\<And>i. i \<in> set [new..<?old] \<Longrightarrow> i < bm_capacity (allocator fs)"
      using old cap by simp
    have "find (\<lambda>i. i \<in> taken (allocator fs)) [new..<?old] = None"
      using sub by (auto simp: find_None_iff avail_def)
    then have none: "find_set (allocator fs) [new..<?old] = Some None"
      using find_set_spec [of "[new..<?old]" "allocator fs"] inb by simp
    obtain a where a: "bm_set_range (allocator fs) new ?old = Some a"
      "taken a = taken (allocator fs) \<union> {new..<?old}" "bm_capacity a = MAX_FRAMES"
      "bm_counters a = bm_counters (allocator fs)"
      using bm_set_range_taken [of ?old "allocator fs" new] old cap by auto
    let ?fs' = "fs\<lparr>allocator := a\<lparr>bm_free := bm_free a - (?old - new)\<rparr>, ram_length := ?len\<rparr>"
    have e: "{i. i < new \<and> i \<notin> taken a} = avail fs - {new..<?old}"
      unfolding avail_def a(2) using False by (intro set_eqI) (simp, linarith)
    have le: "?old - new \<le> bm_free (allocator fs)"
      using wf_free [OF wf] card_mono [OF finite_avail sub] by simp
    have "bm_free a - (?old - new) = card {i. i < new \<and> i \<notin> taken a}"
      using a(4) wf_free [OF wf] card_Diff_subset [OF _ sub] by (simp add: e bm_counters_def)
    moreover have "{new..<MAX_FRAMES} \<subseteq> taken a"
    proof
      fix i assume "i \<in> {new..<MAX_FRAMES}"
      then show "i \<in> taken a" using tail a(2) by (cases "i < ?old") auto
    qed
    ultimately have "frames_wf ?fs'" using done_wf [OF a(3)] by blast
    moreover have "adopt fs (ram_base fs) len = Some (Inr (int new - int ?old), ?fs')"
      using a(1) a(4) False none le by (simp add: adopt_def Let_def new_def bm_counters_def)
    ultimately show ?thesis
      using done_avail e False count a(4)
      by (auto simp: ram_base_def reserved_frames_def bm_counters_def)
  qed
  assume bad: "\<not> {new..<?old} \<subseteq> avail fs"
  then have less: "\<not> ?old < new" by auto
  have inb: "\<And>i. i \<in> set [new..<?old] \<Longrightarrow> i < bm_capacity (allocator fs)"
    using old cap by simp
  obtain j where "j \<in> {new..<?old}" "j \<notin> avail fs" using bad by blast
  then have "j \<in> set [new..<?old]" "j \<in> taken (allocator fs)" by (auto simp: avail_def)
  then obtain i where i: "find (\<lambda>i. i \<in> taken (allocator fs)) [new..<?old] = Some i"
    by (metis find_None_iff not_None_eq)
  then have "find_set (allocator fs) [new..<?old] = Some (Some i)"
    using find_set_spec [of "[new..<?old]" "allocator fs"] inb by simp
  moreover have "i \<in> {new..<?old} - avail fs"
    using i by (auto simp: find_Some_iff avail_def)
  ultimately show "\<exists>i \<in> {new..<?old} - avail fs.
      adopt fs (ram_base fs) len = Some (Inl (AlreadyTaken (addr (frame_of fs i))), fs)"
    using less by (auto simp: adopt_def Let_def new_def frame_of_def)
qed

text \<open>
  \<open>init\<close> on the statics as they are at reset: the image's frames and everything past the end
  of RAM are taken, and the rest is free.
\<close>

lemma taken_bitmap_new [simp]: "taken bitmap_new = {}" "bm_capacity bitmap_new = MAX_FRAMES"
proof -
  show cap: "bm_capacity bitmap_new = MAX_FRAMES"
    by (simp add: bm_capacity_def bitmap_new_def frame_consts)
  have "\<not> bit (bm_bits bitmap_new ! (i div 64)) (i mod 64)" if "i < MAX_FRAMES" for i
    using that by (simp add: bitmap_new_def frame_consts)
  then show "taken bitmap_new = {}" using cap by (auto simp: taken_def)
qed

lemma frames_init_spec:
  assumes base: "unat base mod 4096 = 0" "unat base + unat len < 2 ^ 64"
    and image: "base \<le> kernel_end" "unat kernel_end \<le> unat base + unat (whole_frames len)"
    and top: "unat kernel_end \<le> 2 ^ 64 - 4096"
  defines "r \<equiv> (unat kernel_end + 4095) div 4096 - unat base div 4096"
  shows "\<exists>fs. frames_init kernel_end frames_boot base len = Some fs \<and> frames_wf fs \<and>
    ram_base fs = base \<and> ram_size fs = whole_frames len \<and> reserved_frames fs = r \<and>
    avail fs = {r..<frame_count fs}"
proof -
  let ?len = "whole_frames len" and ?past = "div_ceil kernel_end FRAME_SIZE * FRAME_SIZE"
  let ?n = "unat (?len div FRAME_SIZE)"
  obtain B where B: "unat base = 4096 * B" using base(1) by auto
  have past: "unat ?past = (unat kernel_end + 4095) div 4096 * 4096" by (rule unat_frame_ceil [OF top])
  have rB: "r = (unat kernel_end + 4095) div 4096 - B" by (simp add: r_def B)
  have ge: "B \<le> (unat kernel_end + 4095) div 4096"
  proof -
    have "4096 * B div 4096 \<le> (unat kernel_end + 4095) div 4096"
      using image(1) B by (intro div_le_mono) (simp add: word_le_nat_alt)
    then show ?thesis by simp
  qed
  then have le: "base \<le> ?past" by (simp add: word_le_nat_alt past B)
  have reserved: "unat ((?past - base) div FRAME_SIZE) = r"
    by (simp add: unat_div_mod frame_consts unat_sub_no_underflow [OF le] past B rB
        diff_mult_distrib [symmetric] mult.commute [of 4096])
  have n: "?n \<le> MAX_FRAMES" "unat ?len = 4096 * ?n"
    using whole_frames_bounds(4) by (simp_all add: unat_whole_frames)
  have rn: "r \<le> ?n"
    using image(2) ceil_frame(1) [of "unat kernel_end" "B + ?n"] by (simp add: rB B n(2))
  obtain a where a: "bm_set_range bitmap_new 0 r = Some a" "taken a = {0..<r}"
    "bm_capacity a = MAX_FRAMES"
    using bm_set_range_taken [of r bitmap_new 0] rn n(1) by auto
  obtain b where b: "bm_set_range a ?n MAX_FRAMES = Some b" "taken b = {0..<r} \<union> {?n..<MAX_FRAMES}"
    "bm_capacity b = MAX_FRAMES"
    using bm_set_range_taken [of MAX_FRAMES a ?n] a by auto
  let ?fs = "\<lparr>ram_base_addr = base, ram_length = ?len, image_end = ?past,
              allocator = b\<lparr>bm_reserved := r, bm_free := ?n - r\<rparr>\<rparr>"
  have count: "frame_count ?fs = ?n" by (simp add: frame_count_def ram_size_def)
  have av: "avail ?fs = {r..<?n}"
    unfolding avail_def count using b(2) n(1) by (intro set_eqI) (simp, linarith)
  have "unat base + unat ?len < 2 ^ 64" using base(2) whole_frames_bounds(3) [of len] by simp
  then have "frames_wf ?fs"
    using b av count base(1) whole_frames_bounds [of len] by (simp add: frames_wf_def)
  moreover have "frames_init kernel_end frames_boot base len = Some ?fs"
    using top le rn a(1) b(1) checked_frame_ceil [of kernel_end ?past] reserved
    by (simp add: frames_init_def Let_def frames_boot_def checked_sub_def)
  ultimately show ?thesis
    using av count by (auto simp: ram_base_def ram_size_def reserved_frames_def)
qed

section \<open>The allocator as a pool of frames\<close>

text \<open>
  What the rest of the kernel relies on. A pool hands out the least idle item, or nothing when
  there is none, and takes back exactly the items that are not idle.
\<close>

primrec take_many :: "('s \<Rightarrow> ('f option \<times> 's) option) \<Rightarrow> nat \<Rightarrow> 's \<Rightarrow> ('f list \<times> 's) option" where
  "take_many acquire 0 s = Some ([], s)"
| "take_many acquire (Suc n) s = do {
     (f, s) \<leftarrow> acquire s;
     f \<leftarrow> f;
     (fs, s) \<leftarrow> take_many acquire n s;
     Some (f # fs, s)
   }"

locale frame_pool =
  fixes acquire :: "'s \<Rightarrow> ('f::linorder option \<times> 's) option"
    and release :: "'s \<Rightarrow> 'f \<Rightarrow> 's option"
    and inv :: "'s \<Rightarrow> bool"
    and idle :: "'s \<Rightarrow> 'f set"
    and universe :: "'s \<Rightarrow> 'f set"
  assumes finite_idle: "inv s \<Longrightarrow> finite (idle s)"
    and idle_universe: "inv s \<Longrightarrow> idle s \<subseteq> universe s"
    and acquire_empty: "inv s \<Longrightarrow> idle s = {} \<Longrightarrow> acquire s = Some (None, s)"
    and acquire_least: "inv s \<Longrightarrow> idle s \<noteq> {} \<Longrightarrow> \<exists>s'. acquire s = Some (Some (Min (idle s)), s') \<and>
      idle s' = idle s - {Min (idle s)} \<and> universe s' = universe s \<and> inv s'"
    and release_law: "inv s \<Longrightarrow> f \<in> universe s - idle s \<Longrightarrow> \<exists>s'. release s f = Some s' \<and>
      idle s' = insert f (idle s) \<and> universe s' = universe s \<and> inv s'"
    and release_guard: "inv s \<Longrightarrow> release s f = Some s' \<Longrightarrow> f \<in> universe s - idle s"
begin

lemma take_many_sorted:
  assumes "inv s" "n \<le> card (idle s)"
  shows "\<exists>s'. take_many acquire n s = Some (take n (sorted_list_of_set (idle s)), s') \<and>
    idle s' = idle s - set (take n (sorted_list_of_set (idle s))) \<and>
    universe s' = universe s \<and> inv s'"
  using assms
proof (induction n arbitrary: s)
  case (Suc n)
  let ?m = "Min (idle s)"
  have fin: "finite (idle s)" using finite_idle Suc.prems(1) by blast
  have ne: "idle s \<noteq> {}" using Suc.prems(2) by auto
  obtain s1 where s1: "acquire s = Some (Some ?m, s1)" "idle s1 = idle s - {?m}"
    "universe s1 = universe s" "inv s1"
    using acquire_least [OF Suc.prems(1) ne] by blast
  have "n \<le> card (idle s1)" using Suc.prems(2) s1(2) fin ne by simp
  from Suc.IH [OF s1(4) this] obtain s2 where s2:
    "take_many acquire n s1 = Some (take n (sorted_list_of_set (idle s1)), s2)"
    "idle s2 = idle s1 - set (take n (sorted_list_of_set (idle s1)))"
    "universe s2 = universe s1" "inv s2" by blast
  have "sorted_list_of_set (idle s) = ?m # sorted_list_of_set (idle s1)"
    using sorted_list_of_set_nonempty [OF fin ne] s1(2) by simp
  with s1 s2 show ?case by auto
qed simp

lemma take_many_distinct:
  assumes "inv s" "n \<le> card (idle s)" "take_many acquire n s = Some (fs, s')"
  shows "length fs = n" "distinct fs" "sorted fs" "set fs \<subseteq> idle s"
proof -
  have fin: "finite (idle s)" using finite_idle assms(1) by blast
  have fs: "fs = take n (sorted_list_of_set (idle s))"
    using take_many_sorted [OF assms(1,2)] assms(3) by auto
  show "length fs = n" using assms(2) by (simp add: fs)
  show "distinct fs" "sorted fs" by (simp_all add: fs sorted_wrt_take)
  show "set fs \<subseteq> idle s" using fin set_take_subset [of n] by (fastforce simp: fs)
qed

text \<open>Items that are out can be handed back in any order.\<close>

lemma release_all:
  assumes "inv s" "distinct fs" "set fs \<subseteq> universe s - idle s"
  shows "\<exists>s'. for_each (\<lambda>f s. release s f) fs s = Some s' \<and> idle s' = idle s \<union> set fs \<and>
    universe s' = universe s \<and> inv s'"
  using assms
proof (induction fs arbitrary: s)
  case (Cons f fs)
  then obtain s1 where s1: "release s f = Some s1" "idle s1 = insert f (idle s)"
    "universe s1 = universe s" "inv s1"
    using release_law [of s f] by auto
  with Cons.prems Cons.IH [OF s1(4)] show ?case by auto
qed simp

lemma take_give_back:
  assumes "inv s" "n \<le> card (idle s)" "take_many acquire n s = Some (fs, s')"
    and "set gs = set fs" "distinct gs"
  shows "\<exists>s''. for_each (\<lambda>f s. release s f) gs s' = Some s'' \<and> idle s'' = idle s \<and> inv s''"
proof -
  have s': "idle s' = idle s - set fs" "universe s' = universe s" "inv s'"
    using take_many_sorted [OF assms(1,2)] assms(3) by auto
  have sub: "set fs \<subseteq> idle s" by (rule take_many_distinct(4) [OF assms(1-3)])
  have "set gs \<subseteq> universe s' - idle s'"
    using s' sub idle_universe [OF assms(1)] assms(4) by auto
  from release_all [OF s'(3) assms(5) this] show ?thesis using s' sub assms(4) by auto
qed

end

definition free_in :: "mach \<Rightarrow> frame \<Rightarrow> mach option" where
  "free_in m f = map_option (\<lambda>fs. m\<lparr>mframes := fs\<rparr>) (free (mframes m) f)"

definition idle_frames :: "mach \<Rightarrow> frame set" where
  "idle_frames m = frame_of (mframes m) ` avail (mframes m)"

definition ram_frames :: "mach \<Rightarrow> frame set" where
  "ram_frames m = frame_of (mframes m) ` {..<frame_count (mframes m)}"

lemma frame_of_mono:
  assumes "frames_wf fs" "i \<le> j" "j \<le> frame_count fs"
  shows "frame_of fs i \<le> frame_of fs j"
  using wf_frame(2) [OF assms(1), of i] wf_frame(2) [OF assms(1), of j] assms(2,3)
  by (simp add: less_eq_frame_def word_le_nat_alt)

lemma Min_idle_frames:
  assumes "frames_wf (mframes m)" "avail (mframes m) \<noteq> {}"
  shows "Min (idle_frames m) = frame_of (mframes m) (Min (avail (mframes m)))"
proof (rule Min_eqI)
  fix g assume "g \<in> idle_frames m"
  then obtain i where i: "g = frame_of (mframes m) i" "i \<in> avail (mframes m)"
    by (auto simp: idle_frames_def)
  then have "i < frame_count (mframes m)" by (intro availD)
  then show "frame_of (mframes m) (Min (avail (mframes m))) \<le> g"
    using frame_of_mono [OF assms(1), of "Min (avail (mframes m))" i] i by simp
qed (use assms(2) in \<open>simp_all add: idle_frames_def\<close>)

lemma inj_on_frame_of:
  assumes "frames_wf fs"
  shows "inj_on (frame_of fs) {..<frame_count fs}"
  using frame_of_inj [OF assms] by (intro inj_onI) simp

lemma frame_of_in_idle:
  assumes "frames_wf (mframes m)" "i < frame_count (mframes m)"
  shows "frame_of (mframes m) i \<in> idle_frames m \<longleftrightarrow> i \<in> avail (mframes m)"
proof -
  have "avail (mframes m) \<subseteq> {..<frame_count (mframes m)}" by (auto dest: availD)
  then show ?thesis
    using inj_on_image_mem_iff [OF inj_on_frame_of [OF assms(1)]] assms(2)
    by (simp add: idle_frames_def)
qed

lemma idle_frames_Diff:
  assumes "frames_wf (mframes m)" "I \<subseteq> {..<frame_count (mframes m)}"
  shows "frame_of (mframes m) ` (avail (mframes m) - I) = idle_frames m - frame_of (mframes m) ` I"
proof -
  let ?f = "frame_of (mframes m)"
  have "inj_on ?f {..<frame_count (mframes m)}" by (rule inj_on_frame_of [OF assms(1)])
  moreover have "avail (mframes m) \<subseteq> {..<frame_count (mframes m)}" by (auto dest: availD)
  ultimately show ?thesis
    unfolding idle_frames_def using assms(2) by (intro inj_on_image_set_diff) auto
qed

interpretation pool: frame_pool alloc free_in "\<lambda>m. frames_wf (mframes m)" idle_frames ram_frames
proof (unfold_locales, goal_cases)
  case (1 m)
  then show ?case by (simp add: idle_frames_def)
next
  case (2 m)
  then show ?case by (auto simp: idle_frames_def ram_frames_def dest: availD)
next
  case (3 m)
  then show ?case using alloc_spec(1) by (simp add: idle_frames_def)
next
  case (4 m)
  then have ne: "avail (mframes m) \<noteq> {}" by (simp add: idle_frames_def)
  let ?i = "Min (avail (mframes m))"
  obtain fs where fs: "alloc m = Some (Some (frame_of (mframes m) ?i),
      \<lparr>mphys = zero_frames (mphys m) (frame_of (mframes m) ?i) 1, mframes = fs\<rparr>)"
    "avail fs = avail (mframes m) - {?i}" "frames_wf fs" "same_ram (mframes m) fs"
    using alloc_spec(2) [OF 4(1) ne] by blast
  have "{?i} \<subseteq> {..<frame_count (mframes m)}" using ne availD [of ?i] by simp
  then show ?case
    using fs same_ramD [OF fs(4)] idle_frames_Diff [OF 4(1), of "{?i}"] Min_idle_frames [OF 4(1) ne]
    by (simp add: idle_frames_def ram_frames_def)
next
  case (5 m f)
  then obtain i where i: "i < frame_count (mframes m)" "f = frame_of (mframes m) i"
    "i \<notin> avail (mframes m)" by (auto simp: idle_frames_def ram_frames_def)
  then obtain fs where "free (mframes m) f = Some fs" "avail fs = insert i (avail (mframes m))"
    "frames_wf fs" "same_ram (mframes m) fs" using free_spec [OF 5(1)] by blast
  with i show ?case
    by (simp add: free_in_def idle_frames_def ram_frames_def same_ramD)
next
  case (6 m f m')
  then obtain i where i: "i < frame_count (mframes m)" "f = frame_of (mframes m) i"
    "i \<notin> avail (mframes m)" using free_Some_iff [OF 6(1)] by (auto simp: free_in_def)
  then have "f \<notin> idle_frames m" using frame_of_in_idle [OF 6(1)] by simp
  with i show ?case by (simp add: ram_frames_def)
qed

section \<open>A machine to try the properties on\<close>

text \<open>The \<open>virt\<close> machine with its default RAM and a kernel image of one megabyte.\<close>

definition boot_frames :: frame_state where
  "boot_frames = the (frames_init 0x40100000 frames_boot DEFAULT_RAM_BASE DEFAULT_RAM_SIZE)"

definition boot_mach :: mach where
  "boot_mach = \<lparr>mphys = \<lparr>pmem = (\<lambda>_. 0xab), phys_offset = 0xffff000000000000\<rparr>, mframes = boot_frames\<rparr>"

lemma boot_frames_init:
  "frames_init 0x40100000 frames_boot DEFAULT_RAM_BASE DEFAULT_RAM_SIZE = Some boot_frames"
  "frames_wf boot_frames" "ram_base boot_frames = 0x40000000" "frame_count boot_frames = 65536"
  "avail boot_frames = {256..<65536}" "reserved_frames boot_frames = 256"
proof -
  have wl: "whole_frames 0x10000000 = 0x10000000"
    by (simp add: whole_frames_def MAX_RAM_def FRAME_SIZE_def)
  obtain fs where fs: "frames_init 0x40100000 frames_boot DEFAULT_RAM_BASE DEFAULT_RAM_SIZE = Some fs"
    "frames_wf fs" "ram_base fs = 0x40000000" "ram_size fs = 0x10000000"
    "reserved_frames fs = 256" "avail fs = {256..<frame_count fs}"
    using frames_init_spec [of DEFAULT_RAM_BASE DEFAULT_RAM_SIZE "0x40100000"]
    by (auto simp: wl DEFAULT_RAM_BASE_def DEFAULT_RAM_SIZE_def)
  moreover have "frame_count fs = 65536"
    using fs(4) by (simp add: frame_count_def FRAME_SIZE_def)
  moreover have "boot_frames = fs" using fs(1) by (simp add: boot_frames_def)
  ultimately show
    "frames_init 0x40100000 frames_boot DEFAULT_RAM_BASE DEFAULT_RAM_SIZE = Some boot_frames"
    "frames_wf boot_frames" "ram_base boot_frames = 0x40000000" "frame_count boot_frames = 65536"
    "avail boot_frames = {256..<65536}" "reserved_frames boot_frames = 256" by simp_all
qed

lemma boot_mach_simps [simp]:
  "mframes boot_mach = boot_frames" "phys_offset (mphys boot_mach) = 0xffff000000000000"
  by (simp_all add: boot_mach_def)

lemma pmem_zero_frames:
  "pmem (zero_frames p f count) a =
     (if unat (a - addr f) < 4096 * count then 0 else pmem p a)"
  by (simp add: zero_frames_def write_bytes_def frame_ptr_def frame_consts mult.commute)

section \<open>Properties\<close>

text \<open>
  C23. Boot: on the statics as they are at reset, \<open>init\<close> does not panic when the kernel image
  lies in the RAM it is given, and leaves a well-formed allocator whose free frames are exactly
  those past the image, rounded up to a frame, up to the end of the RAM it can track.
\<close>

theorem frames_init_ok:
  assumes "unat base mod 4096 = 0" "unat base + unat len < 2 ^ 64" "base \<le> kernel_end"
    "unat kernel_end \<le> unat base + unat (whole_frames len)" "unat kernel_end \<le> 2 ^ 64 - 4096"
  shows "\<exists>fs. frames_init kernel_end frames_boot base len = Some fs \<and> frames_wf fs \<and>
    ram_base fs = base \<and> ram_size fs = whole_frames len \<and>
    avail fs = {(unat kernel_end + 4095) div 4096 - unat base div 4096..<frame_count fs} \<and>
    free_frames fs = card (avail fs)"
proof -
  obtain fs where "frames_init kernel_end frames_boot base len = Some fs" "frames_wf fs"
    "ram_base fs = base" "ram_size fs = whole_frames len"
    "avail fs = {(unat kernel_end + 4095) div 4096 - unat base div 4096..<frame_count fs}"
    using frames_init_spec [OF assms] by blast
  then show ?thesis using wf_free by (auto simp: free_frames_def)
qed

theorem frames_init_ok_witness:
  "\<exists>fs. frames_init 0x40123456 frames_boot 0x40000000 0x10000000 = Some fs \<and> frames_wf fs \<and>
    ram_base fs = 0x40000000 \<and> ram_size fs = 0x10000000 \<and>
    avail fs = {292..<frame_count fs} \<and> free_frames fs = card (avail fs)"
proof -
  have "whole_frames 0x10000000 = 0x10000000"
    by (simp add: whole_frames_def MAX_RAM_def FRAME_SIZE_def)
  then show ?thesis using frames_init_ok [of "0x40000000" "0x10000000" "0x40123456"] by simp
qed

text \<open>
  C24. \<open>alloc\<close> hands out the lowest free frame, with every byte of it zero and the rest of
  memory untouched, takes exactly that frame from the free set and keeps the allocator well
  formed. It returns nothing, and changes nothing, exactly when no frame is free; it never panics.
\<close>

theorem alloc_lowest_zeroed:
  assumes wf: "frames_wf (mframes m)"
  shows "if avail (mframes m) = {} then alloc m = Some (None, m)
    else \<exists>f m'. alloc m = Some (Some f, m') \<and> f = Min (idle_frames m) \<and>
      idle_frames m' = idle_frames m - {f} \<and> frames_wf (mframes m') \<and>
      free_frames (mframes m') + 1 = free_frames (mframes m) \<and>
      (\<forall>a. pmem (mphys m') a = (if unat (a - addr f) < 4096 then 0 else pmem (mphys m) a))"
proof (cases "avail (mframes m) = {}")
  case True
  then show ?thesis using alloc_spec(1) [OF wf] by simp
next
  case False
  let ?f = "Min (idle_frames m)"
  obtain fs where fs: "alloc m = Some (Some ?f,
      \<lparr>mphys = zero_frames (mphys m) ?f 1, mframes = fs\<rparr>)" "frames_wf fs"
    "avail fs = avail (mframes m) - {Min (avail (mframes m))}"
    using alloc_spec(2) [OF wf False] Min_idle_frames [OF wf False] by auto
  have "idle_frames m \<noteq> {}" using False by (simp add: idle_frames_def)
  from pool.acquire_least [OF wf this] fs(1)
  have "idle_frames \<lparr>mphys = zero_frames (mphys m) ?f 1, mframes = fs\<rparr> = idle_frames m - {?f}"
    by auto
  moreover have "card (avail fs) + 1 = card (avail (mframes m))"
    using fs(3) False card_Suc_Diff1 [of "avail (mframes m)" "Min (avail (mframes m))"] by simp
  ultimately show ?thesis
    using fs False wf_free [OF wf] wf_free [OF fs(2)] by (simp add: pmem_zero_frames free_frames_def)
qed

theorem alloc_lowest_zeroed_witness:
  "\<exists>f m'. alloc boot_mach = Some (Some f, m') \<and> f = Min (idle_frames boot_mach) \<and>
     pmem (mphys m') (addr f + 17) = 0 \<and> free_frames (mframes m') + 1 = free_frames boot_frames"
proof -
  have "unat (addr f + 17 - addr f) < 4096" for f by simp
  with alloc_lowest_zeroed [of boot_mach] boot_frames_init show ?thesis by auto
qed

text \<open>
  C25. Taking \<open>n\<close> frames yields \<open>n\<close> different frames of RAM, and handing them back in any
  order restores the pool: no frame has two owners and none is lost.
\<close>

theorem alloc_many_distinct_and_returned:
  assumes "frames_wf (mframes m)" "n \<le> card (idle_frames m)" "set gs = set fs" "distinct gs"
    and "take_many alloc n m = Some (fs, m')"
  shows "length fs = n \<and> distinct fs \<and> sorted fs \<and> set fs \<subseteq> idle_frames m \<and>
    idle_frames m' = idle_frames m - set fs \<and>
    (\<exists>m''. for_each (\<lambda>f m. free_in m f) gs m' = Some m'' \<and> idle_frames m'' = idle_frames m)"
proof -
  have "idle_frames m' = idle_frames m - set fs"
    using pool.take_many_sorted [OF assms(1,2)] assms(5) by auto
  with pool.take_many_distinct [OF assms(1,2,5)]
    pool.take_give_back [OF assms(1,2,5,3,4)]
  show ?thesis by blast
qed

lemma card_idle_frames:
  assumes "frames_wf (mframes m)"
  shows "card (idle_frames m) = free_frames (mframes m)"
proof -
  have "avail (mframes m) \<subseteq> {..<frame_count (mframes m)}" by (auto dest: availD)
  then have "inj_on (frame_of (mframes m)) (avail (mframes m))"
    by (rule inj_on_subset [OF inj_on_frame_of [OF assms]])
  then show ?thesis by (simp add: idle_frames_def free_frames_def card_image wf_free [OF assms])
qed

theorem alloc_many_distinct_and_returned_witness:
  "\<exists>fs m' m''. take_many alloc 3 boot_mach = Some (fs, m') \<and> length fs = 3 \<and> distinct fs \<and>
     for_each (\<lambda>f m. free_in m f) (rev fs) m' = Some m'' \<and> idle_frames m'' = idle_frames boot_mach"
proof -
  have wf: "frames_wf (mframes boot_mach)" using boot_frames_init by simp
  have n: "3 \<le> card (idle_frames boot_mach)"
    using card_idle_frames [OF wf] wf_free [OF wf] boot_frames_init by (simp add: free_frames_def)
  obtain fs m' where t: "take_many alloc 3 boot_mach = Some (fs, m')"
    using pool.take_many_sorted [OF wf n] by blast
  have "distinct fs" by (rule pool.take_many_distinct(2) [OF wf n t])
  then show ?thesis
    using alloc_many_distinct_and_returned [OF wf n _ _ t, of "rev fs"] t by auto
qed

text \<open>
  C26. \<open>free\<close> accepts exactly the frames of RAM that are not free and returns each to the
  free set; a frame outside RAM, a misaligned one and a double free panic.
\<close>

theorem free_exactly_held:
  assumes wf: "frames_wf (mframes m)"
  shows "if f \<in> ram_frames m - idle_frames m
    then \<exists>m'. free_in m f = Some m' \<and> idle_frames m' = insert f (idle_frames m) \<and>
           frames_wf (mframes m') \<and> mphys m' = mphys m
    else free_in m f = None"
proof (cases "f \<in> ram_frames m - idle_frames m")
  case True
  with pool.release_law [OF wf True] show ?thesis by (auto simp: free_in_def)
next
  case False
  then have "free_in m f = None" using pool.release_guard [OF wf, of f] by (cases "free_in m f") auto
  with False show ?thesis by simp
qed

theorem free_exactly_held_witness:
  "\<exists>m'. free_in boot_mach (frame_of boot_frames 7) = Some m' \<and>
     idle_frames m' = insert (frame_of boot_frames 7) (idle_frames boot_mach) \<and>
     free_in boot_mach (frame_of boot_frames 300) = None"
proof -
  have wf: "frames_wf (mframes boot_mach)" using boot_frames_init by simp
  have "frame_of boot_frames 7 \<in> ram_frames boot_mach - idle_frames boot_mach"
    "frame_of boot_frames 300 \<notin> ram_frames boot_mach - idle_frames boot_mach"
    using frame_of_in_idle [OF wf, of 7] frame_of_in_idle [OF wf, of 300] boot_frames_init
    by (auto simp: ram_frames_def)
  then show ?thesis
    using free_exactly_held [OF wf, of "frame_of boot_frames 7"]
      free_exactly_held [OF wf, of "frame_of boot_frames 300"] by auto
qed

text \<open>
  C27. \<open>alloc_contiguous\<close> returns the first run of \<open>count\<close> consecutive free frames, all
  of it zeroed and nothing else written, and takes exactly that run; when there is no such run it
  returns nothing and changes nothing. It never panics on a positive count.
\<close>

theorem alloc_contiguous_first_run:
  assumes wf: "frames_wf (mframes m)" and pos: "0 < count"
  shows "if \<exists>s. free_run (mframes m) count s
    then \<exists>s m'. alloc_contiguous m count = Some (Some (frame_of (mframes m) s), m') \<and>
      free_run (mframes m) count s \<and> (\<forall>t < s. \<not> free_run (mframes m) count t) \<and>
      avail (mframes m') = avail (mframes m) - {s..<s + count} \<and> frames_wf (mframes m') \<and>
      (\<forall>a. pmem (mphys m') a = (if unat (a - addr (frame_of (mframes m) s)) < 4096 * count
                               then 0 else pmem (mphys m) a))
    else alloc_contiguous m count = Some (None, m)"
proof (cases "\<exists>s. free_run (mframes m) count s")
  case True
  define s where "s = (LEAST s. free_run (mframes m) count s)"
  have s: "free_run (mframes m) count s" "\<And>t. t < s \<Longrightarrow> \<not> free_run (mframes m) count t"
    using True LeastI_ex [of "free_run (mframes m) count"] not_less_Least by (auto simp: s_def)
  from alloc_contiguous_spec(2) [OF wf pos s] obtain fs where
    "alloc_contiguous m count = Some (Some (frame_of (mframes m) s),
       \<lparr>mphys = zero_frames (mphys m) (frame_of (mframes m) s) count, mframes = fs\<rparr>)"
    "avail fs = avail (mframes m) - {s..<s + count}" "frames_wf fs" by blast
  with True s show ?thesis by (auto simp: pmem_zero_frames intro!: exI [of _ s])
qed (use alloc_contiguous_spec(1) [OF wf pos] in simp)

theorem alloc_contiguous_first_run_witness:
  "\<exists>m'. alloc_contiguous boot_mach 4 = Some (Some (frame_of boot_frames 256), m') \<and>
     avail (mframes m') = {260..<65536}"
proof -
  have run: "free_run boot_frames 4 t \<longleftrightarrow> 256 \<le> t \<and> t + 4 \<le> 65536" for t
    using boot_frames_init(5) by (auto simp: free_run_def)
  obtain s m' where s: "alloc_contiguous boot_mach 4 = Some (Some (frame_of boot_frames s), m')"
    "free_run boot_frames 4 s" "\<forall>t < s. \<not> free_run boot_frames 4 t"
    "avail (mframes m') = avail boot_frames - {s..<s + 4}"
  proof -
    have wf: "frames_wf (mframes boot_mach)" using boot_frames_init by simp
    have "\<exists>s. free_run (mframes boot_mach) 4 s" using run [of 256] by auto
    with alloc_contiguous_first_run [OF wf, of 4] show ?thesis
      unfolding boot_mach_simps(1) by (auto intro: that)
  qed
  have "\<not> 256 < s" using s(3) run [of 256] by auto
  moreover have "256 \<le> s" using s(2) run [of s] by simp
  ultimately have "s = 256" by simp
  with s boot_frames_init(5) show ?thesis by auto
qed

text \<open>
  C28. \<open>reserve_range\<close> is all or nothing: a range that leaves RAM or covers a frame that is
  not free is refused with the state untouched, naming the first frame in the way, and otherwise
  exactly the frames with a byte in the range leave the pool.
\<close>

theorem reserve_range_all_or_nothing:
  assumes wf: "frames_wf fs" and "len \<noteq> 0" "unat base + unat len \<le> 2 ^ 64 - 4096"
  shows "if \<not> inside_ram fs base len then reserve_range fs base len = Some (Inl (OutsideRam base), fs)
    else if covered fs base len \<subseteq> avail fs
    then \<exists>fs'. reserve_range fs base len = Some (Inr (card (covered fs base len)), fs') \<and>
      avail fs' = avail fs - covered fs base len \<and> frames_wf fs' \<and>
      free_frames fs' + card (covered fs base len) = free_frames fs \<and>
      reserved_frames fs' = reserved_frames fs + card (covered fs base len)
    else reserve_range fs base len =
      Some (Inl (AlreadyTaken (addr (frame_of fs (Min (covered fs base len - avail fs))))), fs)"
proof (cases "inside_ram fs base len")
  case False
  then show ?thesis using reserve_range_outside [OF assms] by simp
next
  case True
  note inside = reserve_range_inside [OF wf assms(2) True assms(3)]
  show ?thesis
  proof (cases "covered fs base len \<subseteq> avail fs")
    case sub: True
    then have "card (avail fs - covered fs base len) + card (covered fs base len) = card (avail fs)"
      by (metis add.commute card_Diff_subset card_mono finite_avail finite_subset le_add_diff_inverse)
    with inside(1) [OF sub] sub True wf_free [OF wf] show ?thesis
      by (auto simp: free_frames_def wf_free)
  next
    case nsub: False
    then show ?thesis using inside(2) [OF nsub] True by simp
  qed
qed

theorem reserve_range_all_or_nothing_witness:
  "\<exists>fs'. reserve_range boot_frames 0x48000000 0x1234 = Some (Inr 2, fs') \<and>
     avail fs' = {256..<65536} - {32768, 32769} \<and>
     reserve_range boot_frames 0x48000000 0xffffffff = Some (Inl (OutsideRam 0x48000000), boot_frames)"
proof -
  note boot = boot_frames_init
  have e: "unat (ram_base boot_frames + ram_size boot_frames) = 0x50000000"
    using wf_end(2) [OF boot(2)] boot by simp
  have cov: "covered boot_frames 0x48000000 0x1234 = {32768, 32769}"
    using boot by (auto simp: covered_def)
  have ins: "inside_ram boot_frames 0x48000000 0x1234" "\<not> inside_ram boot_frames 0x48000000 0xffffffff"
    unfolding inside_ram_def e using boot by simp_all
  have sub: "covered boot_frames 0x48000000 0x1234 \<subseteq> avail boot_frames" unfolding cov boot by simp
  obtain fs' where "reserve_range boot_frames 0x48000000 0x1234 = Some (Inr 2, fs')"
    "avail fs' = avail boot_frames - {32768, 32769}"
    using reserve_range_all_or_nothing [OF boot(2), of "0x1234" "0x48000000"] ins(1) sub
    by (auto simp: cov)
  moreover have "reserve_range boot_frames 0x48000000 0xffffffff =
      Some (Inl (OutsideRam 0x48000000), boot_frames)"
    using reserve_range_all_or_nothing [OF boot(2), of "0xffffffff" "0x48000000"] ins(2) by simp
  ultimately show ?thesis using boot by auto
qed

text \<open>
  C29. The one case \<open>reserve_range\<close> does not refuse: a range that ends in the last 4095 bytes
  of the address space overflows when its end is rounded up to a frame, and panics. Every other
  range is answered.
\<close>

theorem reserve_range_panics_iff:
  assumes wf: "frames_wf fs"
  shows "reserve_range fs base len = None \<longleftrightarrow>
    len \<noteq> 0 \<and> 2 ^ 64 - 4096 < unat base + unat len \<and> unat base + unat len < 2 ^ 64"
proof (cases "len = 0")
  case True
  then show ?thesis by (simp add: reserve_range_def)
next
  case False
  consider (low) "unat base + unat len \<le> 2 ^ 64 - 4096" | (wrap) "2 ^ 64 \<le> unat base + unat len"
    | (top) "2 ^ 64 - 4096 < unat base + unat len" "unat base + unat len < 2 ^ 64" by linarith
  then show ?thesis
  proof cases
    case low
    have "reserve_range fs base len \<noteq> None"
      using reserve_range_outside [OF wf False low] reserve_range_inside [OF wf False _ low]
      by (cases "inside_ram fs base len"; cases "covered fs base len \<subseteq> avail fs") auto
    with low show ?thesis by simp
  next
    case wrap
    with reserve_range_wraps [OF False wrap] show ?thesis by simp
  next
    case top
    with reserve_range_overflow [OF False top] False show ?thesis by simp
  qed
qed

theorem reserve_range_panics_iff_witness:
  "reserve_range boot_frames 0xfffffffffffff000 1 = None \<and>
   reserve_range boot_frames 0xfffffffffffff000 0x2000 \<noteq> None"
  using reserve_range_panics_iff [OF boot_frames_init(2), of "0xfffffffffffff000" 1]
    reserve_range_panics_iff [OF boot_frames_init(2), of "0xfffffffffffff000" "0x2000"] by simp

text \<open>
  C30. \<open>adopt\<close> corrects the size of RAM to the whole frames the machine reports, up to the most
  it can track: growing frees exactly the new frames, shrinking withdraws exactly the frames cut
  off, and is refused with nothing changed when one of them is in use.
\<close>

theorem adopt_exact:
  assumes "frames_wf fs" "unat (ram_base fs) + unat (whole_frames len) < 2 ^ 64"
  shows "let new = unat (min len MAX_RAM) div 4096; old = frame_count fs in
    if {new..<old} \<subseteq> avail fs
    then \<exists>fs'. adopt fs (ram_base fs) len = Some (Inr (int new - int old), fs') \<and>
      frames_wf fs' \<and> ram_base fs' = ram_base fs \<and> frame_count fs' = new \<and>
      avail fs' = (if new < old then avail fs - {new..<old} else avail fs \<union> {old..<new})
    else \<exists>i \<in> {new..<old} - avail fs.
      adopt fs (ram_base fs) len = Some (Inl (AlreadyTaken (addr (frame_of fs i))), fs)"
  using adopt_spec [OF assms] by (auto simp: Let_def unat_whole_frames(2))

theorem adopt_exact_witness:
  "\<exists>fs'. adopt boot_frames 0x40000000 0x20000fff = Some (Inr 65536, fs') \<and>
     avail fs' = {256..<131072}"
proof -
  note boot = boot_frames_init
  have m: "min 0x20000fff MAX_RAM = 0x20000fff" by (simp add: MAX_RAM_def)
  have w: "unat (whole_frames 0x20000fff) = 0x20000000" unfolding unat_whole_frames m by simp
  have "unat (ram_base boot_frames) + unat (whole_frames 0x20000fff) < 2 ^ 64"
    unfolding w boot by simp
  from adopt_exact [OF boot(2) this] show ?thesis
    unfolding m Let_def boot by auto
qed

end
