(* ===== verification/Paging.thy ===== *)
theory Paging
  imports Frames
begin

text \<open>
  The MMU (\<open>paging.rs\<close>): descriptors and attributes, the tables as they lie in physical
  memory, the operations that build and walk them, the checks on user pointers, the copy between
  address spaces, the release of an address space, and the system registers that turn it on.

  A table is a frame; its 512 entries are read and written as 64-bit words through the kernel's
  alias of physical memory, so an entry is whatever bytes lie there. Walks use the memory as it is
  at the time: a copy that overwrote a table would change the translations after it.

  \<open>Frame::from_addr\<close> asserts that its argument is a multiple of the frame size. The address
  field of a descriptor always is, so \<open>entry_frame\<close> is written without the assertion
  (lemma \<open>frame_from_addr_entry\<close>).
\<close>

section \<open>Descriptors\<close>

definition KERNEL_BASE :: u64 where "KERNEL_BASE = 0xffff000000000000"
definition PAGE_SIZE :: u64 where "PAGE_SIZE = FRAME_SIZE"
definition BLOCK_2MIB :: u64 where "BLOCK_2MIB = 2 * 1024 * 1024"
definition ADDR_MASK :: u64 where "ADDR_MASK = 0x0000fffffffff000"
definition VALID :: u64 where "VALID = push_bit 0 1"
definition TABLE_OR_PAGE :: u64 where "TABLE_OR_PAGE = push_bit 1 1"
definition ATTR_INDEX_SHIFT :: nat where "ATTR_INDEX_SHIFT = 2"
definition AP_SHIFT :: nat where "AP_SHIFT = 6"
definition SH_SHIFT :: nat where "SH_SHIFT = 8"
definition AF :: u64 where "AF = push_bit 10 1"
definition PXN :: u64 where "PXN = push_bit 53 1"
definition UXN :: u64 where "UXN = push_bit 54 1"
definition AP_RW_EL1 :: u64 where "AP_RW_EL1 = 0"
definition AP_RW_ALL :: u64 where "AP_RW_ALL = 1"
definition AP_RO_EL1 :: u64 where "AP_RO_EL1 = 2"
definition AP_RO_ALL :: u64 where "AP_RO_ALL = 3"
definition SH_NON_SHAREABLE :: u64 where "SH_NON_SHAREABLE = 0"
definition SH_INNER_SHAREABLE :: u64 where "SH_INNER_SHAREABLE = 3"
definition MAIR_DEVICE_INDEX :: u64 where "MAIR_DEVICE_INDEX = 0"
definition MAIR_NORMAL_INDEX :: u64 where "MAIR_NORMAL_INDEX = 1"
definition MAIR_VALUE :: u64 where "MAIR_VALUE = push_bit 8 0xff"
definition ENTRIES :: nat where "ENTRIES = 512"
definition DEVICE_BASE :: u64 where "DEVICE_BASE = 0x08000000"
definition DEVICE_SIZE :: u64 where "DEVICE_SIZE = 32 * 1024 * 1024"

lemmas desc_consts =
  VALID_def TABLE_OR_PAGE_def ATTR_INDEX_SHIFT_def AP_SHIFT_def SH_SHIFT_def AF_def PXN_def UXN_def
  AP_RW_EL1_def AP_RW_ALL_def AP_RO_EL1_def AP_RO_ALL_def SH_NON_SHAREABLE_def
  SH_INNER_SHAREABLE_def MAIR_DEVICE_INDEX_def MAIR_NORMAL_INDEX_def ADDR_MASK_def

datatype attributes = Attributes (attr_bits: u64)

definition attrs_of :: "u64 \<Rightarrow> u64 \<Rightarrow> u64 \<Rightarrow> u64 \<Rightarrow> attributes" where
  "attrs_of mair ap sh xn = Attributes
     (push_bit ATTR_INDEX_SHIFT mair OR push_bit AP_SHIFT ap OR push_bit SH_SHIFT sh OR AF OR xn)"

definition kernel_text :: attributes where
  "kernel_text = attrs_of MAIR_NORMAL_INDEX AP_RO_EL1 SH_INNER_SHAREABLE UXN"

definition kernel_rodata :: attributes where
  "kernel_rodata = attrs_of MAIR_NORMAL_INDEX AP_RO_EL1 SH_INNER_SHAREABLE (UXN OR PXN)"

definition kernel_data :: attributes where
  "kernel_data = attrs_of MAIR_NORMAL_INDEX AP_RW_EL1 SH_INNER_SHAREABLE (UXN OR PXN)"

definition device :: attributes where
  "device = attrs_of MAIR_DEVICE_INDEX AP_RW_EL1 SH_NON_SHAREABLE (UXN OR PXN)"

definition user_data :: attributes where
  "user_data = attrs_of MAIR_NORMAL_INDEX AP_RW_ALL SH_INNER_SHAREABLE (UXN OR PXN)"

definition user_text :: attributes where
  "user_text = attrs_of MAIR_NORMAL_INDEX AP_RO_ALL SH_INNER_SHAREABLE PXN"

section \<open>Tables in memory\<close>

definition table_index :: "u64 \<Rightarrow> nat \<Rightarrow> nat" where
  "table_index va level = unat (drop_bit (39 - 9 * level) va AND 0x1ff)"

definition table_ptr :: "phys \<Rightarrow> frame \<Rightarrow> u64" where
  "table_ptr p table = phys_to_virt p (addr table)"

definition read_entry :: "phys \<Rightarrow> frame \<Rightarrow> nat \<Rightarrow> u64" where
  "read_entry p table index = read_u64 p (table_ptr p table + 8 * of_nat index)"

definition write_entry :: "phys \<Rightarrow> frame \<Rightarrow> nat \<Rightarrow> u64 \<Rightarrow> phys" where
  "write_entry p table index v = write_u64 p (table_ptr p table + 8 * of_nat index) v"

definition entry_frame :: "u64 \<Rightarrow> frame" where
  "entry_frame entry = Frame (entry AND ADDR_MASK)"

text \<open>\<open>next_table\<close>: follow the entry, allocating a table where there is none.\<close>

definition next_table :: "mach \<Rightarrow> frame \<Rightarrow> nat \<Rightarrow> (frame \<times> mach) option" where
  "next_table m table index =
     (let entry = read_entry (mphys m) table index in
      if entry AND VALID \<noteq> 0
      then do {
        assert_that (entry AND TABLE_OR_PAGE \<noteq> 0);
        Some (entry_frame entry, m)
      }
      else do {
        (got, m) \<leftarrow> alloc m;
        new \<leftarrow> got;
        Some (new, m\<lparr>mphys := write_entry (mphys m) table index (addr new OR VALID OR TABLE_OR_PAGE)\<rparr>)
      })"

primrec next_tables :: "mach \<Rightarrow> frame \<Rightarrow> u64 \<Rightarrow> nat list \<Rightarrow> (frame \<times> mach) option" where
  "next_tables m table va [] = Some (table, m)"
| "next_tables m table va (level # levels) = do {
     (table, m) \<leftarrow> next_table m table (table_index va level);
     next_tables m table va levels
   }"

definition map_page :: "mach \<Rightarrow> frame \<Rightarrow> u64 \<Rightarrow> u64 \<Rightarrow> attributes \<Rightarrow> mach option" where
  "map_page m root va pa attrs = do {
     (table, m) \<leftarrow> next_tables m root va [0, 1, 2];
     let index = table_index va 3;
     Some (m\<lparr>mphys := write_entry (mphys m) table index
                        (pa OR attr_bits attrs OR VALID OR TABLE_OR_PAGE)\<rparr>)
   }"

definition map_block :: "mach \<Rightarrow> frame \<Rightarrow> u64 \<Rightarrow> u64 \<Rightarrow> attributes \<Rightarrow> mach option" where
  "map_block m root va pa attrs = do {
     (table, m) \<leftarrow> next_tables m root va [0, 1];
     let index = table_index va 2;
     Some (m\<lparr>mphys := write_entry (mphys m) table index (pa OR attr_bits attrs OR VALID)\<rparr>)
   }"

lemma checked_add_grows: "checked_add x y = Some z \<Longrightarrow> 0 < y \<Longrightarrow> unat x < unat (z :: u64)"
  using checked_addD [of x y z] by (simp add: word_less_nat_alt)

text \<open>The loop of \<open>map_range\<close> at \<open>offset\<close>.\<close>

function map_from ::
  "frame \<Rightarrow> u64 \<Rightarrow> u64 \<Rightarrow> u64 \<Rightarrow> attributes \<Rightarrow> u64 \<Rightarrow> mach \<Rightarrow> mach option" where
  "map_from root va pa len attrs offset m =
     (if \<not> offset < len then Some m
      else do {
        let remaining = len - offset;
        v \<leftarrow> checked_add va offset;
        a \<leftarrow> checked_add pa offset;
        if BLOCK_2MIB \<le> remaining \<and> is_multiple_of v BLOCK_2MIB \<and> is_multiple_of a BLOCK_2MIB
        then do {
          m \<leftarrow> map_block m root v a attrs;
          offset' \<leftarrow> checked_add offset BLOCK_2MIB;
          map_from root va pa len attrs offset' m
        }
        else do {
          m \<leftarrow> map_page m root v a attrs;
          offset' \<leftarrow> checked_add offset PAGE_SIZE;
          map_from root va pa len attrs offset' m
        }
      })"
  by pat_completeness auto

termination
  by (relation "measure (\<lambda>(root, va, pa, len, attrs, offset, m). 2 ^ 64 - unat offset)")
    (use unsigned_less [where 'b = 64 and 'a = nat] in
      \<open>auto simp: PAGE_SIZE_def FRAME_SIZE_def BLOCK_2MIB_def intro!: diff_less_mono2
         dest!: checked_add_grows\<close>)

declare map_from.simps [simp del]

definition map_range :: "mach \<Rightarrow> frame \<Rightarrow> u64 \<Rightarrow> u64 \<Rightarrow> u64 \<Rightarrow> attributes \<Rightarrow> mach option" where
  "map_range m root va pa len attrs = map_from root va pa len attrs 0 m"

section \<open>The kernel's own map\<close>

text \<open>The linker's symbols, as the physical addresses \<open>symbol\<close> reads while the MMU is off.\<close>

record layout =
  text_start :: u64
  text_end :: u64
  rodata_start :: u64
  rodata_end :: u64
  data_start :: u64
  kernel_end :: u64

definition build_map :: "layout \<Rightarrow> mach \<Rightarrow> frame \<Rightarrow> u64 \<Rightarrow> mach option" where
  "build_map l m root offset = do {
     let rbase = ram_base (mframes m);
     let rsize = ram_size (mframes m);
     n \<leftarrow> checked_sub (text_start l) rbase;
     v \<leftarrow> checked_add rbase offset;
     m \<leftarrow> map_range m root v rbase n kernel_data;
     n \<leftarrow> checked_sub (text_end l) (text_start l);
     v \<leftarrow> checked_add (text_start l) offset;
     m \<leftarrow> map_range m root v (text_start l) n kernel_text;
     n \<leftarrow> checked_sub (rodata_end l) (rodata_start l);
     v \<leftarrow> checked_add (rodata_start l) offset;
     m \<leftarrow> map_range m root v (rodata_start l) n kernel_rodata;
     n \<leftarrow> checked_sub (kernel_end l) (data_start l);
     v \<leftarrow> checked_add (data_start l) offset;
     m \<leftarrow> map_range m root v (data_start l) n kernel_data;
     top \<leftarrow> checked_add rbase rsize;
     n \<leftarrow> checked_sub top (kernel_end l);
     v \<leftarrow> checked_add (kernel_end l) offset;
     m \<leftarrow> map_range m root v (kernel_end l) n kernel_data;
     v \<leftarrow> checked_add DEVICE_BASE offset;
     map_range m root v DEVICE_BASE DEVICE_SIZE device
   }"

definition build_tables :: "layout \<Rightarrow> mach \<Rightarrow> ((frame \<times> frame) \<times> mach) option" where
  "build_tables l m = do {
     (low, m) \<leftarrow> alloc m;
     low \<leftarrow> low;
     (high, m) \<leftarrow> alloc m;
     high \<leftarrow> high;
     m \<leftarrow> build_map l m low 0;
     m \<leftarrow> build_map l m high KERNEL_BASE;
     Some ((low, high), m)
   }"

text \<open>The page-rounded range of \<open>map_physical\<close> and \<open>map_device\<close>.\<close>

definition page_range :: "u64 \<Rightarrow> u64 \<Rightarrow> (u64 \<times> u64) option" where
  "page_range pa len = do {
     let start = pa div PAGE_SIZE * PAGE_SIZE;
     past \<leftarrow> checked_add pa len;
     end \<leftarrow> checked_mul (div_ceil past PAGE_SIZE) PAGE_SIZE;
     Some (start, end)
   }"

definition map_physical :: "mach \<Rightarrow> frame \<Rightarrow> u64 \<Rightarrow> u64 \<Rightarrow> mach option" where
  "map_physical m root pa len = do {
     (start, end) \<leftarrow> page_range pa len;
     v \<leftarrow> checked_add start KERNEL_BASE;
     n \<leftarrow> checked_sub end start;
     map_range m root v start n kernel_data
   }"

definition in_window :: "u64 \<Rightarrow> bool" where
  "in_window a \<longleftrightarrow> DEVICE_BASE \<le> a \<and> a < DEVICE_BASE + DEVICE_SIZE"

definition map_device :: "mach \<Rightarrow> frame \<Rightarrow> u64 \<Rightarrow> u64 \<Rightarrow> (bool \<times> mach) option" where
  "map_device m kroot pa len = do {
     (start, end) \<leftarrow> page_range pa len;
     if in_window start \<and> end \<le> DEVICE_BASE + DEVICE_SIZE then Some (False, m)
     else do {
       last \<leftarrow> checked_sub end 1;
       assert_that (\<not> in_window start \<and> \<not> in_window last);
       v \<leftarrow> checked_add start KERNEL_BASE;
       n \<leftarrow> checked_sub end start;
       m \<leftarrow> map_range m kroot v start n device;
       Some (True, m)
     }
   }"

definition extend_physical_map :: "mach \<Rightarrow> frame \<Rightarrow> u64 \<Rightarrow> u64 \<Rightarrow> mach option" where
  "extend_physical_map m kroot from to =
     (if to \<le> from then Some m
      else do {
        v \<leftarrow> checked_add from KERNEL_BASE;
        n \<leftarrow> checked_sub to from;
        map_range m kroot v from n kernel_data
      })"

section \<open>System registers\<close>

text \<open>
  The registers the module writes. \<open>parange\<close> reads \<open>ID_AA64MMFR0_EL1\<close>, which the CPU
  fixes; it is an argument.
\<close>

record sysregs =
  ttbr0 :: u64
  ttbr1 :: u64
  tcr :: u64
  sctlr :: u64
  mair :: u64
  vbar :: u64

definition parange :: "u64 \<Rightarrow> u64" where
  "parange mmfr0 = min (mmfr0 AND 15) 5"

definition mmu_enable :: "u64 \<Rightarrow> sysregs \<Rightarrow> frame \<Rightarrow> frame \<Rightarrow> sysregs" where
  "mmu_enable mmfr0 r root0 root1 =
     (let t0sz = 16; t1sz = 16; rgn = 1; sh = 3;
          tcr' = t0sz OR push_bit 8 rgn OR push_bit 10 rgn OR push_bit 12 sh OR push_bit 16 t1sz OR
                 push_bit 24 rgn OR push_bit 26 rgn OR push_bit 28 sh OR push_bit 30 2 OR
                 push_bit 32 (parange mmfr0)
      in r\<lparr>mair := MAIR_VALUE, tcr := tcr', ttbr0 := addr root0, ttbr1 := addr root1,
           sctlr := sctlr r OR push_bit 0 1 OR push_bit 2 1 OR push_bit 12 1\<rparr>)"

text \<open>\<open>kernel_root\<close>, read back from the register.\<close>

definition kernel_root :: "sysregs \<Rightarrow> frame" where
  "kernel_root r = entry_frame (ttbr1 r)"

text \<open>\<open>PHYS_OFFSET.store(KERNEL_BASE)\<close>, the new \<open>VBAR_EL1\<close>, \<open>TCR_EL1.EPD0\<close>.\<close>

definition finish_high_half :: "sysregs \<Rightarrow> phys \<Rightarrow> (sysregs \<times> phys) option" where
  "finish_high_half r p = do {
     v \<leftarrow> checked_add (vbar r) KERNEL_BASE;
     Some (r\<lparr>vbar := v, tcr := tcr r OR push_bit 7 1, ttbr0 := 0\<rparr>, p\<lparr>phys_offset := KERNEL_BASE\<rparr>)
   }"

definition activate_root :: "sysregs \<Rightarrow> frame \<Rightarrow> sysregs" where
  "activate_root r root = r\<lparr>ttbr0 := addr root\<rparr>"

definition enable_user_translation :: "sysregs \<Rightarrow> sysregs" where
  "enable_user_translation r = r\<lparr>tcr := tcr r AND NOT (push_bit 7 1)\<rparr>"

section \<open>Address spaces\<close>

datatype address_space = AddressSpace (space_root: frame)

definition address_space_new :: "mach \<Rightarrow> (address_space \<times> mach) option" where
  "address_space_new m = do {
     (got, m) \<leftarrow> alloc m;
     root \<leftarrow> got;
     Some (AddressSpace root, m)
   }"

definition space_map ::
  "mach \<Rightarrow> address_space \<Rightarrow> u64 \<Rightarrow> u64 \<Rightarrow> u64 \<Rightarrow> attributes \<Rightarrow> mach option" where
  "space_map m space va pa len attrs = do {
     assert_that (va < KERNEL_BASE);
     map_range m (space_root space) va pa len attrs
   }"

text \<open>
  \<open>free_table\<close> at level \<open>3 - depth\<close>. The recursion stops at level 3, where an entry is
  always a leaf; a leaf at level 0 panics.
\<close>

definition leaf_frames :: "nat \<Rightarrow> nat option" where
  "leaf_frames level =
     (if level = 1 then Some (ENTRIES * ENTRIES) else if level = 2 then Some ENTRIES
      else if level = 3 then Some 1 else None)"

primrec free_table :: "nat \<Rightarrow> frame \<Rightarrow> mach \<Rightarrow> mach option" where
  "free_table 0 table m = do {
     m \<leftarrow> for_each (\<lambda>index m.
       let entry = read_entry (mphys m) table index in
       if entry AND VALID = 0 then Some m
       else do {
         n \<leftarrow> leaf_frames 3;
         fs \<leftarrow> free_contiguous (mframes m) (entry_frame entry) n;
         Some (m\<lparr>mframes := fs\<rparr>)
       }) [0..<ENTRIES] m;
     fs \<leftarrow> free (mframes m) table;
     Some (m\<lparr>mframes := fs\<rparr>)
   }"
| "free_table (Suc depth) table m = do {
     m \<leftarrow> for_each (\<lambda>index m.
       let entry = read_entry (mphys m) table index in
       if entry AND VALID = 0 then Some m
       else if entry AND TABLE_OR_PAGE \<noteq> 0 then free_table depth (entry_frame entry) m
       else do {
         n \<leftarrow> leaf_frames (2 - depth);
         fs \<leftarrow> free_contiguous (mframes m) (entry_frame entry) n;
         Some (m\<lparr>mframes := fs\<rparr>)
       }) [0..<ENTRIES] m;
     fs \<leftarrow> free (mframes m) table;
     Some (m\<lparr>mframes := fs\<rparr>)
   }"

definition space_destroy :: "mach \<Rightarrow> address_space \<Rightarrow> mach option" where
  "space_destroy m space = free_table 3 (space_root space) m"

section \<open>Walks\<close>

primrec lookup_levels :: "phys \<Rightarrow> u64 \<Rightarrow> nat list \<Rightarrow> frame \<Rightarrow> u64 option" where
  "lookup_levels p va [] table =
     (let entry = read_entry p table (table_index va 3) in
      if entry AND VALID \<noteq> 0 then Some entry else None)"
| "lookup_levels p va (level # levels) table =
     (let entry = read_entry p table (table_index va level) in
      if entry AND VALID = 0 then None
      else if entry AND TABLE_OR_PAGE = 0 then Some entry
      else lookup_levels p va levels (entry_frame entry))"

definition lookup :: "phys \<Rightarrow> frame \<Rightarrow> u64 \<Rightarrow> u64 option" where
  "lookup p root va = lookup_levels p va [0, 1, 2] root"

text \<open>The size of the block a leaf at \<open>level\<close> maps; level 0 has none.\<close>

definition block_size :: "nat \<Rightarrow> u64 option" where
  "block_size level =
     (if level = 1 then Some (512 * BLOCK_2MIB) else if level = 2 then Some BLOCK_2MIB else None)"

primrec translate_levels :: "phys \<Rightarrow> u64 \<Rightarrow> nat list \<Rightarrow> frame \<Rightarrow> u64 option" where
  "translate_levels p va [] table =
     (let entry = read_entry p table (table_index va 3) in
      if entry AND VALID \<noteq> 0
      then Some ((entry AND ADDR_MASK) OR (va AND (PAGE_SIZE - 1))) else None)"
| "translate_levels p va (level # levels) table =
     (let entry = read_entry p table (table_index va level) in
      if entry AND VALID = 0 then None
      else if entry AND TABLE_OR_PAGE = 0
      then do {
        sz \<leftarrow> block_size level;
        Some ((entry AND ADDR_MASK AND NOT (sz - 1)) OR (va AND (sz - 1)))
      }
      else translate_levels p va levels (entry_frame entry))"

definition translate :: "phys \<Rightarrow> frame \<Rightarrow> u64 \<Rightarrow> u64 option" where
  "translate p root va = translate_levels p va [0, 1, 2] root"

text \<open>The access permission field of a descriptor.\<close>

definition entry_ap :: "u64 \<Rightarrow> u64" where
  "entry_ap entry = drop_bit AP_SHIFT entry AND 3"

text \<open>The loop of \<open>user_range\<close> at \<open>page\<close>.\<close>

function pages_allowed :: "phys \<Rightarrow> frame \<Rightarrow> (u64 \<Rightarrow> bool) \<Rightarrow> u64 \<Rightarrow> u64 \<Rightarrow> bool option" where
  "pages_allowed p root allowed end page =
     (if \<not> page < end then Some True
      else case lookup p root page of
        None \<Rightarrow> Some False
      | Some entry \<Rightarrow>
          if \<not> allowed (entry_ap entry) then Some False
          else do {
            page' \<leftarrow> checked_add page PAGE_SIZE;
            pages_allowed p root allowed end page'
          })"
  by pat_completeness auto

termination
  by (relation "measure (\<lambda>(p, root, allowed, end, page). 2 ^ 64 - unat page)")
    (use unsigned_less [where 'b = 64 and 'a = nat] in
      \<open>auto simp: PAGE_SIZE_def FRAME_SIZE_def intro!: diff_less_mono2 dest!: checked_add_grows\<close>)

declare pages_allowed.simps [simp del]

definition user_range :: "phys \<Rightarrow> frame \<Rightarrow> u64 \<Rightarrow> u64 \<Rightarrow> (u64 \<Rightarrow> bool) \<Rightarrow> bool option" where
  "user_range p root va len allowed =
     (if len = 0 then Some True
      else case checked_add va len of
        None \<Rightarrow> Some False
      | Some end \<Rightarrow>
          if KERNEL_BASE < end then Some False
          else pages_allowed p root allowed end (va AND NOT (PAGE_SIZE - 1)))"

definition user_readable :: "phys \<Rightarrow> frame \<Rightarrow> u64 \<Rightarrow> u64 \<Rightarrow> bool option" where
  "user_readable p root va len = user_range p root va len (\<lambda>ap. ap = AP_RW_ALL \<or> ap = AP_RO_ALL)"

definition user_writable :: "phys \<Rightarrow> frame \<Rightarrow> u64 \<Rightarrow> u64 \<Rightarrow> bool option" where
  "user_writable p root va len = user_range p root va len (\<lambda>ap. ap = AP_RW_ALL)"

section \<open>Copying between address spaces\<close>

definition page_left :: "u64 \<Rightarrow> u64" where
  "page_left a = PAGE_SIZE - (a AND (PAGE_SIZE - 1))"

lemma page_left_pos: "0 < page_left a"
proof -
  have "a AND 4095 \<le> 4095" by (rule word_and_le1)
  then show ?thesis
    by (simp add: page_left_def PAGE_SIZE_def FRAME_SIZE_def word_less_nat_alt word_le_nat_alt unat_sub)
qed

lemma copy_chunk_pos:
  "copied < len \<Longrightarrow> 0 < min (min (len - copied) (page_left a)) (page_left b)"
  using page_left_pos [of a] page_left_pos [of b]
  by (auto simp: min_def word_gt_0)

text \<open>The loop of \<open>copy_across\<close> with \<open>copied\<close> bytes done.\<close>

function copy_from ::
  "frame \<Rightarrow> u64 \<Rightarrow> frame \<Rightarrow> u64 \<Rightarrow> u64 \<Rightarrow> u64 \<Rightarrow> phys \<Rightarrow> (bool \<times> phys) option" where
  "copy_from src_root src_va dst_root dst_va len copied p =
     (if \<not> copied < len then Some (True, p)
      else do {
        src \<leftarrow> checked_add src_va copied;
        dst \<leftarrow> checked_add dst_va copied;
        case (translate p src_root src, translate p dst_root dst) of
          (Some src_pa, Some dst_pa) \<Rightarrow> do {
            let chunk = min (min (len - copied) (page_left src)) (page_left dst);
            let p = copy_nonoverlapping p (phys_to_virt p src_pa) (phys_to_virt p dst_pa) (unat chunk);
            copied' \<leftarrow> checked_add copied chunk;
            copy_from src_root src_va dst_root dst_va len copied' p
          }
        | _ \<Rightarrow> Some (False, p)
      })"
  by pat_completeness auto

termination
  by (relation "measure (\<lambda>(src_root, src_va, dst_root, dst_va, len, copied, p). 2 ^ 64 - unat copied)")
    (use unsigned_less [where 'b = 64 and 'a = nat] in
      \<open>auto intro!: diff_less_mono2 checked_add_grows copy_chunk_pos\<close>)

declare copy_from.simps [simp del]

definition copy_across ::
  "phys \<Rightarrow> frame \<Rightarrow> u64 \<Rightarrow> frame \<Rightarrow> u64 \<Rightarrow> u64 \<Rightarrow> (bool \<times> phys) option" where
  "copy_across p src_root src_va dst_root dst_va len =
     copy_from src_root src_va dst_root dst_va len 0 p"

section \<open>What a walk depends on\<close>

lemma bit_ADDR_MASK: "bit ADDR_MASK n \<longleftrightarrow> 12 \<le> n \<and> n < 48"
proof -
  have m: "ADDR_MASK = push_bit 12 (mask 36)" by (simp add: ADDR_MASK_def mask_eq_exp_minus_1)
  show ?thesis unfolding m bit_push_bit_iff bit_mask_iff by auto
qed

lemma page_mask: "(PAGE_SIZE - 1 :: u64) = mask 12"
  by (simp add: PAGE_SIZE_def FRAME_SIZE_def mask_eq_exp_minus_1)

lemma take_bit_12_iff: "take_bit 12 x = 0 \<longleftrightarrow> unat (x :: u64) mod 4096 = 0"
proof -
  have "take_bit 12 x = 0 \<longleftrightarrow> unat (take_bit 12 x) = 0" by (simp add: unat_eq_0)
  then show ?thesis by (simp only: unsigned_take_bit_eq take_bit_nat_def) simp
qed

lemma bit_block_mask:
  "bit (BLOCK_2MIB - 1) n \<longleftrightarrow> n < 21" "bit (512 * BLOCK_2MIB - 1) n \<longleftrightarrow> n < 30"
proof -
  have "BLOCK_2MIB - 1 = (mask 21 :: u64)" "512 * BLOCK_2MIB - 1 = (mask 30 :: u64)"
    by (simp_all add: BLOCK_2MIB_def mask_eq_exp_minus_1)
  then show "bit (BLOCK_2MIB - 1) n \<longleftrightarrow> n < 21" "bit (512 * BLOCK_2MIB - 1) n \<longleftrightarrow> n < 30"
    by (auto simp: bit_simps)
qed

lemma frame_from_addr_entry: "frame_from_addr (entry AND ADDR_MASK) = Some (entry_frame entry)"
proof -
  have "take_bit 12 (entry AND ADDR_MASK) = 0"
    by (rule bit_word_eqI) (simp add: bit_ADDR_MASK bit_simps)
  then have "(entry AND ADDR_MASK) mod FRAME_SIZE = 0"
    by (simp add: FRAME_SIZE_def take_bit_eq_mod)
  then show ?thesis by (simp add: frame_from_addr_def is_multiple_of_def entry_frame_def)
qed

text \<open>Bits 12 to 47 of the address choose the entries; the others do not matter.\<close>

definition page_bits :: "u64 \<Rightarrow> u64" where
  "page_bits va = va AND ADDR_MASK"

lemma page_bits_eq_iff:
  "page_bits va = page_bits va' \<longleftrightarrow> (\<forall>n. 12 \<le> n \<and> n < 48 \<longrightarrow> bit va n = bit va' n)"
proof
  show "\<forall>n. 12 \<le> n \<and> n < 48 \<longrightarrow> bit va n = bit va' n" if "page_bits va = page_bits va'"
    using that by (metis bit_ADDR_MASK bit_and_iff page_bits_def)
  show "page_bits va = page_bits va'" if "\<forall>n. 12 \<le> n \<and> n < 48 \<longrightarrow> bit va n = bit va' n"
    using that by (intro bit_word_eqI) (auto simp: page_bits_def bit_ADDR_MASK bit_simps)
qed

lemma table_index_cong:
  assumes "page_bits va = page_bits va'" "level \<le> 3"
  shows "table_index va level = table_index va' level"
proof -
  have bits: "bit va n = bit va' n" if "12 \<le> n" "n < 48" for n
    using assms(1) that by (simp add: page_bits_eq_iff)
  have m: "(0x1ff :: u64) = mask 9" by (simp add: mask_eq_exp_minus_1)
  have "drop_bit (39 - 9 * level) va AND mask 9 = drop_bit (39 - 9 * level) va' AND (mask 9 :: u64)"
  proof (rule bit_word_eqI)
    fix n assume "n < LENGTH(64)"
    have "12 \<le> 39 - 9 * level + n" "n < 9 \<Longrightarrow> 39 - 9 * level + n < 48"
      using assms(2) by auto
    then show "bit (drop_bit (39 - 9 * level) va AND mask 9) n \<longleftrightarrow>
        bit (drop_bit (39 - 9 * level) va' AND (mask 9 :: u64)) n"
      using bits by (auto simp: bit_simps)
  qed
  then show ?thesis by (simp add: table_index_def m)
qed

lemma table_index_less: "table_index va level < 512"
proof -
  have "drop_bit (39 - 9 * level) va AND 0x1ff \<le> 0x1ff" by (rule word_and_le1)
  then show ?thesis by (simp add: table_index_def word_le_nat_alt)
qed

lemma lookup_levels_cong:
  "page_bits va = page_bits va' \<Longrightarrow> \<forall>l \<in> set levels. l \<le> 3 \<Longrightarrow>
     lookup_levels p va levels table = lookup_levels p va' levels table"
  by (induction levels arbitrary: table) (simp_all add: table_index_cong [of va va'] Let_def)

lemma lookup_cong: "page_bits va = page_bits va' \<Longrightarrow> lookup p root va = lookup p root va'"
  unfolding lookup_def by (rule lookup_levels_cong) simp_all

lemma page_bits_offset:
  assumes "va AND (PAGE_SIZE - 1) = 0" "i < 4096"
  shows "page_bits (va + of_nat i) = page_bits va"
proof -
  have tb: "take_bit 12 va = 0" using assms(1) by (simp only: page_mask take_bit_eq_mask)
  have "i < 2 ^ 12" using assms(2) by simp
  then have "drop_bit 12 (va + of_nat i) = drop_bit 12 va"
    by (rule drop_bit_add_offset [OF tb]) simp
  then have "bit (va + of_nat i) n = bit va n" if "12 \<le> n" for n
  proof -
    define m where "m = n - 12"
    have n: "n = 12 + m" using that by (simp add: m_def)
    have "bit (drop_bit 12 (va + of_nat i)) m = bit (drop_bit 12 va) m"
      by (simp only: \<open>drop_bit 12 (va + of_nat i) = drop_bit 12 va\<close>)
    then show ?thesis by (simp add: n bit_drop_bit_eq)
  qed
  then show ?thesis by (simp add: page_bits_eq_iff)
qed

text \<open>Bits 48 to 63 are not part of a walk, canonical address or not.\<close>

lemma page_bits_noncanonical: "page_bits (va OR push_bit 48 k) = page_bits va"
  by (simp add: page_bits_eq_iff bit_simps)

lemma lookup_noncanonical: "lookup p root (va OR push_bit 48 k) = lookup p root va"
  by (rule lookup_cong [OF page_bits_noncanonical])

section \<open>The checks on user pointers\<close>

definition byte_allowed :: "phys \<Rightarrow> frame \<Rightarrow> (u64 \<Rightarrow> bool) \<Rightarrow> u64 \<Rightarrow> bool" where
  "byte_allowed p root allowed va =
     (case lookup p root va of None \<Rightarrow> False | Some entry \<Rightarrow> allowed (entry_ap entry))"

lemma pages_allowed_bytes:
  assumes "page AND (PAGE_SIZE - 1) = 0" "end \<le> KERNEL_BASE"
  shows "pages_allowed p root allowed end page =
    Some (\<forall>i. unat page + i < unat end \<longrightarrow> byte_allowed p root allowed (page + of_nat i))"
  using assms
proof (induction p root allowed "end" page rule: pages_allowed.induct)
  case (1 p root allowed "end" page)
  show ?case
  proof (cases "page < end")
    case False
    then show ?thesis by (simp add: pages_allowed.simps [of p] word_less_nat_alt)
  next
    case True
    let ?ok = "byte_allowed p root allowed"
    have same: "?ok (page + of_nat i) = ?ok page" if "i < 4096" for i
      using lookup_cong [OF page_bits_offset [OF 1(2) that]] by (simp add: byte_allowed_def)
    have first: "(\<forall>i. unat page + i < unat end \<longrightarrow> ?ok (page + of_nat i)) \<Longrightarrow> ?ok page"
      using True by (auto simp: word_less_nat_alt dest: spec [of _ 0])
    show ?thesis
    proof (cases "?ok page")
      case no: False
      then have "pages_allowed p root allowed end page = Some False"
        using True by (subst pages_allowed.simps) (auto simp: byte_allowed_def split: option.splits)
      with no first show ?thesis by auto
    next
      case yes: True
      then obtain entry where entry: "lookup p root page = Some entry" "allowed (entry_ap entry)"
        by (auto simp: byte_allowed_def split: option.splits)
      have kb: "unat end \<le> 0xffff000000000000"
        using 1(3) by (simp add: word_le_nat_alt KERNEL_BASE_def)
      have add: "checked_add page PAGE_SIZE = Some (page + 4096)" "unat (page + 4096) = unat page + 4096"
        using True kb unat_add_no_overflow [of page 4096]
        by (simp_all add: checked_add_def PAGE_SIZE_def FRAME_SIZE_def word_less_nat_alt)
      have al: "(page + 4096) AND (PAGE_SIZE - 1) = 0"
      proof -
        have "unat page mod 4096 = 0"
          using 1(2) by (simp only: page_mask take_bit_eq_mask [symmetric] take_bit_12_iff)
        then have "unat (page + 4096) mod 4096 = 0" unfolding add(2) by (metis mod_add_self2)
        then show ?thesis by (simp only: page_mask take_bit_eq_mask [symmetric] take_bit_12_iff)
      qed
      have "pages_allowed p root allowed end page = pages_allowed p root allowed end (page + 4096)"
        using True entry add by (subst pages_allowed.simps) simp
      also have "\<dots> = Some (\<forall>i. unat (page + 4096) + i < unat end \<longrightarrow> ?ok (page + 4096 + of_nat i))"
        using 1(1) True entry add al 1(3) by simp
      also have "(\<forall>i. unat (page + 4096) + i < unat end \<longrightarrow> ?ok (page + 4096 + of_nat i)) \<longleftrightarrow>
          (\<forall>i. unat page + i < unat end \<longrightarrow> ?ok (page + of_nat i))" (is "?L \<longleftrightarrow> ?R")
      proof
        assume L: ?L
        show ?R
        proof (intro allI impI)
          fix i assume i: "unat page + i < unat end"
          show "?ok (page + of_nat i)"
          proof (cases "i < 4096")
            case False
            define k where "k = i - 4096"
            have k: "i = 4096 + k" using False by (simp add: k_def)
            then have "?ok (page + 4096 + of_nat k)" using L i add(2) by simp
            then show ?thesis by (simp add: k add.assoc)
          qed (use same yes in simp)
        qed
      next
        assume R: ?R
        show ?L
        proof (intro allI impI)
          fix i assume "unat (page + 4096) + i < unat end"
          then have "?ok (page + of_nat (4096 + i))" using R add(2) by (metis add.assoc)
          then show "?ok (page + 4096 + of_nat i)" by (simp add: add.assoc)
        qed
      qed
      finally show ?thesis .
    qed
  qed
qed

lemma user_range_bytes:
  "user_range p root va len allowed = Some
     (len = 0 \<or> unat va + unat len \<le> unat KERNEL_BASE \<and>
        (\<forall>i < unat len. byte_allowed p root allowed (va + of_nat i)))"
proof (cases "len = 0")
  case True
  then show ?thesis by (simp add: user_range_def)
next
  case False
  have kb: "unat KERNEL_BASE < 2 ^ 64" using unsigned_less [of KERNEL_BASE, where 'a = nat] by simp
  show ?thesis
  proof (cases "unat va + unat len \<le> unat KERNEL_BASE")
    case no: False
    then show ?thesis
      using False unat_add_no_overflow [of va len]
      by (auto simp: user_range_def checked_add_def word_less_nat_alt)
  next
    case yes: True
    let ?stop = "va + len" and ?page = "va AND NOT (PAGE_SIZE - 1)"
    have e: "unat ?stop = unat va + unat len" using yes kb unat_add_no_overflow [of va len] by simp
    have add: "checked_add va len = Some ?stop" using yes kb by (simp add: checked_add_def)
    have le: "?stop \<le> KERNEL_BASE" using yes e by (simp add: word_le_nat_alt)
    have al: "?page AND (PAGE_SIZE - 1) = 0"
      by (rule bit_word_eqI) (auto simp: bit_simps)
    define off where "off = unat (va AND (PAGE_SIZE - 1))"
    have split: "va = ?page + of_nat off"
    proof -
      have d: "?page AND (va AND (PAGE_SIZE - 1)) = 0"
        by (rule bit_word_eqI) (auto simp: bit_simps)
      have o: "?page OR (va AND (PAGE_SIZE - 1)) = va"
        by (rule bit_word_eqI) (auto simp: bit_simps)
      show ?thesis using disjunctive_add_eq_or [OF d] o by (simp add: off_def)
    qed
    have shift: "?page + of_nat (off + i) = va + of_nat i" for i
      by (subst (2) split) (simp only: of_nat_add add.assoc)
    have off: "off < 4096"
    proof -
      have "va AND (PAGE_SIZE - 1) \<le> PAGE_SIZE - 1" by (rule word_and_le1)
      then show ?thesis by (simp add: off_def word_le_nat_alt PAGE_SIZE_def FRAME_SIZE_def)
    qed
    have ple: "?page \<le> va" by (rule word_and_le2)
    have upage: "unat va = unat ?page + off"
    proof -
      have "va - ?page = of_nat off" using split by (metis add_diff_cancel_left')
      then have "unat (va - ?page) = off" using off by (simp add: unat_of_nat_u64)
      then show ?thesis
        using unat_sub_no_underflow [OF ple] ple by (simp add: word_le_nat_alt)
    qed
    have "user_range p root va len allowed = pages_allowed p root allowed ?stop ?page"
      using False add le leD [OF le] by (simp add: user_range_def)
    also have "\<dots> = Some (\<forall>i. unat ?page + i < unat ?stop \<longrightarrow>
        byte_allowed p root allowed (?page + of_nat i))"
      by (rule pages_allowed_bytes [OF al le])
    also have "(\<forall>i. unat ?page + i < unat ?stop \<longrightarrow> byte_allowed p root allowed (?page + of_nat i)) \<longleftrightarrow>
        (\<forall>i < unat len. byte_allowed p root allowed (va + of_nat i))" (is "?L \<longleftrightarrow> ?R")
    proof
      assume L: ?L
      show ?R
      proof (intro allI impI)
        fix i assume "i < unat len"
        then have "unat ?page + (off + i) < unat ?stop" using e upage by simp
        then have "byte_allowed p root allowed (?page + of_nat (off + i))" by (rule L [rule_format])
        then show "byte_allowed p root allowed (va + of_nat i)"
          by (simp only: shift)
      qed
    next
      assume R: ?R
      have first: "byte_allowed p root allowed ?page"
      proof -
        have "0 < unat len" using False by (simp add: unat_gt_0)
        from R [rule_format, OF this] have "byte_allowed p root allowed va" by simp
        then show ?thesis
          using lookup_cong [OF page_bits_offset [OF al off], folded split]
          by (simp add: byte_allowed_def)
      qed
      show ?L
      proof (intro allI impI)
        fix i assume i: "unat ?page + i < unat ?stop"
        show "byte_allowed p root allowed (?page + of_nat i)"
        proof (cases "i < off")
          case True
          then have "i < 4096" using off by simp
          from lookup_cong [OF page_bits_offset [OF al this]] first
          show ?thesis by (simp add: byte_allowed_def)
        next
          case False
          define k where "k = i - off"
          have k: "i = off + k" using False by (simp add: k_def)
          then have "k < unat len" using i e upage by simp
          with R have "byte_allowed p root allowed (va + of_nat k)" by blast
          then show ?thesis by (simp only: k shift)
        qed
      qed
    qed
    finally show ?thesis using False yes by simp
  qed
qed

lemma user_range_total [ok_simps]: "user_range p root va len allowed \<noteq> None"
  by (simp add: user_range_bytes)

text \<open>What a positive answer gives for every byte of the range.\<close>

definition readable_byte :: "phys \<Rightarrow> frame \<Rightarrow> u64 \<Rightarrow> bool" where
  "readable_byte p root va =
     byte_allowed p root (\<lambda>ap. ap = AP_RW_ALL \<or> ap = AP_RO_ALL) va"

definition writable_byte :: "phys \<Rightarrow> frame \<Rightarrow> u64 \<Rightarrow> bool" where
  "writable_byte p root va = byte_allowed p root (\<lambda>ap. ap = AP_RW_ALL) va"

lemma user_readable_bytes:
  "user_readable p root va len = Some
     (len = 0 \<or> unat va + unat len \<le> unat KERNEL_BASE \<and>
        (\<forall>i < unat len. readable_byte p root (va + of_nat i)))"
  by (simp add: user_readable_def user_range_bytes readable_byte_def)

lemma user_writable_bytes:
  "user_writable p root va len = Some
     (len = 0 \<or> unat va + unat len \<le> unat KERNEL_BASE \<and>
        (\<forall>i < unat len. writable_byte p root (va + of_nat i)))"
  by (simp add: user_writable_def user_range_bytes writable_byte_def)

section \<open>Translation\<close>

text \<open>The bytes of a table entry, and those a walk reads.\<close>

definition entry_bytes :: "frame \<Rightarrow> nat \<Rightarrow> u64 set" where
  "entry_bytes table index = (\<lambda>i. addr table + 8 * of_nat index + of_nat i) ` {..<8}"

primrec walk_levels :: "phys \<Rightarrow> u64 \<Rightarrow> nat list \<Rightarrow> frame \<Rightarrow> u64 set" where
  "walk_levels p va [] table = entry_bytes table (table_index va 3)"
| "walk_levels p va (level # levels) table =
     entry_bytes table (table_index va level) \<union>
     (let entry = read_entry p table (table_index va level) in
      if entry AND VALID = 0 \<or> entry AND TABLE_OR_PAGE = 0 then {}
      else walk_levels p va levels (entry_frame entry))"

definition walk_bytes :: "phys \<Rightarrow> frame \<Rightarrow> u64 \<Rightarrow> u64 set" where
  "walk_bytes p root va = walk_levels p va [0, 1, 2] root"

lemma kernel_pa_entry:
  "kernel_pa p (table_ptr p table + 8 * of_nat index) = addr table + 8 * of_nat index"
  by (simp add: table_ptr_def phys_to_virt_add)

lemma read_entry_cong:
  assumes "phys_offset q = phys_offset p" "\<forall>a \<in> entry_bytes table index. pmem q a = pmem p a"
  shows "read_entry q table index = read_entry p table index"
proof -
  have "table_ptr q table = table_ptr p table"
    using phys_to_virt_cong [OF assms(1)] by (simp add: table_ptr_def)
  moreover have "read_u64 q (table_ptr p table + 8 * of_nat index) =
      read_u64 p (table_ptr p table + 8 * of_nat index)"
    using assms by (intro read_u64_cong) (auto simp: kernel_pa_entry entry_bytes_def)
  ultimately show ?thesis by (simp add: read_entry_def)
qed

lemma walk_levels_cong:
  assumes "phys_offset q = phys_offset p" "\<forall>a \<in> walk_levels p va levels table. pmem q a = pmem p a"
  shows "translate_levels q va levels table = translate_levels p va levels table \<and>
    lookup_levels q va levels table = lookup_levels p va levels table \<and>
    walk_levels q va levels table = walk_levels p va levels table"
  using assms(2)
proof (induction levels arbitrary: table)
  case Nil
  then have "read_entry q table (table_index va 3) = read_entry p table (table_index va 3)"
    by (intro read_entry_cong assms(1)) simp
  then show ?case by simp
next
  case (Cons level levels)
  have "read_entry q table (table_index va level) = read_entry p table (table_index va level)"
    using Cons.prems by (intro read_entry_cong assms(1)) simp
  then show ?case using Cons by (simp add: Let_def)
qed

lemma translate_cong:
  assumes "phys_offset q = phys_offset p" "\<forall>a \<in> walk_bytes p root va. pmem q a = pmem p a"
  shows "translate q root va = translate p root va" "lookup q root va = lookup p root va"
    "walk_bytes q root va = walk_bytes p root va"
  using walk_levels_cong [OF assms [unfolded walk_bytes_def]]
  by (simp_all add: translate_def walk_bytes_def lookup_def)

text \<open>A byte that translates is mapped. The converse fails only for a leaf at level 0.\<close>

lemma translate_lookup_levels:
  "translate_levels p va levels table = Some pa \<Longrightarrow> \<exists>entry. lookup_levels p va levels table = Some entry"
  by (induction levels arbitrary: table) (auto simp: Let_def split: if_splits)

lemma lookup_translate_levels:
  "lookup_levels p va levels table = Some entry \<Longrightarrow> \<forall>l \<in> set levels. l = 1 \<or> l = 2 \<Longrightarrow>
     \<exists>pa. translate_levels p va levels table = Some pa"
  by (induction levels arbitrary: table) (auto simp: Let_def block_size_def split: if_splits)

lemma lookup_iff_translate:
  "lookup p root va = None \<Longrightarrow> translate p root va = None"
  "read_entry p root (table_index va 0) AND TABLE_OR_PAGE \<noteq> 0 \<Longrightarrow>
     translate p root va = None \<longleftrightarrow> lookup p root va = None"
  "read_entry p root (table_index va 0) AND TABLE_OR_PAGE = 0 \<Longrightarrow> translate p root va = None"
proof -
  show "translate p root va = None" if "lookup p root va = None"
    using translate_lookup_levels [of p va "[0, 1, 2]" root] that
    by (cases "translate p root va") (auto simp: translate_def lookup_def)
  show "translate p root va = None \<longleftrightarrow> lookup p root va = None"
    if "read_entry p root (table_index va 0) AND TABLE_OR_PAGE \<noteq> 0"
  proof -
    let ?t = "entry_frame (read_entry p root (table_index va 0))"
    have "translate_levels p va [1, 2] ?t = None \<longleftrightarrow> lookup_levels p va [1, 2] ?t = None"
      using translate_lookup_levels [of p va "[1, 2]" ?t] lookup_translate_levels [of p va "[1, 2]" ?t]
      by (cases "translate_levels p va [1, 2] ?t"; cases "lookup_levels p va [1, 2] ?t") auto
    with that show ?thesis by (simp add: translate_def lookup_def Let_def del: translate_levels.simps(2)
        lookup_levels.simps(2) add: translate_levels.simps(2) [of p va 0] lookup_levels.simps(2) [of p va 0])
  qed
  show "translate p root va = None" if "read_entry p root (table_index va 0) AND TABLE_OR_PAGE = 0"
    using that by (simp add: translate_def block_size_def Let_def)
qed

text \<open>Within a page, translation adds the offset.\<close>

lemma take_bit_add_offset:
  assumes "unat (take_bit 12 va) + i < 4096" "12 \<le> k" "k < 64"
  shows "take_bit k (va + of_nat i) = take_bit k va + (of_nat i :: u64)"
    "unat (take_bit k va) + i < 2 ^ k"
proof -
  have i: "i < 4096" using assms(1) by simp
  obtain j where k: "k = 12 + j" using assms(2) le_Suc_ex by blast
  let ?n = "unat va"
  have m12: "unat (take_bit 12 va) = ?n mod 4096" "unat (take_bit k va) = ?n mod 2 ^ k"
    by (simp_all add: unsigned_take_bit_eq take_bit_nat_def)
  have "?n mod 2 ^ k = 4096 * (?n div 4096 mod 2 ^ j) + ?n mod 4096"
    by (simp add: k power_add mod_mult2_eq)
  moreover have "?n div 4096 mod 2 ^ j < 2 ^ j" by simp
  then have "4096 * Suc (?n div 4096 mod 2 ^ j) \<le> 4096 * 2 ^ j" by (intro mult_le_mono2 Suc_leI)
  ultimately show lt: "unat (take_bit k va) + i < 2 ^ k"
    using assms(1) m12 by (simp add: k power_add)
  have p: "(2::nat) ^ k < 2 ^ 64" using assms(3) by (intro power_strict_increasing) simp_all
  have ui: "unat (of_nat i :: u64) = i" using i by (intro unat_of_nat_u64) simp
  have sum: "unat (take_bit k va + of_nat i) = ?n mod 2 ^ k + i"
    using unat_add_no_overflow [of "take_bit k va" "of_nat i"] lt p ui m12 by simp
  have "unat (take_bit k (va + of_nat i)) = unat (va + of_nat i) mod 2 ^ k"
    by (simp add: unsigned_take_bit_eq take_bit_nat_def)
  also have "unat (va + of_nat i) = (?n + i) mod 2 ^ 64"
    using ui by (simp add: unat_word_ariths)
  also have "(?n + i) mod 2 ^ 64 mod 2 ^ k = (?n + i) mod 2 ^ k"
  proof -
    have "(2::nat) ^ k dvd 2 ^ 64" using assms(3) by (intro le_imp_power_dvd) simp
    then show ?thesis by (rule mod_mod_cancel)
  qed
  also have "\<dots> = (?n mod 2 ^ k + i) mod 2 ^ k" by (simp add: mod_add_left_eq)
  also have "\<dots> = ?n mod 2 ^ k + i" using lt m12 by simp
  finally show "take_bit k (va + of_nat i) = take_bit k va + of_nat i"
    using sum by (metis word_unat_eq_iff)
qed

lemma or_offset:
  assumes "unat (take_bit 12 va) + i < 4096" "12 \<le> k" "k < 64" "take_bit k base = (0 :: u64)"
  shows "base OR take_bit k (va + of_nat i) = (base OR take_bit k va) + of_nat i"
proof -
  have d: "base AND take_bit k x = 0" for x
  proof (rule bit_word_eqI)
    fix n
    have "\<not> bit (take_bit k base) n" by (simp add: assms(4))
    then show "bit (base AND take_bit k x) n \<longleftrightarrow> bit (0 :: u64) n" by (auto simp: bit_simps)
  qed
  have a: "base OR take_bit k x = base + take_bit k x" for x
    by (rule disjunctive_add_eq_or [OF d, symmetric])
  show ?thesis unfolding a by (simp only: take_bit_add_offset(1) [OF assms(1-3)] add.assoc)
qed

lemma page_bits_within:
  assumes "unat (take_bit 12 va) + i < 4096"
  shows "page_bits (va + of_nat i) = page_bits va"
proof -
  have "bit (va + of_nat i) n = bit va n" if n: "12 \<le> n" "n < 48" for n
  proof -
    define b where "b = va - take_bit 12 va"
    have va: "va = b + take_bit 12 va" by (simp add: b_def)
    have b0: "take_bit 12 b = 0"
    proof -
      have "unat b = unat va - unat va mod 4096"
        unfolding b_def by (subst unat_sub_no_underflow)
          (simp_all add: word_le_nat_alt unsigned_take_bit_eq take_bit_nat_def)
      then show ?thesis by (simp only: take_bit_12_iff) (simp add: minus_mod_eq_mult_div)
    qed
    have t: "unat (take_bit 12 va) < 2 ^ 12" using assms by simp
    have "drop_bit 12 va = drop_bit 12 b"
      using drop_bit_add_offset [OF b0 t] va by simp
    moreover have "drop_bit 12 (va + of_nat i) = drop_bit 12 b"
    proof -
      have e: "va + of_nat i = b + of_nat (unat (take_bit 12 va) + i)"
        by (subst va) (simp add: add.assoc)
      have lt: "unat (take_bit 12 va) + i < 2 ^ 12" using assms by simp
      show ?thesis unfolding e by (rule drop_bit_add_offset [OF b0 lt]) simp
    qed
    ultimately have eq: "drop_bit 12 (va + of_nat i) = drop_bit 12 va" by simp
    define k where "k = n - 12"
    have "n = 12 + k" using n by (simp add: k_def)
    moreover have "bit (drop_bit 12 (va + of_nat i)) k = bit (drop_bit 12 va) k" by (simp only: eq)
    ultimately show ?thesis by (simp add: bit_drop_bit_eq)
  qed
  then show ?thesis by (simp add: page_bits_eq_iff)
qed

lemma block_masks:
  "PAGE_SIZE - 1 = mask 12" "BLOCK_2MIB - 1 = mask 21" "512 * BLOCK_2MIB - 1 = mask 30"
  by (simp_all add: PAGE_SIZE_def FRAME_SIZE_def BLOCK_2MIB_def mask_eq_exp_minus_1)

lemma translate_levels_within:
  assumes off: "unat (take_bit 12 va) + i < 4096"
    and "translate_levels p va levels table = Some pa" "\<forall>l \<in> set levels. l \<le> 3"
  shows "translate_levels p (va + of_nat i) levels table = Some (pa + of_nat i)"
  using assms(2,3)
proof (induction levels arbitrary: table)
  case Nil
  have ix: "table_index (va + of_nat i) 3 = table_index va 3"
    using table_index_cong [OF page_bits_within [OF off]] by simp
  have z: "take_bit 12 (e AND ADDR_MASK) = 0" for e :: u64
    by (rule bit_word_eqI) (simp add: bit_ADDR_MASK bit_simps)
  from Nil show ?case
    using or_offset [OF off _ _ z]
    by (auto simp: ix Let_def block_masks(1) take_bit_eq_mask [symmetric] split: if_splits)
next
  case (Cons level levels)
  let ?e = "read_entry p table (table_index va level)"
  have ix: "table_index (va + of_nat i) level = table_index va level"
    using table_index_cong [OF page_bits_within [OF off]] Cons.prems(2) by simp
  show ?case
  proof (cases "?e AND VALID \<noteq> 0 \<and> ?e AND TABLE_OR_PAGE = 0")
    case True
    then obtain sz where sz: "block_size level = Some sz"
      "pa = (?e AND ADDR_MASK AND NOT (sz - 1)) OR (va AND (sz - 1))"
      using Cons.prems(1) by (auto simp: Let_def bind_eq_Some_conv)
    then obtain k where k: "sz - 1 = mask k" "12 \<le> k" "k < 64"
      using block_masks(2,3) by (auto simp: block_size_def split: if_splits)
    have z: "take_bit k (?e AND ADDR_MASK AND NOT (sz - 1)) = 0"
      by (rule bit_word_eqI) (simp add: k(1) bit_simps)
    have "(?e AND ADDR_MASK AND NOT (sz - 1)) OR ((va + of_nat i) AND (sz - 1)) = pa + of_nat i"
      using or_offset [OF off k(2,3) z] sz(2) by (simp only: k(1) take_bit_eq_mask)
    with True sz(1) show ?thesis by (simp add: ix Let_def)
  next
    case False
    with Cons show ?thesis by (auto simp: ix Let_def split: if_splits)
  qed
qed

lemma translate_within:
  assumes "unat (take_bit 12 va) + i < 4096" "translate p root va = Some pa"
  shows "translate p root (va + of_nat i) = Some (pa + of_nat i)"
  using translate_levels_within [OF assms(1) assms(2) [unfolded translate_def]]
  by (simp add: translate_def)

section \<open>The copy\<close>

text \<open>
  \<open>copies p p' s d n\<close>: memory \<open>p'\<close> is \<open>p\<close> with the bytes at \<open>s 0, s 1, ...\<close> put
  at \<open>d 0, d 1, ...\<close>, and nothing else changed.
\<close>

definition copies :: "phys \<Rightarrow> phys \<Rightarrow> (nat \<Rightarrow> u64) \<Rightarrow> (nat \<Rightarrow> u64) \<Rightarrow> nat \<Rightarrow> bool" where
  "copies p p' s d n \<longleftrightarrow> phys_offset p' = phys_offset p \<and>
     (\<forall>i < n. pmem p' (d i) = pmem p (s i)) \<and> (\<forall>a. a \<notin> d ` {..<n} \<longrightarrow> pmem p' a = pmem p a)"

text \<open>
  Both ranges are mapped, and the bytes to be written are distinct, are not among those to be
  read, and are not part of any table the walks go through.
\<close>

definition copy_ok :: "phys \<Rightarrow> frame \<Rightarrow> u64 \<Rightarrow> frame \<Rightarrow> u64 \<Rightarrow> u64 \<Rightarrow> (nat \<Rightarrow> u64) \<Rightarrow> (nat \<Rightarrow> u64) \<Rightarrow> bool"
  where
  "copy_ok p sr sv dr dv len s d \<longleftrightarrow>
     unat sv + unat len < 2 ^ 64 \<and> unat dv + unat len < 2 ^ 64 \<and>
     (\<forall>i < unat len. translate p sr (sv + of_nat i) = Some (s i) \<and>
                      translate p dr (dv + of_nat i) = Some (d i)) \<and>
     (\<forall>i < unat len. \<forall>j < unat len. d i \<noteq> s j \<and> (d i = d j \<longrightarrow> i = j) \<and>
        d i \<notin> walk_bytes p sr (sv + of_nat j) \<and> d i \<notin> walk_bytes p dr (dv + of_nat j))"

lemma page_left_unat: "unat (page_left a) = 4096 - unat (take_bit 12 a)"
proof -
  have "take_bit 12 a \<le> mask 12" by (simp add: take_bit_eq_mask word_and_le1)
  then have "take_bit 12 a \<le> 4095" by (simp add: mask_eq_exp_minus_1)
  also have "(4095 :: u64) \<le> 4096" by simp
  finally have "take_bit 12 a \<le> PAGE_SIZE" by (simp only: PAGE_SIZE_def FRAME_SIZE_def)
  then show ?thesis
    unfolding page_left_def page_mask take_bit_eq_mask [symmetric]
    by (simp only: unat_sub) (simp add: PAGE_SIZE_def FRAME_SIZE_def)
qed

lemma copy_from_exact:
  assumes ok: "copy_ok p0 sr sv dr dv len s d" and "copies p0 p s d (unat copied)" "copied \<le> len"
  shows "\<exists>p'. copy_from sr sv dr dv len copied p = Some (True, p') \<and> copies p0 p' s d (unat len)"
  using assms(2,3)
proof (induction "unat len - unat copied" arbitrary: copied p rule: less_induct)
  case less
  show ?case
  proof (cases "copied < len")
    case False
    then have "copied = len" using less.prems(2) by simp
    with less.prems(1) show ?thesis by (subst copy_from.simps) simp
  next
    case True
    let ?c = "unat copied" and ?n = "unat len"
    have lt: "?c < ?n" using True by (simp add: word_less_nat_alt)
    have wrap: "unat sv + ?n < 2 ^ 64" "unat dv + ?n < 2 ^ 64" using ok by (simp_all add: copy_ok_def)
    have tr: "translate p0 sr (sv + of_nat i) = Some (s i)" "translate p0 dr (dv + of_nat i) = Some (d i)"
      if "i < ?n" for i using ok that by (simp_all add: copy_ok_def)
    have sep: "d i \<noteq> s j" "d i = d j \<longrightarrow> i = j" "d i \<notin> walk_bytes p0 sr (sv + of_nat j)"
      "d i \<notin> walk_bytes p0 dr (dv + of_nat j)" if "i < ?n" "j < ?n" for i j
      using ok that by (auto simp: copy_ok_def)
    have off: "phys_offset p = phys_offset p0" using less.prems(1) by (simp add: copies_def)
    have same: "pmem p a = pmem p0 a" if "a \<notin> d ` {..<?c}" for a
      using less.prems(1) that by (simp add: copies_def)
    have walk: "\<forall>a \<in> walk_bytes p0 sr (sv + of_nat j). pmem p a = pmem p0 a"
      "\<forall>a \<in> walk_bytes p0 dr (dv + of_nat j). pmem p a = pmem p0 a" if "j < ?n" for j
      using sep(3,4) that lt by (auto intro!: same)
    have ptr: "translate p sr (sv + of_nat i) = Some (s i)" "translate p dr (dv + of_nat i) = Some (d i)"
      if "i < ?n" for i
      using translate_cong(1) [OF off walk(1) [OF that]] translate_cong(1) [OF off walk(2) [OF that]]
        tr that by auto
    let ?src = "sv + copied" and ?dst = "dv + copied"
    have add: "checked_add sv copied = Some ?src" "checked_add dv copied = Some ?dst"
      using wrap lt by (simp_all add: checked_add_def)
    define chunk where "chunk = min (min (len - copied) (page_left ?src)) (page_left ?dst)"
    have uc: "unat chunk = min (min (?n - ?c) (4096 - unat (take_bit 12 ?src))) (4096 - unat (take_bit 12 ?dst))"
      using less.prems(2)
      by (simp add: chunk_def page_left_unat [symmetric] unat_sub [symmetric] min_def word_le_nat_alt)
    have "unat chunk \<le> ?n - ?c" unfolding uc by (simp add: min.coboundedI1)
    then have fit: "?c + unat chunk \<le> ?n" using lt by linarith
    have pos: "0 < unat chunk"
      using copy_chunk_pos [OF True, of ?src ?dst] by (simp add: chunk_def [symmetric] word_less_nat_alt)
    have within: "s (?c + i) = s ?c + of_nat i" "d (?c + i) = d ?c + of_nat i" if i: "i < unat chunk" for i
    proof -
      have l: "?c + i < ?n" "unat (take_bit 12 ?src) + i < 4096" "unat (take_bit 12 ?dst) + i < 4096"
        using i uc lt by auto
      have "translate p sr (?src + of_nat i) = Some (s ?c + of_nat i)"
        "translate p dr (?dst + of_nat i) = Some (d ?c + of_nat i)"
        using ptr [OF lt] l by (auto intro!: translate_within)
      then show "s (?c + i) = s ?c + of_nat i" "d (?c + i) = d ?c + of_nat i"
        using ptr [OF l(1)] by (simp_all add: add.assoc)
    qed
    define p1 where
      "p1 = copy_nonoverlapping p (phys_to_virt p (s ?c)) (phys_to_virt p (d ?c)) (unat chunk)"
    have p1: "pmem p1 a = (if unat (a - d ?c) < unat chunk then pmem p (s ?c + (a - d ?c)) else pmem p a)"
      for a by (simp add: p1_def copy_nonoverlapping_def)
    have cadd: "checked_add copied chunk = Some (copied + chunk)" "unat (copied + chunk) = ?c + unat chunk"
    proof -
      have "?c + unat chunk < 2 ^ 64" using fit unsigned_less [of len, where 'a = nat] by simp
      then show "checked_add copied chunk = Some (copied + chunk)" "unat (copied + chunk) = ?c + unat chunk"
        using unat_add_no_overflow [of copied chunk] by (simp_all add: checked_add_def)
    qed
    have step: "copy_from sr sv dr dv len copied p = copy_from sr sv dr dv len (copied + chunk) p1"
      using True add ptr [OF lt] cadd(1)
      by (subst copy_from.simps) (simp add: chunk_def [symmetric] p1_def Let_def)
    have "copies p0 p1 s d (?c + unat chunk)"
      unfolding copies_def
    proof (intro conjI allI impI)
      show "phys_offset p1 = phys_offset p0" using off by (simp add: p1_def)
    next
      fix i assume i: "i < ?c + unat chunk"
      have n: "i < ?n" using i fit by linarith
      show "pmem p1 (d i) = pmem p0 (s i)"
      proof (cases "i < ?c")
        case True
        have "\<not> unat (d i - d ?c) < unat chunk"
        proof
          assume j: "unat (d i - d ?c) < unat chunk"
          have "d (?c + unat (d i - d ?c)) = d i" using within(2) [OF j] by simp
          then show False using sep(2) [OF n, of "?c + unat (d i - d ?c)"] j True fit by auto
        qed
        then show ?thesis using less.prems(1) True by (simp add: p1 copies_def)
      next
        case False
        define j where "j = i - ?c"
        have j: "i = ?c + j" "j < unat chunk" using False i by (simp_all add: j_def)
        have u: "unat (of_nat j :: u64) = j"
          using j(2) unsigned_less [of chunk, where 'a = nat] by (intro unat_of_nat_u64) simp
        have "pmem p1 (d i) = pmem p (s i)"
          using within [OF j(2)] j u by (simp add: p1)
        also have "\<dots> = pmem p0 (s i)"
        proof (rule same, rule notI)
          assume "s i \<in> d ` {..<?c}"
          then obtain x where "s i = d x" "x < ?c" by blast
          then show False using sep(1) [of x i] n lt by simp
        qed
        finally show ?thesis .
      qed
    next
      fix a assume a: "a \<notin> d ` {..<?c + unat chunk}"
      have "\<not> unat (a - d ?c) < unat chunk"
      proof
        assume j: "unat (a - d ?c) < unat chunk"
        then have "a = d (?c + unat (a - d ?c))" using within(2) [OF j] by simp
        then show False using a j by auto
      qed
      moreover have "a \<notin> d ` {..<?c}" using a by fastforce
      ultimately show "pmem p1 a = pmem p0 a" using same [of a] by (simp add: p1)
    qed
    then have "copies p0 p1 s d (unat (copied + chunk))" by (simp only: cadd(2))
    moreover have "copied + chunk \<le> len" using cadd(2) fit by (simp add: word_le_nat_alt)
    moreover have "?n - unat (copied + chunk) < ?n - ?c" using cadd(2) pos lt by simp
    ultimately show ?thesis unfolding step by (intro less.hyps)
  qed
qed

lemma copy_across_exact:
  assumes "copy_ok p sr sv dr dv len s d"
  shows "\<exists>p'. copy_across p sr sv dr dv len = Some (True, p') \<and> copies p p' s d (unat len)"
  using copy_from_exact [OF assms, of p 0] by (simp add: copy_across_def copies_def)

text \<open>Without those assumptions the copy still answers, as long as the ranges do not wrap.\<close>

lemma copy_from_total:
  assumes "unat sv + unat len < 2 ^ 64" "unat dv + unat len < 2 ^ 64"
  shows "copied \<le> len \<Longrightarrow> copy_from sr sv dr dv len copied p \<noteq> None"
proof (induction "unat len - unat copied" arbitrary: copied p rule: less_induct)
  case less
  show ?case
  proof (cases "copied < len")
    case True
    have lt: "unat copied < unat len" using True by (simp add: word_less_nat_alt)
    have add: "checked_add sv copied = Some (sv + copied)" "checked_add dv copied = Some (dv + copied)"
      using assms lt by (simp_all add: checked_add_def)
    define chunk where
      "chunk = min (min (len - copied) (page_left (sv + copied))) (page_left (dv + copied))"
    have pos: "0 < unat chunk"
      using copy_chunk_pos [OF True, of "sv + copied" "dv + copied"]
      by (simp add: chunk_def [symmetric] word_less_nat_alt)
    have "chunk \<le> len - copied" by (simp add: chunk_def min.coboundedI1)
    then have uc: "unat chunk \<le> unat len - unat copied"
      using less.prems by (simp add: word_le_nat_alt unat_sub)
    then have cadd: "checked_add copied chunk = Some (copied + chunk)"
      "unat (copied + chunk) = unat copied + unat chunk"
      using lt unsigned_less [of len, where 'a = nat] unat_add_no_overflow [of copied chunk]
      by (simp_all add: checked_add_def)
    then have le: "copied + chunk \<le> len" using uc lt by (simp add: word_le_nat_alt)
    have dec: "unat len - unat (copied + chunk) < unat len - unat copied" using cadd(2) pos lt by simp
    show ?thesis
      using less.hyps [OF dec le] True add cadd(1)
      by (subst copy_from.simps) (auto simp: chunk_def [symmetric] Let_def split: option.splits)
  qed (subst copy_from.simps, simp)
qed

lemma copy_across_total:
  "unat sv + unat len < 2 ^ 64 \<Longrightarrow> unat dv + unat len < 2 ^ 64 \<Longrightarrow>
     \<exists>ok p'. copy_across p sr sv dr dv len = Some (ok, p')"
  using copy_from_total [of sv len dv 0 sr dr p] by (auto simp: copy_across_def)

section \<open>Entries as an array\<close>

definition frame_aligned :: "frame \<Rightarrow> bool" where
  "frame_aligned f \<longleftrightarrow> take_bit 12 (addr f) = 0"

lemma frame_aligned_entry [simp]: "frame_aligned (entry_frame e)"
proof -
  have "take_bit 12 (e AND ADDR_MASK) = 0"
    by (rule bit_word_eqI) (simp add: bit_ADDR_MASK bit_simps)
  then show ?thesis by (simp add: frame_aligned_def entry_frame_def)
qed

lemma entry_offset: "i < 512 \<Longrightarrow> addr t + 8 * of_nat i = addr t + of_nat (8 * i)"
  by simp

lemma entry_upper:
  assumes "frame_aligned t" "i < 512" "b < 8"
  shows "drop_bit 12 (addr t + 8 * of_nat i + of_nat b) = drop_bit 12 (addr t)"
proof -
  have "addr t + 8 * of_nat i + of_nat b = addr t + of_nat (8 * i + b)" by (simp add: add.assoc)
  moreover have "8 * i + b < 2 ^ 12" using assms(2,3) by simp
  ultimately show ?thesis
    using drop_bit_add_offset [of 12 "addr t" "8 * i + b"] assms(1) by (simp only: frame_aligned_def)
qed

lemma entry_low: "frame_aligned t \<Longrightarrow> take_bit 3 (addr t + 8 * of_nat i) = 0"
proof -
  assume "frame_aligned t"
  then have "take_bit 3 (take_bit 12 (addr t)) = 0" by (simp only: frame_aligned_def) simp
  then have "take_bit 3 (addr t) = 0" by simp
  then have "8 dvd addr t" by (simp add: take_bit_eq_0_iff)
  then have "8 dvd addr t + 8 * of_nat i" by (intro dvd_add) simp_all
  then show ?thesis by (simp add: take_bit_eq_0_iff)
qed

lemma entry_address_inj:
  assumes "frame_aligned t" "frame_aligned t'" "i < 512" "j < 512"
    and "addr t + 8 * of_nat i = addr t' + 8 * of_nat j"
  shows "t = t' \<and> i = j"
proof -
  have "drop_bit 12 (addr t + 8 * of_nat i) = drop_bit 12 (addr t)"
    "drop_bit 12 (addr t' + 8 * of_nat j) = drop_bit 12 (addr t')"
    using entry_upper [OF assms(1,3), of 0] entry_upper [OF assms(2,4), of 0] by simp_all
  then have "drop_bit 12 (addr t) = drop_bit 12 (addr t')" unfolding assms(5) by (rule trans [OF sym])
  then have a: "addr t = addr t'"
    by (rule aligned_eqI [OF assms(1,2) [unfolded frame_aligned_def]])
  with assms(5) have "8 * of_nat i = (8 * of_nat j :: u64)" by simp
  then have "(of_nat (8 * i) :: u64) = of_nat (8 * j)" by simp
  then have "unat (of_nat (8 * i) :: u64) = unat (of_nat (8 * j) :: u64)" by simp
  moreover have "8 * i < 2 ^ 64" "8 * j < 2 ^ 64" using assms(3,4) by simp_all
  ultimately have "8 * i = 8 * j" by (simp only: unat_of_nat_u64)
  with a show ?thesis by (simp add: frame.expand)
qed

lemma read_entry_write_entry:
  assumes "frame_aligned t" "frame_aligned t'" "i < 512" "j < 512"
  shows "read_entry (write_entry p t i v) t' j = (if t' = t \<and> j = i then v else read_entry p t' j)"
proof (cases "t' = t \<and> j = i")
  case True
  then show ?thesis by (simp add: read_entry_def write_entry_def table_ptr_def)
next
  case False
  then have ne: "addr t' + 8 * of_nat j \<noteq> addr t + 8 * of_nat i"
    using entry_address_inj [OF assms(2,1,4,3)] by blast
  have "apart (addr t' + 8 * of_nat j) 8 (addr t + 8 * of_nat i) 8"
    using ne entry_low [OF assms(1)] entry_low [OF assms(2)] aligned_eqI [of 3]
    by (intro apart_blocks [of 3]) auto
  then have "read_u64 (write_u64 p (table_ptr p t + 8 * of_nat i) v) (table_ptr p t' + 8 * of_nat j) =
      read_u64 p (table_ptr p t' + 8 * of_nat j)"
    by (intro read_u64_write_u64_apart) (simp add: kernel_pa_entry)
  with False show ?thesis by (auto simp: read_entry_def write_entry_def table_ptr_def)
qed

lemma phys_offset_write_entry [simp]: "phys_offset (write_entry p t i v) = phys_offset p"
  by (simp add: write_entry_def)

lemma phys_offset_zero_frames [simp]: "phys_offset (zero_frames p f n) = phys_offset p"
  by (simp add: zero_frames_def)

lemma read_entry_zero_frames:
  assumes "frame_aligned t" "frame_aligned f" "j < 512"
  shows "read_entry (zero_frames p f 1) t j = (if t = f then 0 else read_entry p t j)"
proof (cases "t = f")
  case True
  have "pmem (zero_frames p f 1) (addr f + 8 * of_nat j + of_nat b) = 0" if "b < 8" for b
  proof -
    have "addr f + 8 * of_nat j + of_nat b - addr f = of_nat (8 * j + b)" by simp
    then have "unat (addr f + 8 * of_nat j + of_nat b - addr f) = 8 * j + b"
      using assms(3) that by (simp only:) (rule unat_of_nat_u64, simp)
    then show ?thesis using assms(3) that by (simp add: pmem_zero_frames)
  qed
  then have "read_bytes (zero_frames p f 1) (table_ptr (zero_frames p f 1) f + 8 * of_nat j) 8 =
      replicate 8 0"
    by (intro nth_equalityI)
      (auto simp: table_ptr_def phys_to_virt_add read_bytes_phys)
  moreover have "le_join (replicate 8 0) = (0 :: u64)"
    by (rule bit_word_eqI) (auto simp: bit_le_join)
  ultimately show ?thesis using True by (simp add: read_entry_def read_u64_def)
next
  case False
  have "pmem (zero_frames p f 1) a = pmem p a" if mem: "a \<in> entry_bytes t j" for a
  proof -
    obtain b where b: "b < 8" "a = addr t + 8 * of_nat j + of_nat b"
      using mem unfolding entry_bytes_def by blast
    have "drop_bit 12 a = drop_bit 12 (addr t)" using entry_upper [OF assms(1,3) b(1)] b(2) by simp
    moreover have "drop_bit 12 a = drop_bit 12 (addr f)" if "unat (a - addr f) < 4096"
      using drop_bit_add_offset [of 12 "addr f" "unat (a - addr f)"] assms(2) that
      by (simp add: frame_aligned_def)
    moreover have "drop_bit 12 (addr t) \<noteq> drop_bit 12 (addr f)"
    proof
      assume "drop_bit 12 (addr t) = drop_bit 12 (addr f)"
      then have "addr t = addr f" by (rule aligned_eqI [OF assms(1,2) [unfolded frame_aligned_def]])
      with False show False by (simp add: frame.expand)
    qed
    ultimately show ?thesis by (auto simp: pmem_zero_frames)
  qed
  then have "read_entry (zero_frames p f 1) t j = read_entry p t j" by (intro read_entry_cong) simp_all
  then show ?thesis using False by simp
qed

section \<open>Mapping a page\<close>

definition held :: "mach \<Rightarrow> frame set" where
  "held m = ram_frames m - idle_frames m"

text \<open>
  The tables on the way to an address, as far as they exist: held, different, and no block in the
  way.
\<close>

primrec path_ok :: "mach \<Rightarrow> frame set \<Rightarrow> u64 \<Rightarrow> nat list \<Rightarrow> frame \<Rightarrow> bool" where
  "path_ok m seen va [] table \<longleftrightarrow> table \<in> held m \<and> table \<notin> seen"
| "path_ok m seen va (level # levels) table \<longleftrightarrow> table \<in> held m \<and> table \<notin> seen \<and>
     (let entry = read_entry (mphys m) table (table_index va level) in
      entry AND VALID = 0 \<or>
      entry AND TABLE_OR_PAGE \<noteq> 0 \<and> path_ok m (insert table seen) va levels (entry_frame entry))"

definition ram_addressable :: "mach \<Rightarrow> bool" where
  "ram_addressable m \<longleftrightarrow> unat (ram_base (mframes m)) + unat (ram_size (mframes m)) \<le> 2 ^ 48"

lemma path_ok_held: "path_ok m seen va levels table \<Longrightarrow> table \<in> held m \<and> table \<notin> seen"
  by (cases levels) auto

lemma ram_frame_aligned:
  assumes "frames_wf (mframes m)" "f \<in> ram_frames m"
  shows "frame_aligned f"
proof -
  obtain i where i: "i < frame_count (mframes m)" "f = frame_of (mframes m) i"
    using assms(2) by (auto simp: ram_frames_def)
  have "is_multiple_of (addr f) FRAME_SIZE"
    using wf_frame_aligned [OF assms(1), of i] i by simp
  then have "unat (addr f mod FRAME_SIZE) = 0" by (simp add: is_multiple_of_def)
  then have "unat (addr f) mod 4096 = 0" by (simp add: unat_div_mod frame_consts)
  then show ?thesis by (simp only: frame_aligned_def take_bit_12_iff)
qed

lemma bit_desc:
  "bit VALID n \<longleftrightarrow> n = 0" "bit TABLE_OR_PAGE n \<longleftrightarrow> n = 1"
  by (auto simp only: VALID_def TABLE_OR_PAGE_def bit_push_bit_iff bit_1_iff) (auto simp: bit_simps)

lemma entry_frame_table:
  assumes "frames_wf (mframes m)" "ram_addressable m" "f \<in> ram_frames m"
  shows "entry_frame (addr f OR VALID OR TABLE_OR_PAGE) = f"
    "(addr f OR VALID OR TABLE_OR_PAGE) AND VALID \<noteq> 0"
    "(addr f OR VALID OR TABLE_OR_PAGE) AND TABLE_OR_PAGE \<noteq> 0"
proof -
  obtain i where i: "i < frame_count (mframes m)" "f = frame_of (mframes m) i"
    using assms(3) by (auto simp: ram_frames_def)
  have "unat (addr f) < 2 ^ 48"
    using wf_frame(2) [OF assms(1), of i] wf_count(1) [OF assms(1)] i assms(2)
    by (simp add: ram_addressable_def)
  then have hi: "\<not> bit (addr f) n" if "48 \<le> n" for n
  proof -
    have "unat (take_bit 48 (addr f)) = unat (addr f)"
      using \<open>unat (addr f) < 2 ^ 48\<close> by (simp add: unsigned_take_bit_eq take_bit_nat_def)
    then have "take_bit 48 (addr f) = addr f" by (simp only: word_unat_eq_iff)
    then have "bit (addr f) n = bit (take_bit 48 (addr f)) n" by simp
    with that show ?thesis by (simp add: bit_simps)
  qed
  have lo: "\<not> bit (addr f) n" if "n < 12" for n
  proof -
    have "\<not> bit (take_bit 12 (addr f)) n"
      using ram_frame_aligned [OF assms(1,3)] by (simp add: frame_aligned_def)
    with that show ?thesis by (simp add: bit_simps)
  qed
  have "(addr f OR VALID OR TABLE_OR_PAGE) AND ADDR_MASK = addr f"
  proof (rule bit_word_eqI)
    fix n assume "n < LENGTH(64)"
    show "bit ((addr f OR VALID OR TABLE_OR_PAGE) AND ADDR_MASK) n \<longleftrightarrow> bit (addr f) n"
      using hi [of n] lo [of n]
      by (cases "n < 12"; cases "48 \<le> n") (auto simp: bit_desc bit_ADDR_MASK bit_and_iff bit_or_iff)
  qed
  then show "entry_frame (addr f OR VALID OR TABLE_OR_PAGE) = f"
    by (simp add: entry_frame_def frame.expand)
  have "bit ((addr f OR VALID OR TABLE_OR_PAGE) AND VALID) 0"
    by (simp add: bit_desc bit_and_iff bit_or_iff)
  then show "(addr f OR VALID OR TABLE_OR_PAGE) AND VALID \<noteq> 0" by (metis bit_0_eq bot_apply bot_bool_def)
  have "bit ((addr f OR VALID OR TABLE_OR_PAGE) AND TABLE_OR_PAGE) 1"
    by (simp add: bit_desc bit_and_iff bit_or_iff)
  then show "(addr f OR VALID OR TABLE_OR_PAGE) AND TABLE_OR_PAGE \<noteq> 0"
    by (metis bit_0_eq bot_apply bot_bool_def)
qed

text \<open>What allocating a frame for a table gives.\<close>

lemma alloc_table:
  assumes wf: "frames_wf (mframes m)" and "idle_frames m \<noteq> {}"
  shows "\<exists>f m'. alloc m = Some (Some f, m') \<and> f \<in> idle_frames m \<and> f \<in> held m' \<and> held m \<subseteq> held m' \<and>
    idle_frames m' = idle_frames m - {f} \<and> ram_frames m' = ram_frames m \<and>
    frames_wf (mframes m') \<and> same_ram (mframes m) (mframes m') \<and>
    mphys m' = zero_frames (mphys m) f 1"
proof -
  have ne: "avail (mframes m) \<noteq> {}" using assms(2) by (simp add: idle_frames_def)
  let ?f = "Min (idle_frames m)"
  obtain fs where fs: "alloc m = Some (Some ?f, \<lparr>mphys = zero_frames (mphys m) ?f 1, mframes = fs\<rparr>)"
    "same_ram (mframes m) fs"
    using alloc_spec(2) [OF wf ne] Min_idle_frames [OF wf ne] by auto
  let ?m = "\<lparr>mphys = zero_frames (mphys m) ?f 1, mframes = fs\<rparr>"
  have pool: "idle_frames ?m = idle_frames m - {?f}" "ram_frames ?m = ram_frames m" "frames_wf (mframes ?m)"
    using pool.acquire_least [OF wf assms(2)] fs(1) by auto
  have f: "?f \<in> idle_frames m" using assms(2) ne by (simp add: idle_frames_def)
  have "?f \<in> ram_frames m" using f pool.idle_universe [OF wf] by blast
  then show ?thesis using fs pool f by (intro exI [of _ ?f] exI [of _ ?m]) (auto simp: held_def)
qed

lemma next_tables_path:
  assumes "frames_wf (mframes m)" "ram_addressable m" "path_ok m seen va levels table"
    and "seen \<subseteq> held m" "length levels \<le> card (idle_frames m)" "\<forall>l \<in> set levels. l \<le> 3"
  shows "\<exists>t m'. next_tables m table va levels = Some (t, m') \<and> frames_wf (mframes m') \<and>
    same_ram (mframes m) (mframes m') \<and> t \<in> held m' \<and> t \<notin> seen \<and> held m \<subseteq> held m' \<and>
    phys_offset (mphys m') = phys_offset (mphys m) \<and>
    (\<forall>s \<in> seen. \<forall>j < 512. read_entry (mphys m') s j = read_entry (mphys m) s j) \<and>
    (\<forall>v. v AND VALID \<noteq> 0 \<longrightarrow>
       lookup_levels (write_entry (mphys m') t (table_index va 3) v) va levels table = Some v)"
  using assms
proof (induction levels arbitrary: m seen table)
  case Nil
  have "frame_aligned table" using Nil ram_frame_aligned [of m table] by (auto simp: held_def)
  then show ?case
    using Nil table_index_less [of va 3] by (auto simp: read_entry_write_entry Let_def)
next
  case (Cons level levels)
  let ?i = "table_index va level"
  let ?e = "read_entry (mphys m) table ?i"
  note wf = Cons.prems(1) and addressable = Cons.prems(2)
  have table: "table \<in> held m" "table \<notin> seen" using Cons.prems(3) by auto
  have i: "?i < 512" by (rule table_index_less)
  have al: "frame_aligned f" if "f \<in> held m" for f
    using that ram_frame_aligned [OF wf] by (auto simp: held_def)
  have "\<exists>t1 m1. next_table m table ?i = Some (t1, m1) \<and> frames_wf (mframes m1) \<and>
    same_ram (mframes m) (mframes m1) \<and> path_ok m1 (insert table seen) va levels t1 \<and>
    held m \<subseteq> held m1 \<and> length levels \<le> card (idle_frames m1) \<and>
    phys_offset (mphys m1) = phys_offset (mphys m) \<and>
    (\<forall>s \<in> seen. \<forall>j < 512. read_entry (mphys m1) s j = read_entry (mphys m) s j) \<and>
    (let e = read_entry (mphys m1) table ?i in
       e AND VALID \<noteq> 0 \<and> e AND TABLE_OR_PAGE \<noteq> 0 \<and> entry_frame e = t1)"
  proof (cases "?e AND VALID = 0")
    case False
    then have "next_table m table ?i = Some (entry_frame ?e, m)" "?e AND TABLE_OR_PAGE \<noteq> 0"
      "path_ok m (insert table seen) va levels (entry_frame ?e)"
      using Cons.prems(3) by (auto simp: next_table_def Let_def)
    with False wf Cons.prems(5) show ?thesis by (auto simp: Let_def)
  next
    case True
    have "idle_frames m \<noteq> {}" using Cons.prems(5) by auto
    from alloc_table [OF wf this] obtain f m' where f: "alloc m = Some (Some f, m')"
      "f \<in> idle_frames m" "f \<in> held m'" "held m \<subseteq> held m'"
      "idle_frames m' = idle_frames m - {f}" "ram_frames m' = ram_frames m"
      "frames_wf (mframes m')" "same_ram (mframes m) (mframes m')"
      "mphys m' = zero_frames (mphys m) f 1" by blast
    let ?v = "addr f OR VALID OR TABLE_OR_PAGE"
    let ?m1 = "m'\<lparr>mphys := write_entry (mphys m') table ?i ?v\<rparr>"
    have framy: "held ?m1 = held m'" "idle_frames ?m1 = idle_frames m'" "mframes ?m1 = mframes m'"
      by (simp_all add: held_def idle_frames_def ram_frames_def)
    have ram: "f \<in> ram_frames m" using f(2) pool.idle_universe [OF wf] by blast
    have fal: "frame_aligned f" by (rule ram_frame_aligned [OF wf ram])
    have nf: "s \<noteq> f" if "s \<in> held m" for s using that f(2) by (auto simp: held_def)
    have seen_held: "s \<in> held m" if "s \<in> seen" for s using that Cons.prems(4) by blast
    have keep: "read_entry (mphys ?m1) s j = read_entry (mphys m) s j"
      if "s \<in> held m" "s \<noteq> table \<or> j \<noteq> ?i" "j < 512" for s j
      using that al [OF that(1)] al [OF table(1)] fal nf [OF that(1)] i
      by (auto simp: read_entry_write_entry f(9) read_entry_zero_frames [unfolded One_nat_def])
    have here: "read_entry (mphys ?m1) table ?i = ?v"
      using al [OF table(1)] i by (simp add: read_entry_write_entry)
    have fresh: "read_entry (mphys ?m1) f j = 0" if "j < 512" for j
      using that al [OF table(1)] fal nf [OF table(1)] i
      by (auto simp: read_entry_write_entry f(9) read_entry_zero_frames [unfolded One_nat_def])
    have path: "path_ok ?m1 (insert table seen) va levels f"
    proof -
      have "f \<notin> insert table seen" using nf table(1) seen_held by blast
      then show ?thesis
        using f(3) framy fresh table_index_less by (cases levels) (simp_all add: Let_def)
    qed
    have "next_table m table ?i = Some (f, ?m1)"
      using True f(1) by (simp add: next_table_def Let_def)
    moreover have "length levels \<le> card (idle_frames ?m1)"
      using Cons.prems(5) f(2) framy f(5) pool.finite_idle [OF wf] by simp
    moreover have "\<forall>s \<in> seen. \<forall>j < 512. read_entry (mphys ?m1) s j = read_entry (mphys m) s j"
      using keep seen_held table(2) by blast
    ultimately show ?thesis
      using f framy path here entry_frame_table [OF wf addressable ram] by (simp add: Let_def)
  qed
  then obtain t1 m1 where t1: "next_table m table ?i = Some (t1, m1)" "frames_wf (mframes m1)"
    "same_ram (mframes m) (mframes m1)" "path_ok m1 (insert table seen) va levels t1"
    "held m \<subseteq> held m1" "length levels \<le> card (idle_frames m1)"
    "phys_offset (mphys m1) = phys_offset (mphys m)"
    "\<And>s j. s \<in> seen \<Longrightarrow> j < 512 \<Longrightarrow> read_entry (mphys m1) s j = read_entry (mphys m) s j"
    and e1: "read_entry (mphys m1) table ?i AND VALID \<noteq> 0"
      "read_entry (mphys m1) table ?i AND TABLE_OR_PAGE \<noteq> 0"
      "entry_frame (read_entry (mphys m1) table ?i) = t1"
    by (auto simp: Let_def)
  have "ram_addressable m1" using addressable same_ramD [OF t1(3)] by (simp add: ram_addressable_def)
  moreover have "insert table seen \<subseteq> held m1" using table(1) Cons.prems(4) t1(5) by blast
  moreover have "\<forall>l \<in> set levels. l \<le> 3" using Cons.prems(6) by simp
  ultimately obtain t m' where t: "next_tables m1 t1 va levels = Some (t, m')" "frames_wf (mframes m')"
    "same_ram (mframes m1) (mframes m')" "t \<in> held m'" "t \<notin> insert table seen" "held m1 \<subseteq> held m'"
    "phys_offset (mphys m') = phys_offset (mphys m1)"
    "\<And>s j. s \<in> insert table seen \<Longrightarrow> j < 512 \<Longrightarrow> read_entry (mphys m') s j = read_entry (mphys m1) s j"
    "\<And>v. v AND VALID \<noteq> 0 \<Longrightarrow>
       lookup_levels (write_entry (mphys m') t (table_index va 3) v) va levels t1 = Some v"
    using Cons.IH [OF t1(2) _ t1(4) _ t1(6)] by blast
  have tal: "frame_aligned t" using t(4) ram_frame_aligned [OF t(2)] by (auto simp: held_def)
  have "lookup_levels (write_entry (mphys m') t (table_index va 3) v) va (level # levels) table = Some v"
    if "v AND VALID \<noteq> 0" for v
  proof -
    have "read_entry (write_entry (mphys m') t (table_index va 3) v) table ?i =
        read_entry (mphys m1) table ?i"
      using t(5) t(8) [of table ?i] i tal al [OF table(1)] table_index_less [of va 3]
      by (auto simp: read_entry_write_entry)
    with e1 t(9) [OF that] show ?thesis by (simp add: Let_def)
  qed
  moreover have "next_tables m table va (level # levels) = Some (t, m')"
    using t1(1) t(1) by simp
  moreover have "read_entry (mphys m') s j = read_entry (mphys m) s j" if "s \<in> seen" "j < 512" for s j
    using t(8) [of s j] t1(8) [of s j] that by simp
  ultimately show ?case
    using t t1 same_ram_trans [OF t1(3) t(3)] by auto
qed

lemma map_page_path:
  assumes "frames_wf (mframes m)" "ram_addressable m" "path_ok m {} va [0, 1, 2] root"
    and "3 \<le> card (idle_frames m)"
  shows "\<exists>m'. map_page m root va pa attrs = Some m' \<and> frames_wf (mframes m') \<and>
    same_ram (mframes m) (mframes m') \<and> lookup (mphys m') root va =
      Some (pa OR attr_bits attrs OR VALID OR TABLE_OR_PAGE)"
proof -
  let ?leaf = "pa OR attr_bits attrs OR VALID OR TABLE_OR_PAGE"
  obtain t m' where t: "next_tables m root va [0, 1, 2] = Some (t, m')" "frames_wf (mframes m')"
    "same_ram (mframes m) (mframes m')"
    "\<And>v. v AND VALID \<noteq> 0 \<Longrightarrow>
       lookup_levels (write_entry (mphys m') t (table_index va 3) v) va [0, 1, 2] root = Some v"
    using next_tables_path [OF assms(1-3) empty_subsetI] assms(4)
    by (simp del: next_tables.simps lookup_levels.simps) blast
  have "bit (?leaf AND VALID) 0" by (simp add: bit_desc bit_and_iff bit_or_iff)
  then have "?leaf AND VALID \<noteq> 0" by (metis bit_0_eq bot_apply bot_bool_def)
  from t(4) [OF this]
  have "lookup (write_entry (mphys m') t (table_index va 3) ?leaf) root va = Some ?leaf"
    unfolding lookup_def .
  moreover have "map_page m root va pa attrs =
      Some (m'\<lparr>mphys := write_entry (mphys m') t (table_index va 3) ?leaf\<rparr>)"
    unfolding map_page_def t(1) by simp
  ultimately show ?thesis using t(2,3) by simp
qed

section \<open>A small address space to try the properties on\<close>

text \<open>
  One table per level, with three data pages at \<open>0x400000\<close>, \<open>0x401000\<close> and
  \<open>0x403000\<close> and a text page at \<open>0x402000\<close>.
\<close>

definition demo_leaf :: "u64 \<Rightarrow> attributes \<Rightarrow> u64" where
  "demo_leaf pa attrs = pa OR attr_bits attrs OR VALID OR TABLE_OR_PAGE"

definition demo_phys :: phys where
  "demo_phys =
     (let p = \<lparr>pmem = (\<lambda>a. if 0x10000 \<le> a then ucast a else 0), phys_offset = KERNEL_BASE\<rparr>;
          p = write_entry p (Frame 0x1000) 0 0x2003;
          p = write_entry p (Frame 0x2000) 0 0x3003;
          p = write_entry p (Frame 0x3000) 2 0x4003;
          p = write_entry p (Frame 0x4000) 0 (demo_leaf 0x10000 user_data);
          p = write_entry p (Frame 0x4000) 1 (demo_leaf 0x20000 user_data);
          p = write_entry p (Frame 0x4000) 2 (demo_leaf 0x30000 user_text)
      in write_entry p (Frame 0x4000) 3 (demo_leaf 0x40000 user_data))"

lemma demo_leafs:
  "demo_leaf pa user_data = pa OR 0x60000000000747" "demo_leaf pa user_text = pa OR 0x200000000007c7"
  by (simp_all add: demo_leaf_def user_data_def user_text_def attrs_of_def desc_consts or.assoc)

lemma demo_entries:
  "read_entry demo_phys (Frame 0x1000) 0 = 0x2003"
  "read_entry demo_phys (Frame 0x2000) 0 = 0x3003"
  "read_entry demo_phys (Frame 0x3000) 2 = 0x4003"
  "read_entry demo_phys (Frame 0x4000) 0 = 0x60000000010747"
  "read_entry demo_phys (Frame 0x4000) 1 = 0x60000000020747"
  "read_entry demo_phys (Frame 0x4000) 2 = 0x200000000307c7"
  "read_entry demo_phys (Frame 0x4000) 3 = 0x60000000040747"
  by (simp_all add: demo_phys_def Let_def read_entry_write_entry frame_aligned_def demo_leafs)

lemma demo_walk:
  assumes "table_index va 0 = 0" "table_index va 1 = 0" "table_index va 2 = 2"
    "table_index va 3 = k" "k < 4"
  shows "lookup demo_phys (Frame 0x1000) va = Some (read_entry demo_phys (Frame 0x4000) k)"
    "translate demo_phys (Frame 0x1000) va =
      Some ((read_entry demo_phys (Frame 0x4000) k AND ADDR_MASK) OR (va AND (PAGE_SIZE - 1)))"
    "walk_bytes demo_phys (Frame 0x1000) va \<subseteq> {a. a < 0x5000}"
proof -
  have k: "k = 0 \<or> k = 1 \<or> k = 2 \<or> k = 3" using assms(5) by auto
  show "lookup demo_phys (Frame 0x1000) va = Some (read_entry demo_phys (Frame 0x4000) k)"
    "translate demo_phys (Frame 0x1000) va =
      Some ((read_entry demo_phys (Frame 0x4000) k AND ADDR_MASK) OR (va AND (PAGE_SIZE - 1)))"
    using k assms(1-4)
    by (auto simp: lookup_def translate_def demo_entries demo_entries(5) [unfolded One_nat_def]
        entry_frame_def desc_consts)
  have bytes: "entry_bytes (Frame a) j \<subseteq> {a. a < 0x5000}"
    if "(a, j) \<in> {(0x1000, 0), (0x2000, 0), (0x3000, 2), (0x4000, 0), (0x4000, 1), (0x4000, 2), (0x4000, 3)}"
    for a j
    using that by (auto simp: entry_bytes_def lessThan_nat_numeral)
  have "walk_bytes demo_phys (Frame 0x1000) va =
      entry_bytes (Frame 0x1000) 0 \<union> entry_bytes (Frame 0x2000) 0 \<union> entry_bytes (Frame 0x3000) 2 \<union>
      entry_bytes (Frame 0x4000) k"
    using assms(1-4)
    by (simp add: walk_bytes_def demo_entries entry_frame_def desc_consts Un_assoc)
  also have "\<dots> \<subseteq> {a. a < 0x5000}" using k by (intro Un_least bytes) auto
  finally show "walk_bytes demo_phys (Frame 0x1000) va \<subseteq> {a. a < 0x5000}" .
qed

section \<open>What the checks stand for\<close>

text \<open>What EL0 can do at an address: \<open>TTBR0\<close> translates only addresses whose bits 48 to 63 are zero,
  and the leaf found for it carries the access permission.\<close>

definition el0_access :: "phys \<Rightarrow> frame \<Rightarrow> (u64 \<Rightarrow> bool) \<Rightarrow> u64 \<Rightarrow> bool" where
  "el0_access p root allowed va \<longleftrightarrow> unat va < 2 ^ 48 \<and>
     (case lookup p root va of None \<Rightarrow> False | Some entry \<Rightarrow> allowed (entry_ap entry))"

abbreviation el0_reads :: "phys \<Rightarrow> frame \<Rightarrow> u64 \<Rightarrow> bool" where
  "el0_reads p root \<equiv> el0_access p root (\<lambda>ap. ap = AP_RW_ALL \<or> ap = AP_RO_ALL)"

abbreviation el0_writes :: "phys \<Rightarrow> frame \<Rightarrow> u64 \<Rightarrow> bool" where
  "el0_writes p root \<equiv> el0_access p root (\<lambda>ap. ap = AP_RW_ALL)"

lemma lookup_low: "lookup p root (take_bit 48 va) = lookup p root va"
proof -
  have "va = take_bit 48 va OR push_bit 48 (drop_bit 48 va)"
  proof (rule bit_word_eqI)
    fix n assume "n < LENGTH(64)"
    then show "bit va n \<longleftrightarrow> bit (take_bit 48 va OR push_bit 48 (drop_bit 48 va)) n"
      by (cases "n < 48") (simp_all add: bit_simps)
  qed
  then show ?thesis by (metis lookup_noncanonical)
qed

lemma byte_allowed_el0:
  "byte_allowed p root allowed va \<longleftrightarrow> el0_access p root allowed (take_bit 48 va)"
proof -
  have "unat (take_bit 48 va) < 2 ^ 48" by (simp only: unsigned_take_bit_eq) (rule take_bit_nat_less_exp)
  then show ?thesis by (simp add: byte_allowed_def el0_access_def lookup_low)
qed

lemma take_bit_canonical:
  assumes "unat (va :: u64) < 2 ^ 48"
  shows "take_bit 48 va = va"
proof -
  have "unat (take_bit 48 va) = unat va"
    using assms by (simp add: unsigned_take_bit_eq take_bit_nat_def)
  then show ?thesis by (simp only: word_unat_eq_iff)
qed

lemma canonical_bytes:
  assumes "unat (va :: u64) + unat (len :: u64) \<le> 2 ^ 48" "i < unat len"
  shows "take_bit 48 (va + of_nat i) = va + of_nat i"
proof -
  have "unat (of_nat i :: u64) = i"
    using unsigned_less [of len, where 'a = nat] by (intro unat_of_nat_u64 less_trans [OF assms(2)]) simp
  then have "unat (va + of_nat i) = unat va + i"
    using assms unat_add_no_overflow [of va "of_nat i"] by simp
  then show ?thesis using assms by (intro take_bit_canonical) simp
qed

lemma last_byte_outside:
  assumes "2 ^ 48 < unat (va :: u64) + unat (len :: u64)" "unat va + unat len < 2 ^ 64" "0 < unat len"
  shows "\<not> el0_access p root allowed (va + of_nat (unat len - 1))"
proof -
  have "unat (of_nat (unat len - 1) :: u64) = unat len - 1"
    using assms(2) by (intro unat_of_nat_u64) simp
  then have "unat (va + of_nat (unat len - 1)) = unat va + (unat len - 1)"
    using assms unat_add_no_overflow [of va "of_nat (unat len - 1)"] by simp
  then have "\<not> unat (va + of_nat (unat len - 1)) < 2 ^ 48" using assms by linarith
  then show ?thesis unfolding el0_access_def by blast
qed

section \<open>Properties\<close>

text \<open>
  C19. The checks on user pointers always answer. Of a range that ends below \<open>2 ^ 48\<close> they accept
  exactly what EL0 could read (write): the range every byte of which the hardware lets it read
  (write). Of any other range that does not end above \<open>KERNEL_BASE\<close> they answer for the bytes whose
  addresses have bits 48 to 63 cleared, and EL0 can then not read (write) all of it whatever they
  answer: a range they accept may be one that no user instruction could touch.
\<close>

theorem user_pointer_checks_exact:
  "(unat va + unat len \<le> 2 ^ 48 \<longrightarrow>
      user_readable p root va len = Some (\<forall>i < unat len. el0_reads p root (va + of_nat i)) \<and>
      user_writable p root va len = Some (\<forall>i < unat len. el0_writes p root (va + of_nat i))) \<and>
   (2 ^ 48 < unat va + unat len \<and> 0 < len \<longrightarrow>
      user_readable p root va len = Some (unat va + unat len \<le> unat KERNEL_BASE \<and>
        (\<forall>i < unat len. el0_reads p root (take_bit 48 (va + of_nat i)))) \<and>
      user_writable p root va len = Some (unat va + unat len \<le> unat KERNEL_BASE \<and>
        (\<forall>i < unat len. el0_writes p root (take_bit 48 (va + of_nat i)))) \<and>
      (unat va + unat len \<le> unat KERNEL_BASE \<longrightarrow>
        \<not> (\<forall>i < unat len. el0_reads p root (va + of_nat i)) \<and> \<not> (\<forall>i < unat len. el0_writes p root (va + of_nat i))))"
proof -
  have base: "unat KERNEL_BASE < 2 ^ 64" "(2 :: nat) ^ 48 \<le> unat KERNEL_BASE" by (simp_all add: KERNEL_BASE_def)
  have r: "user_readable p root va len = Some (len = 0 \<or> unat va + unat len \<le> unat KERNEL_BASE \<and>
      (\<forall>i < unat len. el0_reads p root (take_bit 48 (va + of_nat i))))"
    by (auto simp: user_readable_bytes readable_byte_def byte_allowed_el0)
  have w: "user_writable p root va len = Some (len = 0 \<or> unat va + unat len \<le> unat KERNEL_BASE \<and>
      (\<forall>i < unat len. el0_writes p root (take_bit 48 (va + of_nat i))))"
    by (auto simp: user_writable_bytes writable_byte_def byte_allowed_el0)
  show ?thesis
  proof (intro conjI impI)
    assume le: "unat va + unat len \<le> 2 ^ 48"
    then show "user_readable p root va len = Some (\<forall>i < unat len. el0_reads p root (va + of_nat i))"
      "user_writable p root va len = Some (\<forall>i < unat len. el0_writes p root (va + of_nat i))"
      using base(2) unfolding r w by (auto simp: canonical_bytes [OF le])
  next
    assume gt: "2 ^ 48 < unat va + unat len \<and> 0 < len"
    then have len: "0 < unat len" "len \<noteq> 0" by (auto simp: word_less_nat_alt)
    then show "user_readable p root va len = Some (unat va + unat len \<le> unat KERNEL_BASE \<and>
        (\<forall>i < unat len. el0_reads p root (take_bit 48 (va + of_nat i))))"
      "user_writable p root va len = Some (unat va + unat len \<le> unat KERNEL_BASE \<and>
        (\<forall>i < unat len. el0_writes p root (take_bit 48 (va + of_nat i))))"
      unfolding r w by simp_all
    assume "unat va + unat len \<le> unat KERNEL_BASE"
    then have "\<not> el0_access p root allowed (va + of_nat (unat len - 1))" for allowed
      using gt base(1) len by (intro last_byte_outside) simp_all
    moreover have "unat len - 1 < unat len" using len by simp
    ultimately show "\<not> (\<forall>i < unat len. el0_reads p root (va + of_nat i))"
      "\<not> (\<forall>i < unat len. el0_writes p root (va + of_nat i))" by blast+
  qed
qed

text \<open>
  The checks do not look at bits 48 to 63 of an address below \<open>KERNEL_BASE\<close>: a range that
  is readable stays readable when those bits are set, as long as it still ends below
  \<open>KERNEL_BASE\<close>. Such an address is not canonical, and no instruction could read it.
\<close>

lemma user_readable_ignores_top_bits:
  assumes "user_readable p root va len = Some True"
    and "unat va + unat len \<le> 2 ^ 48"
    and "unat (va OR push_bit 48 k) + unat len \<le> unat KERNEL_BASE"
  shows "user_readable p root (va OR push_bit 48 k) len = Some True"
proof (cases "len = 0")
  case True
  then show ?thesis by (simp add: user_readable_bytes)
next
  case False
  have "lookup p root ((va OR push_bit 48 k) + of_nat i) = lookup p root (va + of_nat i)"
    if i: "i < unat len" for i
  proof -
    have u: "unat (of_nat i :: u64) = i"
      using i unsigned_less [of len, where 'a = nat] by (intro unat_of_nat_u64) simp
    then have sum: "unat (va + of_nat i) = unat va + i"
      using i assms(2) unat_add_no_overflow [of va "of_nat i"] by simp
    have low: "\<not> bit x n" if "unat x < 2 ^ 48" "48 \<le> n" for x :: u64 and n
    proof -
      have "unat (take_bit 48 x) = unat x"
        using that(1) by (simp add: unsigned_take_bit_eq take_bit_nat_def)
      then have "take_bit 48 x = x" by (simp only: word_unat_eq_iff)
      then have "bit x n = bit (take_bit 48 x) n" by simp
      with that(2) show ?thesis by (simp add: bit_simps)
    qed
    have "unat va < 2 ^ 48" "unat (va + of_nat i) < 2 ^ 48" using assms(2) i sum by simp_all
    then have d: "va AND push_bit 48 k = 0" "(va + of_nat i) AND push_bit 48 k = 0"
      using low by (auto intro!: bit_word_eqI simp: bit_simps)
    have "(va OR push_bit 48 k) + of_nat i = va + push_bit 48 k + of_nat i"
      by (simp only: disjunctive_add_eq_or [OF d(1)])
    also have "\<dots> = (va + of_nat i) + push_bit 48 k" by (simp only: ac_simps)
    also have "\<dots> = (va + of_nat i) OR push_bit 48 k"
      by (simp only: disjunctive_add_eq_or [OF d(2)])
    finally have e: "(va OR push_bit 48 k) + of_nat i = (va + of_nat i) OR push_bit 48 k" .
    show ?thesis unfolding e by (rule lookup_noncanonical)
  qed
  then show ?thesis
    using assms False
    by (auto simp: user_readable_bytes readable_byte_def byte_allowed_def)
qed

lemma below_8: "i < 8 \<Longrightarrow> i = 0 \<or> i = 1 \<or> i = 2 \<or> i = 3 \<or> i = 4 \<or> i = 5 \<or> i = 6 \<or> i = (7 :: nat)"
  by auto

lemma demo_destination: "i < 8 \<Longrightarrow> unat (0x40010 + of_nat i :: u64) = 0x40010 + i"
  using unat_add_no_overflow [of "0x40010 :: u64" "of_nat i"] by (simp add: unat_of_nat_u64)

lemma demo_readable: "user_readable demo_phys (Frame 0x1000) 0x400ffc 8 = Some True"
proof -
  have ix: "table_index (0x400ffc + of_nat i) 0 = 0" "table_index (0x400ffc + of_nat i) 1 = 0"
    "table_index (0x400ffc + of_nat i) 2 = 2"
    "table_index (0x400ffc + of_nat i) 3 = (if i < 4 then 0 else 1)" if "i < 8" for i
    using below_8 [OF that] by (auto simp: table_index_def)
  have "readable_byte demo_phys (Frame 0x1000) (0x400ffc + of_nat i)" if "i < 8" for i
    using demo_walk(1) [OF ix(1-4) [OF that]]
    by (simp add: readable_byte_def byte_allowed_def demo_entries demo_entries(5) [unfolded One_nat_def]
        entry_ap_def desc_consts split: if_splits)
  then show ?thesis by (auto simp: user_readable_bytes KERNEL_BASE_def)
qed

text \<open>The buffer of \<open>demo_readable\<close> at its address, and at one that no instruction can use.\<close>

theorem user_pointer_checks_exact_witness:
  "list_all (\<lambda>i. el0_reads demo_phys (Frame 0x1000) (0x400ffc + of_nat i)) [0..<8] \<and>
   user_readable demo_phys (Frame 0x1000) (0x400ffc OR push_bit 48 0x1234) 8 = Some True \<and>
   \<not> list_all (\<lambda>i. el0_reads demo_phys (Frame 0x1000) ((0x400ffc OR push_bit 48 0x1234) + of_nat i)) [0..<8]"
proof -
  have "user_readable demo_phys (Frame 0x1000) (0x400ffc OR push_bit 48 0x1234) 8 = Some True"
    by (rule user_readable_ignores_top_bits [OF demo_readable]) (simp_all add: KERNEL_BASE_def)
  then have "(\<forall>i < 8. el0_reads demo_phys (Frame 0x1000) (0x400ffc + of_nat i)) \<and>
     user_readable demo_phys (Frame 0x1000) (0x400ffc OR push_bit 48 0x1234) 8 = Some True \<and>
     \<not> (\<forall>i < 8. el0_reads demo_phys (Frame 0x1000) ((0x400ffc OR push_bit 48 0x1234) + of_nat i))"
    using demo_readable user_pointer_checks_exact [of "0x400ffc" 8 demo_phys "Frame 0x1000"]
      user_pointer_checks_exact [of "0x400ffc OR push_bit 48 0x1234" 8 demo_phys "Frame 0x1000"]
    by (simp add: KERNEL_BASE_def)
  then show ?thesis by (simp only: list_all_iff set_upt atLeast0LessThan lessThan_iff Ball_def) simp
qed

text \<open>
  C20. Copying between two address spaces moves exactly the bytes asked for, in one pass over pages
  that need not line up: when both ranges are mapped, and the destination bytes are distinct and
  overlap neither the source nor the tables in use, the copy succeeds, every destination byte
  holds the source byte and no other byte of memory changes.
\<close>

theorem copy_across_moves_exactly:
  assumes "copy_ok p src_root src_va dst_root dst_va len s d"
  shows "\<exists>p'. copy_across p src_root src_va dst_root dst_va len = Some (True, p') \<and>
    (\<forall>i < unat len. pmem p' (d i) = pmem p (s i)) \<and>
    (\<forall>a. a \<notin> d ` {..<unat len} \<longrightarrow> pmem p' a = pmem p a)"
  using copy_across_exact [OF assms] by (auto simp: copies_def)

lemma demo_copy_ok:
  "copy_ok demo_phys (Frame 0x1000) 0x400ffc (Frame 0x1000) 0x403010 8
     (\<lambda>i. if i < 4 then 0x10ffc + of_nat i else 0x20000 + of_nat (i - 4)) (\<lambda>i. 0x40010 + of_nat i)"
proof -
  have src: "table_index (0x400ffc + of_nat i) 0 = 0" "table_index (0x400ffc + of_nat i) 1 = 0"
    "table_index (0x400ffc + of_nat i) 2 = 2"
    "table_index (0x400ffc + of_nat i) 3 = (if i < 4 then 0 else 1)" if "i < 8" for i
    using below_8 [OF that] by (auto simp: table_index_def)
  have dst: "table_index (0x403010 + of_nat i) 0 = 0" "table_index (0x403010 + of_nat i) 1 = 0"
    "table_index (0x403010 + of_nat i) 2 = 2" "table_index (0x403010 + of_nat i) 3 = 3"
    if "i < 8" for i
    using below_8 [OF that] by (auto simp: table_index_def)
  have tr: "translate demo_phys (Frame 0x1000) (0x400ffc + of_nat i) =
      Some (if i < 4 then 0x10ffc + of_nat i else 0x20000 + of_nat (i - 4))"
    "translate demo_phys (Frame 0x1000) (0x403010 + of_nat i) = Some (0x40010 + of_nat i)"
    if i: "i < 8" for i
  proof -
    note cases = below_8 [OF i]
    show "translate demo_phys (Frame 0x1000) (0x400ffc + of_nat i) =
      Some (if i < 4 then 0x10ffc + of_nat i else 0x20000 + of_nat (i - 4))"
      using demo_walk(2) [OF src [OF i]] cases
      by (auto simp: demo_entries demo_entries(5) [unfolded One_nat_def] desc_consts
          PAGE_SIZE_def FRAME_SIZE_def)
    show "translate demo_phys (Frame 0x1000) (0x403010 + of_nat i) = Some (0x40010 + of_nat i)"
      using demo_walk(2) [OF dst [OF i]] cases
      by (auto simp: demo_entries desc_consts PAGE_SIZE_def FRAME_SIZE_def)
  qed
  have walks: "walk_bytes demo_phys (Frame 0x1000) (0x400ffc + of_nat j) \<subseteq> {a. a < 0x5000}"
    "walk_bytes demo_phys (Frame 0x1000) (0x403010 + of_nat j) \<subseteq> {a. a < 0x5000}" if "j < 8" for j
    using demo_walk(3) [OF src [OF that]] demo_walk(3) [OF dst [OF that]] by simp_all
  note d = demo_destination
  have s: "unat (if j < 4 then 0x10ffc + of_nat j else 0x20000 + of_nat (j - 4) :: u64) < 0x40000"
    if "j < 8" for j
    using below_8 [OF that] by auto
  have "(0x40010 + of_nat i :: u64) \<noteq>
      (if j < 4 then 0x10ffc + of_nat j else 0x20000 + of_nat (j - 4)) \<and>
    ((0x40010 + of_nat i :: u64) = 0x40010 + of_nat j \<longrightarrow> i = j) \<and>
    (0x40010 + of_nat i :: u64) \<notin> walk_bytes demo_phys (Frame 0x1000) (0x400ffc + of_nat j) \<and>
    (0x40010 + of_nat i :: u64) \<notin> walk_bytes demo_phys (Frame 0x1000) (0x403010 + of_nat j)"
    if ij: "i < 8" "j < 8" for i j
  proof (intro conjI)
    show "(0x40010 + of_nat i :: u64) \<noteq>
      (if j < 4 then 0x10ffc + of_nat j else 0x20000 + of_nat (j - 4))"
    proof
      assume e: "(0x40010 + of_nat i :: u64) =
        (if j < 4 then 0x10ffc + of_nat j else 0x20000 + of_nat (j - 4))"
      have "unat (0x40010 + of_nat i :: u64) < 0x40000" unfolding e by (rule s [OF ij(2)])
      then show False using d [OF ij(1)] by simp
    qed
    show "(0x40010 + of_nat i :: u64) = 0x40010 + of_nat j \<longrightarrow> i = j"
      using d [OF ij(1)] d [OF ij(2)] by (metis add_left_imp_eq)
    have "\<not> (0x40010 + of_nat i :: u64) < 0x5000" using d [OF ij(1)] by (simp add: word_less_nat_alt)
    then show "(0x40010 + of_nat i :: u64) \<notin> walk_bytes demo_phys (Frame 0x1000) (0x400ffc + of_nat j)"
      "(0x40010 + of_nat i :: u64) \<notin> walk_bytes demo_phys (Frame 0x1000) (0x403010 + of_nat j)"
      using walks [OF ij(2)] by auto
  qed
  then show ?thesis using tr by (simp add: copy_ok_def)
qed

theorem copy_across_moves_exactly_witness:
  "\<exists>p'. copy_across demo_phys (Frame 0x1000) 0x400ffc (Frame 0x1000) 0x403010 8 = Some (True, p') \<and>
     pmem p' 0x40010 = pmem demo_phys 0x10ffc \<and> pmem p' 0x40017 = pmem demo_phys 0x20003 \<and>
     pmem p' 0x40018 = pmem demo_phys 0x40018"
proof -
  obtain p' where p': "copy_across demo_phys (Frame 0x1000) 0x400ffc (Frame 0x1000) 0x403010 8 = Some (True, p')"
    "\<forall>i < 8. pmem p' (0x40010 + of_nat i) =
       pmem demo_phys (if i < 4 then 0x10ffc + of_nat i else 0x20000 + of_nat (i - 4))"
    "\<forall>a. a \<notin> (\<lambda>i. 0x40010 + of_nat i) ` {..<8} \<longrightarrow> pmem p' a = pmem demo_phys a"
    using copy_across_moves_exactly [OF demo_copy_ok] by auto
  have "(0x40018 :: u64) \<notin> (\<lambda>i. 0x40010 + of_nat i) ` {..<8}"
  proof
    assume "(0x40018 :: u64) \<in> (\<lambda>i. 0x40010 + of_nat i) ` {..<8}"
    then obtain i :: nat where "i < 8" "(0x40018 :: u64) = 0x40010 + of_nat i" by blast
    moreover have "unat (0x40018 :: u64) = 0x40018" by simp
    ultimately show False using demo_destination [of i] by simp
  qed
  then have "pmem p' 0x40018 = pmem demo_phys 0x40018" using p'(3) by blast
  then show ?thesis using p'(1) p'(2) [rule_format, of 0] p'(2) [rule_format, of 7] by auto
qed

text \<open>
  Mapping a page makes it translatable: from a root whose existing tables on the way are held,
  different and not blocks, with frames left for the missing ones, \<open>map_page\<close> succeeds and the
  walk then finds exactly the leaf that was asked for; the allocator stays well formed.
\<close>

theorem map_page_then_lookup:
  assumes "frames_wf (mframes m)" "ram_addressable m" "path_ok m {} va [0, 1, 2] root"
    and "3 \<le> free_frames (mframes m)"
  shows "\<exists>m'. map_page m root va pa attrs = Some m' \<and> frames_wf (mframes m') \<and>
    lookup (mphys m') root va = Some (pa OR attr_bits attrs OR VALID OR TABLE_OR_PAGE)"
  using map_page_path [OF assms(1-3)] assms(4) card_idle_frames [OF assms(1)] by auto

lemma boot_addressable: "ram_addressable boot_mach"
  using boot_frames_init wf_count(1) [OF boot_frames_init(2)] by (simp add: ram_addressable_def)

theorem map_page_then_lookup_witness:
  "\<exists>root m m'. alloc boot_mach = Some (Some root, m) \<and>
     map_page m root 0x400000 0x40abc000 user_text = Some m' \<and>
     lookup (mphys m') root 0x400000 = Some (0x40abc000 OR attr_bits user_text OR VALID OR TABLE_OR_PAGE)"
proof -
  have wf: "frames_wf (mframes boot_mach)" using boot_frames_init by simp
  have card: "card (idle_frames boot_mach) = 65280"
    using card_idle_frames [OF wf] wf_free [OF wf] boot_frames_init by (simp add: free_frames_def)
  then have "idle_frames boot_mach \<noteq> {}" by auto
  from alloc_table [OF wf this] obtain f m where f: "alloc boot_mach = Some (Some f, m)" "f \<in> held m"
    "idle_frames m = idle_frames boot_mach - {f}" "f \<in> idle_frames boot_mach" "frames_wf (mframes m)"
    "same_ram (mframes boot_mach) (mframes m)" "mphys m = zero_frames (mphys boot_mach) f 1" by blast
  have al: "frame_aligned f"
    using f(4) pool.idle_universe [OF wf] ram_frame_aligned [OF wf] by blast
  have "read_entry (mphys m) f (table_index va 0) = 0" for va
    using al table_index_less by (simp add: f(7) read_entry_zero_frames [unfolded One_nat_def])
  then have "path_ok m {} va [0, 1, 2] f" for va using f(2) by simp
  moreover have "ram_addressable m"
    using boot_addressable same_ramD [OF f(6)] by (simp add: ram_addressable_def)
  moreover have "3 \<le> free_frames (mframes m)"
    using card_idle_frames [OF f(5)] card f(3,4) by (simp add: card_Diff_singleton)
  ultimately show ?thesis
    using map_page_then_lookup [OF f(5), of "0x400000" f "0x40abc000" user_text] f(1) by blast
qed

text \<open>
  Write xor execute: no memory the kernel maps for itself or for a user can be written by
  either level and executed by either; what a user may execute the kernel may not, and only
  the user attributes let EL0 touch the memory at all.
\<close>

definition writable_attrs :: "attributes \<Rightarrow> bool" where
  "writable_attrs a \<longleftrightarrow> entry_ap (attr_bits a) = AP_RW_EL1 \<or> entry_ap (attr_bits a) = AP_RW_ALL"

definition executable_attrs :: "attributes \<Rightarrow> bool" where
  "executable_attrs a \<longleftrightarrow> attr_bits a AND PXN = 0 \<or> attr_bits a AND UXN = 0"

definition el0_attrs :: "attributes \<Rightarrow> bool" where
  "el0_attrs a \<longleftrightarrow> entry_ap (attr_bits a) = AP_RW_ALL \<or> entry_ap (attr_bits a) = AP_RO_ALL"

lemma write_xor_execute:
  "list_all (\<lambda>a. \<not> (writable_attrs a \<and> executable_attrs a) \<and>
                \<not> (attr_bits a AND UXN = 0 \<and> attr_bits a AND PXN = 0))
     [kernel_text, kernel_rodata, kernel_data, device, user_data, user_text] \<and>
   map el0_attrs [kernel_text, kernel_rodata, kernel_data, device, user_data, user_text] =
     [False, False, False, False, True, True]"
  by (simp add: writable_attrs_def executable_attrs_def el0_attrs_def entry_ap_def attrs_of_def
      kernel_text_def kernel_rodata_def kernel_data_def device_def user_data_def user_text_def
      desc_consts)

text \<open>
  C31. The translation regime through the boot. \<open>enable\<close> turns the MMU and the caches on, with every
  other bit of \<open>SCTLR_EL1\<close> kept; both halves are live, the low one through the identity map's root and
  the high one through the kernel's, with 48 bits and 4 KiB granules each and the physical size the CPU
  reports. Finishing the move to the high half sets \<open>EPD0\<close>, which stops walks through
  \<open>TTBR0\<close>, clears that register, moves the vectors up and changes nothing else.
  \<open>enable_user_translation\<close> restores exactly the configuration \<open>enable\<close> chose, with whatever root has
  been made current in between.
\<close>

theorem low_half_regime:
  assumes "unat (vbar r) + unat KERNEL_BASE < 2 ^ 64"
  shows "let r1 = mmu_enable mmfr0 r root0 root1 in
    ttbr0 r1 = addr root0 \<and> ttbr1 r1 = addr root1 \<and> mair r1 = MAIR_VALUE \<and> vbar r1 = vbar r \<and>
    (\<forall>n < 64. bit (sctlr r1) n \<longleftrightarrow> n \<in> {0, 2, 12} \<or> bit (sctlr r) n) \<and>
    take_bit 32 (tcr r1) = 0xb5103510 \<and> drop_bit 32 (tcr r1) = min (mmfr0 AND 15) 5 \<and>
    \<not> bit (tcr r1) 7 \<and> \<not> bit (tcr r1) 23 \<and>
    (\<exists>r2 p2. finish_high_half r1 p = Some (r2, p2) \<and> bit (tcr r2) 7 \<and> \<not> bit (tcr r2) 23 \<and>
      r2 = r1\<lparr>vbar := vbar r + KERNEL_BASE, tcr := tcr r1 OR push_bit 7 1, ttbr0 := 0\<rparr> \<and>
      p2 = p\<lparr>phys_offset := KERNEL_BASE\<rparr> \<and>
      enable_user_translation (activate_root r2 root) = r1\<lparr>vbar := vbar r + KERNEL_BASE, ttbr0 := addr root\<rparr>)"
proof -
  define r1 where "r1 = mmu_enable mmfr0 r root0 root1"
  have pow: "bit (push_bit k 1 :: u64) n \<longleftrightarrow> n = k" if "n < 64" for k n
    using that unfolding bit_push_bit_iff bit_1_iff by auto
  note b7 = pow [of _ 7]
  define low :: u64 where "low = 16 OR push_bit 8 1 OR push_bit 10 1 OR push_bit 12 3 OR push_bit 16 16 OR
      push_bit 24 1 OR push_bit 26 1 OR push_bit 28 3 OR push_bit 30 2"
  have lowv: "low = 0xb5103510" by (simp add: low_def)
  have tcr: "tcr r1 = low OR push_bit 32 (parange mmfr0)"
    by (cases r) (simp only: r1_def mmu_enable_def Let_def low_def or.assoc sysregs.select_convs sysregs.update_convs sysregs.simps)
  have "\<not> bit (0xb5103510 :: u64) 7" "\<not> bit (0xb5103510 :: u64) 23" by simp_all
  then have t: "\<not> bit (tcr r1) 7" "\<not> bit (tcr r1) 23" unfolding tcr lowv by (simp_all add: bit_simps)
  have small: "\<not> bit (parange mmfr0) n" if "3 \<le> n" for n
  proof -
    have "parange mmfr0 \<le> 5" by (simp add: parange_def)
    then have "unat (parange mmfr0) < 2 ^ 3" by (simp add: word_le_nat_alt)
    then have "take_bit 3 (parange mmfr0) = parange mmfr0"
      by (simp add: word_unat_eq_iff unsigned_take_bit_eq take_bit_nat_def)
    then show ?thesis using that by (metis bit_take_bit_iff not_less)
  qed
  have lo: "take_bit 32 (tcr r1) = 0xb5103510"
  proof -
    have "take_bit 32 (tcr r1) = take_bit 32 low" unfolding tcr by (simp add: take_bit_push_bit)
    then show ?thesis unfolding lowv by simp
  qed
  have hi: "drop_bit 32 (tcr r1) = parange mmfr0"
  proof (rule bit_word_eqI)
    fix n assume n: "n < LENGTH(64)"
    have "drop_bit 32 low = 0" by (simp add: lowv)
    moreover have "bit (drop_bit 32 low) n = bit low (32 + n)" by (simp add: bit_drop_bit_eq)
    ultimately have "\<not> bit low (32 + n)" by simp
    then show "bit (drop_bit 32 (tcr r1)) n = bit (parange mmfr0) n"
      using small [of n] n unfolding tcr by (cases "n < 3") (auto simp: bit_simps)
  qed
  have restored: "(tcr r1 OR push_bit 7 1) AND NOT (push_bit 7 1) = tcr r1"
  proof (rule bit_word_eqI)
    fix n assume "n < LENGTH(64)"
    then show "bit ((tcr r1 OR push_bit 7 1) AND NOT (push_bit 7 1)) n \<longleftrightarrow> bit (tcr r1) n"
      using t(1) b7 unfolding bit_and_iff bit_or_iff bit_not_iff by auto
  qed
  have regs: "ttbr0 r1 = addr root0" "ttbr1 r1 = addr root1" "mair r1 = MAIR_VALUE" "vbar r1 = vbar r"
    "sctlr r1 = sctlr r OR push_bit 0 1 OR push_bit 2 1 OR push_bit 12 1"
    by (simp_all add: r1_def mmu_enable_def Let_def)
  have ctl: "bit (sctlr r1) n \<longleftrightarrow> n \<in> {0, 2, 12} \<or> bit (sctlr r) n" if "n < 64" for n
    using that unfolding regs(5) bit_or_iff by (auto simp only: pow)
  have fin: "finish_high_half r1 p = Some (r1\<lparr>vbar := vbar r + KERNEL_BASE,
      tcr := tcr r1 OR push_bit 7 1, ttbr0 := 0\<rparr>, p\<lparr>phys_offset := KERNEL_BASE\<rparr>)"
    using assms(1) by (simp add: finish_high_half_def checked_add_def regs(4))
  have "bit (tcr r1 OR push_bit 7 1) 7" "\<not> bit (tcr r1 OR push_bit 7 1) 23" using t b7 by (simp_all add: bit_or_iff)
  then show ?thesis
    using t restored lo hi regs(1-4) ctl fin
    by (simp add: Let_def r1_def [symmetric] parange_def enable_user_translation_def activate_root_def)
qed

theorem low_half_regime_witness:
  "\<exists>r2 p2. finish_high_half (mmu_enable 2 \<lparr>ttbr0 = 0, ttbr1 = 0, tcr = 0, sctlr = 0, mair = 0,
       vbar = 0x40080000\<rparr> (Frame 0x40100000) (Frame 0x40101000)) demo_phys = Some (r2, p2) \<and>
     bit (tcr r2) 7 \<and> bit (sctlr r2) 0 \<and> phys_offset p2 = KERNEL_BASE"
  using low_half_regime [of "\<lparr>ttbr0 = 0, ttbr1 = 0, tcr = 0, sctlr = 0, mair = 0, vbar = 0x40080000\<rparr>"
      2 "Frame 0x40100000" "Frame 0x40101000" demo_phys "Frame 0x40102000"]
  by (auto simp: KERNEL_BASE_def Let_def)

end
