(* ===== verification/Tasks.thy ===== *)
theory Tasks
  imports Paging
begin

text \<open>
  Tasks and the scheduler's choice (\<open>tasks.rs\<close>): the task table, priorities, task states,
  the pick of the next task to run, and the switch log. What acts on the rest of the kernel
  (switching, blocking, spawning, exiting) is in \<open>Kernel\<close> and \<open>Lifecycle\<close>.

  The locale \<open>priority_scan\<close> is the contract of the loop that both \<open>next_runnable\<close> and
  the queue of senders use: keep the first candidate that nothing later outranks.
\<close>

section \<open>Tasks\<close>

definition MAX_TASKS :: nat where "MAX_TASKS = 8"
definition STACK_FRAMES :: nat where "STACK_FRAMES = 4"
definition STACK_SIZE :: u64 where "STACK_SIZE = of_nat STACK_FRAMES * FRAME_SIZE"
definition STACK_CANARY :: u64 where "STACK_CANARY = 0x5441434b5f43414e"
definition SLOT_X19 :: nat where "SLOT_X19 = 0"
definition SLOT_X20 :: nat where "SLOT_X20 = 1"
definition SLOT_X29 :: nat where "SLOT_X29 = 10"
definition SLOT_X30 :: nat where "SLOT_X30 = 11"
definition SWITCH_FRAME_WORDS :: nat where "SWITCH_FRAME_WORDS = 12"
definition SWITCH_LOG_LEN :: nat where "SWITCH_LOG_LEN = 32"

datatype priority = Priority u8

text \<open>\<open>derive(PartialOrd, Ord)\<close>\<close>

instantiation priority :: linorder
begin

definition less_eq_priority :: "priority \<Rightarrow> priority \<Rightarrow> bool" where
  "less_eq_priority p q = (case (p, q) of (Priority a, Priority b) \<Rightarrow> a \<le> b)"

definition less_priority :: "priority \<Rightarrow> priority \<Rightarrow> bool" where
  "less_priority p q = (case (p, q) of (Priority a, Priority b) \<Rightarrow> a < b)"

instance
  by intro_classes (auto simp: less_eq_priority_def less_priority_def split: priority.splits)

end

definition HIGH :: priority where "HIGH = Priority 0"
definition NORMAL :: priority where "NORMAL = Priority 1"
definition LOW :: priority where "LOW = Priority 2"
definition IDLE :: priority where "IDLE = Priority (- 1)"

definition outranks :: "priority \<Rightarrow> priority \<Rightarrow> bool" where
  "outranks p q = (case (p, q) of (Priority a, Priority b) \<Rightarrow> a < b)"

lemma outranks_less: "outranks p q \<longleftrightarrow> p < q"
  by (simp add: outranks_def less_priority_def)

lemma IDLE_top: "p \<le> IDLE"
  by (cases p) (simp add: IDLE_def less_eq_priority_def)

datatype task_state = Runnable | Blocked | Zombie | Dead | Faulted

record fault =
  f_esr :: u64
  f_far :: u64
  f_elr :: u64

record image =
  img_start :: u64
  img_end :: u64
  img_arg :: u64

record task =
  task_name :: string
  task_space :: "address_space option"
  task_sp :: u64
  task_stack :: frame
  owns_stack :: bool
  task_priority :: priority
  task_state :: task_state
  task_exit :: "u64 option"
  task_fault :: "fault option"
  task_image :: "image option"

record scheduler =
  tasks :: "task option list"
  current :: nat

definition scheduler_new :: scheduler where
  "scheduler_new = \<lparr>tasks = replicate MAX_TASKS None, current = 0\<rparr>"

text \<open>\<open>iter().position(..)\<close>\<close>

fun position_from :: "nat \<Rightarrow> ('a \<Rightarrow> bool) \<Rightarrow> 'a list \<Rightarrow> nat option" where
  "position_from n P [] = None"
| "position_from n P (x # xs) = (if P x then Some n else position_from (Suc n) P xs)"

definition position :: "('a \<Rightarrow> bool) \<Rightarrow> 'a list \<Rightarrow> nat option" where
  "position P xs = position_from 0 P xs"

lemma position_from_Some:
  "position_from n P xs = Some i \<longleftrightarrow>
     n \<le> i \<and> i < n + length xs \<and> P (xs ! (i - n)) \<and> (\<forall>j. n \<le> j \<and> j < i \<longrightarrow> \<not> P (xs ! (j - n)))"
proof (induction xs arbitrary: n)
  case (Cons x xs)
  have shift: "(x # xs) ! (j - n) = (if j = n then x else xs ! (j - Suc n))" if "n \<le> j" for j
    using that by (cases "j = n") (simp_all add: nth_Cons' Suc_diff_Suc)
  show ?case
  proof (cases "P x")
    case True
    then show ?thesis using shift by (auto intro: le_neq_implies_less)
  next
    case False
    then show ?thesis
      using Cons [of "Suc n"] shift by (auto simp: Suc_le_eq) (metis le_neq_implies_less)+
  qed
qed simp

lemma position_Some:
  "position P xs = Some i \<longleftrightarrow> i < length xs \<and> P (xs ! i) \<and> (\<forall>j < i. \<not> P (xs ! j))"
  by (auto simp: position_def position_from_Some)

lemma position_from_None: "position_from n P xs = None \<longleftrightarrow> (\<forall>x \<in> set xs. \<not> P x)"
  by (induction xs arbitrary: n) auto

lemma position_None: "position P xs = None \<longleftrightarrow> (\<forall>x \<in> set xs. \<not> P x)"
  by (simp add: position_def position_from_None)

definition free_slot :: "scheduler \<Rightarrow> nat option" where
  "free_slot s = position (\<lambda>t. t = None) (tasks s)"

section \<open>Choosing the best candidate\<close>

text \<open>
  The loop of \<open>next_runnable\<close> and of the queue of senders: the first candidate is kept, and a
  later one replaces it only if it is strictly better.
\<close>

definition keep_best ::
  "('p \<Rightarrow> 'p \<Rightarrow> bool) \<Rightarrow> (nat \<times> 'p) option \<Rightarrow> nat \<Rightarrow> 'p \<Rightarrow> (nat \<times> 'p) option" where
  "keep_best better best slot p = (case best of
       Some (_, q) \<Rightarrow> if \<not> better p q then best else Some (slot, p)
     | None \<Rightarrow> Some (slot, p))"

fun scan_best ::
  "('p \<Rightarrow> 'p \<Rightarrow> bool) \<Rightarrow> (nat \<Rightarrow> 'p option) \<Rightarrow> nat list \<Rightarrow> (nat \<times> 'p) option \<Rightarrow> (nat \<times> 'p) option"
  where
  "scan_best better eligible [] best = best"
| "scan_best better eligible (slot # slots) best =
     scan_best better eligible slots
       (case eligible slot of None \<Rightarrow> best | Some p \<Rightarrow> keep_best better best slot p)"

text \<open>The first of the best: better than what comes before it, and not outdone after it.\<close>

definition picked ::
  "('p \<Rightarrow> 'p \<Rightarrow> bool) \<Rightarrow> (nat \<Rightarrow> 'p option) \<Rightarrow> nat list \<Rightarrow> nat \<Rightarrow> 'p \<Rightarrow> bool" where
  "picked better eligible xs d q \<longleftrightarrow> (\<exists>ys zs. xs = ys @ d # zs \<and> eligible d = Some q \<and>
     (\<forall>y \<in> set ys. \<forall>r. eligible y = Some r \<longrightarrow> better q r) \<and>
     (\<forall>z \<in> set zs. \<forall>r. eligible z = Some r \<longrightarrow> \<not> better r q))"

lemma picked_skip:
  assumes "picked better eligible xs d q" "\<And>r. eligible x = Some r \<Longrightarrow> better q r"
  shows "picked better eligible (x # xs) d q"
proof -
  obtain ys zs where ys: "xs = ys @ d # zs" "eligible d = Some q"
    "\<forall>y \<in> set ys. \<forall>r. eligible y = Some r \<longrightarrow> better q r"
    "\<forall>z \<in> set zs. \<forall>r. eligible z = Some r \<longrightarrow> \<not> better r q"
    using assms(1) unfolding picked_def by blast
  have "x # xs = (x # ys) @ d # zs" using ys(1) by simp
  moreover have "\<forall>y \<in> set (x # ys). \<forall>r. eligible y = Some r \<longrightarrow> better q r" using ys(3) assms(2) by simp
  ultimately show ?thesis using ys(2,4) unfolding picked_def by blast
qed

lemma picked_here:
  assumes "eligible x = Some q" "\<forall>z \<in> set xs. \<forall>r. eligible z = Some r \<longrightarrow> \<not> better r q"
  shows "picked better eligible (x # xs) x q"
  unfolding picked_def using assms by (intro exI [of _ "[]"] exI [of _ xs]) simp

locale priority_scan =
  fixes better :: "'p \<Rightarrow> 'p \<Rightarrow> bool"
  assumes better_irrefl: "\<not> better p p"
    and better_trans: "better p q \<Longrightarrow> better q r \<Longrightarrow> better p r"
    and not_better_trans: "\<not> better p q \<Longrightarrow> \<not> better q r \<Longrightarrow> \<not> better p r"
begin

lemma scan_from:
  "scan_best better eligible xs (Some (c, p)) = Some (d, q) \<Longrightarrow>
     (d = c \<and> q = p \<and> (\<forall>x \<in> set xs. \<forall>r. eligible x = Some r \<longrightarrow> \<not> better r p)) \<or>
     (better q p \<and> picked better eligible xs d q)"
proof (induction xs arbitrary: c p)
  case (Cons x xs)
  show ?case
  proof (cases "eligible x")
    case None
    with Cons.prems Cons.IH [of c p] picked_skip [of better eligible xs d q x] show ?thesis by auto
  next
    case (Some r)
    show ?thesis
    proof (cases "better r p")
      case False
      with Some Cons.prems have "scan_best better eligible xs (Some (c, p)) = Some (d, q)"
        by (simp add: keep_best_def)
      from Cons.IH [OF this] show ?thesis
      proof (elim disjE)
        assume q: "better q p \<and> picked better eligible xs d q"
        then have "better q r" using False not_better_trans [of q r p] by blast
        with q Some picked_skip [of better eligible xs d q x] show ?thesis by simp
      next
        assume "d = c \<and> q = p \<and> (\<forall>x \<in> set xs. \<forall>r. eligible x = Some r \<longrightarrow> \<not> better r p)"
        with Some False show ?thesis by simp
      qed
    next
      case True
      with Some Cons.prems have "scan_best better eligible xs (Some (x, r)) = Some (d, q)"
        by (simp add: keep_best_def)
      from Cons.IH [OF this] show ?thesis
      proof (elim disjE)
        assume "d = x \<and> q = r \<and> (\<forall>x \<in> set xs. \<forall>s. eligible x = Some s \<longrightarrow> \<not> better s r)"
        with True Some picked_here [of eligible x r xs better] show ?thesis by simp
      next
        assume q: "better q r \<and> picked better eligible xs d q"
        then have "better q p" using True better_trans by blast
        with q Some picked_skip [of better eligible xs d q x] show ?thesis by simp
      qed
    qed
  qed
qed simp

lemma scan_best_Some:
  "scan_best better eligible xs None = Some (d, q) \<Longrightarrow> picked better eligible xs d q"
proof (induction xs)
  case (Cons x xs)
  show ?case
  proof (cases "eligible x")
    case None
    with Cons picked_skip [of better eligible xs d q x] show ?thesis by simp
  next
    case (Some r)
    with Cons.prems have "scan_best better eligible xs (Some (x, r)) = Some (d, q)"
      by (simp add: keep_best_def)
    from scan_from [OF this] show ?thesis
      using Some picked_here [of eligible x r xs better] picked_skip [of better eligible xs d q x]
      by auto
  qed
qed simp

lemma scan_best_None_iff:
  "scan_best better eligible xs None = None \<longleftrightarrow> (\<forall>x \<in> set xs. eligible x = None)"
proof -
  have keep: "scan_best better eligible xs (Some b) \<noteq> None" for b xs
  proof (induction xs arbitrary: b)
    case (Cons x xs)
    then show ?case
      by (cases b; cases "eligible x") (auto simp: keep_best_def)
  qed simp
  show ?thesis
  proof (induction xs)
    case (Cons x xs)
    show ?case
    proof (cases "eligible x")
      case (Some r)
      then show ?thesis using keep [of xs "(x, r)"] by (simp add: keep_best_def)
    qed (use Cons in simp)
  qed simp
qed

text \<open>No eligible candidate is better than the one found.\<close>

lemma picked_max:
  assumes "picked better eligible xs d q" "x \<in> set xs" "eligible x = Some r"
  shows "\<not> better r q"
proof -
  obtain ys zs where ys: "xs = ys @ d # zs" "eligible d = Some q"
    "\<forall>y \<in> set ys. \<forall>r. eligible y = Some r \<longrightarrow> better q r"
    "\<forall>z \<in> set zs. \<forall>r. eligible z = Some r \<longrightarrow> \<not> better r q"
    using assms(1) unfolding picked_def by blast
  then consider "x \<in> set ys" | "x = d" | "x \<in> set zs" using assms(2) by auto
  then show ?thesis
  proof cases
    case 1
    then have "better q r" using ys(3) assms(3) by blast
    then show ?thesis using better_trans better_irrefl by blast
  qed (use ys assms(3) better_irrefl in auto)
qed

end

interpretation prio: priority_scan outranks
  by unfold_locales (auto simp: outranks_less)

definition task_at :: "scheduler \<Rightarrow> nat \<Rightarrow> task option" where
  "task_at s i = (if i < length (tasks s) then tasks s ! i else None)"

text \<open>What makes a slot a candidate for the CPU, with its priority.\<close>

definition runnable_priority :: "scheduler \<Rightarrow> nat \<Rightarrow> priority option" where
  "runnable_priority s slot = (case task_at s slot of
       None \<Rightarrow> None
     | Some t \<Rightarrow> if task_state t \<noteq> Runnable then None else Some (task_priority t))"

definition next_runnable :: "scheduler \<Rightarrow> nat option" where
  "next_runnable s = map_option fst
     (scan_best outranks (runnable_priority s)
        (map (\<lambda>step. (current s + step) mod MAX_TASKS) [1..<MAX_TASKS + 1]) None)"

section \<open>The switch log\<close>

datatype reason = Voluntary | Preemptive

record switch_log =
  log_from :: "u8 list"
  log_to :: "u8 list"
  log_preemptive :: "bool list"
  log_len :: nat
  log_overflow :: nat
  preemptions :: nat

definition switch_log_new :: switch_log where
  "switch_log_new = \<lparr>log_from = replicate SWITCH_LOG_LEN 0, log_to = replicate SWITCH_LOG_LEN 0,
     log_preemptive = replicate SWITCH_LOG_LEN False, log_len = 0, log_overflow = 0, preemptions = 0\<rparr>"

definition note_switch :: "nat \<Rightarrow> nat \<Rightarrow> reason \<Rightarrow> switch_log \<Rightarrow> switch_log" where
  "note_switch from to r l =
     (let l = (if log_len l < SWITCH_LOG_LEN
               then l\<lparr>log_from := (log_from l)[log_len l := of_nat from],
                      log_to := (log_to l)[log_len l := of_nat to],
                      log_preemptive := (log_preemptive l)[log_len l := (r = Preemptive)],
                      log_len := log_len l + 1\<rparr>
               else l\<lparr>log_overflow := log_overflow l + 1\<rparr>)
      in if r = Preemptive then l\<lparr>preemptions := preemptions l + 1\<rparr> else l)"

definition reset_switch_log :: "switch_log \<Rightarrow> switch_log" where
  "reset_switch_log l = l\<lparr>log_len := 0, log_overflow := 0, preemptions := 0\<rparr>"

section \<open>What the scheduler picks\<close>

text \<open>The order in which slots are visited: every slot once, the current one last.\<close>

definition visit_order :: "scheduler \<Rightarrow> nat list" where
  "visit_order s = map (\<lambda>step. (current s + step) mod MAX_TASKS) [1..<MAX_TASKS + 1]"

definition runnable :: "scheduler \<Rightarrow> nat \<Rightarrow> bool" where
  "runnable s slot \<longleftrightarrow> runnable_priority s slot \<noteq> None"

lemma visit_order_set:
  assumes "current s < MAX_TASKS"
  shows "set (visit_order s) = {..<MAX_TASKS}"
proof -
  have "current s \<in> {0,1,2,3,4,5,6,7}" using assms by (auto simp: MAX_TASKS_def)
  then show ?thesis by (auto simp: visit_order_def MAX_TASKS_def upt_rec)
qed

lemma runnable_slot: "runnable s slot \<Longrightarrow> slot < length (tasks s)"
  by (auto simp: runnable_def runnable_priority_def task_at_def split: if_splits)

lemma next_runnable_None:
  assumes "current s < MAX_TASKS" "length (tasks s) = MAX_TASKS"
  shows "next_runnable s = None \<longleftrightarrow> (\<nexists>slot. runnable s slot)"
proof -
  have "next_runnable s = None \<longleftrightarrow> (\<forall>x \<in> set (visit_order s). runnable_priority s x = None)"
    by (simp only: next_runnable_def visit_order_def [symmetric] map_option_is_None
        prio.scan_best_None_iff)
  then show ?thesis
    using visit_order_set [OF assms(1)] runnable_slot [of s] assms(2) by (auto simp: runnable_def)
qed

lemma next_runnable_Some:
  assumes "next_runnable s = Some slot" "current s < MAX_TASKS"
  shows "runnable s slot" "slot < MAX_TASKS"
    "\<And>other. other < MAX_TASKS \<Longrightarrow> runnable_priority s other = Some p \<Longrightarrow>
       the (runnable_priority s slot) \<le> p"
proof -
  obtain q where q: "scan_best outranks (runnable_priority s) (visit_order s) None = Some (slot, q)"
    using assms(1) by (auto simp: next_runnable_def visit_order_def)
  note pick = prio.scan_best_Some [OF q]
  then obtain ys zs where yz: "visit_order s = ys @ slot # zs" "runnable_priority s slot = Some q"
    unfolding picked_def by blast
  then show "runnable s slot" by (simp add: runnable_def)
  show "slot < MAX_TASKS" using yz(1) visit_order_set [OF assms(2)] by (metis in_set_conv_decomp lessThan_iff)
  show "the (runnable_priority s slot) \<le> p"
    if "other < MAX_TASKS" "runnable_priority s other = Some p" for other
  proof -
    have "\<not> outranks p q"
      using prio.picked_max [OF pick _ that(2)] that(1) visit_order_set [OF assms(2)] by simp
    then show ?thesis using yz(2) by (simp add: outranks_less)
  qed
qed

text \<open>
  C33. The scheduler runs the most important runnable task, and takes turns among equals: the task
  it picks is runnable, no runnable task outranks it, and among the runnable tasks of its priority
  it is the first after the current one in slot order, the current one being considered last. It
  picks nothing only when no task is runnable.
\<close>

theorem next_runnable_best_round_robin:
  assumes "current s < MAX_TASKS" "length (tasks s) = MAX_TASKS"
  shows "case next_runnable s of
      None \<Rightarrow> \<nexists>slot. runnable s slot
    | Some slot \<Rightarrow> \<exists>p before after. runnable_priority s slot = Some p \<and>
        visit_order s = before @ slot # after \<and>
        (\<forall>other \<in> set before. \<forall>q. runnable_priority s other = Some q \<longrightarrow> p < q) \<and>
        (\<forall>other \<in> set after. \<forall>q. runnable_priority s other = Some q \<longrightarrow> p \<le> q)"
proof (cases "next_runnable s")
  case None
  then show ?thesis using next_runnable_None [OF assms] by simp
next
  case (Some slot)
  then obtain p where "scan_best outranks (runnable_priority s) (visit_order s) None = Some (slot, p)"
    by (auto simp: next_runnable_def visit_order_def)
  from prio.scan_best_Some [OF this] obtain before after where
    "visit_order s = before @ slot # after" "runnable_priority s slot = Some p"
    "\<forall>other \<in> set before. \<forall>q. runnable_priority s other = Some q \<longrightarrow> p < q"
    "\<forall>other \<in> set after. \<forall>q. runnable_priority s other = Some q \<longrightarrow> p \<le> q"
    unfolding picked_def outranks_less not_less by blast
  with Some show ?thesis by auto
qed

definition demo_task :: "priority \<Rightarrow> task_state \<Rightarrow> task" where
  "demo_task p st = \<lparr>task_name = ''demo'', task_space = None, task_sp = 0, task_stack = Frame 0x40000000,
     owns_stack = False, task_priority = p, task_state = st, task_exit = None, task_fault = None,
     task_image = None\<rparr>"

definition demo_sched :: scheduler where
  "demo_sched = \<lparr>tasks = [Some (demo_task IDLE Runnable), Some (demo_task NORMAL Runnable),
     Some (demo_task HIGH Blocked), Some (demo_task NORMAL Runnable), None, None, None, None],
     current = 1\<rparr>"

theorem next_runnable_best_round_robin_witness:
  "next_runnable demo_sched = Some 3 \<and>
   (\<exists>before after. visit_order demo_sched = before @ 3 # after \<and> 1 \<in> set after)"
proof -
  have n: "next_runnable demo_sched = Some 3"
    by (simp add: next_runnable_def demo_sched_def runnable_priority_def task_at_def demo_task_def
        MAX_TASKS_def keep_best_def outranks_def IDLE_def NORMAL_def upt_rec)
  have v: "visit_order demo_sched = [2, 3, 4, 5, 6, 7, 0, 1]"
    by (simp add: visit_order_def demo_sched_def MAX_TASKS_def upt_rec)
  have "current demo_sched < MAX_TASKS" "length (tasks demo_sched) = MAX_TASKS"
    by (simp_all add: demo_sched_def MAX_TASKS_def)
  from next_runnable_best_round_robin [OF this] n
  obtain p before after where "visit_order demo_sched = before @ 3 # after"
    "\<forall>other \<in> set before. \<forall>q. runnable_priority demo_sched other = Some q \<longrightarrow> p < q"
    "runnable_priority demo_sched 3 = Some p" by auto
  moreover from this(1) v have "after = [4, 5, 6, 7, 0, 1]"
    by (cases before) (auto simp: Cons_eq_append_conv)
  ultimately show ?thesis using n by (intro conjI exI [of _ before] exI [of _ after]) simp_all
qed

end
