(* ===== verification/Ipc_Table.thy ===== *)
theory Ipc_Table
  imports Tasks
begin

text \<open>
  The tables behind message passing and notifications: what a task waits for, what it will be
  told, what it lent (\<open>Table\<close> of \<open>ipc.rs\<close>), and the routes and notification words of
  \<open>notify.rs\<close>; with the operations that work on these tables alone, and the check of a
  sender's lease descriptors, which also reads the sender's memory.

  Return codes are \<open>u64\<close> as in the system call ABI.
\<close>

section \<open>Constants\<close>

definition MAX_MESSAGE :: u64 where "MAX_MESSAGE = 256"
definition MAX_LEASES :: nat where "MAX_LEASES = 4"
definition MAX_BORROW :: u64 where "MAX_BORROW = 4096"
definition LEASE_READ :: u64 where "LEASE_READ = push_bit 0 1"
definition LEASE_WRITE :: u64 where "LEASE_WRITE = push_bit 1 1"
definition LEASE_STRIDE :: u64 where "LEASE_STRIDE = 24"
definition EINVAL :: u64 where "EINVAL = - 1"
definition EFAULT :: u64 where "EFAULT = - 2"
definition EDEAD :: u64 where "EDEAD = - 3"
definition EPERM :: u64 where "EPERM = - 4"
definition NOTIFICATION :: u64 where "NOTIFICATION = - 1"

section \<open>Messages\<close>

record lease =
  lease_base :: u64
  lease_len :: u64
  lease_attrs :: u64

definition NO_LEASE :: lease where
  "NO_LEASE = \<lparr>lease_base = 0, lease_len = 0, lease_attrs = 0\<rparr>"

record message =
  msg_target :: nat
  msg_operation :: u64
  msg_out :: u64
  msg_out_len :: u64
  msg_reply_buf :: u64
  msg_reply_cap :: u64

datatype pending = SendWait message | ReplyWait message | RecvWait (recv_buf: u64) (recv_cap: u64)

record outcome =
  out_a :: u64
  out_b :: u64
  out_c :: u64

definition outcome_default :: outcome where
  "outcome_default = \<lparr>out_a = 0, out_b = 0, out_c = 0\<rparr>"

record ipc_table =
  pending :: "pending option list"
  outcomes :: "outcome list"
  leases :: "lease list list"
  lease_count :: "nat list"

definition ipc_table_new :: ipc_table where
  "ipc_table_new = \<lparr>pending = replicate MAX_TASKS None, outcomes = replicate MAX_TASKS outcome_default,
     leases = replicate MAX_TASKS (replicate MAX_LEASES NO_LEASE), lease_count = replicate MAX_TASKS 0\<rparr>"

text \<open>The arrays have one entry for each task slot.\<close>

definition table_ok :: "ipc_table \<Rightarrow> bool" where
  "table_ok t \<longleftrightarrow> length (pending t) = MAX_TASKS \<and> length (outcomes t) = MAX_TASKS \<and>
     length (leases t) = MAX_TASKS \<and> length (lease_count t) = MAX_TASKS \<and>
     (\<forall>ls \<in> set (leases t). length ls = MAX_LEASES) \<and> (\<forall>n \<in> set (lease_count t). n \<le> MAX_LEASES)"

definition set_pending :: "nat \<Rightarrow> pending option \<Rightarrow> ipc_table \<Rightarrow> ipc_table" where
  "set_pending slot p t = t\<lparr>pending := (pending t)[slot := p]\<rparr>"

definition set_outcome :: "nat \<Rightarrow> outcome \<Rightarrow> ipc_table \<Rightarrow> ipc_table" where
  "set_outcome slot o' t = t\<lparr>outcomes := (outcomes t)[slot := o']\<rparr>"

definition set_leases :: "nat \<Rightarrow> lease list \<Rightarrow> nat \<Rightarrow> ipc_table \<Rightarrow> ipc_table" where
  "set_leases slot ls n t =
     t\<lparr>leases := (leases t)[slot := ls], lease_count := (lease_count t)[slot := n]\<rparr>"

text \<open>Record what a blocked sender is about to be told: the outcome, nothing pending, no lease.\<close>

definition deliver_outcome :: "nat \<Rightarrow> u64 \<Rightarrow> u64 \<Rightarrow> ipc_table \<Rightarrow> ipc_table" where
  "deliver_outcome sender rc len t =
     set_leases sender (replicate MAX_LEASES NO_LEASE) 0
       (set_pending sender None
         (set_outcome sender \<lparr>out_a = rc, out_b = len, out_c = 0\<rparr> t))"

text \<open>What makes a slot a candidate sender to \<open>target\<close>, with its priority.\<close>

definition sender_priority :: "ipc_table \<Rightarrow> scheduler \<Rightarrow> nat \<Rightarrow> nat \<Rightarrow> priority option" where
  "sender_priority t s target slot = (case pending t ! slot of
       Some (SendWait message) \<Rightarrow>
         if msg_target message \<noteq> target then None else map_option task_priority (task_at s slot)
     | _ \<Rightarrow> None)"

definition best_sender :: "ipc_table \<Rightarrow> scheduler \<Rightarrow> nat \<Rightarrow> nat option" where
  "best_sender t s target =
     map_option fst (scan_best outranks (sender_priority t s target) [0..<MAX_TASKS] None)"

section \<open>Lease descriptors\<close>

definition read_user_u64 :: "phys \<Rightarrow> frame \<Rightarrow> u64 \<Rightarrow> u64 option" where
  "read_user_u64 p root va = do {
     pa \<leftarrow> translate p root va;
     Some (read_u64 p (phys_to_virt p pa))
   }"

text \<open>One descriptor: its three words, and the checks on them.\<close>

definition collect_lease :: "phys \<Rightarrow> frame \<Rightarrow> u64 \<Rightarrow> (u64 + lease) option" where
  "collect_lease p root entry = do {
     e8 \<leftarrow> checked_add entry 8;
     e16 \<leftarrow> checked_add entry 16;
     case (read_user_u64 p root entry, read_user_u64 p root e8, read_user_u64 p root e16) of
       (Some base, Some len, Some attrs) \<Rightarrow>
         if attrs = 0 \<or> attrs AND NOT (LEASE_READ OR LEASE_WRITE) \<noteq> 0 then Some (Inl EINVAL)
         else do {
           readable \<leftarrow> user_readable p root base len;
           writable \<leftarrow> user_writable p root base len;
           if attrs AND LEASE_READ \<noteq> 0 \<and> \<not> readable then Some (Inl EFAULT)
           else if attrs AND LEASE_WRITE \<noteq> 0 \<and> \<not> writable then Some (Inl EFAULT)
           else Some (Inr \<lparr>lease_base = base, lease_len = len, lease_attrs = attrs\<rparr>)
         }
     | _ \<Rightarrow> Some (Inl EFAULT)
   }"

fun collect_from :: "phys \<Rightarrow> frame \<Rightarrow> u64 \<Rightarrow> nat list \<Rightarrow> lease list \<Rightarrow> (u64 + lease list) option" where
  "collect_from p root table_va [] ls = Some (Inr ls)"
| "collect_from p root table_va (index # rest) ls = do {
     off \<leftarrow> checked_mul (of_nat index) LEASE_STRIDE;
     entry \<leftarrow> checked_add table_va off;
     r \<leftarrow> collect_lease p root entry;
     case r of
       Inl e \<Rightarrow> Some (Inl e)
     | Inr l \<Rightarrow> collect_from p root table_va rest (ls[index := l])
   }"

definition collect_leases :: "phys \<Rightarrow> frame \<Rightarrow> u64 \<Rightarrow> u64 \<Rightarrow> (u64 + lease list \<times> nat) option" where
  "collect_leases p root table_va count =
     (let ls = replicate MAX_LEASES NO_LEASE in
      if count = 0 then Some (Inr (ls, 0))
      else if MAX_LEASES < unat count then Some (Inl EINVAL)
      else if \<not> is_multiple_of table_va 8 then Some (Inl EINVAL)
      else do {
        table_len \<leftarrow> checked_mul count LEASE_STRIDE;
        ok \<leftarrow> user_readable p root table_va table_len;
        if \<not> ok then Some (Inl EFAULT)
        else do {
          r \<leftarrow> collect_from p root table_va [0..<unat count] ls;
          Some (case r of Inl e \<Rightarrow> Inl e | Inr ls \<Rightarrow> Inr (ls, unat count))
        }
      })"

section \<open>Notifications\<close>

definition MAX_ROUTES :: nat where "MAX_ROUTES = 8"

record route =
  route_intid :: u32
  route_task :: nat
  route_bits :: u32

record notify_state =
  routes :: "route option list"
  posted :: "u32 list"
  wanted :: "u32 list"

definition notify_new :: notify_state where
  "notify_new = \<lparr>routes = replicate MAX_ROUTES None, posted = replicate MAX_TASKS 0,
     wanted = replicate MAX_TASKS 0\<rparr>"

definition notify_ok :: "notify_state \<Rightarrow> bool" where
  "notify_ok n \<longleftrightarrow> length (routes n) = MAX_ROUTES \<and> length (posted n) = MAX_TASKS \<and>
     length (wanted n) = MAX_TASKS"

definition route_irq :: "u32 \<Rightarrow> nat \<Rightarrow> u32 \<Rightarrow> notify_state \<Rightarrow> notify_state option" where
  "route_irq intid task bits n = do {
     slot \<leftarrow> position (\<lambda>r. r = None) (routes n);
     Some (n\<lparr>routes := (routes n)[slot := Some \<lparr>route_intid = intid, route_task = task, route_bits = bits\<rparr>]\<rparr>)
   }"

text \<open>\<open>iter().flatten().find(..)\<close>\<close>

definition find_route :: "u32 \<Rightarrow> notify_state \<Rightarrow> route option" where
  "find_route intid n = List.find (\<lambda>r. route_intid r = intid) (map the (filter (\<lambda>r. r \<noteq> None) (routes n)))"

text \<open>\<open>take\<close>, \<open>arm\<close>, \<open>disarm\<close>, \<open>clear\<close>: array accesses that panic out of range.\<close>

definition notify_take :: "nat \<Rightarrow> u32 \<Rightarrow> notify_state \<Rightarrow> (u32 \<times> notify_state) option" where
  "notify_take task bits n = do {
     p \<leftarrow> idx (posted n) task;
     let fired = p AND bits;
     Some (fired, n\<lparr>posted := (posted n)[task := p AND NOT fired]\<rparr>)
   }"

definition notify_arm :: "nat \<Rightarrow> u32 \<Rightarrow> notify_state \<Rightarrow> notify_state option" where
  "notify_arm task bits n =
     (if task < length (wanted n) then Some (n\<lparr>wanted := (wanted n)[task := bits]\<rparr>) else None)"

definition notify_disarm :: "nat \<Rightarrow> notify_state \<Rightarrow> notify_state option" where
  "notify_disarm task n = notify_arm task 0 n"

definition notify_clear :: "nat \<Rightarrow> notify_state \<Rightarrow> notify_state option" where
  "notify_clear task n =
     (if task < length (posted n) \<and> task < length (wanted n)
      then Some (n\<lparr>posted := (posted n)[task := 0], wanted := (wanted n)[task := 0]\<rparr>) else None)"

end
