(* ===== verification/Gic.thy ===== *)
theory Gic
  imports Memory
begin

text \<open>
  The interrupt controller (\<open>gic.rs\<close>): a GICv2 distributor and CPU interface, reached
  through memory-mapped registers.

  The driver's effect is the sequence of register writes it makes, kept in the order they were
  made. What a register returns is the hardware's: the distributor's type register is a field of
  the state, and the identifier \<open>acknowledge\<close> reads is an argument of the interrupt entry in
  \<open>Exceptions\<close>.
\<close>

section \<open>Registers\<close>

definition GICD_BOOTSTRAP :: u64 where "GICD_BOOTSTRAP = 0x08000000"
definition GICC_BOOTSTRAP :: u64 where "GICC_BOOTSTRAP = 0x08010000"
definition GICD_CTLR :: u64 where "GICD_CTLR = 0x000"
definition GICD_IGROUPR :: u64 where "GICD_IGROUPR = 0x080"
definition GICD_ISENABLER :: u64 where "GICD_ISENABLER = 0x100"
definition GICD_ICENABLER :: u64 where "GICD_ICENABLER = 0x180"
definition GICD_ICPENDR :: u64 where "GICD_ICPENDR = 0x280"
definition GICD_IPRIORITYR :: u64 where "GICD_IPRIORITYR = 0x400"
definition GICD_ITARGETSR :: u64 where "GICD_ITARGETSR = 0x800"
definition GICC_CTLR :: u64 where "GICC_CTLR = 0x00"
definition GICC_PMR :: u64 where "GICC_PMR = 0x04"
definition GICC_BPR :: u64 where "GICC_BPR = 0x08"
definition GICC_EOIR :: u64 where "GICC_EOIR = 0x10"
definition SPURIOUS_INTID :: u32 where "SPURIOUS_INTID = 1023"
definition DEFAULT_PRIORITY :: u8 where "DEFAULT_PRIORITY = 0xa0"

datatype reg_write = Write32 u64 u32 | Write8 u64 u8

record gic =
  gicd :: u64
  gicc :: u64
  gicd_typer :: u32
  gic_trace :: "reg_write list"

definition gic_bases :: "gic \<Rightarrow> u64 \<times> u64" where
  "gic_bases g = (gicd g, gicc g)"

definition gic_adopt :: "u64 \<Rightarrow> u64 \<Rightarrow> gic \<Rightarrow> gic" where
  "gic_adopt distributor cpu_interface g = g\<lparr>gicd := distributor, gicc := cpu_interface\<rparr>"

definition gic_reg :: "phys \<Rightarrow> u64 \<Rightarrow> u64 \<Rightarrow> u64 option" where
  "gic_reg p base offset = do { a \<leftarrow> checked_add base offset; Some (phys_to_virt p a) }"

definition gicd_write :: "phys \<Rightarrow> u64 \<Rightarrow> u32 \<Rightarrow> gic \<Rightarrow> gic option" where
  "gicd_write p offset v g = do {
     a \<leftarrow> gic_reg p (gicd g) offset;
     Some (g\<lparr>gic_trace := gic_trace g @ [Write32 a v]\<rparr>)
   }"

definition gicd_write_byte :: "phys \<Rightarrow> u64 \<Rightarrow> u8 \<Rightarrow> gic \<Rightarrow> gic option" where
  "gicd_write_byte p offset v g = do {
     a \<leftarrow> gic_reg p (gicd g) offset;
     Some (g\<lparr>gic_trace := gic_trace g @ [Write8 a v]\<rparr>)
   }"

definition gicc_write :: "phys \<Rightarrow> u64 \<Rightarrow> u32 \<Rightarrow> gic \<Rightarrow> gic option" where
  "gicc_write p offset v g = do {
     a \<leftarrow> gic_reg p (gicc g) offset;
     Some (g\<lparr>gic_trace := gic_trace g @ [Write32 a v]\<rparr>)
   }"

section \<open>Operations\<close>

definition num_interrupts :: "gic \<Rightarrow> u32 option" where
  "num_interrupts g = do {
     n \<leftarrow> checked_add (gicd_typer g AND 0x1f) 1;
     checked_mul 32 n
   }"

definition quiet_register :: "phys \<Rightarrow> nat \<Rightarrow> gic \<Rightarrow> gic option" where
  "quiet_register p reg g = do {
     offset \<leftarrow> checked_mul (of_nat reg :: u32) 4;
     a \<leftarrow> checked_add GICD_ICENABLER (ucast offset);
     g \<leftarrow> gicd_write p a 0xffffffff g;
     a \<leftarrow> checked_add GICD_ICPENDR (ucast offset);
     g \<leftarrow> gicd_write p a 0xffffffff g;
     a \<leftarrow> checked_add GICD_IGROUPR (ucast offset);
     gicd_write p a 0 g
   }"

definition set_line_byte :: "phys \<Rightarrow> u64 \<Rightarrow> u8 \<Rightarrow> nat \<Rightarrow> gic \<Rightarrow> gic option" where
  "set_line_byte p first v intid g = do {
     a \<leftarrow> checked_add first (of_nat intid);
     gicd_write_byte p a v g
   }"

definition gic_init :: "phys \<Rightarrow> gic \<Rightarrow> gic option" where
  "gic_init p g = do {
     lines \<leftarrow> num_interrupts g;
     g \<leftarrow> gicd_write p GICD_CTLR 0 g;
     g \<leftarrow> for_each (quiet_register p) [0..<unat (div_ceil lines 32)] g;
     g \<leftarrow> for_each (set_line_byte p GICD_IPRIORITYR DEFAULT_PRIORITY) [0..<unat lines] g;
     g \<leftarrow> for_each (set_line_byte p GICD_ITARGETSR 1) [32..<unat lines] g;
     g \<leftarrow> gicd_write p GICD_CTLR 1 g;
     g \<leftarrow> gicc_write p GICC_PMR 0xff g;
     g \<leftarrow> gicc_write p GICC_BPR 0 g;
     gicc_write p GICC_CTLR 1 g
   }"

definition gic_enable :: "phys \<Rightarrow> u32 \<Rightarrow> gic \<Rightarrow> gic option" where
  "gic_enable p intid g = do {
     reg \<leftarrow> checked_mul (ucast (intid div 32) :: u64) 4;
     a \<leftarrow> checked_add GICD_ISENABLER reg;
     gicd_write p a (push_bit (unat (intid mod 32)) 1) g
   }"

definition end_of_interrupt :: "phys \<Rightarrow> u32 \<Rightarrow> gic \<Rightarrow> gic option" where
  "end_of_interrupt p intid g = gicc_write p GICC_EOIR intid g"

section \<open>The initialisation sequence\<close>

text \<open>The register banks fit above their bases.\<close>

definition banks_fit :: "gic \<Rightarrow> bool" where
  "banks_fit g \<longleftrightarrow> unat (gicd g) + 0x1000 \<le> 2 ^ 64 \<and> unat (gicc g) + 0x1000 \<le> 2 ^ 64"

lemma gicd_write_ok:
  "banks_fit g \<Longrightarrow> unat off < 0x1000 \<Longrightarrow>
     gicd_write p off v g = Some (g\<lparr>gic_trace := gic_trace g @ [Write32 (phys_to_virt p (gicd g + off)) v]\<rparr>)"
  by (simp add: gicd_write_def gic_reg_def checked_add_def banks_fit_def)

lemma gicd_write_byte_ok:
  "banks_fit g \<Longrightarrow> unat off < 0x1000 \<Longrightarrow>
     gicd_write_byte p off v g = Some (g\<lparr>gic_trace := gic_trace g @ [Write8 (phys_to_virt p (gicd g + off)) v]\<rparr>)"
  by (simp add: gicd_write_byte_def gic_reg_def checked_add_def banks_fit_def)

lemma gicc_write_ok:
  "banks_fit g \<Longrightarrow> unat off < 0x1000 \<Longrightarrow>
     gicc_write p off v g = Some (g\<lparr>gic_trace := gic_trace g @ [Write32 (phys_to_virt p (gicc g + off)) v]\<rparr>)"
  by (simp add: gicc_write_def gic_reg_def checked_add_def banks_fit_def)

lemma banks_fit_trace [simp]: "banks_fit (g\<lparr>gic_trace := t\<rparr>) = banks_fit g"
  by (simp add: banks_fit_def)

lemma num_interrupts_ok:
  "num_interrupts g = Some (32 * ((gicd_typer g AND 0x1f) + 1))"
  "unat (32 * ((gicd_typer g AND 0x1f) + 1)) = 32 * (unat (gicd_typer g AND 0x1f) + 1)"
  "unat (gicd_typer g AND 0x1f) < 32"
proof -
  have m: "gicd_typer g AND 0x1f = take_bit 5 (gicd_typer g)"
    by (simp add: take_bit_eq_mask mask_eq_exp_minus_1)
  have lt: "unat (gicd_typer g AND 0x1f) < 32"
    unfolding m by (simp add: unsigned_take_bit_eq take_bit_nat_def)
  have one: "unat ((gicd_typer g AND 0x1f) + 1) = unat (gicd_typer g AND 0x1f) + 1"
    using lt by (subst unat_add_no_overflow) simp_all
  have "unat (32 :: u32) * unat ((gicd_typer g AND 0x1f) + 1) < 2 ^ LENGTH(32)"
    unfolding one using lt by simp
  from unat_mult_no_overflow [OF this] one
  show "unat (32 * ((gicd_typer g AND 0x1f) + 1)) = 32 * (unat (gicd_typer g AND 0x1f) + 1)"
    by simp
  show "num_interrupts g = Some (32 * ((gicd_typer g AND 0x1f) + 1))"
    using lt one by (simp add: num_interrupts_def checked_add_def checked_mul_def)
  show "unat (gicd_typer g AND 0x1f) < 32" by (rule lt)
qed

text \<open>What one step of each loop writes.\<close>

definition quiet_writes :: "phys \<Rightarrow> gic \<Rightarrow> nat \<Rightarrow> reg_write list" where
  "quiet_writes p g reg =
     [Write32 (phys_to_virt p (gicd g + (GICD_ICENABLER + of_nat (4 * reg)))) 0xffffffff,
      Write32 (phys_to_virt p (gicd g + (GICD_ICPENDR + of_nat (4 * reg)))) 0xffffffff,
      Write32 (phys_to_virt p (gicd g + (GICD_IGROUPR + of_nat (4 * reg)))) 0]"

definition byte_write :: "phys \<Rightarrow> gic \<Rightarrow> u64 \<Rightarrow> u8 \<Rightarrow> nat \<Rightarrow> reg_write" where
  "byte_write p g first v intid = Write8 (phys_to_virt p (gicd g + (first + of_nat intid))) v"

definition init_writes :: "phys \<Rightarrow> gic \<Rightarrow> nat \<Rightarrow> reg_write list" where
  "init_writes p g lines =
     [Write32 (phys_to_virt p (gicd g + GICD_CTLR)) 0] @
     concat (map (quiet_writes p g) [0..<lines div 32]) @
     map (byte_write p g GICD_IPRIORITYR DEFAULT_PRIORITY) [0..<lines] @
     map (byte_write p g GICD_ITARGETSR 1) [32..<lines] @
     [Write32 (phys_to_virt p (gicd g + GICD_CTLR)) 1,
      Write32 (phys_to_virt p (gicc g + GICC_PMR)) 0xff,
      Write32 (phys_to_virt p (gicc g + GICC_BPR)) 0,
      Write32 (phys_to_virt p (gicc g + GICC_CTLR)) 1]"

lemma init_writes_ends:
  "init_writes p g n ! 0 = Write32 (phys_to_virt p (gicd g + GICD_CTLR)) 0"
  "last (init_writes p g n) = Write32 (phys_to_virt p (gicc g + GICC_CTLR)) 1"
  by (simp_all add: init_writes_def)

lemma quiet_register_ok:
  assumes "banks_fit g" "reg < 32"
  shows "quiet_register p reg g = Some (g\<lparr>gic_trace := gic_trace g @ quiet_writes p g reg\<rparr>)"
proof -
  have small: "unat (of_nat (4 * reg) :: u64) = 4 * reg"
    using assms(2) by (intro unat_of_nat_u64) simp
  have u32: "unat (of_nat reg :: u32) = reg"
    using assms(2) by (simp add: unat_of_nat take_bit_nat_eq_self)
  have off: "checked_mul (of_nat reg :: u32) 4 = Some (of_nat (4 * reg))"
    using assms(2) by (simp add: checked_mul_def u32 mult.commute)
  have up: "ucast (of_nat (4 * reg) :: u32) = (of_nat (4 * reg) :: u64)"
    using assms(2) by (simp only: unsigned_of_nat) (simp add: take_bit_nat_eq_self del: of_nat_mult)
  have add: "checked_add base (of_nat (4 * reg)) = Some (base + of_nat (4 * reg))"
    "unat (base + of_nat (4 * reg) :: u64) < 0x1000"
    if "unat base \<le> 0x280" for base :: u64
  proof -
    have s: "unat base + unat (of_nat (4 * reg) :: u64) < 2 ^ LENGTH(64)"
      unfolding small using that assms(2) by simp
    then show "checked_add base (of_nat (4 * reg)) = Some (base + of_nat (4 * reg))"
      unfolding checked_add_def by simp
    show "unat (base + of_nat (4 * reg) :: u64) < 0x1000"
      unfolding unat_add_no_overflow [OF s] small using that assms(2) by simp
  qed
  have b: "unat GICD_ICENABLER \<le> 0x280" "unat GICD_ICPENDR \<le> 0x280" "unat GICD_IGROUPR \<le> 0x280"
    by (simp_all add: GICD_ICENABLER_def GICD_ICPENDR_def GICD_IGROUPR_def)
  show ?thesis
    unfolding quiet_register_def off quiet_writes_def
    using assms(1) by (simp only: bind.bind_lunit up add [OF b(1)] add [OF b(2)] add [OF b(3)]
      gicd_write_ok banks_fit_trace) (simp)
qed

lemma set_line_byte_ok:
  assumes "banks_fit g" "intid < 1024" "unat first \<le> 0x800"
  shows "set_line_byte p first v intid g = Some (g\<lparr>gic_trace := gic_trace g @ [byte_write p g first v intid]\<rparr>)"
proof -
  have small: "unat (of_nat intid :: u64) = intid"
    using assms(2) by (intro unat_of_nat_u64) simp
  have s: "unat first + unat (of_nat intid :: u64) < 2 ^ LENGTH(64)"
    unfolding small using assms by simp
  have "checked_add first (of_nat intid) = Some (first + of_nat intid)"
    unfolding checked_add_def using s by simp
  moreover have "unat (first + of_nat intid :: u64) < 0x1000"
    unfolding unat_add_no_overflow [OF s] small using assms by simp
  ultimately show ?thesis
    unfolding set_line_byte_def byte_write_def using assms(1) by (simp add: gicd_write_byte_ok)
qed

text \<open>A loop whose every step appends to the trace appends the concatenation.\<close>

lemma for_each_trace:
  assumes "\<And>x g. banks_fit g \<Longrightarrow> x \<in> set xs \<Longrightarrow> f x g = Some (g\<lparr>gic_trace := gic_trace g @ w g x\<rparr>)"
    and "\<And>g t x. w (g\<lparr>gic_trace := t\<rparr>) x = w g x" and "banks_fit g"
  shows "for_each f xs g = Some (g\<lparr>gic_trace := gic_trace g @ concat (map (w g) xs)\<rparr>)"
  using assms(1,3)
proof (induction xs arbitrary: g)
  case (Cons x xs)
  then show ?case by (simp add: assms(2) [abs_def])
qed simp

text \<open>
  C34. Bringing up the controller: the distributor is off while it is reconfigured, every line it
  has is disabled, cleared and put in group 0, every line gets the default priority and every
  shared line targets core 0, and only then are the distributor and the CPU interface turned on,
  the latter last, after its priority mask is opened.
\<close>

theorem gic_init_sequence:
  assumes "banks_fit g"
  shows "\<exists>lines. num_interrupts g = Some lines \<and> unat lines = 32 * (unat (gicd_typer g AND 0x1f) + 1) \<and>
    gic_init p g = Some (g\<lparr>gic_trace := gic_trace g @ init_writes p g (unat lines)\<rparr>)"
proof -
  define lines where "lines = 32 * ((gicd_typer g AND 0x1f) + 1)"
  note n = num_interrupts_ok [of g, folded lines_def]
  have "unat (div_ceil lines 32) = unat lines div 32"
    using n(2) by (simp add: div_ceil_def unat_div_mod word_less_nat_alt)
  moreover have "for_each (quiet_register p) [0..<unat lines div 32] g' =
      Some (g'\<lparr>gic_trace := gic_trace g' @ concat (map (quiet_writes p g') [0..<unat lines div 32])\<rparr>)"
    if "banks_fit g'" for g'
    by (rule for_each_trace) (use n that in \<open>auto simp: quiet_register_ok quiet_writes_def\<close>)
  moreover have "for_each (set_line_byte p first v) [a..<unat lines] g' =
      Some (g'\<lparr>gic_trace := gic_trace g' @ map (byte_write p g' first v) [a..<unat lines]\<rparr>)"
    if "banks_fit g'" "unat first \<le> 0x800" for g' first v a
  proof -
    have "for_each (set_line_byte p first v) [a..<unat lines] g' =
      Some (g'\<lparr>gic_trace := gic_trace g' @ concat (map (\<lambda>i. [byte_write p g' first v i]) [a..<unat lines])\<rparr>)"
      by (rule for_each_trace [where w = "\<lambda>g i. [byte_write p g first v i]"])
        (use n that in \<open>auto simp: set_line_byte_ok byte_write_def\<close>)
    then show ?thesis by (simp add: concat_map_singleton)
  qed
  moreover have "byte_write p (g\<lparr>gic_trace := t\<rparr>) = byte_write p g"
    "quiet_writes p (g\<lparr>gic_trace := t\<rparr>) = quiet_writes p g" for t
    by (auto simp: byte_write_def quiet_writes_def fun_eq_iff)
  ultimately have "gic_init p g = Some (g\<lparr>gic_trace := gic_trace g @ init_writes p g (unat lines)\<rparr>)"
    using assms n(1)
    by (simp add: init_writes_def gic_init_def gicd_write_ok gicc_write_ok GICD_CTLR_def GICC_PMR_def GICC_BPR_def
      GICC_CTLR_def GICD_IPRIORITYR_def GICD_ITARGETSR_def)
  then show ?thesis using n by blast
qed

theorem gic_init_sequence_witness:
  "\<exists>g'. gic_init \<lparr>pmem = (\<lambda>_. 0), phys_offset = 0xffff000000000000\<rparr>
     \<lparr>gicd = GICD_BOOTSTRAP, gicc = GICC_BOOTSTRAP, gicd_typer = 8, gic_trace = []\<rparr> = Some g' \<and>
   length (gic_trace g') = 1 + 27 + 288 + 256 + 4 \<and>
   gic_trace g' ! 0 = Write32 0xffff000008000000 0 \<and>
   last (gic_trace g') = Write32 0xffff000008010000 1"
proof -
  let ?p = "\<lparr>pmem = (\<lambda>_. 0), phys_offset = 0xffff000000000000\<rparr>"
  let ?g = "\<lparr>gicd = GICD_BOOTSTRAP, gicc = GICC_BOOTSTRAP, gicd_typer = 8, gic_trace = []\<rparr>"
  have fit: "banks_fit ?g" by (simp add: banks_fit_def GICD_BOOTSTRAP_def GICC_BOOTSTRAP_def)
  have len: "length (concat (map (quiet_writes ?p ?g) xs)) = 3 * length xs" for xs
    by (induction xs) (simp_all add: quiet_writes_def)
  define w where "w = init_writes ?p ?g 288"
  from num_interrupts_ok(2) [of ?g] have n: "unat (32 * ((gicd_typer ?g AND 0x1f) + 1)) = 288" by simp
  from gic_init_sequence [OF fit, of ?p] num_interrupts_ok(1) [of ?g]
  have "gic_init ?p ?g = Some (?g\<lparr>gic_trace := gic_trace ?g @ w\<rparr>)"
    using n by (auto simp only: option.inject w_def)
  moreover have "length w = 1 + 27 + 288 + 256 + 4"
    unfolding w_def init_writes_def length_append length_map length_upt len by simp
  moreover have "w ! 0 = Write32 0xffff000008000000 0" "last w = Write32 0xffff000008010000 1"
    unfolding w_def init_writes_ends
    by (simp_all add: phys_to_virt_def GICD_BOOTSTRAP_def GICC_BOOTSTRAP_def GICD_CTLR_def GICC_CTLR_def)
  moreover have "gic_trace (?g\<lparr>gic_trace := gic_trace ?g @ w\<rparr>) = w" by simp
  ultimately show ?thesis by (intro exI [of _ "?g\<lparr>gic_trace := gic_trace ?g @ w\<rparr>"]) metis
qed

end
