(* ===== verification/Timer.thy ===== *)
theory Timer
  imports Gic
begin

text \<open>
  The generic timer (\<open>timer.rs\<close>). The system registers of the timer are fields; the counter
  \<open>cntpct\<close> is the hardware's, and each operation reads the value it has when it runs.
\<close>

definition TIMER_INTID :: u32 where "TIMER_INTID = 30"
definition TICK_HZ :: u64 where "TICK_HZ = 100"

record timer =
  cntfrq :: u64
  cntpct :: u64
  cntp_cval :: u64
  cntp_ctl :: u64
  ticks :: u64

definition interval :: "timer \<Rightarrow> u64" where
  "interval t = cntfrq t div TICK_HZ"

definition set_deadline :: "u64 \<Rightarrow> timer \<Rightarrow> timer" where
  "set_deadline cval t = t\<lparr>cntp_cval := cval\<rparr>"

definition arm_first :: "timer \<Rightarrow> timer option" where
  "arm_first t = do { d \<leftarrow> checked_add (cntpct t) (interval t); Some (set_deadline d t) }"

definition arm_next :: "timer \<Rightarrow> timer option" where
  "arm_next t = do {
     nxt \<leftarrow> checked_add (cntp_cval t) (interval t);
     nxt \<leftarrow> (if nxt \<le> cntpct t then checked_add (cntpct t) (interval t) else Some nxt);
     Some (set_deadline nxt t)
   }"

definition timer_init :: "phys \<Rightarrow> gic \<Rightarrow> timer \<Rightarrow> (gic \<times> timer) option" where
  "timer_init p g t = do {
     g \<leftarrow> gic_enable p TIMER_INTID g;
     t \<leftarrow> arm_first t;
     Some (g, t\<lparr>cntp_ctl := 1\<rparr>)
   }"

text \<open>The part of \<open>on_tick\<close> that is the timer's; it ends by asking for a reschedule, which is
  in \<open>Exceptions\<close>.\<close>

definition tick :: "timer \<Rightarrow> timer option" where
  "tick t = do {
     t \<leftarrow> arm_next t;
     n \<leftarrow> checked_add (ticks t) 1;
     Some (t\<lparr>ticks := n\<rparr>)
   }"

section \<open>No drift\<close>

text \<open>The handler is entered at each of these counter values in turn.\<close>

fun run_ticks :: "u64 list \<Rightarrow> timer \<Rightarrow> timer option" where
  "run_ticks [] t = Some t"
| "run_ticks (now # rest) t = do { t \<leftarrow> tick (t\<lparr>cntpct := now\<rparr>); run_ticks rest t }"

lemma arm_next_on_time:
  assumes "unat (cntp_cval t) + unat (interval t) < 2 ^ 64" "cntpct t < cntp_cval t + interval t"
  shows "arm_next t = Some (set_deadline (cntp_cval t + interval t) t)"
  using assms by (simp add: arm_next_def checked_add_def not_le [symmetric] del: not_le)

lemma interval_simps [simp]:
  "interval (set_deadline d t) = interval t" "interval (t\<lparr>ticks := n\<rparr>) = interval t"
  "interval (t\<lparr>cntpct := c\<rparr>) = interval t" "interval (t\<lparr>cntp_ctl := c\<rparr>) = interval t"
  by (simp_all add: interval_def set_deadline_def)

lemma ticks_on_time:
  assumes "unat (cntp_cval t) + (length entries) * unat (interval t) < 2 ^ 64"
    and "unat (ticks t) + length entries < 2 ^ 64"
    and "\<forall>i < length entries. unat (entries ! i) < unat (cntp_cval t) + Suc i * unat (interval t)"
  shows "\<exists>t'. run_ticks entries t = Some t' \<and>
    unat (cntp_cval t') = unat (cntp_cval t) + length entries * unat (interval t) \<and>
    unat (ticks t') = unat (ticks t) + length entries \<and> interval t' = interval t"
  using assms
proof (induction entries arbitrary: t)
  case (Cons now rest)
  let ?t = "t\<lparr>cntpct := now\<rparr>"
  have fits: "unat (cntp_cval t) + unat (interval t) < 2 ^ 64"
    using Cons.prems(1) by simp
  then have next_deadline: "unat (cntp_cval t + interval t) = unat (cntp_cval t) + unat (interval t)"
    by (intro unat_add_no_overflow) simp
  have "now < cntp_cval t + interval t"
    using Cons.prems(3) [rule_format, of 0] by (simp add: word_less_nat_alt next_deadline)
  then have arm: "arm_next ?t = Some (set_deadline (cntp_cval t + interval t) ?t)"
    using fits by (subst arm_next_on_time) simp_all
  define t1 where "t1 = (set_deadline (cntp_cval t + interval t) ?t)\<lparr>ticks := ticks t + 1\<rparr>"
  have count: "unat (ticks t) + 1 < 2 ^ 64" using Cons.prems(2) by simp
  then have count': "unat (ticks t + 1) = unat (ticks t) + 1"
    by (subst unat_add_no_overflow) simp_all
  have step: "tick ?t = Some t1"
    using arm count by (simp add: tick_def t1_def checked_add_def set_deadline_def)
  have t1: "unat (cntp_cval t1) = unat (cntp_cval t) + unat (interval t)" "interval t1 = interval t"
    "unat (ticks t1) = unat (ticks t) + 1"
    using next_deadline count' by (simp_all add: t1_def set_deadline_def interval_def)
  have "\<exists>t'. run_ticks rest t1 = Some t' \<and>
    unat (cntp_cval t') = unat (cntp_cval t1) + length rest * unat (interval t1) \<and>
    unat (ticks t') = unat (ticks t1) + length rest \<and> interval t' = interval t1"
  proof (rule Cons.IH)
    show "\<forall>i < length rest. unat (rest ! i) < unat (cntp_cval t1) + Suc i * unat (interval t1)"
    proof (intro allI impI)
      fix i assume "i < length rest"
      then show "unat (rest ! i) < unat (cntp_cval t1) + Suc i * unat (interval t1)"
        using Cons.prems(3) [rule_format, of "Suc i"] t1 by simp
    qed
  qed (use Cons.prems(1,2) t1 in auto)
  then show ?case using step t1 by auto
qed simp

text \<open>Where one tick leaves the deadline, on time or late.\<close>

lemma tick_rearms:
  assumes "tick t = Some t'"
  shows "cntp_cval t' =
    (if cntpct t < cntp_cval t + interval t then cntp_cval t + interval t else cntpct t + interval t)"
  using assms
  by (auto simp: tick_def arm_next_def set_deadline_def checked_add_def bind_eq_Some_conv not_le split: if_splits)

text \<open>
  C35. The heartbeat does not drift while it is kept: as long as every interrupt is handled less than
  a whole interval after its deadline, the deadline after \<open>n\<close> ticks is exactly \<open>n\<close> intervals after the
  first, however late within the interval each was handled, and \<open>n\<close> ticks are counted. A tick that is
  then handled a whole interval late or more gives the missed ones up: the next deadline is one
  interval after the handler ran.
\<close>

theorem heartbeat_does_not_drift:
  assumes "unat (cntp_cval t) + (length entries) * unat (interval t) < 2 ^ 64"
    and "unat (ticks t) + length entries < 2 ^ 64"
    and "\<forall>i < length entries. unat (entries ! i) < unat (cntp_cval t) + Suc i * unat (interval t)"
  shows "\<exists>t'. run_ticks entries t = Some t' \<and>
    unat (cntp_cval t') = unat (cntp_cval t) + length entries * unat (interval t) \<and>
    unat (ticks t') = unat (ticks t) + length entries \<and> interval t' = interval t \<and>
    (\<forall>now t''. tick (t'\<lparr>cntpct := now\<rparr>) = Some t'' \<longrightarrow> cntp_cval t'' =
       (if now < cntp_cval t' + interval t then cntp_cval t' + interval t else now + interval t))"
proof -
  obtain t' where t': "run_ticks entries t = Some t'"
    "unat (cntp_cval t') = unat (cntp_cval t) + length entries * unat (interval t)"
    "unat (ticks t') = unat (ticks t) + length entries" "interval t' = interval t"
    using ticks_on_time [OF assms] by blast
  have "cntp_cval t'' = (if now < cntp_cval t' + interval t then cntp_cval t' + interval t else now + interval t)"
    if "tick (t'\<lparr>cntpct := now\<rparr>) = Some t''" for now t''
    using tick_rearms [OF that] t'(4) by simp
  with t' show ?thesis by blast
qed

theorem heartbeat_does_not_drift_witness:
  "\<exists>t'. run_ticks [1005, 1199, 1250] \<lparr>cntfrq = 10000, cntpct = 0, cntp_cval = 1000, cntp_ctl = 1, ticks = 7\<rparr> = Some t' \<and>
     unat (cntp_cval t') = 1300 \<and> unat (ticks t') = 10"
proof -
  let ?t = "\<lparr>cntfrq = 10000, cntpct = 0, cntp_cval = 1000, cntp_ctl = 1, ticks = 7\<rparr>"
  have i: "unat (interval ?t) = 100" by (simp add: interval_def TICK_HZ_def)
  have "\<forall>i < 3. unat ([1005, 1199, 1250 :: u64] ! i) < 1000 + Suc i * 100"
    by (auto simp: numeral_3_eq_3 less_Suc_eq nth_Cons split: nat.splits)
  with heartbeat_does_not_drift [of ?t "[1005, 1199, 1250]", unfolded i] show ?thesis by auto
qed

text \<open>
  After a late interrupt the missed ticks are skipped: the new deadline is always in the
  future and at most one interval away, or one interval past the old deadline.
\<close>

lemma next_deadline_in_future:
  assumes "TICK_HZ \<le> cntfrq t" "unat (cntp_cval t) + unat (interval t) < 2 ^ 64"
    and "unat (cntpct t) + unat (interval t) < 2 ^ 64"
  shows "\<exists>t'. arm_next t = Some t' \<and> cntpct t < cntp_cval t' \<and>
    (cntp_cval t' = cntp_cval t + interval t \<or>
     cntp_cval t + interval t \<le> cntpct t \<and> cntp_cval t' = cntpct t + interval t)"
proof (cases "cntp_cval t + interval t \<le> cntpct t")
  case True
  have "0 < unat (interval t)"
    using assms(1) by (simp add: interval_def unat_div word_le_nat_alt div_greater_zero_iff TICK_HZ_def)
  then have "cntpct t < cntpct t + interval t"
    using assms(3) by (simp add: word_less_nat_alt unat_add_no_overflow)
  then show ?thesis
    using True assms by (simp add: arm_next_def checked_add_def set_deadline_def)
next
  case False
  then show ?thesis
    using assms by (simp add: arm_next_on_time not_le set_deadline_def)
qed

lemma next_deadline_in_future_witness:
  "\<exists>t'. arm_next \<lparr>cntfrq = 10000, cntpct = 5000, cntp_cval = 1000, cntp_ctl = 1, ticks = 7\<rparr> = Some t' \<and>
     5000 < cntp_cval t' \<and> cntp_cval t' = 5100"
  using next_deadline_in_future [of "\<lparr>cntfrq = 10000, cntpct = 5000, cntp_cval = 1000, cntp_ctl = 1, ticks = 7\<rparr>"]
  by (auto simp: interval_def TICK_HZ_def)

end
