(* ===== verification/Sync.thy ===== *)
theory Sync
  imports Prelude
begin

text \<open>
  The interrupt lock (\<open>sync.rs\<close>). On one core, mutual exclusion is having interrupts masked:
  taking a lock saves \<open>DAIF\<close> and masks, dropping the guard puts back what was saved.

  The state is the \<open>DAIF\<close> register. A sequence of acquisitions and drops runs on the register
  and the stack of guards that are alive, each with the state it saved.
\<close>

section \<open>The mask\<close>

datatype interrupt_state = InterruptState u64

text \<open>\<open>daifset\<close> and \<open>daifclr\<close> with the immediate \<open>0b0011\<close>: the I and F bits,
  which are bits 7 and 6 of \<open>DAIF\<close>.\<close>

definition IF_BITS :: u64 where "IF_BITS = push_bit 7 1 OR push_bit 6 1"

definition disable_interrupts :: "u64 \<Rightarrow> interrupt_state \<times> u64" where
  "disable_interrupts daif = (InterruptState daif, daif OR IF_BITS)"

definition restore_interrupts :: "interrupt_state \<Rightarrow> u64 \<Rightarrow> u64" where
  "restore_interrupts s daif = (case s of InterruptState d \<Rightarrow> d)"

definition enable_interrupts :: "u64 \<Rightarrow> u64" where
  "enable_interrupts daif = daif AND NOT IF_BITS"

definition interrupts_masked :: "u64 \<Rightarrow> bool" where
  "interrupts_masked daif \<longleftrightarrow> daif AND push_bit 7 1 \<noteq> 0"

definition without_interrupts :: "(u64 \<Rightarrow> 'r \<times> u64) \<Rightarrow> u64 \<Rightarrow> 'r \<times> u64" where
  "without_interrupts f daif =
     (let (s, daif) = disable_interrupts daif; (r, daif) = f daif in (r, restore_interrupts s daif))"

section \<open>Guards\<close>

datatype guard_event = Take | Drop

text \<open>\<open>Lock::lock\<close> pushes a guard with the state it saved; \<open>Drop\<close> restores that state.\<close>

definition guard_step :: "guard_event \<Rightarrow> u64 \<times> interrupt_state list \<Rightarrow> (u64 \<times> interrupt_state list) option"
  where
  "guard_step e s = (case (e, s) of
       (Take, (daif, guards)) \<Rightarrow> (let (st, daif) = disable_interrupts daif in Some (daif, st # guards))
     | (Drop, (daif, [])) \<Rightarrow> None
     | (Drop, (daif, st # guards)) \<Rightarrow> Some (restore_interrupts st daif, guards))"

lemma interrupts_masked_bit: "interrupts_masked daif \<longleftrightarrow> bit daif 7"
  by (simp add: interrupts_masked_def bit_iff_and_push_bit_not_eq_0)

lemma masked_after_disable [simp]:
  "interrupts_masked (snd (disable_interrupts daif))" "interrupts_masked (daif OR IF_BITS)"
  by (simp_all add: disable_interrupts_def interrupts_masked_bit IF_BITS_def bit_simps)

lemma enabled_not_masked [simp]: "\<not> interrupts_masked (enable_interrupts daif)"
  by (simp add: enable_interrupts_def interrupts_masked_bit IF_BITS_def bit_simps)

text \<open>
  While a guard is alive interrupts are masked, and the outermost guard remembers the state
  from before any of them.
\<close>

definition guards_ok :: "u64 \<Rightarrow> u64 \<times> interrupt_state list \<Rightarrow> bool" where
  "guards_ok daif0 s \<longleftrightarrow> (case s of (daif, guards) \<Rightarrow>
     if guards = [] then daif = daif0
     else interrupts_masked daif \<and> last guards = InterruptState daif0 \<and>
          (\<forall>g \<in> set (butlast guards). \<exists>d. g = InterruptState d \<and> interrupts_masked d))"

lemma guard_step_ok:
  assumes "guards_ok daif0 s" "guard_step e s = Some s'"
  shows "guards_ok daif0 s'"
proof (cases e)
  case Take
  then show ?thesis
    using assms by (auto simp: guard_step_def guards_ok_def disable_interrupts_def split: prod.splits if_splits)
next
  case Drop
  then obtain daif g guards where s: "s = (daif, g # guards)"
    using assms(2) by (auto simp: guard_step_def split: prod.splits list.splits)
  then have s': "s' = (restore_interrupts g daif, guards)"
    using assms(2) Drop by (simp add: guard_step_def)
  show ?thesis
  proof (cases guards)
    case Nil
    then show ?thesis using assms(1) s s' by (simp add: guards_ok_def restore_interrupts_def)
  next
    case (Cons h hs)
    then show ?thesis
      using assms(1) s s' by (auto simp: guards_ok_def restore_interrupts_def split: if_splits)
  qed
qed

text \<open>Running a sequence of events.\<close>

definition guard_run :: "guard_event list \<Rightarrow> u64 \<times> interrupt_state list \<Rightarrow> (u64 \<times> interrupt_state list) option"
  where "guard_run es s = for_each guard_step es s"

lemma guard_run_ok:
  "guards_ok daif0 s \<Longrightarrow> guard_run es s = Some s' \<Longrightarrow> guards_ok daif0 s'"
  unfolding guard_run_def
  by (induction es arbitrary: s) (auto simp: bind_eq_Some_conv dest: guard_step_ok)

text \<open>
  C32. Locks nest: however acquisitions and drops of guards are interleaved, innermost first,
  interrupts are masked as long as any guard is alive, and when the last one is dropped the mask
  is what it was before the first was taken.
\<close>

theorem lock_nesting:
  assumes "guard_run es (daif0, []) = Some (daif, guards)"
  shows "if guards = [] then daif = daif0 else interrupts_masked daif"
  using guard_run_ok [OF _ assms, of daif0] by (auto simp: guards_ok_def split: if_splits)

theorem lock_nesting_witness:
  "guard_run [Take, Take, Drop] (0, []) = Some (0xc0, [InterruptState 0]) \<and> interrupts_masked 0xc0 \<and>
   guard_run [Take, Take, Drop, Drop] (0, []) = Some (0, [])"
proof -
  have a: "guard_run [Take, Take, Drop] (0, []) = Some (0xc0, [InterruptState 0])"
    "guard_run [Take, Take, Drop, Drop] (0, []) = Some (0, [])"
    by (simp_all add: guard_run_def guard_step_def disable_interrupts_def restore_interrupts_def IF_BITS_def)
  then show ?thesis using lock_nesting [OF a(1)] by simp
qed

text \<open>
  The hazard \<open>reply\<close> avoids by reading its table entry into a local first: a guard that is
  dropped after its holder has already restored the outer state masks interrupts again.
\<close>

lemma late_drop_masks:
  "restore_interrupts (fst (disable_interrupts (snd (disable_interrupts daif)))) x =
     snd (disable_interrupts daif)"
  by (simp add: disable_interrupts_def restore_interrupts_def)

end
