(* ===== verification/Kernel.thy ===== *)
theory Kernel
  imports Ipc_Table Timer Sync
begin

text \<open>
  The kernel's state and what moves the CPU from one task to another: switching, yielding,
  blocking, waking, reaping, and posting notifications (\<open>tasks.rs\<close>, \<open>notify.rs\<close>).

  \<^bold>\<open>State.\<close> \<open>kernel\<close> has a field for each static of these modules, and two for what lives on the
  tasks' kernel stacks: \<open>ktraps\<close>, the trap frame each task is in, and \<open>ksaved\<close>, where each
  task that is not running will continue.

  \<^bold>\<open>Switching.\<close> \<open>switch\<close> saves the callee-saved registers and the stack pointer of the task that
  gives up the CPU and restores those of the next one. What a suspended task remembers is the code
  that follows its call of \<open>switch_to_next\<close>, with the values it still needs; the datatype
  \<open>kont\<close> has a constructor for each such place. A function that may switch takes the
  continuation to save, and answers whether it gave up the CPU (\<open>True\<close>): then the state is
  that of the next task, about to continue from its own \<open>ksaved\<close> entry.

  A function that returns to its caller unless the task is switched away has a result in
  \<open>('a option \<times> kernel) option\<close>: \<open>None\<close> is a panic, \<open>Some (None, k)\<close> means that
  another task is to continue, \<open>Some (Some r, k)\<close> that the function returned \<open>r\<close>.

  \<^bold>\<open>Atomicity.\<close> An exception masks interrupts and nothing on these paths unmasks them before it
  returns or switches (see \<open>Sync\<close>), so the code between two switches runs without
  interference on the one core there is.
\<close>

section \<open>State\<close>

text \<open>Where a suspended task continues.\<close>

datatype kont =
    K_fresh u64 u64            \<comment> \<open>never run: \<open>entry(arg)\<close> through the trampoline\<close>
  | K_kernel                   \<comment> \<open>a kernel thread's own call of a function that switches\<close>
  | K_yield                    \<comment> \<open>after \<open>yield_now\<close> of a system call\<close>
  | K_preempted                \<comment> \<open>after \<open>preempt_if_needed\<close> in an interrupt\<close>
  | K_dead                     \<comment> \<open>in the closing loop of a finished task\<close>
  | K_send_woke                \<comment> \<open>in \<open>send\<close>, after waking the receiver\<close>
  | K_send                     \<comment> \<open>in \<open>send\<close>, after \<open>park\<close>\<close>
  | K_recv u64 u64 u32         \<comment> \<open>in \<open>recv\<close>, after \<open>park\<close>\<close>
  | K_recv_refused u64 u64 u32 \<comment> \<open>in \<open>recv\<close>, after failing a sender\<close>
  | K_reply                    \<comment> \<open>in \<open>reply\<close>, after waking the sender\<close>
  | K_fault_wait               \<comment> \<open>in \<open>wait_for_fault\<close>, after \<open>park\<close>\<close>

text \<open>The trap frame \<open>vectors.S\<close> builds.\<close>

record trap_frame =
  tf_x :: "u64 list"
  tf_elr :: u64
  tf_spsr :: u64
  tf_esr :: u64
  tf_far :: u64

record kernel =
  kmach :: mach
  kregs :: sysregs
  ksched :: scheduler
  klog :: switch_log
  kempty :: "address_space option"
  kresched :: bool
  ktable :: ipc_table
  knotify :: notify_state
  ksupervisor :: "nat option"
  kwaiters :: "bool list"
  ksaved :: "kont list"
  ktraps :: "trap_frame list"
  kgic :: gic
  ktimer :: timer
  kconsole :: "u8 list"
  kprivileged :: u64
  kexpecting :: bool
  kprobe :: u64

text \<open>The addresses of code that is planted on stacks: the linker's, hence arguments.\<close>

record code =
  task_trampoline :: u64
  user_task_entry :: u64

definition current_task :: "kernel \<Rightarrow> task option" where
  "current_task k = task_at (ksched k) (current (ksched k))"

definition set_task :: "nat \<Rightarrow> task option \<Rightarrow> scheduler \<Rightarrow> scheduler" where
  "set_task slot t s = s\<lparr>tasks := (tasks s)[slot := t]\<rparr>"

definition update_task :: "nat \<Rightarrow> (task \<Rightarrow> task) \<Rightarrow> scheduler \<Rightarrow> scheduler" where
  "update_task slot f s = set_task slot (map_option f (task_at s slot)) s"

definition on_sched :: "(scheduler \<Rightarrow> scheduler) \<Rightarrow> kernel \<Rightarrow> kernel" where
  "on_sched f k = k\<lparr>ksched := f (ksched k)\<rparr>"

definition on_table :: "(ipc_table \<Rightarrow> ipc_table) \<Rightarrow> kernel \<Rightarrow> kernel" where
  "on_table f k = k\<lparr>ktable := f (ktable k)\<rparr>"

section \<open>Asking about tasks\<close>

definition is_alive :: "nat \<Rightarrow> kernel \<Rightarrow> bool" where
  "is_alive slot k = (case task_at (ksched k) slot of
       None \<Rightarrow> False | Some t \<Rightarrow> task_state t = Runnable \<or> task_state t = Blocked)"

definition priority_of :: "nat \<Rightarrow> kernel \<Rightarrow> priority option" where
  "priority_of slot k = map_option task_priority (task_at (ksched k) slot)"

definition space_root_of :: "nat \<Rightarrow> kernel \<Rightarrow> frame option" where
  "space_root_of slot k = do { t \<leftarrow> task_at (ksched k) slot; s \<leftarrow> task_space t; Some (space_root s) }"

text \<open>\<open>is_blocked\<close>, \<open>finished\<close>, \<open>exit_code\<close>, \<open>fault_of\<close> index the table directly.\<close>

definition is_blocked :: "nat \<Rightarrow> kernel \<Rightarrow> bool option" where
  "is_blocked slot k = do {
     t \<leftarrow> idx (tasks (ksched k)) slot;
     Some (case t of None \<Rightarrow> False | Some t \<Rightarrow> task_state t = Blocked)
   }"

definition finished :: "nat \<Rightarrow> kernel \<Rightarrow> bool option" where
  "finished slot k = do {
     t \<leftarrow> idx (tasks (ksched k)) slot;
     Some (case t of None \<Rightarrow> False
           | Some t \<Rightarrow> task_state t = Zombie \<or> task_state t = Dead \<or> task_state t = Faulted)
   }"

definition exit_code :: "nat \<Rightarrow> kernel \<Rightarrow> u64 option option" where
  "exit_code slot k = do { t \<leftarrow> idx (tasks (ksched k)) slot; Some (t \<bind> task_exit) }"

definition fault_of :: "nat \<Rightarrow> kernel \<Rightarrow> fault option option" where
  "fault_of slot k = do { t \<leftarrow> idx (tasks (ksched k)) slot; Some (t \<bind> task_fault) }"

definition current_space_root :: "kernel \<Rightarrow> frame option" where
  "current_space_root k = space_root_of (current (ksched k)) k"

definition runnable_others :: "kernel \<Rightarrow> nat" where
  "runnable_others k = length (filter (\<lambda>slot. slot \<noteq> current (ksched k) \<and> runnable (ksched k) slot)
     [0..<length (tasks (ksched k))])"

section \<open>Reaping\<close>

text \<open>
  A finished task's stack and address space are released by whoever switches next. The search
  finds the first zombie; when that is the current task, reaping stops there.
\<close>

definition zombie_slot :: "scheduler \<Rightarrow> nat option" where
  "zombie_slot s = position (\<lambda>t. case t of None \<Rightarrow> False | Some t \<Rightarrow> task_state t = Zombie) (tasks s)"

definition salvage :: "task \<Rightarrow> mach \<Rightarrow> mach option" where
  "salvage t m = do {
     m \<leftarrow> (if owns_stack t
          then do { fs \<leftarrow> free_contiguous (mframes m) (task_stack t) STACK_FRAMES; Some (m\<lparr>mframes := fs\<rparr>) }
          else Some m);
     case task_space t of None \<Rightarrow> Some m | Some space \<Rightarrow> space_destroy m space
   }"

definition zombies :: "scheduler \<Rightarrow> nat" where
  "zombies s = length (filter (\<lambda>t. case t of None \<Rightarrow> False | Some t \<Rightarrow> task_state t = Zombie) (tasks s))"

lemma filter_update_less:
  assumes "i < length xs" "P (xs ! i)" "\<not> P y"
  shows "length (filter P (xs[i := y])) < length (filter P xs)"
proof -
  have "xs = take i xs @ xs ! i # drop (Suc i) xs" using assms(1) by (rule id_take_nth_drop)
  then have "length (filter P xs) = length (filter P (take i xs @ xs ! i # drop (Suc i) xs))"
    by (rule arg_cong)
  also have "\<dots> = length (filter P (take i xs)) + Suc (length (filter P (drop (Suc i) xs)))"
    using assms(2) by simp
  finally have "length (filter P xs) = length (filter P (take i xs)) + Suc (length (filter P (drop (Suc i) xs)))" .
  moreover have "length (filter P (xs[i := y])) =
      length (filter P (take i xs)) + length (filter P (drop (Suc i) xs))"
    using assms by (simp add: upd_conv_take_nth_drop)
  ultimately show ?thesis by simp
qed

function reap_zombies :: "kernel \<Rightarrow> kernel option" where
  "reap_zombies k =
     (case zombie_slot (ksched k) of
        None \<Rightarrow> Some k
      | Some slot \<Rightarrow>
          if slot = current (ksched k) then Some k
          else (case tasks (ksched k) ! slot of
              None \<Rightarrow> None
            | Some t \<Rightarrow> do {
                let s = set_task slot (Some (t\<lparr>task_state := Dead, task_space := None\<rparr>)) (ksched k);
                m \<leftarrow> salvage t (kmach k);
                reap_zombies (k\<lparr>ksched := s, kmach := m\<rparr>)
              }))"
  by pat_completeness auto

termination
proof (relation "measure (\<lambda>k. zombies (ksched k))")
  fix k slot t x m
  assume "zombie_slot (ksched k) = Some slot" "tasks (ksched k) ! slot = Some t"
    and x: "x = set_task slot (Some (t\<lparr>task_state := Dead, task_space := None\<rparr>)) (ksched k)"
  then have "slot < length (tasks (ksched k))" "task_state t = Zombie"
    by (auto simp: zombie_slot_def position_Some)
  then show "(k\<lparr>ksched := x, kmach := m\<rparr>, k) \<in> measure (\<lambda>k. zombies (ksched k))"
    using \<open>tasks (ksched k) ! slot = Some t\<close>
    by (auto simp: zombies_def set_task_def x intro!: filter_update_less)
qed simp

declare reap_zombies.simps [simp del]

definition release_dead :: "kernel \<Rightarrow> nat \<times> kernel" where
  "release_dead k =
     (let s = ksched k;
          dead = (\<lambda>slot. slot \<noteq> current s \<and>
            (case task_at s slot of None \<Rightarrow> False | Some t \<Rightarrow> task_state t = Dead));
          released = filter dead [0..<MAX_TASKS]
      in (length released, on_sched (\<lambda>s. fold (\<lambda>slot. set_task slot None) released s) k))"

section \<open>Switching\<close>

definition empty_space_root :: "kernel \<Rightarrow> frame option" where
  "empty_space_root k = map_option space_root (kempty k)"

text \<open>
  \<open>switch_to_next\<close>: reap, choose, log, swap the low half, switch. The first component says
  whether the CPU went to another task; if so the caller's continuation is saved.
\<close>

definition switch_to_next :: "reason \<Rightarrow> kont \<Rightarrow> kernel \<Rightarrow> (bool \<times> kernel) option" where
  "switch_to_next r kont k = do {
     k \<leftarrow> reap_zombies k;
     let s = ksched k;
     if current_task k = None then Some (False, k)
     else do {
       next \<leftarrow> next_runnable s;
       if next = current s then Some (False, k)
       else do {
         let me = current s;
         let k = k\<lparr>ksched := s\<lparr>current := next\<rparr>, klog := note_switch me next r (klog k)\<rparr>;
         incoming \<leftarrow> task_at s next;
         root \<leftarrow> (case task_space incoming of Some space \<Rightarrow> Some (space_root space)
                 | None \<Rightarrow> empty_space_root k);
         Some (True, k\<lparr>kregs := activate_root (kregs k) root, ksaved := (ksaved k)[me := kont]\<rparr>)
       }
     }
   }"

text \<open>Running on after a call that may have switched away.\<close>

definition and_then ::
  "(bool \<times> kernel) option \<Rightarrow> (kernel \<Rightarrow> ('a option \<times> kernel) option) \<Rightarrow> ('a option \<times> kernel) option"
  where
  "and_then r f = do { (away, k) \<leftarrow> r; if away then Some (None, k) else f k }"

definition yield_now :: "kont \<Rightarrow> kernel \<Rightarrow> (bool \<times> kernel) option" where
  "yield_now kont k = switch_to_next Voluntary kont k"

definition mark_current_blocked :: "kernel \<Rightarrow> kernel" where
  "mark_current_blocked k =
     on_sched (update_task (current (ksched k)) (\<lambda>t. t\<lparr>task_state := Blocked\<rparr>)) k"

definition park :: "kont \<Rightarrow> kernel \<Rightarrow> (bool \<times> kernel) option" where
  "park kont k =
     (let blocked = (case current_task k of None \<Rightarrow> False | Some t \<Rightarrow> task_state t = Blocked) in
      if blocked then switch_to_next Voluntary kont k else Some (False, k))"

definition block_current :: "kernel \<Rightarrow> (bool \<times> kernel) option" where
  "block_current k = park K_kernel (mark_current_blocked k)"

definition unblock_deferred :: "nat \<Rightarrow> kernel \<Rightarrow> bool \<times> kernel" where
  "unblock_deferred slot k =
     (let running = map_option task_priority (current_task k) in
      case task_at (ksched k) slot of
        Some t \<Rightarrow>
          if task_state t = Blocked
          then (case running of None \<Rightarrow> False | Some p \<Rightarrow> outranks (task_priority t) p,
                on_sched (set_task slot (Some (t\<lparr>task_state := Runnable\<rparr>))) k)
          else (False, k)
      | None \<Rightarrow> (False, k))"

definition unblock :: "kont \<Rightarrow> nat \<Rightarrow> kernel \<Rightarrow> (bool \<times> kernel) option" where
  "unblock kont slot k =
     (let (handoff, k) = unblock_deferred slot k in
      if handoff then switch_to_next Voluntary kont k else Some (False, k))"

definition request_reschedule :: "kernel \<Rightarrow> kernel" where
  "request_reschedule k = k\<lparr>kresched := True\<rparr>"

definition preempt_if_needed :: "kernel \<Rightarrow> (bool \<times> kernel) option" where
  "preempt_if_needed k =
     (if \<not> kresched k then Some (False, k)
      else switch_to_next Preemptive K_preempted (k\<lparr>kresched := False\<rparr>))"

text \<open>The loop a finished task ends in: it yields until it is never chosen again.\<close>

partial_function (option) dying_loop :: "kernel \<Rightarrow> (unit option \<times> kernel) option" where
  "dying_loop k = do {
     (away, k) \<leftarrow> yield_now K_dead k;
     if away then Some (None, k) else dying_loop k
   }"

section \<open>Notifications\<close>

definition post :: "nat \<Rightarrow> u32 \<Rightarrow> kernel \<Rightarrow> kernel" where
  "post task bits k =
     (if MAX_TASKS \<le> task then k
      else
        let n = knotify k;
            n = n\<lparr>posted := (posted n)[task := posted n ! task OR bits]\<rparr>;
            k = k\<lparr>knotify := n\<rparr>
        in
        if wanted n ! task AND bits \<noteq> 0
        then request_reschedule (snd (unblock_deferred task k)) else k)"

definition on_irq :: "u32 \<Rightarrow> kernel \<Rightarrow> bool \<times> kernel" where
  "on_irq intid k = (case find_route intid (knotify k) of
       Some r \<Rightarrow> (True, post (route_task r) (route_bits r) k)
     | None \<Rightarrow> (False, k))"

end
