(* ===== verification/Ipc.thy ===== *)
theory Ipc
  imports Kernel
begin

text \<open>
  Message passing (\<open>ipc.rs\<close>): \<open>send\<close>, \<open>recv\<close>, \<open>reply\<close>, the borrowing of leased
  memory, and \<open>abandon\<close>.

  A call that may give up the CPU answers as in \<open>Kernel\<close>: \<open>Some (Some r, k)\<close> when it
  returned \<open>r\<close>, \<open>Some (None, k)\<close> when another task continues. The part of a call after its
  switch is a function of its own (\<open>send_woken\<close>, \<open>recv_woken\<close>), which the machine runs when
  the task is chosen again.
\<close>

section \<open>Delivery\<close>

definition set_phys :: "phys \<Rightarrow> kernel \<Rightarrow> kernel" where
  "set_phys p k = k\<lparr>kmach := (kmach k)\<lparr>mphys := p\<rparr>\<rparr>"

abbreviation kphys :: "kernel \<Rightarrow> phys" where
  "kphys k \<equiv> mphys (kmach k)"

definition me :: "kernel \<Rightarrow> nat" where
  "me k = current (ksched k)"

definition deliver ::
  "nat \<Rightarrow> u64 \<Rightarrow> u64 \<Rightarrow> nat \<Rightarrow> u64 \<Rightarrow> u64 \<Rightarrow> kernel \<Rightarrow> (u64 option \<times> kernel) option" where
  "deliver src src_buf src_len dst dst_buf dst_cap k =
     (let len = min src_len dst_cap in
      if len = 0 then Some (Some 0, k)
      else case (space_root_of src k, space_root_of dst k) of
        (Some src_root, Some dst_root) \<Rightarrow> do {
          readable \<leftarrow> user_readable (kphys k) src_root src_buf len;
          if \<not> readable then Some (None, k)
          else do {
            writable \<leftarrow> user_writable (kphys k) dst_root dst_buf len;
            if \<not> writable then Some (None, k)
            else do {
              (ok, p) \<leftarrow> copy_across (kphys k) src_root src_buf dst_root dst_buf len;
              Some (if ok then Some len else None, set_phys p k)
            }
          }
        }
      | _ \<Rightarrow> Some (None, k))"

text \<open>\<open>core::mem::take(&mut table.outcome[slot])\<close>\<close>

definition take_outcome :: "nat \<Rightarrow> kernel \<Rightarrow> outcome \<times> kernel" where
  "take_outcome slot k = (outcomes (ktable k) ! slot, on_table (set_outcome slot outcome_default) k)"

section \<open>Sending\<close>

text \<open>What is left of \<open>send\<close> once it no longer waits, and after its \<open>unblock\<close>.\<close>

definition send_woken :: "kernel \<Rightarrow> ((u64 \<times> u64) option \<times> kernel) option" where
  "send_woken k = (let (r, k) = take_outcome (me k) k in Some (Some (out_a r, out_b r), k))"

definition send_park :: "kernel \<Rightarrow> ((u64 \<times> u64) option \<times> kernel) option" where
  "send_park k = and_then (park K_send k) send_woken"

text \<open>The target is already waiting: copy now and wake it.\<close>

definition send_handoff ::
  "message \<Rightarrow> lease list \<Rightarrow> nat \<Rightarrow> u64 \<Rightarrow> u64 \<Rightarrow> kernel \<Rightarrow> ((u64 \<times> u64) option \<times> kernel) option" where
  "send_handoff message ls n buf cap k =
     (let target = msg_target message in do {
       (r, k) \<leftarrow> deliver (me k) (msg_out message) (msg_out_len message) target buf cap
                   (on_table (set_pending target None) k);
       case r of
         None \<Rightarrow> Some (Some (EFAULT, 0), on_table (set_pending target (Some (RecvWait buf cap))) k)
       | Some len \<Rightarrow>
           let k = mark_current_blocked k;
               k = on_table (\<lambda>t. set_pending (me k) (Some (ReplyWait message))
                     (set_leases (me k) ls n
                       (set_outcome target
                         \<lparr>out_a = of_nat (me k), out_b = msg_operation message, out_c = len\<rparr> t))) k
           in and_then (unblock K_send_woke target k) send_park
     })"

text \<open>Nobody is listening yet: wait to be collected.\<close>

definition send_queue ::
  "message \<Rightarrow> lease list \<Rightarrow> nat \<Rightarrow> kernel \<Rightarrow> ((u64 \<times> u64) option \<times> kernel) option" where
  "send_queue message ls n k =
     (let k = on_table (\<lambda>t. set_pending (me k) (Some (SendWait message)) (set_leases (me k) ls n t)) k
      in send_park (mark_current_blocked k))"

definition send ::
  "u64 \<Rightarrow> u64 \<Rightarrow> u64 \<Rightarrow> u64 \<Rightarrow> u64 \<Rightarrow> u64 \<Rightarrow> u64 \<Rightarrow> u64 \<Rightarrow> kernel \<Rightarrow> ((u64 \<times> u64) option \<times> kernel) option" where
  "send target operation out out_len reply_buf reply_cap lease_table count k =
     (if MAX_MESSAGE < out_len \<or> MAX_MESSAGE < reply_cap then Some (Some (EINVAL, 0), k)
      else if MAX_TASKS \<le> unat target then Some (Some (EINVAL, 0), k)
      else if unat target = me k then Some (Some (EINVAL, 0), k)
      else if \<not> is_alive (unat target) k then Some (Some (EDEAD, 0), k)
      else case space_root_of (me k) k of
        None \<Rightarrow> Some (Some (EFAULT, 0), k)
      | Some root \<Rightarrow> do {
          readable \<leftarrow> user_readable (kphys k) root out out_len;
          writable \<leftarrow> user_writable (kphys k) root reply_buf reply_cap;
          if \<not> readable \<or> \<not> writable then Some (Some (EFAULT, 0), k)
          else do {
            r \<leftarrow> collect_leases (kphys k) root lease_table count;
            case r of
              Inl e \<Rightarrow> Some (Some (e, 0), k)
            | Inr (ls, n) \<Rightarrow>
                let message = \<lparr>msg_target = unat target, msg_operation = operation, msg_out = out,
                      msg_out_len = out_len, msg_reply_buf = reply_buf, msg_reply_cap = reply_cap\<rparr>
                in (case pending (ktable k) ! unat target of
                      Some (RecvWait buf cap) \<Rightarrow> send_handoff message ls n buf cap k
                    | _ \<Rightarrow> send_queue message ls n k)
          }
        })"

section \<open>Finishing a send\<close>

definition finish_sender :: "kont \<Rightarrow> nat \<Rightarrow> u64 \<Rightarrow> u64 \<Rightarrow> kernel \<Rightarrow> (bool \<times> kernel) option" where
  "finish_sender kont sender rc len k = unblock kont sender (on_table (deliver_outcome sender rc len) k)"

definition reply :: "u64 \<Rightarrow> u64 \<Rightarrow> u64 \<Rightarrow> u64 \<Rightarrow> kernel \<Rightarrow> (u64 option \<times> kernel) option" where
  "reply sender rc data data_len k =
     (if MAX_MESSAGE < data_len \<or> MAX_TASKS \<le> unat sender then Some (Some EINVAL, k)
      else case pending (ktable k) ! unat sender of
        Some (ReplyWait message) \<Rightarrow>
          if msg_target message = me k
          then do {
            (r, k) \<leftarrow> deliver (me k) data data_len (unat sender) (msg_reply_buf message)
                        (msg_reply_cap message) k;
            case r of
              None \<Rightarrow> Some (Some EFAULT, k)
            | Some len \<Rightarrow> and_then (finish_sender K_reply (unat sender) rc len k) (\<lambda>k. Some (Some 0, k))
          }
          else Some (Some EINVAL, k)
      | _ \<Rightarrow> Some (Some EINVAL, k))"

section \<open>Receiving\<close>

text \<open>
  What follows \<open>park\<close> in the loop of \<open>recv\<close>: \<open>Some (Some r, k)\<close> when a message was
  delivered, \<open>Some (None, k)\<close> when the loop goes round again.
\<close>

definition recv_woken :: "kernel \<Rightarrow> ((u64 \<times> u64 \<times> u64) option \<times> kernel) option" where
  "recv_woken k = do {
     n \<leftarrow> notify_disarm (me k) (knotify k);
     let k = k\<lparr>knotify := n\<rparr>;
     case pending (ktable k) ! me k of
       Some _ \<Rightarrow> Some (None, on_table (set_pending (me k) None) k)
     | None \<Rightarrow> let (r, k) = take_outcome (me k) k in Some (Some (out_a r, out_b r, out_c r), k)
   }"

type_synonym recv_turn = "((u64 \<times> u64 \<times> u64) option \<times> kernel) + kernel"

text \<open>One turn of the loop: it ends the call (\<open>Inl\<close>) or goes round again (\<open>Inr\<close>).\<close>

text \<open>Nobody is sending: wait.\<close>

definition recv_park :: "u64 \<Rightarrow> u64 \<Rightarrow> u32 \<Rightarrow> kernel \<Rightarrow> recv_turn option" where
  "recv_park buf cap nmask k = do {
     n \<leftarrow> notify_arm (me k) nmask (knotify k);
     let k = on_table (set_pending (me k) (Some (RecvWait buf cap))) (k\<lparr>knotify := n\<rparr>);
     (away, k) \<leftarrow> park (K_recv buf cap nmask) (mark_current_blocked k);
     if away then Some (Inl (None, k))
     else do {
       (r, k) \<leftarrow> recv_woken k;
       Some (case r of None \<Rightarrow> Inr k | Some r \<Rightarrow> Inl (Some r, k))
     }
   }"

text \<open>Collect a sender; one whose buffer cannot be read is failed instead.\<close>

definition recv_from :: "nat \<Rightarrow> u64 \<Rightarrow> u64 \<Rightarrow> u32 \<Rightarrow> kernel \<Rightarrow> recv_turn option" where
  "recv_from sender buf cap nmask k = (case pending (ktable k) ! sender of
       Some (SendWait message) \<Rightarrow> do {
         (r, k) \<leftarrow> deliver sender (msg_out message) (msg_out_len message) (me k) buf cap k;
         case r of
           Some len \<Rightarrow> Some (Inl (Some (of_nat sender, msg_operation message, len),
             on_table (set_pending sender (Some (ReplyWait message))) k))
         | None \<Rightarrow> do {
             (away, k) \<leftarrow> finish_sender (K_recv_refused buf cap nmask) sender EFAULT 0 k;
             Some (if away then Inl (None, k) else Inr k)
           }
       }
     | _ \<Rightarrow> None)"

definition recv_turn :: "u64 \<Rightarrow> u64 \<Rightarrow> u32 \<Rightarrow> kernel \<Rightarrow> recv_turn option" where
  "recv_turn buf cap nmask k = do {
     (fired, n) \<leftarrow> notify_take (me k) nmask (knotify k);
     let k = k\<lparr>knotify := n\<rparr>;
     if fired \<noteq> 0 then Some (Inl (Some (NOTIFICATION, ucast fired, 0), k))
     else case best_sender (ktable k) (ksched k) (me k) of
       None \<Rightarrow> recv_park buf cap nmask k
     | Some sender \<Rightarrow> recv_from sender buf cap nmask k
   }"

partial_function (option) recv_loop ::
  "u64 \<Rightarrow> u64 \<Rightarrow> u32 \<Rightarrow> kernel \<Rightarrow> ((u64 \<times> u64 \<times> u64) option \<times> kernel) option" where
  "recv_loop buf cap nmask k = do {
     r \<leftarrow> recv_turn buf cap nmask k;
     case r of Inl res \<Rightarrow> Some res | Inr k \<Rightarrow> recv_loop buf cap nmask k
   }"

definition recv :: "u64 \<Rightarrow> u64 \<Rightarrow> u64 \<Rightarrow> kernel \<Rightarrow> ((u64 \<times> u64 \<times> u64) option \<times> kernel) option" where
  "recv buf cap notify_mask k =
     (if MAX_MESSAGE < cap then Some (Some (EINVAL, 0, 0), k)
      else case space_root_of (me k) k of
        None \<Rightarrow> Some (Some (EFAULT, 0, 0), k)
      | Some root \<Rightarrow> do {
          writable \<leftarrow> user_writable (kphys k) root buf cap;
          if \<not> writable then Some (Some (EFAULT, 0, 0), k)
          else recv_loop buf cap (ucast notify_mask) k
        })"

section \<open>Abandoning a task that has stopped\<close>

definition waits_on :: "nat \<Rightarrow> pending option \<Rightarrow> bool" where
  "waits_on target p = (case p of
       Some (SendWait message) \<Rightarrow> msg_target message = target
     | Some (ReplyWait message) \<Rightarrow> msg_target message = target
     | _ \<Rightarrow> False)"

definition abandon_slot :: "nat \<Rightarrow> nat \<Rightarrow> kernel \<Rightarrow> kernel" where
  "abandon_slot gone slot k =
     (if slot = gone then k
      else if waits_on gone (pending (ktable k) ! slot)
      then snd (unblock_deferred slot (on_table (deliver_outcome slot EDEAD 0) k))
      else k)"

definition abandon :: "nat \<Rightarrow> kernel \<Rightarrow> kernel option" where
  "abandon gone k = do {
     let k = fold (abandon_slot gone) [0..<MAX_TASKS] k;
     assert_that (gone < MAX_TASKS);
     Some (on_table (\<lambda>t. (set_pending gone None t)\<lparr>lease_count := (lease_count t)[gone := 0]\<rparr>) k)
   }"

section \<open>Borrowing\<close>

text \<open>The lease a borrower may use: its owner waits for this task's reply.\<close>

definition granted_lease :: "nat \<Rightarrow> u64 \<Rightarrow> kernel \<Rightarrow> lease option" where
  "granted_lease peer index k = (case pending (ktable k) ! peer of
       Some (ReplyWait message) \<Rightarrow>
         if msg_target message = me k \<and> unat index < lease_count (ktable k) ! peer
         then Some (leases (ktable k) ! peer ! unat index) else None
     | _ \<Rightarrow> None)"

definition borrow :: "u64 \<Rightarrow> u64 \<Rightarrow> u64 \<Rightarrow> u64 \<Rightarrow> u64 \<Rightarrow> bool \<Rightarrow> kernel \<Rightarrow> (u64 \<times> kernel) option" where
  "borrow peer index offset local len writing k =
     (if MAX_TASKS \<le> unat peer \<or> MAX_BORROW < len then Some (EINVAL, k)
      else case granted_lease (unat peer) index k of
        None \<Rightarrow> Some (EINVAL, k)
      | Some l \<Rightarrow>
          if lease_attrs l AND (if writing then LEASE_WRITE else LEASE_READ) = 0 then Some (EPERM, k)
          else (case checked_add offset len of
              None \<Rightarrow> Some (EINVAL, k)
            | Some end \<Rightarrow>
                if lease_len l < end then Some (EINVAL, k)
                else (case (space_root_of (unat peer) k, space_root_of (me k) k) of
                    (Some peer_root, Some my_root) \<Rightarrow> do {
                      remote \<leftarrow> checked_add (lease_base l) offset;
                      allowed \<leftarrow> (if writing then user_readable (kphys k) my_root local len
                                  else user_writable (kphys k) my_root local len);
                      if \<not> allowed then Some (EFAULT, k)
                      else do {
                        (ok, p) \<leftarrow> (if writing
                           then copy_across (kphys k) my_root local peer_root remote len
                           else copy_across (kphys k) peer_root remote my_root local len);
                        Some (if ok then 0 else EFAULT, set_phys p k)
                      }
                    }
                  | _ \<Rightarrow> Some (EFAULT, k))))"

definition borrow_read :: "u64 \<Rightarrow> u64 \<Rightarrow> u64 \<Rightarrow> u64 \<Rightarrow> u64 \<Rightarrow> kernel \<Rightarrow> (u64 \<times> kernel) option" where
  "borrow_read peer index offset dst len k = borrow peer index offset dst len False k"

definition borrow_write :: "u64 \<Rightarrow> u64 \<Rightarrow> u64 \<Rightarrow> u64 \<Rightarrow> u64 \<Rightarrow> kernel \<Rightarrow> (u64 \<times> kernel) option" where
  "borrow_write peer index offset src len k = borrow peer index offset src len True k"

definition is_awaiting_reply :: "nat \<Rightarrow> kernel \<Rightarrow> bool" where
  "is_awaiting_reply slot k = (slot < length (pending (ktable k)) \<and>
     (case pending (ktable k) ! slot of Some (ReplyWait _) \<Rightarrow> True | _ \<Rightarrow> False))"

end
