(* ===== verification/Lifecycle.thy ===== *)
theory Lifecycle
  imports Ipc
begin

text \<open>
  The life of a task (\<open>tasks.rs\<close>): creating it, ending it, its faults, and the supervisor's
  restart.

  Programs are blobs in the kernel's image; \<open>spawn_user_program\<close> is given where one starts and
  ends, as in the code. The addresses of \<open>task_trampoline\<close> and \<open>user_task_entry\<close> are the
  linker's and come in a \<open>code\<close> record.
\<close>

section \<open>Creating tasks\<close>

definition USER_TEXT_VA :: u64 where "USER_TEXT_VA = 0x00400000"
definition USER_STACK_TOP :: u64 where "USER_STACK_TOP = 0x00800000"
definition USER_ARG_OFFSET :: u64 where "USER_ARG_OFFSET = 8"
definition USER_SP_START :: u64 where "USER_SP_START = USER_STACK_TOP - 16"

text \<open>\<open>init\<close>: the running context becomes task 0.\<close>

definition tasks_init :: "kernel \<Rightarrow> kernel option" where
  "tasks_init k = do {
     stack \<leftarrow> frame_from_addr 0x40000000;
     Some (on_sched (\<lambda>s. (set_task 0 (Some
       \<lparr>task_name = ''kernel'', task_space = None, task_sp = 0, task_stack = stack,
        owns_stack = False, task_priority = IDLE, task_state = Runnable, task_exit = None,
        task_fault = None, task_image = None\<rparr>) s)\<lparr>current := 0\<rparr>) k)
   }"

definition init_address_spaces :: "kernel \<Rightarrow> kernel option" where
  "init_address_spaces k = do {
     (space, m) \<leftarrow> address_space_new (kmach k);
     Some (k\<lparr>kmach := m, kempty := Some space,
       kregs := enable_user_translation (activate_root (kregs k) (space_root space))\<rparr>)
   }"

text \<open>The frame \<open>switch\<close> would have pushed, at the top of a stack, and the canary at its base.\<close>

definition plant_switch_frame :: "code \<Rightarrow> frame \<Rightarrow> u64 \<Rightarrow> u64 \<Rightarrow> phys \<Rightarrow> (u64 \<times> phys) option" where
  "plant_switch_frame c stack entry arg p = do {
     let stack_base = phys_to_virt p (addr stack);
     stack_top \<leftarrow> checked_add stack_base STACK_SIZE;
     let p = write_u64 p stack_base STACK_CANARY;
     sp \<leftarrow> checked_sub stack_top (of_nat SWITCH_FRAME_WORDS * 8);
     let p = write_u64 p (sp + 8 * of_nat SLOT_X19) entry;
     let p = write_u64 p (sp + 8 * of_nat SLOT_X20) arg;
     let p = write_u64 p (sp + 8 * of_nat SLOT_X29) 0;
     let p = write_u64 p (sp + 8 * of_nat SLOT_X30) (task_trampoline c);
     Some (sp, p)
   }"

definition spawn_in ::
  "code \<Rightarrow> string \<Rightarrow> u64 \<Rightarrow> u64 \<Rightarrow> address_space option \<Rightarrow> priority \<Rightarrow> kernel \<Rightarrow> (nat \<times> kernel) option" where
  "spawn_in c nm entry arg space prio k = do {
     (stack, m) \<leftarrow> alloc_contiguous (kmach k) STACK_FRAMES;
     stack \<leftarrow> stack;
     (sp, p) \<leftarrow> plant_switch_frame c stack entry arg (mphys m);
     slot \<leftarrow> free_slot (ksched k);
     let t = \<lparr>task_name = nm, task_space = space, task_sp = sp, task_stack = stack,
        owns_stack = True, task_priority = prio, task_state = Runnable, task_exit = None,
        task_fault = None, task_image = None\<rparr>;
     Some (slot, on_sched (set_task slot (Some t))
       (k\<lparr>kmach := m\<lparr>mphys := p\<rparr>, ksaved := (ksaved k)[slot := K_fresh entry arg]\<rparr>))
   }"

definition spawn_at :: "code \<Rightarrow> string \<Rightarrow> u64 \<Rightarrow> u64 \<Rightarrow> priority \<Rightarrow> kernel \<Rightarrow> (nat \<times> kernel) option" where
  "spawn_at c nm entry arg prio k = spawn_in c nm entry arg None prio k"

definition spawn :: "code \<Rightarrow> string \<Rightarrow> u64 \<Rightarrow> u64 \<Rightarrow> kernel \<Rightarrow> (nat \<times> kernel) option" where
  "spawn c nm entry arg k = spawn_in c nm entry arg None NORMAL k"

text \<open>\<open>build_user_space\<close>: the program's page, its stack, and its argument on the stack.\<close>

definition build_user_space :: "u64 \<Rightarrow> u64 \<Rightarrow> u64 \<Rightarrow> mach \<Rightarrow> (address_space \<times> mach) option" where
  "build_user_space start fin arg m = do {
     (space, m) \<leftarrow> address_space_new m;
     len \<leftarrow> checked_sub fin start;
     assert_that (len \<le> FRAME_SIZE);
     (text, m) \<leftarrow> alloc m;
     text \<leftarrow> text;
     let p = mphys m;
     let m = m\<lparr>mphys := copy_nonoverlapping p start (phys_to_virt p (addr text)) (unat len)\<rparr>;
     m \<leftarrow> space_map m space USER_TEXT_VA (addr text) FRAME_SIZE user_text;
     (stack, m) \<leftarrow> alloc m;
     stack \<leftarrow> stack;
     m \<leftarrow> space_map m space (USER_STACK_TOP - FRAME_SIZE) (addr stack) FRAME_SIZE user_data;
     top \<leftarrow> checked_add (phys_to_virt (mphys m) (addr stack)) FRAME_SIZE;
     Some (space, m\<lparr>mphys := write_u64 (mphys m) (top - USER_ARG_OFFSET) arg\<rparr>)
   }"

definition spawn_user_program ::
  "code \<Rightarrow> string \<Rightarrow> u64 \<Rightarrow> u64 \<Rightarrow> u64 \<Rightarrow> priority \<Rightarrow> kernel \<Rightarrow> (nat \<times> kernel) option" where
  "spawn_user_program c nm start fin arg prio k = do {
     (space, m) \<leftarrow> build_user_space start fin arg (kmach k);
     (slot, k) \<leftarrow> spawn_in c nm (user_task_entry c) USER_TEXT_VA (Some space) prio (k\<lparr>kmach := m\<rparr>);
     Some (slot, on_sched (update_task slot
       (\<lambda>t. t\<lparr>task_image := Some \<lparr>img_start = start, img_end = fin, img_arg = arg\<rparr>\<rparr>)) k)
   }"

text \<open>The heartbeat driver: a program with the timer's interrupt routed to it.\<close>

definition spawn_heartbeat :: "code \<Rightarrow> u64 \<Rightarrow> u64 \<Rightarrow> kernel \<Rightarrow> (nat \<times> kernel) option" where
  "spawn_heartbeat c start fin k = do {
     (slot, k) \<leftarrow> spawn_user_program c ''heartbeat'' start fin 0 NORMAL k;
     n \<leftarrow> route_irq TIMER_INTID slot 1 (knotify k);
     Some (slot, k\<lparr>knotify := n\<rparr>)
   }"

definition canaries_intact :: "kernel \<Rightarrow> bool" where
  "canaries_intact k = list_all (\<lambda>t. case t of
       None \<Rightarrow> True
     | Some t \<Rightarrow> owns_stack t \<and> task_state t \<noteq> Dead \<longrightarrow>
         read_u64 (kphys k) (phys_to_virt (kphys k) (addr (task_stack t))) = STACK_CANARY)
     (tasks (ksched k))"

section \<open>Ending tasks\<close>

text \<open>Where a task lands when its entry function returns.\<close>

definition task_finished :: "kernel \<Rightarrow> (unit option \<times> kernel) option" where
  "task_finished k = do {
     let slot = me k;
     k \<leftarrow> abandon slot (on_sched (update_task slot (\<lambda>t. t\<lparr>task_state := Zombie\<rparr>)) k);
     dying_loop k
   }"

definition exit_current :: "u64 \<Rightarrow> kernel \<Rightarrow> (unit option \<times> kernel) option" where
  "exit_current c k = do {
     let slot = me k;
     k \<leftarrow> abandon slot (on_sched (update_task slot (\<lambda>t. t\<lparr>task_state := Zombie, task_exit := Some c\<rparr>)) k);
     dying_loop k
   }"

definition is_dead :: "nat \<Rightarrow> kernel \<Rightarrow> bool option" where
  "is_dead slot k = do {
     t \<leftarrow> idx (tasks (ksched k)) slot;
     Some (case t of None \<Rightarrow> False | Some t \<Rightarrow> task_state t = Dead)
   }"

definition free_slots :: "kernel \<Rightarrow> nat" where
  "free_slots k = length (filter (\<lambda>t. t = None) (tasks (ksched k)))"

section \<open>Faults and supervision\<close>

definition wake_waiter :: "nat \<Rightarrow> kernel \<Rightarrow> kernel" where
  "wake_waiter slot k = (if kwaiters k ! slot then snd (unblock_deferred slot k) else k)"

definition wake_fault_waiters :: "kernel \<Rightarrow> kernel" where
  "wake_fault_waiters k = fold wake_waiter [0..<MAX_TASKS] k"

text \<open>\<open>fault_current\<close>, less its report on the console.\<close>

definition fault_current :: "fault \<Rightarrow> kernel \<Rightarrow> (unit option \<times> kernel) option" where
  "fault_current fault k = do {
     let slot = me k;
     t \<leftarrow> task_at (ksched k) slot;
     let k = on_sched (set_task slot (Some (t\<lparr>task_state := Faulted, task_fault := Some fault\<rparr>))) k;
     k \<leftarrow> abandon slot k;
     dying_loop (wake_fault_waiters k)
   }"

definition is_faulted :: "nat \<Rightarrow> kernel \<Rightarrow> bool option" where
  "is_faulted slot k = do {
     t \<leftarrow> idx (tasks (ksched k)) slot;
     Some (case t of None \<Rightarrow> False | Some t \<Rightarrow> task_state t = Faulted)
   }"

definition set_supervisor :: "nat \<Rightarrow> kernel \<Rightarrow> kernel" where
  "set_supervisor slot k = k\<lparr>ksupervisor := Some slot\<rparr>"

definition is_supervisor :: "nat \<Rightarrow> kernel \<Rightarrow> bool" where
  "is_supervisor slot k \<longleftrightarrow> ksupervisor k = Some slot"

definition first_faulted :: "scheduler \<Rightarrow> nat option" where
  "first_faulted s =
     position (\<lambda>t. case t of None \<Rightarrow> False | Some t \<Rightarrow> task_state t = Faulted) (tasks s)"

definition set_waiter :: "nat \<Rightarrow> bool \<Rightarrow> kernel \<Rightarrow> kernel" where
  "set_waiter slot b k = k\<lparr>kwaiters := (kwaiters k)[slot := b]\<rparr>"

partial_function (option) wait_for_fault :: "kernel \<Rightarrow> (u64 option \<times> kernel) option" where
  "wait_for_fault k = (case first_faulted (ksched k) of
       Some slot \<Rightarrow> Some (Some (of_nat slot), k)
     | None \<Rightarrow> do {
         (away, k) \<leftarrow> park K_fault_wait (mark_current_blocked (set_waiter (me k) True k));
         if away then Some (None, k) else wait_for_fault (set_waiter (me k) False k)
       })"

definition restart :: "code \<Rightarrow> nat \<Rightarrow> kernel \<Rightarrow> (bool \<times> kernel) option" where
  "restart c slot k = do {
     k \<leftarrow> abandon slot k;
     case task_at (ksched k) slot of
       None \<Rightarrow> Some (False, k)
     | Some t \<Rightarrow>
         if task_state t \<noteq> Faulted then Some (False, k)
         else case task_image t of
           None \<Rightarrow> Some (False, k)
         | Some img \<Rightarrow> do {
             let k = on_sched (set_task slot (Some (t\<lparr>task_space := None\<rparr>))) k;
             m \<leftarrow> (case task_space t of None \<Rightarrow> Some (kmach k) | Some old \<Rightarrow> space_destroy (kmach k) old);
             (space, m) \<leftarrow> build_user_space (img_start img) (img_end img) (img_arg img) m;
             (sp, p) \<leftarrow> plant_switch_frame c (task_stack t) (user_task_entry c) USER_TEXT_VA (mphys m);
             let t = t\<lparr>task_space := Some space, task_sp := sp, task_fault := None, task_exit := None,
                  task_state := Runnable\<rparr>;
             Some (True, on_sched (set_task slot (Some t))
               (k\<lparr>kmach := m\<lparr>mphys := p\<rparr>,
                  ksaved := (ksaved k)[slot := K_fresh (user_task_entry c) USER_TEXT_VA]\<rparr>))
           }
   }"

definition kill :: "nat \<Rightarrow> kernel \<Rightarrow> kernel option" where
  "kill slot k = do {
     t \<leftarrow> idx (tasks (ksched k)) slot;
     Some (case t of
         None \<Rightarrow> k
       | Some t \<Rightarrow> if task_state t = Faulted
                   then on_sched (set_task slot (Some (t\<lparr>task_state := Zombie\<rparr>))) k else k)
   }"

end
