(* ===== verification/Text.thy ===== *)
theory Text
  imports Prelude
begin

text \<open>
  Text as the kernel sees it: bytes, checked to be UTF-8 where Rust makes a \<open>str\<close> of them, and
  the splitting of byte strings. A literal of the source is \<open>ascii ''...''\<close>.
\<close>

definition ascii :: "string \<Rightarrow> u8 list" where
  "ascii s = map of_char s"

text \<open>\<open>core::str::from_utf8\<close>: well-formed UTF-8, with no overlong form and no surrogate.\<close>

definition cont :: "u8 \<Rightarrow> bool" where
  "cont b \<longleftrightarrow> 0x80 \<le> b \<and> b \<le> 0xbf"

definition second3 :: "u8 \<Rightarrow> u8 \<Rightarrow> bool" where
  "second3 a b \<longleftrightarrow> (if a = 0xe0 then 0xa0 \<le> b \<and> b \<le> 0xbf else if a = 0xed then 0x80 \<le> b \<and> b \<le> 0x9f else cont b)"

definition second4 :: "u8 \<Rightarrow> u8 \<Rightarrow> bool" where
  "second4 a b \<longleftrightarrow> (if a = 0xf0 then 0x90 \<le> b \<and> b \<le> 0xbf else if a = 0xf4 then 0x80 \<le> b \<and> b \<le> 0x8f else cont b)"

fun from_utf8 :: "u8 list \<Rightarrow> bool" where
  "from_utf8 [] = True"
| "from_utf8 (a # bs) =
     (if a < 0x80 then from_utf8 bs
      else if 0xc2 \<le> a \<and> a \<le> 0xdf
      then (case bs of b # bs \<Rightarrow> cont b \<and> from_utf8 bs | _ \<Rightarrow> False)
      else if 0xe0 \<le> a \<and> a \<le> 0xef
      then (case bs of b # c # bs \<Rightarrow> second3 a b \<and> cont c \<and> from_utf8 bs | _ \<Rightarrow> False)
      else if 0xf0 \<le> a \<and> a \<le> 0xf4
      then (case bs of b # c # d # bs \<Rightarrow> second4 a b \<and> cont c \<and> cont d \<and> from_utf8 bs | _ \<Rightarrow> False)
      else False)"

text \<open>\<open>split\<close> on one separator: the pieces between the separators, empty ones included.\<close>

fun split_on :: "'a \<Rightarrow> 'a list \<Rightarrow> 'a list list" where
  "split_on x [] = [[]]"
| "split_on x (y # ys) =
     (if y = x then [] # split_on x ys
      else (case split_on x ys of [] \<Rightarrow> [[y]] | z # zs \<Rightarrow> (y # z) # zs))"

lemma split_on_not_Nil [simp]: "split_on x ys \<noteq> []"
  by (induction ys) (auto split: list.splits)

end
