(* ===== verification/Syscall.thy ===== *)
theory Syscall
  imports Lifecycle Text
begin

text \<open>
  The system call interface (\<open>syscall.rs\<close>) and what a task that was switched away from does
  when it continues.

  \<open>dispatch\<close> reads the number and the arguments from the trap frame of the current task and
  writes the results there. A call that gives up the CPU leaves the frame untouched; \<open>resume\<close>
  runs the rest of the call when the task is chosen again and writes the results then.
\<close>

section \<open>The trap frame\<close>

definition my_frame :: "kernel \<Rightarrow> trap_frame" where
  "my_frame k = ktraps k ! me k"

definition set_my_frame :: "trap_frame \<Rightarrow> kernel \<Rightarrow> kernel" where
  "set_my_frame f k = k\<lparr>ktraps := (ktraps k)[me k := f]\<rparr>"

definition set_results :: "u64 \<times> u64 \<times> u64 \<Rightarrow> kernel \<Rightarrow> kernel" where
  "set_results r k = (case r of (r0, r1, r2) \<Rightarrow>
     set_my_frame ((my_frame k)\<lparr>tf_x := (tf_x (my_frame k))[0 := r0, 1 := r1, 2 := r2]\<rparr>) k)"

text \<open>The end of \<open>dispatch\<close>: if the call returned, its results go to the frame.\<close>

definition finish :: "('r \<Rightarrow> u64 \<times> u64 \<times> u64) \<Rightarrow> ('r option \<times> kernel) option \<Rightarrow> (unit option \<times> kernel) option"
  where
  "finish results r = do {
     (r, k) \<leftarrow> r;
     case r of None \<Rightarrow> Some (None, k) | Some r \<Rightarrow> Some (Some (), set_results (results r) k)
   }"

section \<open>Calls\<close>

definition SYS_EXIT :: u64 where "SYS_EXIT = 0"
definition SYS_WRITE :: u64 where "SYS_WRITE = 1"
definition SYS_YIELD :: u64 where "SYS_YIELD = 2"
definition SYS_GETPID :: u64 where "SYS_GETPID = 3"
definition SYS_SEND :: u64 where "SYS_SEND = 4"
definition SYS_RECV :: u64 where "SYS_RECV = 5"
definition SYS_REPLY :: u64 where "SYS_REPLY = 6"
definition SYS_BORROW_READ :: u64 where "SYS_BORROW_READ = 7"
definition SYS_BORROW_WRITE :: u64 where "SYS_BORROW_WRITE = 8"
definition SYS_FAULT_WAIT :: u64 where "SYS_FAULT_WAIT = 9"
definition SYS_FAULT_INFO :: u64 where "SYS_FAULT_INFO = 10"
definition SYS_RESTART :: u64 where "SYS_RESTART = 11"
definition SYS_TICKS :: u64 where "SYS_TICKS = 12"
definition MAX_WRITE :: u64 where "MAX_WRITE = 4096"

definition supervising :: "kernel \<Rightarrow> bool" where
  "supervising k = is_supervisor (me k) k"

definition sys_yield :: "kernel \<Rightarrow> (u64 option \<times> kernel) option" where
  "sys_yield k = and_then (yield_now K_yield k) (\<lambda>k. Some (Some 0, k))"

definition sys_getpid :: "kernel \<Rightarrow> u64" where
  "sys_getpid k = of_nat (me k)"

definition sys_fault_wait :: "kernel \<Rightarrow> (u64 option \<times> kernel) option" where
  "sys_fault_wait k = (if \<not> supervising k then Some (Some EPERM, k) else wait_for_fault k)"

definition sys_fault_info :: "u64 \<Rightarrow> kernel \<Rightarrow> (u64 \<times> u64 \<times> u64) option" where
  "sys_fault_info slot k =
     (if \<not> supervising k then Some (EPERM, 0, 0)
      else if MAX_TASKS \<le> unat slot then Some (EINVAL, 0, 0)
      else do {
        fault \<leftarrow> fault_of (unat slot) k;
        Some (case fault of Some f \<Rightarrow> (f_esr f, f_far f, f_elr f) | None \<Rightarrow> (EINVAL, 0, 0))
      })"

definition sys_restart :: "code \<Rightarrow> u64 \<Rightarrow> kernel \<Rightarrow> (u64 \<times> kernel) option" where
  "sys_restart c slot k =
     (if \<not> supervising k then Some (EPERM, k)
      else if MAX_TASKS \<le> unat slot then Some (EINVAL, k)
      else do {
        (ok, k) \<leftarrow> restart c (unat slot) k;
        Some (if ok then 0 else EINVAL, k)
      })"

section \<open>Writing to the console\<close>

text \<open>\<open>uart::write_str\<close>: a line feed is sent as carriage return, line feed.\<close>

definition uart_bytes :: "u8 list \<Rightarrow> u8 list" where
  "uart_bytes text = concat (map (\<lambda>b. if b = 10 then [13, b] else [b]) text)"

definition uart_write_str :: "u8 list \<Rightarrow> kernel \<Rightarrow> kernel" where
  "uart_write_str text k = k\<lparr>kconsole := kconsole k @ uart_bytes text\<rparr>"

text \<open>
  One byte of a slice of user memory, as the processor loads it for the kernel. This is the
  architecture's rule, not a line of the source: with \<open>T0SZ = 16\<close>, \<open>T1SZ = 16\<close> and no top byte
  ignored, which is what \<open>mmu_enable\<close> programs (\<open>low_half_regime\<close> of \<open>Paging\<close>), \<open>TTBR0\<close> translates
  the addresses whose top 16 bits are all zero, \<open>TTBR1\<close> those where they are all one, and any other
  address faults. An address of the upper half is past every one that \<open>user_range\<close> lets through, so
  it is not distinguished here. A fault taken at EL1 is a panic.
\<close>

definition el1_load :: "kernel \<Rightarrow> u64 \<Rightarrow> u8 option" where
  "el1_load k va =
     (if drop_bit 48 va \<noteq> 0 then None
      else map_option (pmem (kphys k)) (translate (kphys k) (Frame (ttbr0 (kregs k))) va))"

fun el1_bytes :: "kernel \<Rightarrow> u64 \<Rightarrow> nat \<Rightarrow> u8 list option" where
  "el1_bytes k va 0 = Some []"
| "el1_bytes k va (Suc n) = do { b \<leftarrow> el1_load k va; bs \<leftarrow> el1_bytes k (va + 1) n; Some (b # bs) }"

text \<open>
  \<open>slice::from_raw_parts\<close> requires a pointer that is not null, whatever the length, and an
  overflow-checked build checks it.
\<close>

definition sys_write :: "u64 \<Rightarrow> u64 \<Rightarrow> u64 \<Rightarrow> kernel \<Rightarrow> (u64 \<times> kernel) option" where
  "sys_write fd buf len k =
     (if fd \<noteq> 1 then Some (EINVAL, k)
      else if MAX_WRITE < len then Some (EINVAL, k)
      else case current_space_root k of
        None \<Rightarrow> Some (EFAULT, k)
      | Some root \<Rightarrow> do {
          readable \<leftarrow> user_readable (kphys k) root buf len;
          if \<not> readable then Some (EFAULT, k)
          else do {
            assert_that (buf \<noteq> 0);
            bytes \<leftarrow> el1_bytes k buf (unat len);
            Some (if from_utf8 bytes then (len, uart_write_str bytes k) else (EINVAL, k))
          }
        })"

section \<open>Dispatch\<close>

definition plain :: "(u64 \<times> kernel) option \<Rightarrow> (u64 option \<times> kernel) option" where
  "plain r = map_option (\<lambda>(r, k). (Some r, k)) r"

abbreviation one_result :: "u64 \<Rightarrow> u64 \<times> u64 \<times> u64" where
  "one_result r \<equiv> (r, 0, 0)"

abbreviation two_results :: "u64 \<times> u64 \<Rightarrow> u64 \<times> u64 \<times> u64" where
  "two_results r \<equiv> (fst r, snd r, 0)"

definition dispatch :: "code \<Rightarrow> kernel \<Rightarrow> (unit option \<times> kernel) option" where
  "dispatch c k =
     (let x = (\<lambda>i. tf_x (my_frame k) ! i); number = x 8 in
      if number = SYS_EXIT then exit_current (x 0) k
      else if number = SYS_WRITE then finish one_result (plain (sys_write (x 0) (x 1) (x 2) k))
      else if number = SYS_YIELD then finish one_result (sys_yield k)
      else if number = SYS_GETPID then finish one_result (Some (Some (sys_getpid k), k))
      else if number = SYS_SEND
      then finish two_results (send (x 0) (x 1) (x 2) (x 3) (x 4) (x 5) (x 6) (x 7) k)
      else if number = SYS_RECV then finish (\<lambda>r. r) (recv (x 0) (x 1) (x 2) k)
      else if number = SYS_REPLY then finish one_result (reply (x 0) (x 1) (x 2) (x 3) k)
      else if number = SYS_BORROW_READ
      then finish one_result (plain (borrow_read (x 0) (x 1) (x 2) (x 3) (x 4) k))
      else if number = SYS_BORROW_WRITE
      then finish one_result (plain (borrow_write (x 0) (x 1) (x 2) (x 3) (x 4) k))
      else if number = SYS_FAULT_WAIT then finish one_result (sys_fault_wait k)
      else if number = SYS_FAULT_INFO
      then finish (\<lambda>r. r) (map_option (\<lambda>r. (Some r, k)) (sys_fault_info (x 0) k))
      else if number = SYS_RESTART then finish one_result (plain (sys_restart c (x 0) k))
      else if number = SYS_TICKS then finish one_result (Some (Some (ticks (ktimer k)), k))
      else finish one_result (Some (Some EINVAL, k)))"

section \<open>Continuing\<close>

text \<open>
  The task that \<open>switch\<close> resumed runs on from where it was saved. \<open>Some (Some (), k)\<close>:
  it returns to the code that trapped, or starts; \<open>Some (None, k)\<close>: it gave up the CPU again.
\<close>

definition resume :: "kernel \<Rightarrow> (unit option \<times> kernel) option" where
  "resume k = (case ksaved k ! me k of
       K_fresh entry arg \<Rightarrow> Some (Some (), k)
     | K_kernel \<Rightarrow> Some (Some (), k)
     | K_preempted \<Rightarrow> Some (Some (), k)
     | K_yield \<Rightarrow> finish one_result (Some (Some 0, k))
     | K_dead \<Rightarrow> dying_loop k
     | K_send_woke \<Rightarrow> finish two_results (send_park k)
     | K_send \<Rightarrow> finish two_results (send_woken k)
     | K_recv buf cap nmask \<Rightarrow> finish (\<lambda>r. r) (do {
         (r, k) \<leftarrow> recv_woken k;
         case r of None \<Rightarrow> recv_loop buf cap nmask k | Some r \<Rightarrow> Some (Some r, k)
       })
     | K_recv_refused buf cap nmask \<Rightarrow> finish (\<lambda>r. r) (recv_loop buf cap nmask k)
     | K_reply \<Rightarrow> finish one_result (Some (Some 0, k))
     | K_fault_wait \<Rightarrow> finish one_result (wait_for_fault (set_waiter (me k) False k)))"

end
