(* ===== verification/Exceptions.thy ===== *)
theory Exceptions
  imports Syscall
begin

text \<open>
  Exception handling (\<open>exceptions.rs\<close>): decoding the vector and the syndrome, and deciding
  what to do about each kind of trap.

  The identifier the interrupt controller hands out when it is acknowledged is an argument,
  \<open>intid\<close>. What the kernel prints about an exception is not modelled.
\<close>

section \<open>Decoding\<close>

datatype vector_index = VectorIndex u64

definition is_irq :: "vector_index \<Rightarrow> bool" where
  "is_irq v = (case v of VectorIndex i \<Rightarrow> i AND 3 = 1)"

definition from_lower_el :: "vector_index \<Rightarrow> bool" where
  "from_lower_el v = (case v of VectorIndex i \<Rightarrow> 2 \<le> drop_bit 2 i)"

definition SOURCES :: "string list" where
  "SOURCES = [''current EL, SP_EL0'', ''current EL, SP_ELx'', ''lower EL, AArch64'', ''lower EL, AArch32'']"

definition KINDS :: "string list" where
  "KINDS = [''synchronous'', ''IRQ'', ''FIQ'', ''SError'']"

definition vector_source :: "vector_index \<Rightarrow> string" where
  "vector_source v = (case v of VectorIndex i \<Rightarrow>
     (case idx SOURCES (unat (drop_bit 2 i)) of Some s \<Rightarrow> s | None \<Rightarrow> ''unknown source''))"

definition vector_kind :: "vector_index \<Rightarrow> string" where
  "vector_kind v = (case v of VectorIndex i \<Rightarrow>
     (case idx KINDS (unat (i AND 3)) of Some s \<Rightarrow> s | None \<Rightarrow> ''unknown kind''))"

datatype syndrome = Syndrome u64

definition exception_class :: "syndrome \<Rightarrow> u64" where
  "exception_class s = (case s of Syndrome esr \<Rightarrow> drop_bit 26 esr AND 0x3f)"

definition iss :: "syndrome \<Rightarrow> u64" where
  "iss s = (case s of Syndrome esr \<Rightarrow> esr AND 0x1ffffff)"

definition class_name :: "syndrome \<Rightarrow> string" where
  "class_name s = (let ec = exception_class s in
     if ec = 0x00 then ''unknown reason''
     else if ec = 0x01 then ''trapped WFI or WFE''
     else if ec = 0x07 then ''trapped SVE/SIMD/FP access''
     else if ec = 0x0e then ''illegal execution state''
     else if ec = 0x15 then ''SVC from AArch64''
     else if ec = 0x18 then ''trapped MSR/MRS/system instruction''
     else if ec = 0x20 then ''instruction abort from lower EL''
     else if ec = 0x21 then ''instruction abort from current EL''
     else if ec = 0x22 then ''PC alignment fault''
     else if ec = 0x24 then ''data abort from lower EL''
     else if ec = 0x25 then ''data abort from current EL''
     else if ec = 0x26 then ''SP alignment fault''
     else if ec = 0x2c then ''trapped floating point exception''
     else if ec = 0x2f then ''SError interrupt''
     else if ec = 0x30 \<or> ec = 0x31 then ''breakpoint''
     else if ec = 0x32 \<or> ec = 0x33 then ''software step''
     else if ec = 0x34 \<or> ec = 0x35 then ''watchpoint''
     else if ec = 0x3c then ''BRK instruction''
     else ''unrecognised class'')"

definition is_abort :: "syndrome \<Rightarrow> bool" where
  "is_abort s = (exception_class s \<in> {0x20, 0x21, 0x24, 0x25})"

definition is_brk :: "syndrome \<Rightarrow> bool" where
  "is_brk s = (exception_class s = 0x3c)"

definition brk_comment :: "syndrome \<Rightarrow> u64" where
  "brk_comment s = iss s AND 0xffff"

definition fault_status :: "syndrome \<Rightarrow> string" where
  "fault_status s = (let code = iss s AND 0x3f in
     if code \<le> 0x03 then ''address size fault''
     else if 0x04 \<le> code \<and> code \<le> 0x07 then ''translation fault, nothing mapped''
     else if 0x09 \<le> code \<and> code \<le> 0x0b then ''access flag fault''
     else if 0x0d \<le> code \<and> code \<le> 0x0f then ''permission fault''
     else if code = 0x10 then ''synchronous external abort''
     else if code = 0x21 then ''alignment fault''
     else if code = 0x30 then ''TLB conflict abort''
     else ''other'')"

definition fault_level :: "syndrome \<Rightarrow> u64 option" where
  "fault_level s = (let code = iss s AND 0x3f in
     if code \<le> 0x03 \<or> (0x04 \<le> code \<and> code \<le> 0x07) \<or> (0x09 \<le> code \<and> code \<le> 0x0b) \<or>
        (0x0d \<le> code \<and> code \<le> 0x0f)
     then Some (code AND 3) else None)"

definition syndrome_is_write :: "syndrome \<Rightarrow> bool" where
  "syndrome_is_write s \<longleftrightarrow> iss s AND push_bit 6 1 \<noteq> 0"

definition EC_SVC64 :: u64 where "EC_SVC64 = 0x15"
definition EC_UNKNOWN :: u64 where "EC_UNKNOWN = 0x00"
definition EC_TRAPPED_SYSTEM :: u64 where "EC_TRAPPED_SYSTEM = 0x18"

section \<open>Handling\<close>

text \<open>\<open>timer::on_tick\<close>\<close>

definition on_tick :: "kernel \<Rightarrow> kernel option" where
  "on_tick k = do { t \<leftarrow> tick (ktimer k); Some (request_reschedule (k\<lparr>ktimer := t\<rparr>)) }"

definition dispatch_irq :: "u32 \<Rightarrow> kernel \<Rightarrow> (unit option \<times> kernel) option" where
  "dispatch_irq intid k =
     (if intid = SPURIOUS_INTID then Some (Some (), k)
      else do {
        let (routed, k) = on_irq intid k;
        k \<leftarrow> (if intid = TIMER_INTID then on_tick k else Some k);
        g \<leftarrow> end_of_interrupt (kphys k) intid (kgic k);
        and_then (preempt_if_needed (k\<lparr>kgic := g\<rparr>)) (\<lambda>k. Some (Some (), k))
      })"

definition step_over :: "kernel \<Rightarrow> kernel option" where
  "step_over k = do {
     elr \<leftarrow> checked_add (tf_elr (my_frame k)) 4;
     Some (set_my_frame ((my_frame k)\<lparr>tf_elr := elr\<rparr>) k)
   }"

definition handle_exception :: "code \<Rightarrow> vector_index \<Rightarrow> u32 \<Rightarrow> kernel \<Rightarrow> (unit option \<times> kernel) option" where
  "handle_exception c v intid k =
     (if is_irq v then dispatch_irq intid k
      else
        let f = my_frame k; s = Syndrome (tf_esr f) in
        if exception_class s = EC_SVC64 then dispatch c k
        else if from_lower_el v \<and> (exception_class s = EC_UNKNOWN \<or> exception_class s = EC_TRAPPED_SYSTEM)
        then do {
          k \<leftarrow> step_over (k\<lparr>kprivileged := kprivileged k + 1\<rparr>);
          Some (Some (), k)
        }
        else if from_lower_el v
        then fault_current \<lparr>f_esr = tf_esr f, f_far = tf_far f, f_elr = tf_elr f\<rparr> k
        else if is_abort s \<and> kexpecting k
        then do {
          k \<leftarrow> step_over (k\<lparr>kprobe := tf_esr f\<rparr>);
          Some (Some (), k)
        }
        else if is_brk s then do { k \<leftarrow> step_over k; Some (Some (), k) }
        else None)"

section \<open>Probes\<close>

text \<open>\<open>probe\<close> brackets one access, here a function that runs it with the exceptions it takes.\<close>

definition probe :: "(kernel \<Rightarrow> kernel option) \<Rightarrow> kernel \<Rightarrow> (u64 \<times> kernel) option" where
  "probe access k = do {
     k \<leftarrow> access (k\<lparr>kprobe := 0, kexpecting := True\<rparr>);
     Some (kprobe k, k\<lparr>kexpecting := False\<rparr>)
   }"

end
