(* ===== verification/Views.thy ===== *)
theory Views
  imports Exceptions
begin

text \<open>
  What the kernel knows of each task slot, and how every primitive operation changes it.

  A slot's view is its task's state, what it waits for in the message table, the notification
  bits it is parked on, whether it waits for a fault, and where it will continue. The
  collection \<open>view_simps\<close> computes the view after each primitive; the proofs about whole
  handlers use nothing else of the state.
\<close>

named_theorems view_simps

section \<open>Views\<close>

definition st :: "kernel \<Rightarrow> nat \<Rightarrow> task_state option" where
  "st k i = map_option task_state (task_at (ksched k) i)"

definition pn :: "kernel \<Rightarrow> nat \<Rightarrow> pending option" where
  "pn k i = pending (ktable k) ! i"

definition wt :: "kernel \<Rightarrow> nat \<Rightarrow> u32" where
  "wt k i = wanted (knotify k) ! i"

definition ps :: "kernel \<Rightarrow> nat \<Rightarrow> u32" where
  "ps k i = posted (knotify k) ! i"

definition fw :: "kernel \<Rightarrow> nat \<Rightarrow> bool" where
  "fw k i = kwaiters k ! i"

definition sv :: "kernel \<Rightarrow> nat \<Rightarrow> kont" where
  "sv k i = ksaved k ! i"

definition sized :: "kernel \<Rightarrow> bool" where
  "sized k \<longleftrightarrow> length (tasks (ksched k)) = MAX_TASKS \<and> me k < MAX_TASKS \<and> table_ok (ktable k) \<and>
     notify_ok (knotify k) \<and> length (kwaiters k) = MAX_TASKS \<and> length (ksaved k) = MAX_TASKS \<and>
     length (ktraps k) = MAX_TASKS"

lemma sizedD:
  assumes "sized k"
  shows "length (tasks (ksched k)) = MAX_TASKS" "me k < MAX_TASKS" "table_ok (ktable k)"
    "notify_ok (knotify k)" "length (kwaiters k) = MAX_TASKS" "length (ksaved k) = MAX_TASKS"
    "length (ktraps k) = MAX_TASKS" "length (pending (ktable k)) = MAX_TASKS"
    "length (wanted (knotify k)) = MAX_TASKS" "length (posted (knotify k)) = MAX_TASKS"
    "length (outcomes (ktable k)) = MAX_TASKS"
  using assms by (simp_all add: sized_def table_ok_def notify_ok_def)

lemma st_eq_Some: "st k i = Some s \<longleftrightarrow> (\<exists>t. task_at (ksched k) i = Some t \<and> task_state t = s)"
  by (auto simp: st_def)

lemma st_None: "st k i = None \<longleftrightarrow> task_at (ksched k) i = None"
  by (simp add: st_def)

lemma task_at_set_task:
  "task_at (set_task s t sched) i = (if i = s \<and> s < length (tasks sched) then t else task_at sched i)"
  by (auto simp: task_at_def set_task_def)

lemma current_set_task [simp]: "current (set_task s t sched) = current sched"
  by (simp add: set_task_def)

lemma length_set_task [simp]: "length (tasks (set_task s t sched)) = length (tasks sched)"
  by (simp add: set_task_def)

lemma task_at_less: "task_at s i = Some t \<Longrightarrow> i < length (tasks s)"
  by (auto simp: task_at_def split: if_splits)

lemma task_at_update_task:
  "task_at (update_task s f sched) i =
     (if i = s then map_option f (task_at sched s) else task_at sched i)"
  by (cases "s < length (tasks sched)") (auto simp: update_task_def set_task_def task_at_def)

lemma update_task_simps [simp]:
  "current (update_task s f sched) = current sched"
  "length (tasks (update_task s f sched)) = length (tasks sched)"
  by (simp_all add: update_task_def)

section \<open>Memory, devices and the log\<close>

text \<open>Fields that no view reads.\<close>

lemma view_other [view_simps]:
  "st (k\<lparr>kmach := m\<rparr>) = st k" "pn (k\<lparr>kmach := m\<rparr>) = pn k" "wt (k\<lparr>kmach := m\<rparr>) = wt k" "ps (k\<lparr>kmach := m\<rparr>) = ps k"
  "fw (k\<lparr>kmach := m\<rparr>) = fw k" "sv (k\<lparr>kmach := m\<rparr>) = sv k" "me (k\<lparr>kmach := m\<rparr>) = me k"
  "sized (k\<lparr>kmach := m\<rparr>) = sized k"
  "st (k\<lparr>kgic := g\<rparr>) = st k" "pn (k\<lparr>kgic := g\<rparr>) = pn k" "wt (k\<lparr>kgic := g\<rparr>) = wt k" "ps (k\<lparr>kgic := g\<rparr>) = ps k"
  "fw (k\<lparr>kgic := g\<rparr>) = fw k" "sv (k\<lparr>kgic := g\<rparr>) = sv k" "me (k\<lparr>kgic := g\<rparr>) = me k"
  "sized (k\<lparr>kgic := g\<rparr>) = sized k"
  "st (k\<lparr>ktimer := t\<rparr>) = st k" "pn (k\<lparr>ktimer := t\<rparr>) = pn k" "wt (k\<lparr>ktimer := t\<rparr>) = wt k" "ps (k\<lparr>ktimer := t\<rparr>) = ps k"
  "fw (k\<lparr>ktimer := t\<rparr>) = fw k" "sv (k\<lparr>ktimer := t\<rparr>) = sv k" "me (k\<lparr>ktimer := t\<rparr>) = me k"
  "sized (k\<lparr>ktimer := t\<rparr>) = sized k"
  "st (k\<lparr>kresched := b\<rparr>) = st k" "pn (k\<lparr>kresched := b\<rparr>) = pn k" "wt (k\<lparr>kresched := b\<rparr>) = wt k" "ps (k\<lparr>kresched := b\<rparr>) = ps k"
  "fw (k\<lparr>kresched := b\<rparr>) = fw k" "sv (k\<lparr>kresched := b\<rparr>) = sv k" "me (k\<lparr>kresched := b\<rparr>) = me k"
  "sized (k\<lparr>kresched := b\<rparr>) = sized k"
  "st (k\<lparr>kconsole := c\<rparr>) = st k" "pn (k\<lparr>kconsole := c\<rparr>) = pn k" "wt (k\<lparr>kconsole := c\<rparr>) = wt k" "ps (k\<lparr>kconsole := c\<rparr>) = ps k"
  "fw (k\<lparr>kconsole := c\<rparr>) = fw k" "sv (k\<lparr>kconsole := c\<rparr>) = sv k" "me (k\<lparr>kconsole := c\<rparr>) = me k"
  "sized (k\<lparr>kconsole := c\<rparr>) = sized k"
  "st (k\<lparr>kprivileged := n\<rparr>) = st k" "pn (k\<lparr>kprivileged := n\<rparr>) = pn k" "wt (k\<lparr>kprivileged := n\<rparr>) = wt k" "ps (k\<lparr>kprivileged := n\<rparr>) = ps k"
  "fw (k\<lparr>kprivileged := n\<rparr>) = fw k" "sv (k\<lparr>kprivileged := n\<rparr>) = sv k" "me (k\<lparr>kprivileged := n\<rparr>) = me k"
  "sized (k\<lparr>kprivileged := n\<rparr>) = sized k"
  "st (k\<lparr>kprobe := e\<rparr>) = st k" "pn (k\<lparr>kprobe := e\<rparr>) = pn k" "wt (k\<lparr>kprobe := e\<rparr>) = wt k" "ps (k\<lparr>kprobe := e\<rparr>) = ps k"
  "fw (k\<lparr>kprobe := e\<rparr>) = fw k" "sv (k\<lparr>kprobe := e\<rparr>) = sv k" "me (k\<lparr>kprobe := e\<rparr>) = me k"
  "sized (k\<lparr>kprobe := e\<rparr>) = sized k"
  "st (k\<lparr>ksupervisor := s\<rparr>) = st k" "pn (k\<lparr>ksupervisor := s\<rparr>) = pn k" "wt (k\<lparr>ksupervisor := s\<rparr>) = wt k" "ps (k\<lparr>ksupervisor := s\<rparr>) = ps k"
  "fw (k\<lparr>ksupervisor := s\<rparr>) = fw k" "sv (k\<lparr>ksupervisor := s\<rparr>) = sv k" "me (k\<lparr>ksupervisor := s\<rparr>) = me k"
  "sized (k\<lparr>ksupervisor := s\<rparr>) = sized k"
  by (auto simp: st_def pn_def wt_def ps_def fw_def sv_def me_def sized_def fun_eq_iff)

lemma view_set_phys [view_simps]:
  "st (set_phys p k) = st k" "pn (set_phys p k) = pn k" "wt (set_phys p k) = wt k" "ps (set_phys p k) = ps k"
  "fw (set_phys p k) = fw k" "sv (set_phys p k) = sv k" "me (set_phys p k) = me k"
  "sized (set_phys p k) = sized k"
  by (simp_all add: set_phys_def view_simps)

lemma view_set_my_frame [view_simps]:
  "st (set_my_frame f k) = st k" "pn (set_my_frame f k) = pn k" "wt (set_my_frame f k) = wt k" "ps (set_my_frame f k) = ps k"
  "fw (set_my_frame f k) = fw k" "sv (set_my_frame f k) = sv k" "me (set_my_frame f k) = me k"
  "sized (set_my_frame f k) = sized k"
  by (auto simp: set_my_frame_def st_def pn_def wt_def ps_def fw_def sv_def me_def sized_def fun_eq_iff)

lemma view_set_results [view_simps]:
  "st (set_results r k) = st k" "pn (set_results r k) = pn k" "wt (set_results r k) = wt k" "ps (set_results r k) = ps k"
  "fw (set_results r k) = fw k" "sv (set_results r k) = sv k" "me (set_results r k) = me k"
  "sized (set_results r k) = sized k"
  by (cases r; simp add: set_results_def view_simps)+

section \<open>The message table\<close>

lemma table_ok_simps [simp]:
  "table_ok t \<Longrightarrow> table_ok (set_pending i p t)" "table_ok t \<Longrightarrow> table_ok (set_outcome i r t)"
  by (simp_all add: table_ok_def set_pending_def set_outcome_def)

lemma table_ok_set_leases [simp]:
  assumes "table_ok t" "length ls = MAX_LEASES" "n \<le> MAX_LEASES"
  shows "table_ok (set_leases i ls n t)"
proof -
  have "set ((leases t)[i := ls]) \<subseteq> insert ls (set (leases t))"
    "set ((lease_count t)[i := n]) \<subseteq> insert n (set (lease_count t))"
    by (rule set_update_subset_insert)+
  then show ?thesis using assms by (auto simp: table_ok_def set_leases_def)
qed

lemma table_ok_deliver_outcome [simp]: "table_ok t \<Longrightarrow> table_ok (deliver_outcome s rc len t)"
  by (simp add: deliver_outcome_def)

lemma table_ok_count [simp]: "table_ok t \<Longrightarrow> table_ok (t\<lparr>lease_count := (lease_count t)[i := 0]\<rparr>)"
proof -
  assume "table_ok t"
  moreover have "set ((lease_count t)[i := 0]) \<subseteq> insert 0 (set (lease_count t))"
    by (rule set_update_subset_insert)
  ultimately show ?thesis by (auto simp: table_ok_def)
qed

lemma view_on_table [view_simps]:
  "st (on_table f k) = st k" "wt (on_table f k) = wt k" "ps (on_table f k) = ps k" "fw (on_table f k) = fw k"
  "sv (on_table f k) = sv k" "me (on_table f k) = me k"
  "pn (on_table f k) i = pending (f (ktable k)) ! i"
  by (auto simp: on_table_def st_def pn_def wt_def ps_def fw_def sv_def me_def fun_eq_iff)

lemma sized_on_table [view_simps]: "sized k \<Longrightarrow> table_ok (f (ktable k)) \<Longrightarrow> sized (on_table f k)"
  by (simp add: sized_def on_table_def me_def)

lemma pending_simps [view_simps]:
  "pending (set_outcome i r t) = pending t" "pending (set_leases i ls n t) = pending t"
  "pending (t\<lparr>lease_count := c\<rparr>) = pending t"
  "i < length (pending t) \<Longrightarrow> pending (set_pending s p t) ! i = (if i = s then p else pending t ! i)"
  "length (pending (set_pending s p t)) = length (pending t)"
  by (auto simp: set_pending_def set_outcome_def set_leases_def nth_list_update)

lemma pending_deliver_outcome [view_simps]:
  "i < length (pending t) \<Longrightarrow> pending (deliver_outcome s rc len t) ! i = (if i = s then None else pending t ! i)"
  "length (pending (deliver_outcome s rc len t)) = length (pending t)"
  by (simp_all add: deliver_outcome_def view_simps)

section \<open>Notifications and fault waiters\<close>

lemma view_knotify [view_simps]:
  "st (k\<lparr>knotify := n\<rparr>) = st k" "pn (k\<lparr>knotify := n\<rparr>) = pn k" "fw (k\<lparr>knotify := n\<rparr>) = fw k"
  "sv (k\<lparr>knotify := n\<rparr>) = sv k" "me (k\<lparr>knotify := n\<rparr>) = me k"
  "wt (k\<lparr>knotify := n\<rparr>) i = wanted n ! i" "ps (k\<lparr>knotify := n\<rparr>) i = posted n ! i"
  by (auto simp: st_def pn_def wt_def ps_def fw_def sv_def me_def fun_eq_iff)

lemma sized_knotify [view_simps]: "sized k \<Longrightarrow> notify_ok n \<Longrightarrow> sized (k\<lparr>knotify := n\<rparr>)"
  by (simp add: sized_def me_def)

lemma notify_take_view:
  assumes "notify_take t bits n = Some (fired, n')" "notify_ok n"
  shows "notify_ok n'" "wanted n' = wanted n" "t < MAX_TASKS" "fired = posted n ! t AND bits"
    "posted n' = (posted n)[t := posted n ! t AND NOT fired]"
  using assms by (auto simp: notify_take_def notify_ok_def bind_eq_Some_conv idx_def Let_def split: if_splits)

lemma notify_arm_view:
  assumes "notify_arm t bits n = Some n'" "notify_ok n"
  shows "notify_ok n'" "t < MAX_TASKS" "wanted n' = (wanted n)[t := bits]" "posted n' = posted n"
  using assms by (auto simp: notify_arm_def notify_ok_def split: if_splits)

lemma view_set_waiter [view_simps]:
  "st (set_waiter s b k) = st k" "pn (set_waiter s b k) = pn k" "wt (set_waiter s b k) = wt k" "ps (set_waiter s b k) = ps k"
  "sv (set_waiter s b k) = sv k" "me (set_waiter s b k) = me k" "sized (set_waiter s b k) = sized k"
  "i < length (kwaiters k) \<Longrightarrow> fw (set_waiter s b k) i = (if i = s then b else fw k i)"
  by (auto simp: set_waiter_def st_def pn_def wt_def ps_def fw_def sv_def me_def sized_def fun_eq_iff
    nth_list_update)

section \<open>The task table\<close>

lemma view_on_sched [view_simps]:
  "pn (on_sched f k) = pn k" "wt (on_sched f k) = wt k" "ps (on_sched f k) = ps k" "fw (on_sched f k) = fw k"
  "sv (on_sched f k) = sv k" "me (on_sched f k) = current (f (ksched k))"
  by (auto simp: on_sched_def pn_def wt_def ps_def fw_def sv_def me_def fun_eq_iff)

lemma sized_on_sched [view_simps]:
  "length (tasks (f (ksched k))) = length (tasks (ksched k)) \<Longrightarrow>
     current (f (ksched k)) = current (ksched k) \<Longrightarrow> sized (on_sched f k) = sized k"
  by (simp add: sized_def on_sched_def me_def)

lemma st_update_task [view_simps]:
  "st (on_sched (update_task s f) k) i =
     (if i = s then map_option (task_state \<circ> f) (task_at (ksched k) s) else st k i)"
  by (simp add: st_def on_sched_def task_at_update_task option.map_comp)

lemma st_set_task [view_simps]:
  "s < length (tasks (ksched k)) \<Longrightarrow>
     st (on_sched (set_task s t) k) i = (if i = s then map_option task_state t else st k i)"
  by (simp add: st_def on_sched_def task_at_set_task)

lemma st_mark_blocked [view_simps]:
  "st (mark_current_blocked k) i =
     (if i = me k \<and> st k i \<noteq> None then Some Blocked else st k i)"
  by (cases "task_at (ksched k) (me k)")
    (simp_all add: mark_current_blocked_def st_update_task me_def [symmetric] st_None, simp add: st_def)

lemma view_mark_blocked [view_simps]:
  "pn (mark_current_blocked k) = pn k" "wt (mark_current_blocked k) = wt k" "ps (mark_current_blocked k) = ps k"
  "fw (mark_current_blocked k) = fw k" "sv (mark_current_blocked k) = sv k"
  "me (mark_current_blocked k) = me k" "sized (mark_current_blocked k) = sized k"
  by (simp_all add: mark_current_blocked_def view_simps) (simp add: me_def)

lemma unblock_deferred_cases:
  assumes "unblock_deferred s k = (h, k')"
  obtains "k' = k" "\<not> h" "st k s \<noteq> Some Blocked"
  | t where "task_at (ksched k) s = Some t" "task_state t = Blocked"
      "k' = on_sched (set_task s (Some (t\<lparr>task_state := Runnable\<rparr>))) k"
proof (cases "task_at (ksched k) s")
  case None
  then show ?thesis using assms that(1) by (simp add: unblock_deferred_def st_def)
next
  case (Some t)
  show ?thesis
  proof (cases "task_state t = Blocked")
    case True
    with Some have "k' = on_sched (set_task s (Some (t\<lparr>task_state := Runnable\<rparr>))) k"
      using assms by (simp add: unblock_deferred_def)
    then show ?thesis by (rule that(2) [OF Some True])
  next
    case False
    then show ?thesis using assms Some that(1) by (simp add: unblock_deferred_def st_def)
  qed
qed

lemma unblock_deferred_view:
  assumes "unblock_deferred s k = (h, k')"
  shows "st k' i = (if i = s \<and> st k s = Some Blocked then Some Runnable else st k i)"
    "pn k' = pn k" "wt k' = wt k" "fw k' = fw k" "sv k' = sv k" "me k' = me k" "sized k' = sized k" "ps k' = ps k"
proof -
  show "st k' i = (if i = s \<and> st k s = Some Blocked then Some Runnable else st k i)"
    using assms
  proof (cases rule: unblock_deferred_cases)
    case (2 t)
    then show ?thesis
      using task_at_less [of "ksched k" s t] by (simp add: st_set_task) (simp add: st_def)
  qed simp
  show "pn k' = pn k" "wt k' = wt k" "fw k' = fw k" "sv k' = sv k" "me k' = me k" "sized k' = sized k" "ps k' = ps k"
    using assms by (cases rule: unblock_deferred_cases; simp add: view_simps; simp add: me_def)+
qed

lemma view_unblock_deferred [view_simps]:
  "st (snd (unblock_deferred s k)) i = (if i = s \<and> st k s = Some Blocked then Some Runnable else st k i)"
  "pn (snd (unblock_deferred s k)) = pn k" "wt (snd (unblock_deferred s k)) = wt k" "ps (snd (unblock_deferred s k)) = ps k"
  "fw (snd (unblock_deferred s k)) = fw k" "sv (snd (unblock_deferred s k)) = sv k"
  "me (snd (unblock_deferred s k)) = me k" "sized (snd (unblock_deferred s k)) = sized k"
  using unblock_deferred_view [OF prod.collapse [symmetric], of s k] by blast+

lemma view_post [view_simps]:
  "pn (post t bits k) = pn k" "fw (post t bits k) = fw k" "sv (post t bits k) = sv k"
  "me (post t bits k) = me k" "wt (post t bits k) = wt k"
  "st (post t bits k) i =
     (if i = t \<and> t < MAX_TASKS \<and> wt k t AND bits \<noteq> 0 \<and> st k t = Some Blocked then Some Runnable else st k i)"
  by (auto simp: post_def Let_def request_reschedule_def view_simps fun_eq_iff)
    (simp_all add: wt_def)

lemma sized_post [view_simps]:
  assumes "sized k"
  shows "sized (post t bits k)"
proof -
  have "notify_ok (knotify k\<lparr>posted := p[t := b]\<rparr>)" if "length p = MAX_TASKS" for p b
    using sizedD(4) [OF assms] that by (simp add: notify_ok_def)
  then show ?thesis
    using assms sizedD(10) [OF assms]
    by (simp add: post_def Let_def request_reschedule_def view_simps)
qed

section \<open>Reaping and switching\<close>

text \<open>Reaping changes memory and turns zombies, other than the current task, into dead tasks.\<close>

definition calm :: "kernel \<Rightarrow> kernel \<Rightarrow> bool" where
  "calm k k' \<longleftrightarrow> (\<exists>m s. k' = k\<lparr>kmach := m, ksched := s\<rparr> \<and> current s = current (ksched k) \<and>
     length (tasks s) = length (tasks (ksched k)) \<and>
     (\<forall>i. task_at s i = task_at (ksched k) i \<or>
       (\<exists>t. task_at (ksched k) i = Some t \<and> task_state t = Zombie \<and> i \<noteq> me k \<and>
          task_at s i = Some (t\<lparr>task_state := Dead, task_space := None\<rparr>))))"

lemma calm_refl [simp]: "calm k k"
  unfolding calm_def by (intro exI [of _ "kmach k"] exI [of _ "ksched k"]) simp

lemma calm_trans:
  assumes "calm k k1" "calm k1 k2"
  shows "calm k k2"
proof -
  obtain m1 s1 where 1: "k1 = k\<lparr>kmach := m1, ksched := s1\<rparr>" "current s1 = current (ksched k)"
    "length (tasks s1) = length (tasks (ksched k))"
    "\<forall>i. task_at s1 i = task_at (ksched k) i \<or>
       (\<exists>t. task_at (ksched k) i = Some t \<and> task_state t = Zombie \<and> i \<noteq> me k \<and>
          task_at s1 i = Some (t\<lparr>task_state := Dead, task_space := None\<rparr>))"
    using assms(1) unfolding calm_def by blast
  obtain m2 s2 where 2: "k2 = k1\<lparr>kmach := m2, ksched := s2\<rparr>" "current s2 = current (ksched k1)"
    "length (tasks s2) = length (tasks (ksched k1))"
    "\<forall>i. task_at s2 i = task_at (ksched k1) i \<or>
       (\<exists>t. task_at (ksched k1) i = Some t \<and> task_state t = Zombie \<and> i \<noteq> me k1 \<and>
          task_at s2 i = Some (t\<lparr>task_state := Dead, task_space := None\<rparr>))"
    using assms(2) unfolding calm_def by blast
  have "task_at s2 i = task_at (ksched k) i \<or>
       (\<exists>t. task_at (ksched k) i = Some t \<and> task_state t = Zombie \<and> i \<noteq> me k \<and>
          task_at s2 i = Some (t\<lparr>task_state := Dead, task_space := None\<rparr>))" for i
    using 1(4) [rule_format, of i]
  proof
    assume "task_at s1 i = task_at (ksched k) i"
    then show ?thesis using 2(4) [rule_format, of i] 1(1,2) by (simp add: me_def)
  next
    assume "\<exists>t. task_at (ksched k) i = Some t \<and> task_state t = Zombie \<and> i \<noteq> me k \<and>
          task_at s1 i = Some (t\<lparr>task_state := Dead, task_space := None\<rparr>)"
    then show ?thesis using 2(4) [rule_format, of i] 1(1,2) by (auto simp: me_def)
  qed
  then show ?thesis
    unfolding calm_def using 1(1,2,3) 2(1,2,3) by (intro exI [of _ m2] exI [of _ s2]) simp
qed

lemma reap_zombies_calm: "reap_zombies k = Some k' \<Longrightarrow> calm k k'"
proof (induction k arbitrary: k' rule: reap_zombies.induct)
  case (1 k)
  show ?case
  proof (cases "zombie_slot (ksched k)")
    case None
    then show ?thesis using "1.prems" by (simp add: reap_zombies.simps)
  next
    case (Some slot)
    then have slot: "slot < length (tasks (ksched k))"
      and z: "case tasks (ksched k) ! slot of None \<Rightarrow> False | Some t \<Rightarrow> task_state t = Zombie"
      by (auto simp: zombie_slot_def position_Some)
    show ?thesis
    proof (cases "slot = current (ksched k)")
      case True
      then show ?thesis using "1.prems" Some by (simp add: reap_zombies.simps)
    next
      case False
      obtain t where t: "tasks (ksched k) ! slot = Some t" "task_state t = Zombie"
        using z by (auto split: option.splits)
      define s where "s = set_task slot (Some (t\<lparr>task_state := Dead, task_space := None\<rparr>)) (ksched k)"
      have "do { m \<leftarrow> salvage t (kmach k); reap_zombies (k\<lparr>ksched := s, kmach := m\<rparr>) } = Some k'"
        using 1(2) Some False t by (simp add: reap_zombies.simps [of k] s_def Let_def)
      then obtain m where m: "salvage t (kmach k) = Some m"
        and rest: "reap_zombies (k\<lparr>ksched := s, kmach := m\<rparr>) = Some k'"
        by (auto simp: bind_eq_Some_conv)
      have at: "task_at (ksched k) slot = Some t" using slot t by (simp add: task_at_def)
      have "calm k (k\<lparr>ksched := s, kmach := m\<rparr>)"
        unfolding calm_def
      proof (intro exI conjI allI)
        show "k\<lparr>ksched := s, kmach := m\<rparr> = k\<lparr>kmach := m, ksched := s\<rparr>" by simp
        fix i
        show "task_at s i = task_at (ksched k) i \<or>
          (\<exists>t. task_at (ksched k) i = Some t \<and> task_state t = Zombie \<and> i \<noteq> me k \<and>
             task_at s i = Some (t\<lparr>task_state := Dead, task_space := None\<rparr>))"
        proof (cases "i = slot")
          case True
          then show ?thesis using at t(2) slot False by (simp add: s_def task_at_set_task me_def)
        next
          case False
          then show ?thesis by (simp add: s_def task_at_set_task)
        qed
      qed (simp_all add: s_def)
      moreover have "calm (k\<lparr>ksched := s, kmach := m\<rparr>) k'"
        using 1(1) [OF Some False t(1) s_def m rest] by blast
      ultimately show ?thesis by (rule calm_trans)
    qed
  qed
qed

lemma calm_view:
  assumes "calm k k'"
  shows "pn k' = pn k" "wt k' = wt k" "fw k' = fw k" "sv k' = sv k" "me k' = me k"
    "sized k' = sized k" "st k' i = st k i \<or> (st k i = Some Zombie \<and> st k' i = Some Dead \<and> i \<noteq> me k)"
    "ktable k' = ktable k" "knotify k' = knotify k" "kregs k' = kregs k" "kempty k' = kempty k"
    "st k i \<noteq> Some Zombie \<Longrightarrow> task_at (ksched k') i = task_at (ksched k) i"
    "i = me k \<Longrightarrow> task_at (ksched k') i = task_at (ksched k) i" "ps k' = ps k"
proof -
  obtain m s where c: "k' = k\<lparr>kmach := m, ksched := s\<rparr>" "current s = current (ksched k)"
    "length (tasks s) = length (tasks (ksched k))"
    "\<forall>i. task_at s i = task_at (ksched k) i \<or>
       (\<exists>t. task_at (ksched k) i = Some t \<and> task_state t = Zombie \<and> i \<noteq> me k \<and>
          task_at s i = Some (t\<lparr>task_state := Dead, task_space := None\<rparr>))"
    using assms unfolding calm_def by blast
  show "pn k' = pn k" "wt k' = wt k" "fw k' = fw k" "sv k' = sv k" "me k' = me k" "sized k' = sized k"
    "ktable k' = ktable k" "knotify k' = knotify k" "kregs k' = kregs k" "kempty k' = kempty k"
    "ps k' = ps k"
    using c(1,2,3) by (auto simp: pn_def wt_def ps_def fw_def sv_def me_def sized_def)
  show "st k' i = st k i \<or> (st k i = Some Zombie \<and> st k' i = Some Dead \<and> i \<noteq> me k)"
    "st k i \<noteq> Some Zombie \<Longrightarrow> task_at (ksched k') i = task_at (ksched k) i"
    "i = me k \<Longrightarrow> task_at (ksched k') i = task_at (ksched k) i"
    using c(4) [rule_format, of i] c(1) by (auto simp: st_def)
qed

lemma runnable_st: "runnable (ksched k) i \<longleftrightarrow> st k i = Some Runnable"
  by (auto simp: runnable_def runnable_priority_def st_def split: option.splits)

text \<open>
  Switching: after reaping, either nothing else happens (there is no current task, or the current
  one is the choice), or the CPU goes to the chosen task, whose address space is in force.
\<close>

lemma switch_to_next_cases:
  assumes "switch_to_next r kont k = Some (away, k')"
  obtains "\<not> away" "calm k k'" "st k (me k) = None \<or> next_runnable (ksched k') = Some (me k)"
  | k1 nxt t root where "away" "calm k k1" "st k (me k) \<noteq> None" "next_runnable (ksched k1) = Some nxt"
      "nxt \<noteq> me k" "task_at (ksched k1) nxt = Some t"
      "(case task_space t of Some space \<Rightarrow> Some (space_root space) | None \<Rightarrow> empty_space_root k1) = Some root"
      "k' = k1\<lparr>ksched := (ksched k1)\<lparr>current := nxt\<rparr>, klog := note_switch (me k) nxt r (klog k1),
         kregs := activate_root (kregs k1) root, ksaved := (ksaved k1)[me k := kont]\<rparr>"
proof -
  obtain k1 where k1: "reap_zombies k = Some k1"
    using assms by (auto simp: switch_to_next_def bind_eq_Some_conv)
  have calm: "calm k k1" using k1 by (rule reap_zombies_calm)
  have cur: "current_task k1 = None \<longleftrightarrow> st k (me k) = None" "current (ksched k1) = me k"
    using calm_view(13) [OF calm, of "me k"] calm_view(5) [OF calm]
    by (simp_all add: current_task_def st_None) (simp_all add: me_def)
  show ?thesis
  proof (cases "current_task k1 = None")
    case True
    then have "\<not> away" "k' = k1"
      using assms k1 by (simp_all add: switch_to_next_def)
    with True cur calm show ?thesis by (intro that(1)) simp_all
  next
    case False
    then obtain nxt where nxt: "next_runnable (ksched k1) = Some nxt"
      using assms k1 by (auto simp: switch_to_next_def bind_eq_Some_conv Let_def)
    show ?thesis
    proof (cases "nxt = current (ksched k1)")
      case True
      then have "\<not> away" "k' = k1"
        using assms k1 False nxt by (simp_all add: switch_to_next_def Let_def)
      with True cur calm nxt show ?thesis by (intro that(1)) simp_all
    next
      case away: False
      obtain t root where t: "task_at (ksched k1) nxt = Some t"
        "(case task_space t of Some space \<Rightarrow> Some (space_root space) | None \<Rightarrow> empty_space_root k1) = Some root"
        "away" "k' = k1\<lparr>ksched := (ksched k1)\<lparr>current := nxt\<rparr>, klog := note_switch (me k) nxt r (klog k1),
         kregs := activate_root (kregs k1) root, ksaved := (ksaved k1)[me k := kont]\<rparr>"
        using assms k1 False nxt away cur(2)
        by (auto simp: switch_to_next_def Let_def bind_eq_Some_conv empty_space_root_def cong: option.case_cong)
      with that(2) calm cur False nxt away show ?thesis by metis
    qed
  qed
qed

end
