(* ===== verification/Scenario.thy ===== *)
theory Scenario
  imports Views
begin

text \<open>
  A system of three tasks on which the properties are evaluated: the kernel thread in slot 0, a
  client in slot 1 and a server in slot 2, both with the address space of \<open>demo_phys\<close>. The
  client lends its first page, for reading. What the two wait for, whether they can run and which
  of them has the CPU are parameters.
\<close>

definition scene_task :: "string \<Rightarrow> address_space option \<Rightarrow> priority \<Rightarrow> task_state \<Rightarrow> task" where
  "scene_task nm space p s = \<lparr>task_name = nm, task_space = space, task_sp = 0, task_stack = Frame 0x40000000,
     owns_stack = False, task_priority = p, task_state = s, task_exit = None, task_fault = None,
     task_image = None\<rparr>"

definition scene_frame :: "u64 list \<Rightarrow> u64 \<Rightarrow> trap_frame" where
  "scene_frame args num = \<lparr>tf_x = args @ num # replicate 22 0, tf_elr = 0x400000, tf_spsr = 0,
     tf_esr = push_bit 26 0x15, tf_far = 0\<rparr>"

definition idle_frame :: trap_frame where
  "idle_frame = scene_frame [0, 0, 0, 0, 0, 0, 0, 0] 0"

definition scene_space :: "address_space option" where
  "scene_space = Some (AddressSpace (Frame 0x1000))"

definition page_lease :: lease where
  "page_lease = \<lparr>lease_base = 0x400000, lease_len = 0x1000, lease_attrs = LEASE_READ\<rparr>"

definition scene ::
  "nat \<Rightarrow> task_state \<Rightarrow> task_state \<Rightarrow> pending option \<Rightarrow> pending option \<Rightarrow> kont \<Rightarrow> kont \<Rightarrow> kernel" where
  "scene cur s1 s2 p1 p2 k1 k2 =
     \<lparr>kmach = \<lparr>mphys = demo_phys, mframes = frames_boot\<rparr>,
      kregs = \<lparr>ttbr0 = 0x1000, ttbr1 = 0, tcr = 0, sctlr = 0, mair = 0, vbar = 0\<rparr>,
      ksched = \<lparr>tasks = [Some (scene_task ''kernel'' None IDLE Runnable),
          Some (scene_task ''client'' scene_space NORMAL s1), Some (scene_task ''server'' scene_space NORMAL s2),
          None, None, None, None, None], current = cur\<rparr>,
      klog = switch_log_new, kempty = Some (AddressSpace (Frame 0x5000)), kresched = False,
      ktable = \<lparr>pending = [None, p1, p2, None, None, None, None, None],
          outcomes = [outcome_default, outcome_default, outcome_default, outcome_default,
            outcome_default, outcome_default, outcome_default, outcome_default],
          leases = (let none = [NO_LEASE, NO_LEASE, NO_LEASE, NO_LEASE] in
            [none, [page_lease, NO_LEASE, NO_LEASE, NO_LEASE], none, none, none, none, none, none]),
          lease_count = [0, 1, 0, 0, 0, 0, 0, 0]\<rparr>,
      knotify = notify_new, ksupervisor = Some 2,
      kwaiters = [False, False, False, False, False, False, False, False],
      ksaved = [K_kernel, k1, k2, K_kernel, K_kernel, K_kernel, K_kernel, K_kernel],
      ktraps = [idle_frame, idle_frame, idle_frame, idle_frame, idle_frame, idle_frame, idle_frame, idle_frame],
      kgic = \<lparr>gicd = 0, gicc = 0, gicd_typer = 0, gic_trace = []\<rparr>,
      ktimer = \<lparr>cntfrq = 1000, cntpct = 0, cntp_cval = 0, cntp_ctl = 0, ticks = 0\<rparr>,
      kconsole = [], kprivileged = 0, kexpecting = False, kprobe = 0\<rparr>"

lemma replicate_MAX_TASKS: "replicate MAX_TASKS x = [x, x, x, x, x, x, x, x]"
  by (simp add: MAX_TASKS_def numeral_eq_Suc)

lemma below_MAX_TASKS:
  "i < MAX_TASKS \<longleftrightarrow> i = 0 \<or> i = 1 \<or> i = 2 \<or> i = 3 \<or> i = 4 \<or> i = 5 \<or> i = 6 \<or> i = 7"
  by (auto simp: MAX_TASKS_def)

lemma upt_MAX_TASKS: "[0..<MAX_TASKS] = [0, 1, 2, 3, 4, 5, 6, 7]"
  by (simp add: MAX_TASKS_def upt_rec)

lemmas scene_simps = scene_def scene_task_def scene_space_def me_def st_def pn_def wt_def ps_def fw_def sv_def
  task_at_def space_root_of_def notify_new_def replicate_MAX_TASKS

lemma scene_ok:
  assumes "cur < MAX_TASKS"
  shows "sized (scene cur s1 s2 p1 p2 k1 k2)"
  using assms by (auto simp: sized_def scene_def me_def table_ok_def notify_ok_def notify_new_def
    MAX_TASKS_def MAX_LEASES_def Let_def)

text \<open>The evaluation of the scheduler.\<close>

lemma upt_slots: "[Suc 0..<9] = [1, 2, 3, 4, 5, 6, 7, 8]" "[0..<8] = [0, 1, 2, 3, 4, 5, 6, 7]"
  by (simp_all add: upt_rec)

lemmas switch_simps = MAX_TASKS_def upt_slots reap_zombies.simps and_then_def switch_to_next_def zombie_slot_def position_def
  current_task_def next_runnable_def runnable_priority_def keep_best_def outranks_def IDLE_def
  NORMAL_def note_switch_def yield_now_def park_def unblock_def unblock_deferred_def
  mark_current_blocked_def on_sched_def update_task_def set_task_def

text \<open>The evaluation of a system call.\<close>

lemmas trap_simps = handle_exception_def is_irq_def my_frame_def set_my_frame_def scene_frame_def
  exception_class_def EC_SVC64_def dispatch_def SYS_EXIT_def SYS_WRITE_def SYS_YIELD_def SYS_GETPID_def
  SYS_SEND_def SYS_RECV_def SYS_REPLY_def SYS_BORROW_READ_def SYS_BORROW_WRITE_def finish_def Let_def

text \<open>The evaluation of message passing, where no memory is touched.\<close>

lemmas ipc_simps = MAX_MESSAGE_def is_alive_def user_readable_def user_writable_def user_range_def
  collect_leases_def send_def send_queue_def send_park_def on_table_def set_pending_def set_leases_def
  set_outcome_def send_handoff_def deliver_def reply_def finish_sender_def deliver_outcome_def

end
