(* ===== verification/Invariant.thy ===== *)
theory Invariant
  imports Scenario
begin

text \<open>
  The invariant that ties the scheduler, the message table, the notifications and the fault
  waiters together, and its preservation by every handler.

  \<^item> A task that is not running is \<open>parked\<close> consistently with where it will continue: only a task
    suspended in \<open>recv\<close> is recorded as receiving or armed for notifications, only one suspended
    in \<open>send\<close> as sending, only one in \<open>wait_for_fault\<close> as a fault waiter; a task suspended
    anywhere else waits for nothing and is not blocked; one in its closing loop has stopped.
  \<^item> \<open>corresponds\<close>: a task recorded as waiting on another is blocked, and the other is alive.
    This is what makes a lease safe: its owner cannot run while it is lent.
  \<^item> A task blocked in \<open>recv\<close> has none of the notification bits it waits for posted: no
    notification is lost between looking for one and going to sleep.
  \<^item> \<open>home\<close>: task 0 can always run, so there is always something to run.

  \<open>inv\<close> is about every slot but the current one; \<open>thread_inv\<close> adds that the current task runs
  its own code, \<open>switched_inv\<close> that it has just been switched to. A handler that is about to
  give up the CPU has to establish \<open>ready\<close>.
\<close>

section \<open>The invariant\<close>

definition live :: "task_state option \<Rightarrow> bool" where
  "live s \<longleftrightarrow> s = Some Runnable \<or> s = Some Blocked"

definition target_of :: "pending option \<Rightarrow> nat option" where
  "target_of p = (case p of
       Some (SendWait m) \<Rightarrow> Some (msg_target m) | Some (ReplyWait m) \<Rightarrow> Some (msg_target m) | _ \<Rightarrow> None)"

definition receiving :: "pending option \<Rightarrow> bool" where
  "receiving p \<longleftrightarrow> (case p of Some (RecvWait _ _) \<Rightarrow> True | _ \<Rightarrow> False)"

definition quiet :: "kernel \<Rightarrow> nat \<Rightarrow> bool" where
  "quiet k i \<longleftrightarrow> pn k i = None \<and> wt k i = 0 \<and> \<not> fw k i"

definition parked :: "kont \<Rightarrow> kernel \<Rightarrow> nat \<Rightarrow> bool" where
  "parked kont k i \<longleftrightarrow> (case kont of
       K_recv _ _ _ \<Rightarrow> i \<noteq> 0 \<and> live (st k i) \<and> \<not> fw k i \<and> target_of (pn k i) = None \<and>
         (st k i = Some Blocked \<longrightarrow> wt k i AND ps k i = 0)
     | K_recv_refused _ _ _ \<Rightarrow> i \<noteq> 0 \<and> quiet k i \<and> st k i \<noteq> Some Blocked
     | K_fault_wait \<Rightarrow> i \<noteq> 0 \<and> live (st k i) \<and> wt k i = 0 \<and> pn k i = None
     | K_send \<Rightarrow> live (st k i) \<and> wt k i = 0 \<and> \<not> fw k i \<and> \<not> receiving (pn k i)
     | K_send_woke \<Rightarrow> live (st k i) \<and> wt k i = 0 \<and> \<not> fw k i \<and> \<not> receiving (pn k i)
     | K_dead \<Rightarrow> quiet k i \<and> \<not> live (st k i)
     | K_kernel \<Rightarrow> quiet k i
     | _ \<Rightarrow> quiet k i \<and> st k i \<noteq> Some Blocked)"

definition corresponds :: "nat set \<Rightarrow> kernel \<Rightarrow> nat \<Rightarrow> bool" where
  "corresponds going k i \<longleftrightarrow> (\<forall>t. target_of (pn k i) = Some t \<longrightarrow>
     st k i = Some Blocked \<and> t < MAX_TASKS \<and> t \<noteq> i \<and> (live (st k t) \<or> t \<in> going))"

definition home :: "kernel \<Rightarrow> bool" where
  "home k \<longleftrightarrow> st k 0 = Some Runnable \<and> space_root_of 0 k = None"

text \<open>The tasks in \<open>going\<close> are on their way out, and have yet to be abandoned.\<close>

definition inv_but :: "nat set \<Rightarrow> kernel \<Rightarrow> bool" where
  "inv_but going k \<longleftrightarrow> sized k \<and> home k \<and> (\<forall>i < MAX_TASKS. corresponds going k i) \<and>
     (\<forall>i < MAX_TASKS. i \<noteq> me k \<longrightarrow> parked (sv k i) k i)"

abbreviation inv :: "kernel \<Rightarrow> bool" where "inv \<equiv> inv_but {}"

definition ready :: "kont \<Rightarrow> kernel \<Rightarrow> bool" where
  "ready kont k \<longleftrightarrow> inv k \<and> parked kont k (me k) \<and> st k (me k) \<noteq> None"

definition thread_inv :: "kernel \<Rightarrow> bool" where
  "thread_inv k \<longleftrightarrow> inv k \<and> quiet k (me k) \<and> st k (me k) = Some Runnable"

definition switched_inv :: "kernel \<Rightarrow> bool" where
  "switched_inv k \<longleftrightarrow> inv k \<and> parked (sv k (me k)) k (me k) \<and> st k (me k) = Some Runnable"

text \<open>What a handler leaves behind: the current task goes on, or another continues.\<close>

definition result_inv :: "('a option \<times> kernel) option \<Rightarrow> bool" where
  "result_inv r \<longleftrightarrow> (case r of
       None \<Rightarrow> True
     | Some (None, k) \<Rightarrow> switched_inv k
     | Some (Some _, k) \<Rightarrow> thread_inv k)"

lemma invD:
  assumes "inv_but D k"
  shows "sized k" "home k" "\<And>i. i < MAX_TASKS \<Longrightarrow> corresponds D k i"
    "\<And>i. i < MAX_TASKS \<Longrightarrow> i \<noteq> me k \<Longrightarrow> parked (sv k i) k i"
  using assms by (auto simp: inv_but_def)

text \<open>The invariant reads only views.\<close>

lemma parked_cong:
  "live (st k' i) = live (st k i) \<Longrightarrow> (st k' i = Some Blocked) = (st k i = Some Blocked) \<Longrightarrow>
     pn k' i = pn k i \<Longrightarrow> wt k' i = wt k i \<Longrightarrow> fw k' i = fw k i \<Longrightarrow> ps k' i = ps k i \<Longrightarrow>
     parked kont k' i = parked kont k i"
  by (cases kont) (simp_all add: parked_def quiet_def)

lemma corresponds_cong:
  "pn k' i = pn k i \<Longrightarrow> (st k' i = Some Blocked) = (st k i = Some Blocked) \<Longrightarrow>
     (\<And>t. t < MAX_TASKS \<Longrightarrow> live (st k' t) = live (st k t)) \<Longrightarrow> corresponds D k' i = corresponds D k i"
  by (auto simp: corresponds_def)

lemma home_cong: "st k' 0 = st k 0 \<Longrightarrow> space_root_of 0 k' = space_root_of 0 k \<Longrightarrow> home k' = home k"
  by (simp add: home_def)

text \<open>Operations that change nothing a view or the task table shows.\<close>

definition same_views :: "kernel \<Rightarrow> kernel \<Rightarrow> bool" where
  "same_views k k' \<longleftrightarrow> ksched k' = ksched k \<and> pending (ktable k') = pending (ktable k) \<and>
     wanted (knotify k') = wanted (knotify k) \<and> posted (knotify k') = posted (knotify k) \<and>
     kwaiters k' = kwaiters k \<and> ksaved k' = ksaved k \<and>
     (sized k \<longrightarrow> sized k')"

lemma same_views_inv:
  assumes "same_views k k'"
  shows "inv_but D k \<Longrightarrow> inv_but D k'" "ready kont k \<Longrightarrow> ready kont k'" "thread_inv k \<Longrightarrow> thread_inv k'"
    "switched_inv k \<Longrightarrow> switched_inv k'"
proof -
  have v: "st k' = st k" "pn k' = pn k" "wt k' = wt k" "fw k' = fw k" "sv k' = sv k" "me k' = me k"
    "ps k' = ps k"
    using assms by (auto simp: same_views_def st_def pn_def wt_def ps_def fw_def sv_def me_def fun_eq_iff)
  have h: "home k' = home k"
    using assms v by (simp add: home_def space_root_of_def same_views_def)
  have p: "parked kont k' i = parked kont k i" "corresponds D k' i = corresponds D k i" "quiet k' i = quiet k i"
    for kont i D
    unfolding parked_def corresponds_def quiet_def v by (rule refl)+
  show i: "inv_but D k \<Longrightarrow> inv_but D k'" for D
    using v h p assms by (simp add: inv_but_def same_views_def)
  show "ready kont k \<Longrightarrow> ready kont k'" "thread_inv k \<Longrightarrow> thread_inv k'" "switched_inv k \<Longrightarrow> switched_inv k'"
    using v p i by (simp_all add: ready_def thread_inv_def switched_inv_def)
qed

section \<open>Switching\<close>

lemma task_at_current: "task_at (s\<lparr>current := n\<rparr>) i = task_at s i"
  by (simp add: task_at_def)

lemma calm_inv:
  assumes "calm k k'"
  shows "inv_but D k \<Longrightarrow> inv_but D k'" "ready kont k \<Longrightarrow> ready kont k'" "thread_inv k \<Longrightarrow> thread_inv k'"
proof -
  note v = calm_view [OF assms]
  have l: "live (st k' i) = live (st k i)" "(st k' i = Some Blocked) = (st k i = Some Blocked)"
    "st k' (me k) = st k (me k)" for i
    using v(7) [of i] v(7) [of "me k"] by (auto simp: live_def)
  have p: "parked kont k' i = parked kont k i" "corresponds D k' i = corresponds D k i" "quiet k' i = quiet k i"
    for kont i D
    by (rule parked_cong corresponds_cong, simp_all only: l v(1-4,14))+ (simp only: quiet_def v(1-4))
  have h: "home k \<Longrightarrow> home k'"
    using v(7,12) [of 0] by (auto simp: home_def space_root_of_def)
  show i: "inv_but D k \<Longrightarrow> inv_but D k'" for D
    using v h p by (simp add: inv_but_def)
  show "ready kont k \<Longrightarrow> ready kont k'" "thread_inv k \<Longrightarrow> thread_inv k'"
    using v p l i by (simp_all add: ready_def thread_inv_def)
qed

text \<open>
  Giving up the CPU: if the current task may be suspended at \<open>kont\<close>, the next one is found
  consistently parked. If nothing was switched, only memory changed.
\<close>

lemma switch_inv:
  assumes "ready kont k" "switch_to_next r kont k = Some (away, k')"
  shows "away \<Longrightarrow> switched_inv k'" "\<not> away \<Longrightarrow> calm k k' \<and> ready kont k' \<and> st k' (me k') = Some Runnable"
proof -
  have "away \<and> switched_inv k' \<or> \<not> away \<and> calm k k' \<and> ready kont k' \<and> st k' (me k') = Some Runnable"
    using assms(2)
  proof (cases rule: switch_to_next_cases)
    case 1
    note inv = calm_inv(2) [OF 1(2) assms(1)]
    then have sz: "length (tasks (ksched k')) = MAX_TASKS" "current (ksched k') < MAX_TASKS"
      "me k' < MAX_TASKS" and h: "home k'"
      by (simp_all add: ready_def inv_but_def sized_def me_def)
    have "st k' (me k') = Some Runnable"
    proof -
      have "next_runnable (ksched k') = Some (me k')"
        using 1(3) calm_view(5) [OF 1(2)] assms(1) by (auto simp: ready_def)
      from next_runnable_Some(1) [OF this sz(2)] show ?thesis by (simp only: runnable_st)
    qed
    with 1 inv show ?thesis by simp
  next
    case (2 k1 nxt t root)
    have i1: "ready kont k1" using 2 assms(1) calm_inv(2) by blast
    then have sz: "length (tasks (ksched k1)) = MAX_TASKS" "current (ksched k1) < MAX_TASKS"
      "length (ksaved k1) = MAX_TASKS"
      by (simp_all add: ready_def inv_but_def sized_def me_def)
    have run: "st k1 nxt = Some Runnable" "nxt < MAX_TASKS"
      using next_runnable_Some(1,2) [OF 2(4) sz(2)] by (simp_all only: runnable_st)
    have me1: "me k1 = me k" using calm_view(5) [OF 2(2)] .
    have v: "st k' = st k1" "pn k' = pn k1" "wt k' = wt k1" "fw k' = fw k1" "me k' = nxt" "ps k' = ps k1"
      using 2(8) by (auto simp: st_def pn_def wt_def ps_def fw_def me_def task_at_def fun_eq_iff)
    have s: "sv k' i = (if i = me k1 then kont else sv k1 i)" if "i < MAX_TASKS" for i
      using 2(8) that sz me1 by (auto simp: sv_def nth_list_update)
    have "sized k'" using i1 run(2) 2(8) by (simp add: ready_def inv_but_def sized_def me_def)
    moreover have "space_root_of 0 k' = space_root_of 0 k1"
      using 2(8) by (simp add: space_root_of_def task_at_current)
    then have "home k'"
      using i1 v by (simp add: ready_def inv_but_def home_def)
    moreover have p: "parked kt k' i = parked kt k1 i" "corresponds D k' i = corresponds D k1 i" for kt i D
      unfolding parked_def corresponds_def quiet_def v by (rule refl)+
    moreover have "parked (sv k' i) k' i" if "i < MAX_TASKS" for i
      using i1 that s [OF that] p by (auto simp: ready_def inv_but_def)
    ultimately have "switched_inv k'"
      using i1 v run by (simp add: switched_inv_def ready_def inv_but_def)
    with 2(1) show ?thesis by blast
  qed
  then show "away \<Longrightarrow> switched_inv k'"
    "\<not> away \<Longrightarrow> calm k k' \<and> ready kont k' \<and> st k' (me k') = Some Runnable" by blast+
qed

section \<open>Changing one slot\<close>

text \<open>
  An operation that changes the view of slot \<open>s\<close> only keeps the invariant if the slot still
  corresponds and is still parked consistently, and nobody waiting on it loses it.
\<close>

lemma inv_slot:
  assumes "inv_but D k" "sized k'" "home k'" "me k' = me k" "sv k' = sv k"
    and others: "\<And>i. i < MAX_TASKS \<Longrightarrow> i \<noteq> s \<Longrightarrow>
      st k' i = st k i \<and> pn k' i = pn k i \<and> wt k' i = wt k i \<and> fw k' i = fw k i \<and> ps k' i = ps k i"
    and kept: "live (st k s) \<Longrightarrow> live (st k' s) \<or> s \<in> E" and DE: "D \<subseteq> E"
    and here: "s < MAX_TASKS \<Longrightarrow> corresponds E k' s" "s < MAX_TASKS \<Longrightarrow> s \<noteq> me k \<Longrightarrow> parked (sv k s) k' s"
  shows "inv_but E k'"
  unfolding inv_but_def
proof (intro conjI allI impI)
  fix i assume i: "i < MAX_TASKS"
  show "corresponds E k' i"
  proof (cases "i = s")
    case False
    have "corresponds D k i" using invD(3) [OF assms(1) i] .
    with others [OF i False] kept DE show ?thesis
      unfolding corresponds_def by (metis others subsetD)
  qed (use here i in simp)
  assume "i \<noteq> me k'"
  then show "parked (sv k' i) k' i"
  proof (cases "i = s")
    case False
    have "parked (sv k i) k' i = parked (sv k i) k i"
      using others [OF i False] by (intro parked_cong) simp_all
    then show ?thesis using invD(4) [OF assms(1) i] \<open>i \<noteq> me k'\<close> assms(4,5) by simp
  qed (use here i assms(4,5) in simp)
qed (use assms in simp_all)

lemma corresponds_None: "target_of (pn k i) = None \<Longrightarrow> corresponds D k i"
  by (simp add: corresponds_def)

lemma home_set_state:
  assumes "home k" "s \<noteq> 0"
  shows "home (on_sched (set_task s t) k)" "home (on_sched (update_task s f) k)"
  using assms by (auto simp: home_def st_def space_root_of_def on_sched_def task_at_set_task task_at_update_task)

lemma target_of_simps [simp]:
  "target_of None = None" "target_of (Some (RecvWait b c)) = None"
  "target_of (Some (SendWait m)) = Some (msg_target m)" "target_of (Some (ReplyWait m)) = Some (msg_target m)"
  by (simp_all add: target_of_def)

lemma receiving_simps [simp]:
  "\<not> receiving None" "receiving (Some (RecvWait b c))" "\<not> receiving (Some (SendWait m))"
  "\<not> receiving (Some (ReplyWait m))"
  by (simp_all add: receiving_def)

lemma live_simps [simp]:
  "live (Some Runnable)" "live (Some Blocked)" "\<not> live None" "\<not> live (Some Zombie)"
  "\<not> live (Some Dead)" "\<not> live (Some Faulted)"
  by (simp_all add: live_def)

lemma waits_on_iff: "waits_on t p \<longleftrightarrow> target_of p = Some t"
  by (auto simp: waits_on_def target_of_def split: option.splits pending.splits)

text \<open>Waking a task that is not waiting on another.\<close>

lemma parked_wake:
  assumes "parked kont k i" "st k i = Some Blocked" "st k' i = Some Runnable" "pn k' i = pn k i"
    "wt k' i = wt k i" "fw k' i = fw k i" "ps k' i = ps k i"
  shows "parked kont k' i"
  using assms by (cases kont) (simp_all add: parked_def quiet_def)

lemma unblock_deferred_inv:
  assumes "inv_but D k" "target_of (pn k s) = None"
  shows "inv_but D (snd (unblock_deferred s k))"
proof -
  let ?k = "snd (unblock_deferred s k)"
  have "home ?k"
  proof -
    have "unblock_deferred s k = (fst (unblock_deferred s k), ?k)" by simp
    then show ?thesis
    proof (cases rule: unblock_deferred_cases)
      case 1
      then show ?thesis using invD(2) [OF assms(1)] by simp
    next
      case (2 t)
      then have "s \<noteq> 0" using invD(2) [OF assms(1)] by (intro notI) (simp add: home_def st_def)
      then show ?thesis unfolding 2(3) by (intro home_set_state invD(2) [OF assms(1)])
    qed
  qed
  moreover have "parked (sv k s) ?k s" if "s < MAX_TASKS" "s \<noteq> me k"
    using invD(4) [OF assms(1) that] parked_wake [of _ k s ?k]
    by (cases "st k s = Some Blocked") (auto simp: view_simps intro: parked_cong [THEN iffD2])
  ultimately show ?thesis
    using assms invD(1) [OF assms(1)]
    by (intro inv_slot [OF assms(1)]) (auto simp: view_simps intro: corresponds_None)
qed

text \<open>Clearing what a task waits for.\<close>

lemma parked_clear:
  assumes "parked kont k i" "st k' i = st k i" "pn k' i = None" "wt k' i = wt k i" "fw k' i = fw k i"
    "ps k' i = ps k i"
  shows "parked kont k' i"
  using assms by (cases kont) (simp_all add: parked_def quiet_def)

lemma home_ksched: "ksched k' = ksched k \<Longrightarrow> home k' = home k"
  by (simp add: home_def st_def space_root_of_def)

lemma home_on_table [simp]: "home (on_table f k) = home k"
  by (rule home_ksched) (simp add: on_table_def)

lemma clear_inv:
  assumes "inv_but D k" "table_ok (f (ktable k))"
    and "\<And>i. i < MAX_TASKS \<Longrightarrow> pending (f (ktable k)) ! i = (if i = s then None else pn k i)"
  shows "inv_but D (on_table f k)"
proof (rule inv_slot [OF assms(1), where s = s])
  show "parked (sv k s) (on_table f k) s" if "s < MAX_TASKS" "s \<noteq> me k"
    using invD(4) [OF assms(1) that] by (rule parked_clear) (use assms(3) that in \<open>simp_all add: view_simps\<close>)
qed (use assms invD [OF assms(1)] in \<open>auto simp: view_simps intro: corresponds_None\<close>)

lemma deliver_outcome_inv: "inv_but D k \<Longrightarrow> inv_but D (on_table (deliver_outcome s rc len) k)"
  using sizedD(3,8) [OF invD(1), of D k]
  by (intro clear_inv [where s = s]) (auto simp: view_simps pn_def)

lemma set_pending_None_inv: "inv_but D k \<Longrightarrow> inv_but D (on_table (set_pending s None) k)"
  using sizedD(3,8) [OF invD(1), of D k]
  by (intro clear_inv [where s = s]) (auto simp: view_simps pn_def)

section \<open>Waking with a handoff, and parking\<close>

lemma ready_but: "ready kont k \<Longrightarrow> inv k \<and> parked kont k (me k)"
  by (simp add: ready_def)

text \<open>What \<open>unblock\<close> leaves when the caller keeps the CPU.\<close>

lemma unblock_inv:
  assumes "ready kont k" "target_of (pn k s) = None" "s \<noteq> me k" "unblock kont s k = Some (away, k')"
  shows "away \<Longrightarrow> switched_inv k'"
    "\<not> away \<Longrightarrow> ready kont k' \<and> (st k (me k) = Some Runnable \<longrightarrow> st k' (me k') = Some Runnable)"
proof -
  obtain h k1 where u: "unblock_deferred s k = (h, k1)" by fastforce
  then have k1: "k1 = snd (unblock_deferred s k)" by simp
  have me1: "me k1 = me k" "st k1 (me k) = st k (me k)"
    using assms(3) by (simp_all add: k1 view_simps)
  have "inv k1" unfolding k1 using assms(1,2) by (intro unblock_deferred_inv) (auto simp: ready_def)
  moreover have "parked kont k1 (me k1) = parked kont k (me k)"
    unfolding me1(1) using assms(3) by (intro parked_cong) (simp_all add: k1 view_simps)
  ultimately have r: "ready kont k1" using assms(1) me1 by (simp add: ready_def)
  show "away \<Longrightarrow> switched_inv k'"
    "\<not> away \<Longrightarrow> ready kont k' \<and> (st k (me k) = Some Runnable \<longrightarrow> st k' (me k') = Some Runnable)"
    using assms(4) switch_inv [OF r, of Voluntary away k'] r me1
    by (auto simp: unblock_def u split: if_splits)
qed

text \<open>A sender that can run is no longer waiting.\<close>

lemma woken_sender:
  assumes "ready K_send k" "st k (me k) = Some Runnable"
  shows "thread_inv k"
proof -
  have m: "me k < MAX_TASKS" using assms(1) by (simp add: ready_def inv_but_def sized_def)
  have c: "corresponds {} k (me k)" using invD(3) [of "{}" k, OF _ m] assms(1) by (simp add: ready_def)
  have "target_of (pn k (me k)) = None"
    using c assms(2) by (cases "target_of (pn k (me k))") (auto simp: corresponds_def)
  moreover have "\<not> receiving (pn k (me k))" using assms(1) by (simp add: ready_def parked_def)
  ultimately have "pn k (me k) = None"
    by (cases "pn k (me k)") (auto simp: target_of_def receiving_def split: pending.splits)
  then show ?thesis using assms by (simp add: thread_inv_def ready_def parked_def quiet_def)
qed

lemma take_outcome_same:
  assumes "take_outcome s k = (r, k')"
  shows "same_views k k'"
proof -
  have k': "k' = on_table (set_outcome s outcome_default) k" using assms by (simp add: take_outcome_def)
  have "sized k'" if "sized k"
    unfolding k' using that sizedD(3) [OF that] by (intro sized_on_table) simp_all
  then show ?thesis by (simp add: same_views_def k' on_table_def set_outcome_def)
qed

lemma send_woken_inv: "thread_inv k \<Longrightarrow> result_inv (send_woken k)"
  using same_views_inv(3) [OF take_outcome_same]
  by (auto simp: send_woken_def result_inv_def split: prod.splits)

lemma and_then_inv:
  assumes "\<And>k'. r = Some (True, k') \<Longrightarrow> switched_inv k'" "\<And>k'. r = Some (False, k') \<Longrightarrow> result_inv (f k')"
  shows "result_inv (and_then r f)"
proof (cases r)
  case (Some p)
  then show ?thesis using assms by (cases p; cases "fst p") (auto simp: and_then_def result_inv_def)
qed (simp add: and_then_def result_inv_def)

lemma park_inv:
  assumes "ready kont k" "park kont k = Some (away, k')"
  shows "away \<Longrightarrow> switched_inv k'"
    "\<not> away \<Longrightarrow> ready kont k' \<and> (st k' (me k') = Some Runnable \<or> st k' (me k') = st k (me k) \<and> st k (me k) \<noteq> Some Blocked)"
proof -
  have b: "(case current_task k of None \<Rightarrow> False | Some t \<Rightarrow> task_state t = Blocked) \<longleftrightarrow> st k (me k) = Some Blocked"
    by (auto simp: current_task_def st_def me_def split: option.splits)
  show "away \<Longrightarrow> switched_inv k'"
    "\<not> away \<Longrightarrow> ready kont k' \<and> (st k' (me k') = Some Runnable \<or> st k' (me k') = st k (me k) \<and> st k (me k) \<noteq> Some Blocked)"
    using assms(2) switch_inv [OF assms(1), of Voluntary away k'] assms(1)
    by (auto simp: park_def b split: if_splits)
qed

lemma send_park_inv:
  assumes "ready K_send k"
  shows "result_inv (send_park k)"
  unfolding send_park_def
proof (rule and_then_inv)
  fix k' assume p: "park K_send k = Some (False, k')"
  have r: "ready K_send k'" using park_inv(2) [OF assms p] by simp
  have "live (st k (me k))" using assms by (simp add: ready_def parked_def)
  then have "st k' (me k') = Some Runnable" using park_inv(2) [OF assms p] by (auto simp: live_def)
  from send_woken_inv [OF woken_sender [OF r this]] show "result_inv (send_woken k')" .
qed (use park_inv(1) [OF assms] in blast)

lemma ready_send_woke: "ready K_send_woke k = ready K_send k"
  by (simp add: ready_def parked_def)

section \<open>Sending\<close>

lemma deliver_same:
  assumes "deliver s b l d db dc k = Some (r, k')"
  shows "same_views k k'" "k' = k \<or> (\<exists>p. k' = set_phys p k)"
proof -
  show "k' = k \<or> (\<exists>p. k' = set_phys p k)"
    using assms by (auto simp: deliver_def Let_def bind_eq_Some_conv split: if_splits option.splits)
  then show "same_views k k'"
    by (auto simp: same_views_def set_phys_def sized_def me_def)
qed

lemma same_views_view:
  assumes "same_views k k'"
  shows "st k' = st k" "pn k' = pn k" "wt k' = wt k" "fw k' = fw k" "sv k' = sv k" "me k' = me k"
  using assms by (auto simp: same_views_def st_def pn_def wt_def fw_def sv_def me_def fun_eq_iff)

text \<open>Recording that the current task now waits on another, and taking it off the run queue.\<close>

lemma ready_send:
  assumes "thread_inv k" "me k \<noteq> 0" "sized k'" "me k' = me k" "ksaved k' = ksaved k"
    and "\<And>i. st k' i = (if i = me k then Some Blocked else st k i)"
    and "\<And>i. i < MAX_TASKS \<Longrightarrow> pn k' i = (if i = me k then Some p else pn k i)"
    and "wt k' = wt k" "fw k' = fw k" "ps k' = ps k" "space_root_of 0 k' = space_root_of 0 k"
    and "target_of (Some p) = Some t" "t < MAX_TASKS" "t \<noteq> me k" "live (st k t)"
  shows "ready K_send k'"
proof -
  have k: "inv k" "quiet k (me k)" "st k (me k) = Some Runnable" using assms(1) by (simp_all add: thread_inv_def)
  have m: "me k < MAX_TASKS" using invD(1) [OF k(1)] by (rule sizedD)
  have "\<not> receiving (Some p)" using assms(12) by (auto simp: target_of_def receiving_def split: pending.splits)
  then have "parked K_send k' (me k)"
    using k(2) assms m by (simp add: parked_def quiet_def)
  moreover have "inv k'"
  proof (rule inv_slot [OF k(1) assms(3), where s = "me k"])
    show "home k'" using invD(2) [OF k(1)] assms(2,6,11) by (simp add: home_def)
    show "corresponds {} k' (me k)" using assms m by (simp add: corresponds_def)
  qed (use assms in \<open>auto simp: sv_def fun_eq_iff\<close>)
  ultimately show ?thesis using assms by (simp add: ready_def)
qed

lemma collect_from_length:
  "collect_from p root va js ls = Some (Inr ls') \<Longrightarrow> length ls' = length ls"
proof (induction js arbitrary: ls)
  case (Cons i js)
  then obtain entry r where "collect_lease p root entry = Some r"
    "(case r of Inl e \<Rightarrow> Some (Inl e) | Inr l \<Rightarrow> collect_from p root va js (ls[i := l])) = Some (Inr ls')"
    by (auto simp: bind_eq_Some_conv)
  with Cons.IH show ?case by (cases r) force+
qed simp

lemma collect_leases_cases:
  assumes "collect_leases p root va c = Some (Inr (ls, n))"
  obtains "c = 0" "ls = replicate MAX_LEASES NO_LEASE" "n = 0"
  | "unat c \<le> MAX_LEASES" "n = unat c"
      "collect_from p root va [0..<unat c] (replicate MAX_LEASES NO_LEASE) = Some (Inr ls)"
proof (cases "c = 0")
  case False
  with assms have c: "\<not> MAX_LEASES < unat c" "is_multiple_of va 8"
    unfolding collect_leases_def Let_def by (simp_all split: if_splits)
  have "\<exists>r. collect_from p root va [0..<unat c] (replicate MAX_LEASES NO_LEASE) = Some r \<and>
    (case r of Inl e \<Rightarrow> Inl e | Inr ls \<Rightarrow> Inr (ls, unat c)) = Inr (ls, n)"
    using assms False c unfolding collect_leases_def Let_def
    by (simp only: if_False if_True bind_eq_Some_conv option.inject sum.distinct split: if_splits) blast
  then obtain r where r: "collect_from p root va [0..<unat c] (replicate MAX_LEASES NO_LEASE) = Some r"
    "(case r of Inl e \<Rightarrow> Inl e | Inr ls \<Rightarrow> Inr (ls, unat c)) = Inr (ls, n)" by blast
  have "unat c \<le> MAX_LEASES" using c(1) by (simp only: not_less)
  moreover from r(2) have "r = Inr ls" "n = unat c" by (cases r; simp)+
  ultimately show ?thesis using r(1) by (intro that(2)) (simp_all only:)
qed (use assms that in \<open>simp add: collect_leases_def\<close>)

lemma collect_leases_sized:
  assumes "collect_leases p root va c = Some (Inr (ls, n))"
  shows "length ls = MAX_LEASES" "n \<le> MAX_LEASES"
proof -
  have "length ls = MAX_LEASES \<and> n \<le> MAX_LEASES"
    using assms
  proof (cases rule: collect_leases_cases)
    case 2
    from collect_from_length [OF 2(3)] 2(1,2) show ?thesis by simp
  qed simp
  then show "length ls = MAX_LEASES" "n \<le> MAX_LEASES" by simp_all
qed

lemma thread_set_pending_None:
  assumes "thread_inv k" "s \<noteq> me k"
  shows "thread_inv (on_table (set_pending s None) k)"
proof -
  have i: "inv k" using assms(1) by (simp add: thread_inv_def)
  have "pn (on_table (set_pending s None) k) (me k) = pn k (me k)"
    using sizedD(2,8) [OF invD(1) [OF i]] assms(2) by (simp add: view_simps pn_def [symmetric])
  then show ?thesis
    using assms set_pending_None_inv [OF i] by (simp add: thread_inv_def quiet_def view_simps)
qed

lemma space_root_mark_blocked [simp]: "space_root_of i (mark_current_blocked k) = space_root_of i k"
  by (cases "task_at (ksched k) i")
    (auto simp: mark_current_blocked_def on_sched_def space_root_of_def task_at_update_task)

lemma space_root_on_table [simp]: "space_root_of i (on_table f k) = space_root_of i k"
  by (simp add: space_root_of_def on_table_def)

lemma sized_fold: "sized k \<Longrightarrow> table_ok t \<Longrightarrow> sized (on_table (\<lambda>_. t) k)"
  by (rule sized_on_table)

lemma ksaved_simps [simp]: "ksaved (on_table f k) = ksaved k" "ksaved (mark_current_blocked k) = ksaved k"
  by (simp_all add: on_table_def mark_current_blocked_def on_sched_def)

lemma ktable_mark_blocked [simp]: "ktable (mark_current_blocked k) = ktable k"
  by (simp add: mark_current_blocked_def on_sched_def)

lemma send_queue_inv:
  assumes "thread_inv k" "me k \<noteq> 0" "length ls = MAX_LEASES" "n \<le> MAX_LEASES"
    and "msg_target m < MAX_TASKS" "msg_target m \<noteq> me k" "live (st k (msg_target m))"
  shows "result_inv (send_queue m ls n k)"
proof -
  have i: "inv k" and r: "st k (me k) = Some Runnable" using assms(1) by (simp_all add: thread_inv_def)
  note sz = sizedD [OF invD(1) [OF i]]
  define k1 where
    "k1 = on_table (\<lambda>t. set_pending (me k) (Some (SendWait m)) (set_leases (me k) ls n t)) k"
  have "sized k1" unfolding k1_def using invD(1) [OF i] sz(3) assms by (simp add: sized_on_table)
  then have "ready K_send (mark_current_blocked k1)"
    using r sz assms
    by (intro ready_send [OF assms(1,2), where p = "SendWait m" and t = "msg_target m"])
      (auto simp: k1_def view_simps pn_def [symmetric])
  from send_park_inv [OF this] show ?thesis by (simp add: send_queue_def Let_def k1_def)
qed

lemma send_handoff_inv:
  assumes "thread_inv k" "me k \<noteq> 0" "length ls = MAX_LEASES" "n \<le> MAX_LEASES"
    and "msg_target m < MAX_TASKS" "msg_target m \<noteq> me k" "live (st k (msg_target m))"
    and "pn k (msg_target m) = Some (RecvWait buf cap)"
  shows "result_inv (send_handoff m ls n buf cap k)"
proof (cases "send_handoff m ls n buf cap k")
  case (Some res)
  let ?t = "msg_target m"
  define k0 where "k0 = on_table (set_pending ?t None) k"
  have i: "inv k" and r: "st k (me k) = Some Runnable" using assms(1) by (simp_all add: thread_inv_def)
  note sz = sizedD [OF invD(1) [OF i]]
  have me0: "me k0 = me k" "st k0 = st k" by (simp_all add: k0_def view_simps)
  have t0: "thread_inv k0" unfolding k0_def by (rule thread_set_pending_None [OF assms(1,6)])
  obtain d k1 where d: "deliver (me k) (msg_out m) (msg_out_len m) ?t buf cap k0 = Some (d, k1)"
    using Some by (auto simp: send_handoff_def Let_def k0_def bind_eq_Some_conv)
  note same = deliver_same(1) [OF d]
  note v = same_views_view [OF same]
  have t1: "thread_inv k1" by (rule same_views_inv(3) [OF same t0])
  show ?thesis
  proof (cases d)
    case None
    let ?k = "on_table (set_pending ?t (Some (RecvWait buf cap))) k1"
    have "table_ok (ktable k1)" using t1 by (simp add: thread_inv_def inv_but_def sized_def)
    then have "sized ?k" using t1 by (intro sized_on_table) (simp_all add: thread_inv_def inv_but_def)
    moreover have "pending (ktable ?k) = pending (ktable k)"
      using same sz(8) assms(5,8) list_update_id [of "pending (ktable k)" ?t]
      by (simp add: same_views_def k0_def on_table_def set_pending_def pn_def)
    ultimately have "same_views k ?k"
      using same by (simp add: same_views_def k0_def on_table_def)
    from same_views_inv(3) [OF this assms(1)] show ?thesis
      using d None by (simp add: send_handoff_def Let_def k0_def [symmetric] result_inv_def)
  next
    case (Some len)
    define k3 where "k3 = on_table (\<lambda>t. set_pending (me k) (Some (ReplyWait m))
        (set_leases (me k) ls n (set_outcome ?t
          \<lparr>out_a = of_nat (me k), out_b = msg_operation m, out_c = len\<rparr> t))) (mark_current_blocked k1)"
    have m1: "me k1 = me k" using v me0(1) by simp
    have i1: "inv k1" using t1 by (simp add: thread_inv_def)
    note sz1 = sizedD [OF invD(1) [OF i1]]
    have "sized k3"
      unfolding k3_def using invD(1) [OF i1] sz1(3) assms by (simp add: sized_on_table view_simps)
    then have ready: "ready K_send k3"
      using t1 sz1 assms m1 v me0
      by (intro ready_send [OF t1, where p = "ReplyWait m" and t = ?t])
        (auto simp: k3_def view_simps pn_def [symmetric] thread_inv_def)
    have "pn k3 ?t = None"
      using sz1 sz assms m1 v(2) by (simp add: k3_def view_simps pn_def [symmetric]) (simp add: k0_def view_simps)
    moreover have "?t \<noteq> me k3" using assms(6) m1 by (simp add: k3_def view_simps)
    ultimately have "result_inv (and_then (unblock K_send_woke ?t k3) send_park)"
      using ready unblock_inv [of K_send_woke k3 ?t]
      by (intro and_then_inv) (auto simp: ready_send_woke intro: send_park_inv)
    then show ?thesis
      using d Some me0 m1 by (simp add: send_handoff_def Let_def k0_def [symmetric] k3_def view_simps)
  qed
qed (simp add: result_inv_def)

lemma result_inv_simps [simp]:
  "result_inv None" "result_inv (Some (None, k)) = switched_inv k" "result_inv (Some (Some r, k)) = thread_inv k"
  by (simp_all add: result_inv_def)

lemma is_alive_live: "is_alive i k = live (st k i)"
  by (auto simp: is_alive_def st_def live_def split: option.splits)

lemma thread_home: "thread_inv k \<Longrightarrow> space_root_of (me k) k = Some root \<Longrightarrow> me k \<noteq> 0"
  by (intro notI) (simp add: thread_inv_def inv_but_def home_def)

lemma send_inv:
  assumes "thread_inv k"
  shows "result_inv (send target op out out_len rb rc lt lc k)"
proof (cases "MAX_MESSAGE < out_len \<or> MAX_MESSAGE < rc \<or> MAX_TASKS \<le> unat target \<or> unat target = me k \<or>
    \<not> is_alive (unat target) k \<or> space_root_of (me k) k = None")
  case True
  then show ?thesis using assms by (auto simp: send_def)
next
  case False
  then obtain root where root: "space_root_of (me k) k = Some root" by auto
  let ?m = "\<lparr>msg_target = unat target, msg_operation = op, msg_out = out, msg_out_len = out_len,
    msg_reply_buf = rb, msg_reply_cap = rc\<rparr>"
  have t: "msg_target ?m < MAX_TASKS" "msg_target ?m \<noteq> me k" "live (st k (msg_target ?m))"
    using False by (auto simp: is_alive_live)
  note me0 = thread_home [OF assms root]
  have go: "result_inv (case pending (ktable k) ! unat target of
        Some (RecvWait buf cap) \<Rightarrow> send_handoff ?m ls n buf cap k | _ \<Rightarrow> send_queue ?m ls n k)"
    if "length ls = MAX_LEASES" "n \<le> MAX_LEASES" for ls n
    using send_queue_inv [OF assms me0 that t] send_handoff_inv [OF assms me0 that t]
    by (auto simp: pn_def split: option.splits pending.splits)
  show ?thesis
  proof (cases "send target op out out_len rb rc lt lc k")
    case (Some res)
    then obtain r w where rw: "user_readable (kphys k) root out out_len = Some r"
      "user_writable (kphys k) root rb rc = Some w"
      using False root by (auto simp: send_def bind_eq_Some_conv)
    show ?thesis
    proof (cases "collect_leases (kphys k) root lt lc")
      case None
      then show ?thesis using False root rw assms by (simp add: send_def)
    next
      case (Some c)
      show ?thesis
      proof (cases c)
        case (Inl e)
        then show ?thesis using False root rw assms Some by (simp add: send_def)
      next
        case (Inr lsn)
        obtain ls n where lsn: "lsn = (ls, n)" by fastforce
        from go [OF collect_leases_sized, OF Some [unfolded Inr lsn] Some [unfolded Inr lsn]]
        show ?thesis using False root rw assms Some Inr lsn by (simp add: send_def Let_def)
      qed
    qed
  qed simp
qed

lemma thread_ready:
  assumes "thread_inv k" "kont \<in> {K_kernel, K_yield, K_preempted, K_reply} \<or> me k \<noteq> 0 \<and> (\<exists>b c n. kont = K_recv_refused b c n)"
  shows "ready kont k"
  using assms by (auto simp: ready_def thread_inv_def parked_def)

lemma ready_thread:
  assumes "ready kont k" "st k (me k) = Some Runnable"
    "kont \<in> {K_kernel, K_yield, K_preempted, K_reply} \<or> (\<exists>b c n. kont = K_recv_refused b c n)"
  shows "thread_inv k"
  using assms by (auto simp: ready_def thread_inv_def parked_def)

lemma thread_deliver_outcome:
  assumes "thread_inv k" "s \<noteq> me k"
  shows "thread_inv (on_table (deliver_outcome s rc len) k)"
proof -
  have i: "inv k" using assms(1) by (simp add: thread_inv_def)
  have "pn (on_table (deliver_outcome s rc len) k) (me k) = pn k (me k)"
    using sizedD(2,8) [OF invD(1) [OF i]] assms(2) by (simp add: view_simps) (simp add: pn_def)
  then show ?thesis
    using assms deliver_outcome_inv [OF i] by (simp add: thread_inv_def quiet_def view_simps)
qed

lemma finish_sender_inv:
  assumes "thread_inv k" "s \<noteq> me k" "s < MAX_TASKS" "finish_sender kont s rc len k = Some (away, k')"
    and "kont \<in> {K_kernel, K_yield, K_preempted, K_reply} \<or> me k \<noteq> 0 \<and> (\<exists>b c n. kont = K_recv_refused b c n)"
  shows "away \<Longrightarrow> switched_inv k'" "\<not> away \<Longrightarrow> thread_inv k'"
proof -
  let ?k = "on_table (deliver_outcome s rc len) k"
  have t: "thread_inv ?k" by (rule thread_deliver_outcome [OF assms(1,2)])
  then have sz: "sized k" "sized ?k" using assms(1) by (simp_all add: thread_inv_def inv_but_def)
  have none: "target_of (pn ?k s) = None"
    using sizedD(8) [OF sz(1)] assms(3) by (simp add: view_simps)
  show "away \<Longrightarrow> switched_inv k'" "\<not> away \<Longrightarrow> thread_inv k'"
    using unblock_inv [OF thread_ready [OF t, of kont] none, of away k'] assms(2,4,5) t ready_thread [of kont k']
    by (auto simp: finish_sender_def view_simps thread_inv_def)
qed

section \<open>Replying and receiving\<close>

lemma thread_pn: "thread_inv k \<Longrightarrow> pn k (me k) = None"
  by (simp add: thread_inv_def quiet_def)

lemma reply_inv:
  assumes "thread_inv k"
  shows "result_inv (reply s rc data n k)"
proof (cases "reply s rc data n k")
  case (Some res)
  show ?thesis
  proof (cases "MAX_MESSAGE < n \<or> MAX_TASKS \<le> unat s \<or>
      (\<nexists>m. pending (ktable k) ! unat s = Some (ReplyWait m) \<and> msg_target m = me k)")
    case True
    then show ?thesis using assms by (auto simp: reply_def split: option.splits pending.splits)
  next
    case False
    then obtain m where m: "pending (ktable k) ! unat s = Some (ReplyWait m)" "msg_target m = me k" by auto
    have s: "unat s \<noteq> me k" using m thread_pn [OF assms] by (auto simp: pn_def)
    obtain r k1 where d: "deliver (me k) data n (unat s) (msg_reply_buf m) (msg_reply_cap m) k = Some (r, k1)"
      using Some False m by (auto simp: reply_def bind_eq_Some_conv)
    note v = same_views_view [OF deliver_same(1) [OF d]]
    have t: "thread_inv k1" using same_views_inv(3) [OF deliver_same(1) [OF d] assms] .
    show ?thesis
    proof (cases r)
      case None
      then show ?thesis using False m d t by (simp add: reply_def)
    next
      case (Some len)
      have "result_inv (and_then (finish_sender K_reply (unat s) rc len k1) (\<lambda>k. Some (Some (0 :: u64), k)))"
        using finish_sender_inv [OF t, of "unat s" K_reply] s v False by (intro and_then_inv) auto
      then show ?thesis using False m d Some by (simp add: reply_def)
    qed
  qed
qed simp

text \<open>Taking notifications leaves none of the bits asked for posted.\<close>

lemma thread_knotify:
  assumes "thread_inv k" "notify_take (me k) bits (knotify k) = Some (fired, n)"
  shows "thread_inv (k\<lparr>knotify := n\<rparr>)" "bits AND ps (k\<lparr>knotify := n\<rparr>) (me k) = 0"
proof -
  have i: "inv k" using assms(1) by (simp add: thread_inv_def)
  note sz = sizedD [OF invD(1) [OF i]]
  note take = notify_take_view [OF assms(2) sz(4)]
  let ?k = "k\<lparr>knotify := n\<rparr>"
  have sized: "sized ?k" using invD(1) [OF i] take(1) by (simp add: view_simps)
  have same: "st ?k = st k" "pn ?k = pn k" "fw ?k = fw k" "sv ?k = sv k" "me ?k = me k" "wt ?k i = wt k i" for i
    by (simp_all add: view_simps) (simp add: wt_def take(2))
  have ps: "ps ?k i = (if i = me k then ps k i AND NOT fired else ps k i)" if "i < MAX_TASKS" for i
    using that sz(10) take(5) by (simp add: view_simps) (simp add: ps_def)
  have "home ?k" using home_ksched [of ?k k] invD(2) [OF i] by simp
  then have "inv ?k"
    using invD(3) [OF i sz(2)] same ps
    by (intro inv_slot [OF i sized, where s = "me k"]) (auto simp: corresponds_def fun_eq_iff)
  then show "thread_inv ?k"
    using assms(1) same by (simp add: thread_inv_def quiet_def)
  show "bits AND ps ?k (me k) = 0"
    unfolding ps [OF sz(2)] take(4) by (rule bit_word_eqI) (auto simp: bit_simps ps_def)
qed

lemma best_sender_target:
  assumes "best_sender t s target = Some i"
  shows "i < MAX_TASKS" "waits_on target (pending t ! i)"
proof -
  obtain p where "scan_best outranks (sender_priority t s target) [0..<MAX_TASKS] None = Some (i, p)"
    using assms by (auto simp: best_sender_def)
  from prio.scan_best_Some [OF this]
  obtain ys zs where split: "[0..<MAX_TASKS] = ys @ i # zs" "sender_priority t s target i = Some p"
    unfolding picked_def by blast
  have "i \<in> set [0..<MAX_TASKS]" unfolding split(1) by simp
  with split(2) have i: "i \<in> set [0..<MAX_TASKS]" "sender_priority t s target i = Some p" by simp_all
  then show "i < MAX_TASKS" by simp
  show "waits_on target (pending t ! i)"
    using i(2) by (auto simp: sender_priority_def waits_on_def split: option.splits pending.splits if_splits)
qed

text \<open>A task about to park in \<open>recv\<close>.\<close>

lemma ready_recv:
  assumes "thread_inv k" "me k \<noteq> 0" "notify_arm (me k) bits (knotify k) = Some n"
    "bits AND ps k (me k) = 0"
  shows "ready (K_recv b c w) (mark_current_blocked
    (on_table (set_pending (me k) (Some (RecvWait buf cap))) (k\<lparr>knotify := n\<rparr>)))" (is "ready _ ?k")
proof -
  have i: "inv k" using assms(1) by (simp add: thread_inv_def)
  note sz = sizedD [OF invD(1) [OF i]]
  note arm = notify_arm_view [OF assms(3) sz(4)]
  have sized: "sized ?k"
    using invD(1) [OF i] arm sz by (simp add: view_simps sized_on_table)
  have pn: "pn ?k i = (if i = me k then Some (RecvWait buf cap) else pn k i)" if "i < MAX_TASKS" for i
    using that sz by (simp add: view_simps) (simp add: pn_def)
  have wt: "wt ?k i = (if i = me k then bits else wt k i)" if "i < MAX_TASKS" for i
    using that sz arm by (simp add: view_simps) (simp add: wt_def)
  have ps: "ps ?k = ps k" using arm(4) by (simp add: view_simps ps_def fun_eq_iff)
  have other: "st ?k i = (if i = me k then Some Blocked else st k i)" "fw ?k = fw k" "sv ?k = sv k" "me ?k = me k"
    for i
    using assms(1) by (simp_all add: view_simps thread_inv_def)
  have "inv ?k"
  proof (rule inv_slot [OF i sized, where s = "me k"])
    have "space_root_of 0 ?k = space_root_of 0 k" by simp (simp add: space_root_of_def)
    then show "home ?k" using invD(2) [OF i] assms(2) other by (simp add: home_def)
  qed (use pn wt ps other sz in \<open>auto intro: corresponds_None\<close>)
  moreover have "parked (K_recv b c w) ?k (me ?k)"
    using pn [OF sz(2)] wt [OF sz(2)] ps other assms(1,2,4) by (simp add: parked_def thread_inv_def quiet_def)
  ultimately show ?thesis using other by (simp add: ready_def)
qed

text \<open>A task continuing after its \<open>park\<close> in \<open>recv\<close>.\<close>

lemma recv_woken_inv:
  assumes "ready (K_recv b c w) k" "st k (me k) = Some Runnable" "recv_woken k = Some (r, k')"
  shows "thread_inv k'" "me k' = me k"
proof -
  have i: "inv k" using assms(1) by (simp add: ready_def)
  note sz = sizedD [OF invD(1) [OF i]]
  obtain n where n: "notify_disarm (me k) (knotify k) = Some n"
    using assms(3) by (auto simp: recv_woken_def bind_eq_Some_conv)
  note arm = notify_arm_view [OF n [unfolded notify_disarm_def] sz(4)]
  define k1 where "k1 = k\<lparr>knotify := n\<rparr>"
  have sized1: "sized k1" using invD(1) [OF i] arm(1) by (simp add: k1_def view_simps)
  have wt: "wt k1 i = (if i = me k then 0 else wt k i)" if "i < MAX_TASKS" for i
    using that sz arm by (simp add: k1_def view_simps) (simp add: wt_def)
  have same: "st k1 = st k" "pn k1 = pn k" "fw k1 = fw k" "sv k1 = sv k" "me k1 = me k" "ps k1 = ps k"
    using arm(4) by (simp_all add: k1_def view_simps ps_def fun_eq_iff)
  have "home k1" using home_ksched [of k1 k] invD(2) [OF i] by (simp add: k1_def)
  then have i1: "inv k1"
    using invD(3) [OF i sz(2)] same wt
    by (intro inv_slot [OF i sized1, where s = "me k"]) (auto simp: corresponds_def)
  have p: "target_of (pn k (me k)) = None" "\<not> fw k (me k)"
    using assms(1) by (simp_all add: ready_def parked_def)
  show "thread_inv k'" "me k' = me k"
  proof -
    have "thread_inv k' \<and> me k' = me k"
    proof (cases "pending (ktable k1) ! me k1")
      case None
      then obtain r' where "take_outcome (me k1) k1 = (r', k')"
        using assms(3) n by (auto simp: recv_woken_def k1_def Let_def view_simps split: prod.splits)
      note s = take_outcome_same [OF this]
      have "thread_inv k1"
        using i1 None same p wt [OF sz(2)] assms(2) by (simp add: thread_inv_def quiet_def pn_def [symmetric])
      then show ?thesis using same_views_inv(3) [OF s] same_views_view(6) [OF s] same by simp
    next
      case (Some x)
      then have k': "k' = on_table (set_pending (me k) None) k1"
        using assms(3) n by (auto simp: recv_woken_def k1_def Let_def view_simps)
      have "pn k' (me k) = None"
        using sizedD(8) [OF sized1] sz(2) by (simp add: k' view_simps)
      then show ?thesis
        using set_pending_None_inv [OF i1] same p wt [OF sz(2)] assms(2)
        by (simp add: k' thread_inv_def quiet_def view_simps)
    qed
    then show "thread_inv k'" "me k' = me k" by simp_all
  qed
qed

definition turn_inv :: "kernel \<Rightarrow> recv_turn \<Rightarrow> bool" where
  "turn_inv k t \<longleftrightarrow> (case t of Inl res \<Rightarrow> result_inv (Some res) | Inr k' \<Rightarrow> thread_inv k' \<and> me k' = me k)"

lemma turn_inv_simps [simp]:
  "turn_inv k (Inl res) = result_inv (Some res)" "turn_inv k (Inr k') = (thread_inv k' \<and> me k' = me k)"
  by (simp_all add: turn_inv_def)

text \<open>Staying on the CPU keeps the current task current.\<close>

lemma switch_me: "switch_to_next r kont k = Some (False, k') \<Longrightarrow> me k' = me k"
  by (elim switch_to_next_cases) (auto dest: calm_view(5))

lemma park_me: "park kont k = Some (False, k') \<Longrightarrow> me k' = me k"
  by (auto simp: park_def Let_def switch_me split: if_splits)

lemma unblock_me: "unblock kont s k = Some (False, k') \<Longrightarrow> me k' = me k"
  by (auto simp: unblock_def split: prod.splits if_splits dest!: unblock_deferred_view(6) switch_me)

lemma recv_park_inv:
  assumes "recv_park buf cap w k = Some y" "thread_inv k" "me k \<noteq> 0" "w AND ps k (me k) = 0"
  shows "turn_inv k y"
proof -
  obtain n where arm: "notify_arm (me k) w (knotify k) = Some n"
    using assms(1) by (auto simp: recv_park_def bind_eq_Some_conv)
  define k1 where "k1 = mark_current_blocked
    (on_table (set_pending (me k) (Some (RecvWait buf cap))) (k\<lparr>knotify := n\<rparr>))"
  have me1: "me k1 = me k" by (simp add: k1_def view_simps)
  have ready: "ready (K_recv buf cap w) k1" unfolding k1_def by (rule ready_recv [OF assms(2,3) arm assms(4)])
  have blocked: "st k1 (me k1) = Some Blocked"
    using assms(2) by (simp add: k1_def view_simps thread_inv_def)
  obtain away k2 where p: "park (K_recv buf cap w) k1 = Some (away, k2)"
    and rest: "(if away then Some (Inl (None, k2)) else do {
      (r, k) \<leftarrow> recv_woken k2;
      Some (case r of None \<Rightarrow> Inr k | Some r \<Rightarrow> Inl (Some r, k)) }) = Some y"
    using assms(1) arm by (auto simp: recv_park_def k1_def bind_eq_Some_conv)
  show ?thesis
  proof (cases away)
    case True
    then show ?thesis using rest park_inv(1) [OF ready p] by auto
  next
    case stay: False
    then have r2: "ready (K_recv buf cap w) k2" "st k2 (me k2) = Some Runnable" "me k2 = me k"
      using park_inv(2) [OF ready p stay] blocked park_me [of _ k1 k2] p me1 by auto
    obtain r k3 where w: "recv_woken k2 = Some (r, k3)"
      "y = (case r of None \<Rightarrow> Inr k3 | Some r \<Rightarrow> Inl (Some r, k3))"
      using rest stay by (auto simp: bind_eq_Some_conv)
    from recv_woken_inv [OF r2(1,2) w(1)] w(2) r2(3) show ?thesis by (cases r) auto
  qed
qed

lemma recv_from_inv:
  assumes "recv_from sender buf cap w k = Some y" "thread_inv k" "sender < MAX_TASKS" "me k \<noteq> 0"
  shows "turn_inv k y"
proof -
  obtain m where m: "pending (ktable k) ! sender = Some (SendWait m)"
    using assms(1) by (auto simp: recv_from_def split: option.splits pending.splits)
  have other: "sender \<noteq> me k" using m thread_pn [OF assms(2)] by (auto simp: pn_def)
  obtain d k1 where d: "deliver sender (msg_out m) (msg_out_len m) (me k) buf cap k = Some (d, k1)"
    using assms(1) m by (auto simp: recv_from_def bind_eq_Some_conv)
  note v = same_views_view [OF deliver_same(1) [OF d]]
  have t1: "thread_inv k1" by (rule same_views_inv(3) [OF deliver_same(1) [OF d] assms(2)])
  then have i1: "inv k1" by (simp add: thread_inv_def)
  show ?thesis
  proof (cases d)
    case (Some len)
    let ?k = "on_table (set_pending sender (Some (ReplyWait m))) k1"
    note sz = sizedD [OF invD(1) [OF i1]]
    have pn: "pn ?k i = (if i = sender then Some (ReplyWait m) else pn k1 i)" if "i < MAX_TASKS" for i
      using that sz by (simp add: view_simps) (simp add: pn_def)
    have was: "pn k1 sender = Some (SendWait m)" using m v by (simp add: pn_def)
    have parked: "parked kt ?k sender = parked kt k1 sender" for kt
      using pn [OF assms(3)] was by (cases kt) (simp_all add: parked_def quiet_def view_simps)
    have "inv ?k"
    proof (rule inv_slot [OF i1, where s = sender])
      show "corresponds {} ?k sender"
        using invD(3) [OF i1 assms(3)] was pn [OF assms(3)] by (simp add: corresponds_def view_simps)
      show "parked (sv k1 sender) ?k sender" if "sender \<noteq> me k1"
        using invD(4) [OF i1 assms(3) that] parked by simp
    qed (use pn invD(1,2) [OF i1] sz in \<open>auto simp: view_simps sized_on_table pn_def [symmetric]\<close>)
    then have "thread_inv ?k"
      using t1 pn [OF sz(2)] other v by (simp add: thread_inv_def quiet_def view_simps)
    then show ?thesis using assms(1) m d Some by (auto simp: recv_from_def)
  next
    case None
    obtain away k2 where f: "finish_sender (K_recv_refused buf cap w) sender EFAULT 0 k1 = Some (away, k2)"
      "y = (if away then Inl (None, k2) else Inr k2)"
      using assms(1) m d None by (auto simp: recv_from_def bind_eq_Some_conv)
    have "sender \<noteq> me k1" using other v by simp
    with finish_sender_inv [OF t1 this assms(3) f(1)] f(2) v(6) assms(4) show ?thesis
      using f(1) unblock_me [of _ sender "on_table (deliver_outcome sender EFAULT 0) k1" k2]
      by (cases away) (auto simp: finish_sender_def view_simps)
  qed
qed

lemma recv_turn_inv:
  assumes "recv_turn buf cap w k = Some y" "thread_inv k" "me k \<noteq> 0"
  shows "turn_inv k y"
proof -
  obtain fired n where take: "notify_take (me k) w (knotify k) = Some (fired, n)"
    using assms(1) by (auto simp: recv_turn_def bind_eq_Some_conv)
  let ?k = "k\<lparr>knotify := n\<rparr>"
  note t = thread_knotify [OF assms(2) take]
  have y: "(if fired \<noteq> 0 then Some (Inl (Some (NOTIFICATION, ucast fired, 0), ?k))
     else case best_sender (ktable ?k) (ksched ?k) (me ?k) of
       None \<Rightarrow> recv_park buf cap w ?k | Some sender \<Rightarrow> recv_from sender buf cap w ?k) = Some y"
    using assms(1) take by (simp add: recv_turn_def Let_def)
  have "turn_inv ?k y"
    using y t assms(3) recv_park_inv [OF _ t(1)] recv_from_inv [OF _ t(1) best_sender_target(1)]
    by (auto simp: view_simps split: if_splits option.splits)
  then show ?thesis by (cases y) (simp_all add: view_simps)
qed

lemma recv_loop_inv:
  assumes "recv_loop buf cap w k = Some y" "thread_inv k" "me k \<noteq> 0"
  shows "result_inv (Some y)"
  using assms
proof (induction rule: recv_loop.raw_induct [rotated, consumes 1, case_names 1])
  case (1 loop buf cap w k y)
  obtain t where t: "recv_turn buf cap w k = Some t"
    "(case t of Inl res \<Rightarrow> Some res | Inr k \<Rightarrow> loop buf cap w k) = Some y"
    using 1(2) by (auto simp: bind_eq_Some_conv)
  from recv_turn_inv [OF t(1) 1(3,4)] t(2) 1(1) [of buf cap w _ y] 1(4) show ?case
    by (cases t) auto
qed

lemma recv_inv:
  assumes "thread_inv k"
  shows "result_inv (recv buf cap w k)"
proof (cases "recv buf cap w k")
  case (Some y)
  show ?thesis
  proof (cases "MAX_MESSAGE < cap \<or> space_root_of (me k) k = None")
    case True
    then show ?thesis using assms by (auto simp: recv_def)
  next
    case False
    then obtain root b where "space_root_of (me k) k = Some root"
      "user_writable (kphys k) root buf cap = Some b"
      using Some by (auto simp: recv_def bind_eq_Some_conv)
    with False Some assms recv_loop_inv [of buf cap "ucast w" k y] thread_home [of k root]
    show ?thesis by (cases b) (auto simp: recv_def)
  qed
qed simp

section \<open>Abandoning a task\<close>

definition waiting_on :: "nat \<Rightarrow> kernel \<Rightarrow> nat \<Rightarrow> bool" where
  "waiting_on gone k i \<longleftrightarrow> i \<noteq> gone \<and> target_of (pn k i) = Some gone"

lemma abandon_slot_cases:
  "abandon_slot gone s k = (if waiting_on gone k s
     then snd (unblock_deferred s (on_table (deliver_outcome s EDEAD 0) k)) else k)"
  by (simp add: abandon_slot_def waiting_on_def waits_on_iff pn_def)

lemma abandon_slot_view:
  assumes "sized k" "s < MAX_TASKS"
  shows "i < MAX_TASKS \<Longrightarrow>
      pn (abandon_slot gone s k) i = (if i = s \<and> waiting_on gone k s then None else pn k i)"
    "st (abandon_slot gone s k) i =
      (if i = s \<and> waiting_on gone k s \<and> st k s = Some Blocked then Some Runnable else st k i)"
    "wt (abandon_slot gone s k) = wt k" "fw (abandon_slot gone s k) = fw k"
    "sv (abandon_slot gone s k) = sv k" "me (abandon_slot gone s k) = me k" "sized (abandon_slot gone s k)"
  using assms sizedD(3,8) [OF assms(1)]
  by (auto simp: abandon_slot_cases view_simps sized_on_table pn_def [symmetric])

lemma abandon_fold_view:
  assumes "sized k" "\<forall>s \<in> set slots. s < MAX_TASKS"
  shows "(\<forall>i < MAX_TASKS. pn (fold (abandon_slot gone) slots k) i =
        (if i \<in> set slots \<and> waiting_on gone k i then None else pn k i) \<and>
      st (fold (abandon_slot gone) slots k) i =
        (if i \<in> set slots \<and> waiting_on gone k i \<and> st k i = Some Blocked then Some Runnable else st k i)) \<and>
    wt (fold (abandon_slot gone) slots k) = wt k \<and> fw (fold (abandon_slot gone) slots k) = fw k \<and>
    sv (fold (abandon_slot gone) slots k) = sv k \<and> me (fold (abandon_slot gone) slots k) = me k \<and>
    sized (fold (abandon_slot gone) slots k)"
  using assms
proof (induction slots arbitrary: k)
  case (Cons s slots)
  let ?k = "abandon_slot gone s k"
  have s: "s < MAX_TASKS" using Cons.prems(2) by simp
  note v = abandon_slot_view [OF Cons.prems(1) s, where gone = gone]
  have w: "waiting_on gone ?k i = (waiting_on gone k i \<and> i \<noteq> s)" if "i < MAX_TASKS" for i
    using v(1) [OF that] by (auto simp: waiting_on_def)
  note IH = Cons.IH [OF v(7)]
  show ?case
    using IH Cons.prems(2) v(1,3-6) v(2) [of _] w by (simp cong: conj_cong) (metis (no_types, lifting))
qed simp

lemma abandon_fold_inv:
  "inv_but D k \<Longrightarrow> \<forall>s \<in> set slots. s < MAX_TASKS \<Longrightarrow> inv_but D (fold (abandon_slot gone) slots k)"
proof (induction slots arbitrary: k)
  case (Cons s slots)
  have "inv_but D (abandon_slot gone s k)"
  proof (cases "waiting_on gone k s")
    case True
    have "inv_but D (on_table (deliver_outcome s EDEAD 0) k)"
      by (rule deliver_outcome_inv [OF Cons.prems(1)])
    moreover have "target_of (pn (on_table (deliver_outcome s EDEAD 0) k) s) = None"
      using sizedD(8) [OF invD(1) [OF Cons.prems(1)]] Cons.prems(2) by (simp add: view_simps)
    ultimately show ?thesis using True by (simp add: abandon_slot_cases unblock_deferred_inv)
  qed (use Cons.prems in \<open>simp add: abandon_slot_cases\<close>)
  with Cons show ?case by simp
qed simp

lemma abandon_view:
  assumes "abandon gone k = Some k'" "sized k"
  shows "gone < MAX_TASKS"
    "i < MAX_TASKS \<Longrightarrow> pn k' i = (if i = gone \<or> waiting_on gone k i then None else pn k i)"
    "i < MAX_TASKS \<Longrightarrow>
      st k' i = (if waiting_on gone k i \<and> st k i = Some Blocked then Some Runnable else st k i)"
    "wt k' = wt k" "fw k' = fw k" "sv k' = sv k" "me k' = me k" "sized k'"
proof -
  let ?k = "fold (abandon_slot gone) [0..<MAX_TASKS] k"
  have k': "gone < MAX_TASKS"
    "k' = on_table (\<lambda>t. (set_pending gone None t)\<lparr>lease_count := (lease_count t)[gone := 0]\<rparr>) ?k"
    using assms(1) by (simp_all add: abandon_def Let_def assert_that_def bind_eq_Some_conv split: if_splits)
  have v: "\<forall>i < MAX_TASKS. pn ?k i = (if waiting_on gone k i then None else pn k i) \<and>
      st ?k i = (if waiting_on gone k i \<and> st k i = Some Blocked then Some Runnable else st k i)"
    "wt ?k = wt k" "fw ?k = fw k" "sv ?k = sv k" "me ?k = me k" "sized ?k"
    using abandon_fold_view [OF assms(2), of "[0..<MAX_TASKS]" gone] by (simp_all del: upt.simps)
  show "gone < MAX_TASKS" by fact
  show "wt k' = wt k" "fw k' = fw k" "sv k' = sv k" "me k' = me k"
    using v by (simp_all add: k'(2) view_simps)
  have "pending ((set_pending gone None t)\<lparr>lease_count := n\<rparr>) = pending (set_pending gone None t)" for t n
    by (simp add: view_simps)
  then show "i < MAX_TASKS \<Longrightarrow> pn k' i = (if i = gone \<or> waiting_on gone k i then None else pn k i)"
    using v(1) sizedD(8) [OF v(6)] by (simp add: k'(2) view_simps) (simp add: pn_def)
  show "i < MAX_TASKS \<Longrightarrow>
      st k' i = (if waiting_on gone k i \<and> st k i = Some Blocked then Some Runnable else st k i)"
    using v(1) by (simp add: k'(2) view_simps)
  show "sized k'"
    unfolding k'(2) using v(6) sizedD(3) [OF v(6)] table_ok_count [of "set_pending gone None (ktable ?k)"]
    by (intro sized_on_table) (simp_all add: set_pending_def table_ok_def)
qed

lemma abandon_inv:
  assumes "abandon gone k = Some k'" "inv_but D k"
  shows "inv_but D k'"
proof -
  let ?k = "fold (abandon_slot gone) [0..<MAX_TASKS] k"
  have k': "k' = on_table (\<lambda>t. (set_pending gone None t)\<lparr>lease_count := (lease_count t)[gone := 0]\<rparr>) ?k"
    using assms(1) by (simp add: abandon_def Let_def assert_that_def bind_eq_Some_conv split: if_splits)
  have i: "inv_but D ?k" by (rule abandon_fold_inv [OF assms(2)]) simp
  have "sized k'" using abandon_view(8) [OF assms(1) invD(1) [OF assms(2)]] .
  then show ?thesis
    unfolding k' using sizedD(8) [OF invD(1) [OF i]]
    by (intro clear_inv [OF i, where s = gone])
      (simp_all add: view_simps sized_def on_table_def pn_def del: upt.simps)
qed

text \<open>Once a task has been abandoned, nobody waits on it.\<close>

lemma abandon_settles:
  assumes "abandon gone k = Some k'" "inv_but D k" "D \<subseteq> {gone}"
  shows "inv k'"
proof -
  have i: "inv_but D k'" by (rule abandon_inv [OF assms(1,2)])
  note v = abandon_view [OF assms(1) invD(1) [OF assms(2)]]
  have "corresponds {} k' i" if "i < MAX_TASKS" for i
    unfolding corresponds_def
  proof (intro allI impI)
    fix t assume t: "target_of (pn k' i) = Some t"
    then have "t \<noteq> gone" using v(2) [OF that] by (auto simp: waiting_on_def split: if_splits)
    with invD(3) [OF i that] t assms(3)
    show "st k' i = Some Blocked \<and> t < MAX_TASKS \<and> t \<noteq> i \<and> (live (st k' t) \<or> t \<in> {})"
      by (auto simp: corresponds_def)
  qed
  with i show ?thesis by (simp add: inv_but_def)
qed

section \<open>Ending tasks\<close>

text \<open>A task in its closing loop leaves at the first yield, for good.\<close>

lemma dying_loop_inv:
  assumes "ready K_dead k" "dying_loop k = Some (r, k')"
  shows "r = None" "switched_inv k'" "yield_now K_dead k = Some (True, k')"
proof -
  obtain away k1 where y: "yield_now K_dead k = Some (away, k1)"
    using assms(2) by (subst (asm) dying_loop.simps) (auto simp: bind_eq_Some_conv)
  note s = switch_inv [OF assms(1) y [unfolded yield_now_def]]
  have "away"
  proof (rule ccontr)
    assume "\<not> away"
    from s(2) [OF this] show False by (auto simp: ready_def parked_def)
  qed
  then have "r = None \<and> k' = k1" using assms(2) y by (subst (asm) dying_loop.simps) simp
  with s(1) \<open>away\<close> y show "r = None" "switched_inv k'" "yield_now K_dead k = Some (True, k')" by simp_all
qed

lemma dying_result: "ready K_dead k \<Longrightarrow> result_inv (dying_loop k)"
  using dying_loop_inv(1,2) [of k] by (cases "dying_loop k") (auto simp: result_inv_def)

text \<open>The current task stops: those that wait on it are still to be released.\<close>

lemma stop_inv:
  assumes "thread_inv k" "me k \<noteq> 0" "\<not> live (Some (task_state t'))"
  defines "k1 \<equiv> on_sched (set_task (me k) (Some t')) k"
  shows "inv_but {me k} k1" "parked K_dead k1 (me k)" "me k1 = me k" "st k1 (me k) = Some (task_state t')"
proof -
  have i: "inv k" using assms(1) by (simp add: thread_inv_def)
  note sz = sizedD [OF invD(1) [OF i]]
  have st: "st k1 i = (if i = me k then Some (task_state t') else st k i)" for i
    using sz by (simp add: k1_def view_simps)
  have same: "pn k1 = pn k" "wt k1 = wt k" "fw k1 = fw k" "sv k1 = sv k" "me k1 = me k" "ps k1 = ps k"
    by (simp_all add: k1_def view_simps) (simp add: me_def)
  have sized: "sized k1" using invD(1) [OF i] by (simp add: k1_def view_simps)
  have home: "home k1" unfolding k1_def by (rule home_set_state [OF invD(2) [OF i] assms(2)])
  show "inv_but {me k} k1"
    using assms(1) st same
    by (intro inv_slot [OF i sized home, where s = "me k"])
      (auto simp: thread_inv_def quiet_def intro: corresponds_None)
  show "parked K_dead k1 (me k)" "me k1 = me k" "st k1 (me k) = Some (task_state t')"
    using assms(1,3) st same by (simp_all add: thread_inv_def parked_def quiet_def)
qed

lemma stop_ready:
  assumes "thread_inv k" "me k \<noteq> 0" "\<not> live (Some (task_state t'))"
    and "abandon (me k) (on_sched (set_task (me k) (Some t')) k) = Some k'"
  shows "ready K_dead k'" "me k' = me k"
proof -
  note s = stop_inv [OF assms(1,2,3)]
  have sz: "sized (on_sched (set_task (me k) (Some t')) k)" by (rule invD(1) [OF s(1)])
  note v = abandon_view [OF assms(4) sz]
  have m: "me k < MAX_TASKS" using v(1) .
  have "inv k'" by (rule abandon_settles [OF assms(4) s(1)]) simp
  moreover have "\<not> waiting_on (me k) (on_sched (set_task (me k) (Some t')) k) (me k)"
    by (simp add: waiting_on_def)
  then have "parked K_dead k' (me k)"
    using s(2) v m by (simp add: parked_def quiet_def)
  ultimately show "ready K_dead k'" "me k' = me k"
    using v(3) [OF m] v(7) s(3,4) by (auto simp: ready_def)
qed

lemma set_task_update: "task_at s i = Some t \<Longrightarrow> update_task i f s = set_task i (Some (f t)) s"
  by (simp add: update_task_def)

lemma thread_task:
  assumes "thread_inv k"
  obtains t where "task_at (ksched k) (me k) = Some t" "task_state t = Runnable"
  using assms by (auto simp: thread_inv_def st_eq_Some)

lemma on_sched_set_task_update:
  "task_at (ksched k) i = Some t \<Longrightarrow> on_sched (update_task i f) k = on_sched (set_task i (Some (f t))) k"
  by (simp add: on_sched_def update_task_def)

lemma task_finished_inv:
  assumes "thread_inv k" "me k \<noteq> 0"
  shows "result_inv (task_finished k)"
proof (cases "task_finished k")
  case (Some y)
  obtain t where t: "task_at (ksched k) (me k) = Some t" using thread_task [OF assms(1)] .
  obtain k1 where "abandon (me k) (on_sched (set_task (me k) (Some (t\<lparr>task_state := Zombie\<rparr>))) k) = Some k1"
    "dying_loop k1 = Some y"
    using Some t by (auto simp: task_finished_def Let_def bind_eq_Some_conv on_sched_set_task_update)
  then have "ready K_dead k1" by (intro stop_ready(1) [OF assms]) simp_all
  from dying_result [OF this] show ?thesis using \<open>dying_loop k1 = Some y\<close> Some by simp
qed simp

lemma exit_current_inv:
  assumes "thread_inv k" "me k \<noteq> 0"
  shows "result_inv (exit_current c k)"
proof (cases "exit_current c k")
  case (Some y)
  obtain t where t: "task_at (ksched k) (me k) = Some t" using thread_task [OF assms(1)] .
  obtain k1 where "abandon (me k) (on_sched (set_task (me k)
        (Some (t\<lparr>task_state := Zombie, task_exit := Some c\<rparr>))) k) = Some k1"
    "dying_loop k1 = Some y"
    using Some t by (auto simp: exit_current_def Let_def bind_eq_Some_conv on_sched_set_task_update)
  then have "ready K_dead k1" by (intro stop_ready(1) [OF assms]) simp_all
  from dying_result [OF this] show ?thesis using \<open>dying_loop k1 = Some y\<close> Some by simp
qed simp

section \<open>Faults\<close>

text \<open>Whoever is recorded as a fault waiter waits for nothing else.\<close>

lemma fault_waiter_target:
  assumes "ready kont k" "kont = K_dead" "s < MAX_TASKS" "fw k s"
  shows "target_of (pn k s) = None" "s \<noteq> me k"
proof -
  have "s \<noteq> me k" using assms by (auto simp: ready_def parked_def quiet_def)
  then have "parked (sv k s) k s" using assms by (auto simp: ready_def inv_but_def)
  then have "pn k s = None" using assms(4) by (cases "sv k s") (simp_all add: parked_def quiet_def)
  with \<open>s \<noteq> me k\<close> show "target_of (pn k s) = None" "s \<noteq> me k" by simp_all
qed

lemma wake_waiter_ready:
  assumes "ready K_dead k" "s < MAX_TASKS"
  shows "ready K_dead (wake_waiter s k)"
proof (cases "fw k s")
  case True
  note f = fault_waiter_target [OF assms(1) refl assms(2) True]
  let ?k = "snd (unblock_deferred s k)"
  have "inv ?k" using assms(1) f(1) by (intro unblock_deferred_inv) (simp_all add: ready_def)
  moreover have "parked K_dead ?k (me k) = parked K_dead k (me k)"
    using f(2) by (intro parked_cong) (simp_all add: view_simps)
  ultimately show ?thesis
    using assms(1) f(2) True by (simp add: wake_waiter_def fw_def ready_def view_simps)
qed (use assms in \<open>simp add: wake_waiter_def fw_def\<close>)

lemma wake_waiters_ready:
  "ready K_dead k \<Longrightarrow> \<forall>s \<in> set slots. s < MAX_TASKS \<Longrightarrow> ready K_dead (fold wake_waiter slots k)"
  by (induction slots arbitrary: k) (simp_all add: wake_waiter_ready)

lemma fault_current_inv:
  assumes "thread_inv k" "me k \<noteq> 0"
  shows "result_inv (fault_current f k)"
proof (cases "fault_current f k")
  case (Some y)
  obtain t where t: "task_at (ksched k) (me k) = Some t" using thread_task [OF assms(1)] .
  obtain k1 where k1: "abandon (me k) (on_sched (set_task (me k)
        (Some (t\<lparr>task_state := Faulted, task_fault := Some f\<rparr>))) k) = Some k1"
    "dying_loop (wake_fault_waiters k1) = Some y"
    using Some t by (auto simp: fault_current_def Let_def bind_eq_Some_conv)
  have "ready K_dead k1" using stop_ready(1) [OF assms _ k1(1)] by simp
  then have "ready K_dead (wake_fault_waiters k1)"
    unfolding wake_fault_waiters_def by (rule wake_waiters_ready) simp
  from dying_result [OF this] show ?thesis using k1(2) Some by simp
qed simp

text \<open>Waiting for a fault.\<close>

lemma ready_fault_wait:
  assumes "thread_inv k" "me k \<noteq> 0"
  shows "ready K_fault_wait (mark_current_blocked (set_waiter (me k) True k))" (is "ready _ ?k")
proof -
  have i: "inv k" using assms(1) by (simp add: thread_inv_def)
  note sz = sizedD [OF invD(1) [OF i]]
  have same: "pn ?k = pn k" "wt ?k = wt k" "sv ?k = sv k" "me ?k = me k" "sized ?k" "ps ?k = ps k"
    using invD(1) [OF i] by (simp_all add: view_simps)
  have other: "st ?k i = (if i = me k then Some Blocked else st k i)" for i
    using assms(1) by (simp add: view_simps thread_inv_def)
  have fw: "fw ?k i = (if i = me k then True else fw k i)" if "i < MAX_TASKS" for i
    using that sz by (simp add: view_simps)
  have "space_root_of 0 ?k = space_root_of 0 k" by simp (simp add: space_root_of_def set_waiter_def)
  then have home: "home ?k" using invD(2) [OF i] assms(2) other by (simp add: home_def)
  have "inv ?k"
    using assms(1) same other fw home
    by (intro inv_slot [OF i same(5), where s = "me k"])
      (auto simp: thread_inv_def quiet_def intro: corresponds_None)
  then show ?thesis
    using assms same other by (simp add: ready_def parked_def thread_inv_def quiet_def)
qed

lemma fault_wait_over:
  assumes "ready K_fault_wait k" "st k (me k) = Some Runnable"
  shows "thread_inv (set_waiter (me k) False k)" (is "thread_inv ?k")
proof -
  have i: "inv k" using assms(1) by (simp add: ready_def)
  note sz = sizedD [OF invD(1) [OF i]]
  have same: "st ?k = st k" "pn ?k = pn k" "wt ?k = wt k" "sv ?k = sv k" "me ?k = me k" "sized ?k" "ps ?k = ps k"
    using invD(1) [OF i] by (simp_all add: view_simps)
  have fw: "fw ?k i = (if i = me k then False else fw k i)" if "i < MAX_TASKS" for i
    using that sz by (simp add: view_simps)
  have "home ?k" using invD(2) [OF i] home_ksched [of ?k k] by (simp add: set_waiter_def)
  then have "inv ?k"
    using assms same fw by (intro inv_slot [OF i same(6), where s = "me k"])
      (auto simp: ready_def parked_def intro: corresponds_None)
  then show ?thesis
    using assms same fw [OF sz(2)] by (simp add: thread_inv_def ready_def parked_def quiet_def)
qed

lemma wait_for_fault_inv:
  assumes "wait_for_fault k = Some y" "thread_inv k" "me k \<noteq> 0"
  shows "result_inv (Some y)"
  using assms
proof (induction rule: wait_for_fault.raw_induct [rotated, consumes 1, case_names 1])
  case (1 loop k y)
  show ?case
  proof (cases "first_faulted (ksched k)")
    case (Some slot)
    then show ?thesis using 1(2,3) by auto
  next
    case None
    let ?k = "mark_current_blocked (set_waiter (me k) True k)"
    obtain away k1 where p: "park K_fault_wait ?k = Some (away, k1)"
      and rest: "(if away then Some (None, k1) else loop (set_waiter (me k1) False k1)) = Some y"
      using 1(2) None by (auto simp: bind_eq_Some_conv)
    have r: "ready K_fault_wait ?k" by (rule ready_fault_wait [OF 1(3,4)])
    show ?thesis
    proof (cases away)
      case True
      with rest park_inv(1) [OF r p] show ?thesis by auto
    next
      case False
      note q = park_inv(2) [OF r p False]
      have "st ?k (me ?k) = Some Blocked" using 1(3) by (simp add: view_simps thread_inv_def)
      with q have "thread_inv (set_waiter (me k1) False k1)" by (intro fault_wait_over) auto
      moreover have "me (set_waiter (me k1) False k1) \<noteq> 0"
        using park_me [of _ ?k k1] p False 1(4) by (simp add: view_simps)
      ultimately show ?thesis using 1(1) rest False by simp
    qed
  qed
qed

section \<open>Interrupts and notifications\<close>

text \<open>Whoever is armed for notifications waits for a message, if at all.\<close>

lemma armed_target:
  assumes "inv k" "s < MAX_TASKS" "s \<noteq> me k" "wt k s \<noteq> 0"
  shows "target_of (pn k s) = None"
  using invD(4) [OF assms(1,2,3)] assms(4) by (cases "sv k s") (simp_all add: parked_def quiet_def)

lemma unblock_other_thread:
  assumes "thread_inv k" "s \<noteq> me k" "target_of (pn k s) = None"
  shows "thread_inv (snd (unblock_deferred s k))"
  using assms unblock_deferred_inv [of "{}" k s] by (simp add: thread_inv_def quiet_def view_simps)

lemma unblock_deferred_home:
  assumes "home k"
  shows "home (snd (unblock_deferred s k))"
proof -
  have "unblock_deferred s k = (fst (unblock_deferred s k), snd (unblock_deferred s k))" by simp
  then show ?thesis
  proof (cases rule: unblock_deferred_cases)
    case (2 t)
    then have "s \<noteq> 0" using assms by (intro notI) (simp add: home_def st_def)
    then show ?thesis unfolding 2(3) by (intro home_set_state assms)
  qed (use assms in simp)
qed

lemma post_home: "home k \<Longrightarrow> home (post t bits k)"
proof -
  assume h: "home k"
  have "home (k\<lparr>knotify := n\<rparr>)" for n using h home_ksched [of "k\<lparr>knotify := n\<rparr>" k] by simp
  moreover have "home (request_reschedule k') = home k'" for k'
    by (rule home_ksched) (simp add: request_reschedule_def)
  ultimately show ?thesis by (simp add: post_def Let_def h unblock_deferred_home)
qed

lemma post_inv:
  assumes "thread_inv k"
  shows "thread_inv (post t bits k)" (is "thread_inv ?k")
proof (cases "t < MAX_TASKS")
  case True
  have i: "inv k" and quiet: "quiet k (me k)" using assms by (simp_all add: thread_inv_def)
  note sz = sizedD [OF invD(1) [OF i]]
  have sized: "sized ?k" and home: "home ?k"
    using invD(1,2) [OF i] by (simp_all add: sized_post post_home)
  have same: "pn ?k = pn k" "wt ?k = wt k" "fw ?k = fw k" "sv ?k = sv k" "me ?k = me k"
    by (simp_all add: view_simps)
  have st: "st ?k i = (if i = t \<and> wt k t AND bits \<noteq> 0 \<and> st k t = Some Blocked then Some Runnable else st k i)" for i
    using True by (simp add: view_simps)
  have ps: "ps ?k i = (if i = t then ps k t OR bits else ps k i)" if "i < MAX_TASKS" for i
    using that True sz(10)
    by (cases "wanted (knotify k) ! t AND bits = 0")
      (simp_all add: post_def Let_def request_reschedule_def view_simps, simp_all add: ps_def)
  have armed: "target_of (pn k t) = None" "t \<noteq> me k" if "wt k t \<noteq> 0"
    using armed_target [OF i True _ that] quiet that by (auto simp: quiet_def)
  have "corresponds {} ?k t"
    using invD(3) [OF i True] armed(1) same st by (cases "wt k t = 0") (auto simp: corresponds_def)
  moreover have "parked (sv k t) ?k t" if "t \<noteq> me k"
  proof -
    have p: "parked (sv k t) k t" by (rule invD(4) [OF i True that])
    show ?thesis
    proof (cases "wt k t AND bits = 0")
      case True
      then have "wt k t AND (ps k t OR bits) = wt k t AND ps k t" by (simp add: bit.conj_disj_distrib)
      with True p same st ps [OF \<open>t < MAX_TASKS\<close>] show ?thesis
        by (cases "sv k t") (simp_all add: parked_def quiet_def)
    next
      case False
      then have "wt k t \<noteq> 0" by auto
      with False p same st show ?thesis
        by (cases "sv k t") (auto simp: parked_def quiet_def)
    qed
  qed
  ultimately have "inv ?k"
    using same st ps sized home
    by (intro inv_slot [OF i sized home, where s = t]) auto
  then show ?thesis
    using quiet same st armed(2) assms by (auto simp: thread_inv_def quiet_def)
qed (use assms in \<open>simp add: post_def\<close>)

lemma on_irq_inv: "thread_inv k \<Longrightarrow> thread_inv (snd (on_irq intid k))"
  by (auto simp: on_irq_def post_inv split: option.splits)

lemma same_views_devices:
  "same_views k (k\<lparr>ktimer := t\<rparr>)" "same_views k (k\<lparr>kgic := g\<rparr>)" "same_views k (k\<lparr>kresched := b\<rparr>)"
  "same_views k (k\<lparr>kconsole := c\<rparr>)" "same_views k (k\<lparr>kprivileged := n\<rparr>)" "same_views k (k\<lparr>kprobe := e\<rparr>)"
  "same_views k (k\<lparr>ksupervisor := s\<rparr>)" "same_views k (set_phys p k)" "same_views k (set_my_frame f k)"
  "same_views k (set_results r k)" "same_views k k"
  by (cases r; auto simp: same_views_def view_simps set_phys_def set_results_def set_my_frame_def sized_def me_def)+

lemma thread_inv_devices [simp]:
  assumes "thread_inv k"
  shows "thread_inv (k\<lparr>ktimer := t\<rparr>)" "thread_inv (k\<lparr>kgic := g\<rparr>)" "thread_inv (k\<lparr>kresched := b\<rparr>)"
    "thread_inv (k\<lparr>kconsole := c\<rparr>)" "thread_inv (k\<lparr>kprivileged := n\<rparr>)" "thread_inv (k\<lparr>kprobe := e\<rparr>)"
    "thread_inv (k\<lparr>ksupervisor := s\<rparr>)" "thread_inv (set_phys p k)" "thread_inv (set_my_frame f k)"
    "thread_inv (set_results r k)"
  by (rule same_views_inv(3) [OF _ assms], rule same_views_devices)+

lemma switch_result_inv:
  assumes "thread_inv k" "kont \<in> {K_kernel, K_yield, K_preempted, K_reply}"
  shows "result_inv (and_then (switch_to_next r kont k) (\<lambda>k. Some (Some x, k)))"
proof (rule and_then_inv)
  have r: "ready kont k" using assms thread_ready by blast
  show "switched_inv k'" if "switch_to_next r kont k = Some (True, k')" for k'
    using switch_inv(1) [OF r that] by simp
  show "result_inv (Some (Some x, k'))" if "switch_to_next r kont k = Some (False, k')" for k'
    using switch_inv(2) [OF r that] assms(2) ready_thread [of kont k'] by (auto simp: result_inv_def)
qed

lemma preempt_inv:
  assumes "thread_inv k"
  shows "result_inv (and_then (preempt_if_needed k) (\<lambda>k. Some (Some x, k)))"
  using assms switch_result_inv [of "k\<lparr>kresched := False\<rparr>" K_preempted Preemptive x]
  by (auto simp: preempt_if_needed_def and_then_def)

lemma on_tick_inv: "thread_inv k \<Longrightarrow> on_tick k = Some k' \<Longrightarrow> thread_inv k'"
  by (auto simp: on_tick_def bind_eq_Some_conv request_reschedule_def)

lemma dispatch_irq_inv:
  assumes "thread_inv k"
  shows "result_inv (dispatch_irq intid k)"
proof (cases "intid = SPURIOUS_INTID")
  case False
  let ?k = "snd (on_irq intid k)"
  have t: "thread_inv ?k" by (rule on_irq_inv [OF assms])
  have step: "dispatch_irq intid k = (do {
      k \<leftarrow> (if intid = TIMER_INTID then on_tick ?k else Some ?k);
      g \<leftarrow> end_of_interrupt (kphys k) intid (kgic k);
      and_then (preempt_if_needed (k\<lparr>kgic := g\<rparr>)) (\<lambda>k. Some (Some (), k)) })"
    using False by (simp add: dispatch_irq_def split_beta Let_def)
  show ?thesis
  proof (cases "if intid = TIMER_INTID then on_tick ?k else Some ?k")
    case (Some k1)
    then have t1: "thread_inv k1" using t on_tick_inv by (auto split: if_splits)
    show ?thesis
    proof (cases "end_of_interrupt (kphys k1) intid (kgic k1)")
      case (Some g)
      with \<open>(if intid = TIMER_INTID then on_tick ?k else Some ?k) = Some k1\<close>
      show ?thesis unfolding step using preempt_inv [of "k1\<lparr>kgic := g\<rparr>"] t1 by simp
    qed (use Some in \<open>simp add: step\<close>)
  qed (simp add: step)
qed (simp add: dispatch_irq_def assms)

section \<open>Creating, restarting and removing tasks\<close>

text \<open>Changes that keep what a task is to the others: whether it is alive, and whether blocked.\<close>

lemma alike_inv:
  assumes "\<And>i. live (st k' i) = live (st k i)" "\<And>i. (st k' i = Some Blocked) = (st k i = Some Blocked)"
    and v: "pn k' = pn k" "wt k' = wt k" "fw k' = fw k" "sv k' = sv k" "me k' = me k"
    and "sized k'" and ps: "ps k' = ps k" and "home k'"
  shows "inv_but D k \<Longrightarrow> inv_but D k'" "thread_inv k \<Longrightarrow> thread_inv k'"
proof -
  have p: "parked kont k' i = parked kont k i" "corresponds D k' i = corresponds D k i" "quiet k' i = quiet k i"
    for kont i D
    by (rule parked_cong corresponds_cong, simp_all only: assms v ps)+ (simp only: quiet_def v)
  show i: "inv_but D k \<Longrightarrow> inv_but D k'" for D
    using v p assms(8,10) by (simp add: inv_but_def)
  have "st k' j = Some Runnable" if "st k j = Some Runnable" for j
    using assms(1,2) [of j] that by (auto simp: live_def)
  then show "thread_inv k \<Longrightarrow> thread_inv k'"
    using v p i by (simp add: thread_inv_def)
qed

lemma not_live_quiet: "parked kont k i \<Longrightarrow> \<not> live (st k i) \<Longrightarrow> quiet k i"
  by (cases kont) (simp_all add: parked_def)

text \<open>A slot that had no live task gets a task that has never run.\<close>

lemma inv_renew:
  assumes t: "thread_inv k" and "sized k'" "home k'" "me k' = me k" "s < MAX_TASKS"
    and others: "\<And>i. i \<noteq> s \<Longrightarrow> st k' i = st k i \<and> sv k' i = sv k i"
    and same: "pn k' = pn k" "wt k' = wt k" "fw k' = fw k" "ps k' = ps k"
    and here: "\<not> live (st k s)" "st k' s = Some Runnable" "sv k' s = K_fresh e a"
  shows "thread_inv k'"
proof -
  have i: "inv k" and r: "st k (me k) = Some Runnable" using t by (simp_all add: thread_inv_def)
  have s: "s \<noteq> me k" using here(1) r by auto
  have q: "quiet k s" using not_live_quiet [OF invD(4) [OF i assms(5) s] here(1)] .
  have "corresponds {} k' j" if "j < MAX_TASKS" for j
  proof (cases "j = s")
    case True
    then show ?thesis using q same by (simp add: quiet_def corresponds_def)
  next
    case False
    have "live (st k x) \<Longrightarrow> live (st k' x)" for x using others here by (cases "x = s") auto
    with invD(3) [OF i that] others [OF False] show ?thesis by (auto simp: corresponds_def same)
  qed
  moreover have "parked (sv k' j) k' j" if "j < MAX_TASKS" "j \<noteq> me k" for j
  proof (cases "j = s")
    case True
    then show ?thesis using q same here by (simp add: quiet_def parked_def)
  next
    case False
    have "parked (sv k j) k' j = parked (sv k j) k j"
      using others [OF False] same by (intro parked_cong) simp_all
    then show ?thesis using invD(4) [OF i that] others [OF False] by simp
  qed
  ultimately have "inv k'" using assms(2-4) by (simp add: inv_but_def)
  then show ?thesis
    using t same others [OF s [symmetric]] assms(4) by (simp add: thread_inv_def quiet_def)
qed

lemma st_set_task_eq:
  "st k' = st (on_sched (set_task s t) k) \<Longrightarrow> s < length (tasks (ksched k)) \<Longrightarrow>
     st k' i = (if i = s then map_option task_state t else st k i)"
  by (simp add: st_set_task)

text \<open>Planting a new task in a slot, with its memory and its entry point.\<close>

lemma plant_inv:
  assumes "thread_inv k" "s < MAX_TASKS" "s \<noteq> 0" "\<not> live (st k s)" "task_state t = Runnable"
    and k': "k' = on_sched f (k\<lparr>kmach := m, ksaved := (ksaved k)[s := K_fresh e a]\<rparr>)"
    and f: "f (ksched k) = set_task s (Some t) sc" "current sc = current (ksched k)"
      "length (tasks sc) = length (tasks (ksched k))" "\<And>i. i \<noteq> s \<Longrightarrow> task_at sc i = task_at (ksched k) i"
  shows "thread_inv k'"
proof -
  have i: "inv k" using assms(1) by (simp add: thread_inv_def)
  note sz = sizedD [OF invD(1) [OF i]]
  have at: "task_at (ksched k') i = (if i = s then Some t else task_at (ksched k) i)" for i
    using f sz(1) assms(2) by (simp add: k' on_sched_def task_at_set_task)
  show ?thesis
  proof (rule inv_renew [OF assms(1), where s = s])
    show "me k' = me k" using f by (simp add: k' on_sched_def me_def)
    show "sized k'" using invD(1) [OF i] f by (simp add: k' on_sched_def sized_def me_def)
    show "home k'" using invD(2) [OF i] at assms(3) by (simp add: home_def st_def space_root_of_def)
    show "st k' i = st k i \<and> sv k' i = sv k i" if "i \<noteq> s" for i
      using that at by (simp add: st_def sv_def k' on_sched_def)
    show "pn k' = pn k" "wt k' = wt k" "fw k' = fw k" "ps k' = ps k"
      by (simp_all add: k' on_sched_def pn_def wt_def fw_def ps_def fun_eq_iff)
    show "st k' s = Some Runnable" using at assms(5) by (simp add: st_def)
    show "sv k' s = K_fresh e a" using sz(6) assms(2) by (simp add: k' on_sched_def sv_def)
  qed (use assms in simp_all)
qed

lemma free_slot_Some:
  assumes "free_slot s = Some i"
  shows "i < length (tasks s)" "task_at s i = None"
  using assms by (auto simp: free_slot_def position_Some task_at_def)

lemma home_live: "home k \<Longrightarrow> \<not> live (st k s) \<Longrightarrow> s \<noteq> 0"
  by (intro notI) (simp add: home_def)

lemma spawn_in_inv:
  assumes "spawn_in c nm e a sp p k = Some (slot, k')" "thread_inv k"
  shows "thread_inv k'" "slot < MAX_TASKS" "st k' slot = Some Runnable" "st k slot = None"
    "task_at (ksched k') slot \<noteq> None"
proof -
  have i: "inv k" using assms(2) by (simp add: thread_inv_def)
  note sz = sizedD [OF invD(1) [OF i]]
  obtain stack tsp m ph where plant: "free_slot (ksched k) = Some slot"
    "k' = on_sched (set_task slot (Some \<lparr>task_name = nm, task_space = sp, task_sp = tsp,
        task_stack = stack, owns_stack = True, task_priority = p, task_state = Runnable,
        task_exit = None, task_fault = None, task_image = None\<rparr>))
      (k\<lparr>kmach := m\<lparr>mphys := ph\<rparr>, ksaved := (ksaved k)[slot := K_fresh e a]\<rparr>)"
    using assms(1) by (auto simp: spawn_in_def Let_def bind_eq_Some_conv)
  then obtain m t where s: "free_slot (ksched k) = Some slot" "task_state t = Runnable"
    "k' = on_sched (set_task slot (Some t)) (k\<lparr>kmach := m, ksaved := (ksaved k)[slot := K_fresh e a]\<rparr>)"
    by (metis task.select_convs(7))
  note f = free_slot_Some [OF s(1)]
  have l: "slot < MAX_TASKS" "st k slot = None" using f sz(1) by (simp_all add: st_None)
  then have "slot \<noteq> 0" using invD(2) [OF i] home_live [of k slot] by simp
  with l s(2) show "thread_inv k'"
    by (intro plant_inv [OF assms(2) l(1) _ _ s(2,3)]) simp_all
  show "slot < MAX_TASKS" "st k slot = None" using l by simp_all
  show "st k' slot = Some Runnable" "task_at (ksched k') slot \<noteq> None"
    using f(1) s(2) by (simp_all add: s(3) st_def on_sched_def task_at_set_task)
qed

text \<open>Changing a task without changing its state or its address space.\<close>

lemma update_inv:
  assumes "thread_inv k" "\<And>t. task_state (f t) = task_state t" "\<And>t. task_space (f t) = task_space t"
  shows "thread_inv (on_sched (update_task s f) k)" (is "thread_inv ?k")
proof -
  have i: "inv k" using assms(1) by (simp add: thread_inv_def)
  have at: "task_at (ksched ?k) i = (if i = s then map_option f (task_at (ksched k) s) else task_at (ksched k) i)" for i
    by (simp add: on_sched_def task_at_update_task)
  have st: "st ?k i = st k i" for i
    using assms(2) at [of i] by (cases "task_at (ksched k) s") (auto simp: st_def)
  have "space_root_of 0 ?k = space_root_of 0 k"
    using assms(3) at [of 0] by (cases "task_at (ksched k) s") (auto simp: space_root_of_def)
  then have home: "home ?k" using invD(2) [OF i] st by (simp add: home_def)
  have same: "pn ?k = pn k" "wt ?k = wt k" "fw ?k = fw k" "sv ?k = sv k" "me ?k = me k" "sized ?k" "ps ?k = ps k"
    using invD(1) [OF i] by (simp_all add: view_simps) (simp add: me_def)
  show ?thesis by (rule alike_inv(2) [OF _ _ same home assms(1)]) (simp_all only: st)
qed

lemma thread_kmach [simp]: "thread_inv k \<Longrightarrow> thread_inv (k\<lparr>kmach := m\<rparr>)"
  by (erule same_views_inv(3) [rotated]) (auto simp: same_views_def sized_def me_def)

lemma spawn_user_program_inv:
  assumes "spawn_user_program c nm a b arg p k = Some (slot, k')" "thread_inv k"
  shows "thread_inv k'" "slot < MAX_TASKS"
proof -
  obtain space m k1 where s: "spawn_in c nm (user_task_entry c) USER_TEXT_VA (Some space) p (k\<lparr>kmach := m\<rparr>) = Some (slot, k1)"
    "k' = on_sched (update_task slot (\<lambda>t. t\<lparr>task_image := Some \<lparr>img_start = a, img_end = b, img_arg = arg\<rparr>\<rparr>)) k1"
    using assms(1) by (auto simp: spawn_user_program_def bind_eq_Some_conv)
  from spawn_in_inv(1,2) [OF s(1)] assms(2) show "thread_inv k'" "slot < MAX_TASKS"
    unfolding s(2) by (auto intro!: update_inv)
qed

lemma thread_abandon:
  assumes "thread_inv k" "abandon g k = Some k'"
  shows "thread_inv k'" "me k' = me k" "\<And>i. \<not> live (st k i) \<Longrightarrow> i < MAX_TASKS \<Longrightarrow> st k' i = st k i"
    "g < MAX_TASKS"
proof -
  have i: "inv k" using assms(1) by (simp add: thread_inv_def)
  note v = abandon_view [OF assms(2) invD(1) [OF i]]
  have m: "me k < MAX_TASKS" by (rule sizedD(2) [OF invD(1) [OF i]])
  have "inv k'" by (rule abandon_inv [OF assms(2) i])
  then show "thread_inv k'"
    using assms(1) v(2,3) [OF m] v(4-7) by (auto simp: thread_inv_def quiet_def waiting_on_def)
  show "me k' = me k" "g < MAX_TASKS" by fact+
  show "\<And>i. \<not> live (st k i) \<Longrightarrow> i < MAX_TASKS \<Longrightarrow> st k' i = st k i"
    using v(3) by (auto simp: live_def)
qed

lemma restart_inv:
  assumes "restart c slot k = Some (r, k')" "thread_inv k"
  shows "thread_inv k'"
proof -
  obtain k1 where a: "abandon slot k = Some k1"
    using assms(1) by (auto simp: restart_def bind_eq_Some_conv)
  note t1 = thread_abandon [OF assms(2) a]
  have i1: "inv k1" using t1(1) by (simp add: thread_inv_def)
  show ?thesis
  proof (cases "\<exists>t img. task_at (ksched k1) slot = Some t \<and> task_state t = Faulted \<and> task_image t = Some img")
    case False
    then have "k' = k1"
      using assms(1) a by (auto simp: restart_def split: option.splits if_splits)
    with t1 show ?thesis by simp
  next
    case True
    then obtain t img where t: "task_at (ksched k1) slot = Some t" "task_state t = Faulted"
      "task_image t = Some img" by blast
    define sc where "sc = set_task slot (Some (t\<lparr>task_space := None\<rparr>)) (ksched k1)"
    obtain m t' where k': "task_state t' = Runnable"
      "k' = on_sched (set_task slot (Some t')) ((on_sched (set_task slot (Some (t\<lparr>task_space := None\<rparr>))) k1)
        \<lparr>kmach := m, ksaved := (ksaved k1)[slot := K_fresh (user_task_entry c) USER_TEXT_VA]\<rparr>)"
      using assms(1) a t
      by (auto simp: restart_def Let_def bind_eq_Some_conv on_sched_def intro!: that)
    have dead: "\<not> live (st k1 slot)" using t by (simp add: st_def)
    have home: "slot \<noteq> 0" by (rule home_live [OF invD(2) [OF i1] dead])
    have "k' = on_sched (\<lambda>_. set_task slot (Some t') sc)
        (k1\<lparr>kmach := m, ksaved := (ksaved k1)[slot := K_fresh (user_task_entry c) USER_TEXT_VA]\<rparr>)"
      by (simp add: k'(2) on_sched_def sc_def)
    from plant_inv [OF t1(1,4) home dead k'(1) this, of sc] show ?thesis
      by (auto simp: sc_def task_at_set_task)
  qed
qed

lemma kill_inv:
  assumes "kill slot k = Some k'" "thread_inv k"
  shows "thread_inv k'"
proof (cases "k' = k")
  case False
  have i: "inv k" using assms(2) by (simp add: thread_inv_def)
  obtain t where t: "slot < length (tasks (ksched k))" "tasks (ksched k) ! slot = Some t" "task_state t = Faulted"
    "k' = on_sched (set_task slot (Some (t\<lparr>task_state := Zombie\<rparr>))) k"
    using assms(1) False by (auto simp: kill_def idx_def bind_eq_Some_conv split: option.splits if_splits)
  have st: "st k slot = Some Faulted" using t by (simp add: st_def task_at_def)
  then have "slot \<noteq> 0" using invD(2) [OF i] home_live [of k slot] by simp
  then have "home k'" unfolding t(4) by (intro home_set_state invD(2) [OF i])
  moreover have "st k' i = (if i = slot then Some Zombie else st k i)" for i
    using t by (simp add: view_simps)
  moreover have "pn k' = pn k" "wt k' = wt k" "fw k' = fw k" "sv k' = sv k" "me k' = me k" "sized k'"
    "ps k' = ps k"
    using invD(1) [OF i] by (simp_all add: t(4) view_simps) (simp add: me_def)
  ultimately show ?thesis
    using st by (intro alike_inv(2) [OF _ _ _ _ _ _ _ _ _ _ assms(2)]) auto
qed (use assms in simp)

lemma release_dead_inv:
  assumes "thread_inv k"
  shows "thread_inv (snd (release_dead k))"
proof -
  have i: "inv k" using assms by (simp add: thread_inv_def)
  note sz = sizedD [OF invD(1) [OF i]]
  let ?dead = "\<lambda>slot. slot \<noteq> current (ksched k) \<and>
    (case task_at (ksched k) slot of None \<Rightarrow> False | Some t \<Rightarrow> task_state t = Dead)"
  have fold: "task_at (fold (\<lambda>slot. set_task slot None) xs s) i =
      (if i \<in> set xs \<and> i < length (tasks s) then None else task_at s i)" for xs s i
    by (induction xs arbitrary: s) (auto simp: task_at_set_task)
  have len: "length (tasks (fold (\<lambda>slot. set_task slot None) xs s)) = length (tasks s)"
    "current (fold (\<lambda>slot. set_task slot None) xs s) = current s" for xs s
    by (induction xs arbitrary: s) simp_all
  define k' where "k' = snd (release_dead k)"
  have k': "k' = on_sched (\<lambda>s. fold (\<lambda>slot. set_task slot None) (filter ?dead [0..<MAX_TASKS]) s) k"
    by (simp add: k'_def release_dead_def Let_def)
  have at: "task_at (ksched k') i = (if i < MAX_TASKS \<and> ?dead i then None else task_at (ksched k) i)" for i
    using sz(1) by (simp add: k' on_sched_def fold del: upt.simps)
  have live: "live (st k' i) = live (st k i)" "(st k' i = Some Blocked) = (st k i = Some Blocked)" for i
    using at [of i] by (auto simp: st_def split: option.splits)
  have "home k'"
    using invD(2) [OF i] at [of 0] by (auto simp: home_def st_def space_root_of_def split: if_splits)
  moreover have "pn k' = pn k" "wt k' = wt k" "fw k' = fw k" "sv k' = sv k" "me k' = me k" "sized k'"
    "ps k' = ps k"
    using invD(1) [OF i]
    by (simp_all add: k' view_simps len del: upt.simps) (simp_all add: me_def)
  ultimately have "thread_inv k'"
    using live by (intro alike_inv(2) [OF _ _ _ _ _ _ _ _ _ _ assms]) simp_all
  then show ?thesis by (simp add: k'_def)
qed

section \<open>System calls and exceptions\<close>

lemma finish_inv: "result_inv r \<Longrightarrow> result_inv (finish f r)"
  by (cases r) (auto simp: finish_def result_inv_def split: option.splits)

lemma plain_inv: "(\<And>x k'. r = Some (x, k') \<Longrightarrow> thread_inv k') \<Longrightarrow> result_inv (plain r)"
  by (auto simp: plain_def result_inv_def split: option.splits)

lemma sys_write_inv: "thread_inv k \<Longrightarrow> sys_write fd buf len k = Some (r, k') \<Longrightarrow> thread_inv k'"
  by (auto simp: sys_write_def Let_def bind_eq_Some_conv assert_that_def uart_write_str_def
    split: if_splits option.splits)

lemma borrow_state:
  assumes "borrow peer index offset loc len w k = Some (r, k')"
  shows "k' = k \<or> (\<exists>p. k' = set_phys p k)"
proof (cases "granted_lease (unat peer) index k")
  case None
  then show ?thesis using assms by (auto simp: borrow_def split: if_splits)
next
  case (Some l)
  show ?thesis
    using assms Some
    by (auto simp: borrow_def bind_eq_Some_conv split: if_splits option.splits)
qed

lemma borrow_inv: "thread_inv k \<Longrightarrow> borrow peer index offset loc len w k = Some (r, k') \<Longrightarrow> thread_inv k'"
  using borrow_state by fastforce

lemma sys_fault_wait_inv:
  assumes "thread_inv k" "me k \<noteq> 0"
  shows "result_inv (sys_fault_wait k)"
  using assms wait_for_fault_inv [of k] by (cases "wait_for_fault k") (auto simp: sys_fault_wait_def)

lemma sys_restart_inv: "thread_inv k \<Longrightarrow> sys_restart c slot k = Some (r, k') \<Longrightarrow> thread_inv k'"
  using restart_inv by (fastforce simp: sys_restart_def bind_eq_Some_conv split: if_splits)

lemma sys_yield_inv: "thread_inv k \<Longrightarrow> result_inv (sys_yield k)"
  unfolding sys_yield_def yield_now_def by (rule switch_result_inv) simp_all

lemma sys_fault_info_inv: "thread_inv k \<Longrightarrow> result_inv (map_option (\<lambda>r. (Some r, k)) (sys_fault_info s k))"
  by (cases "sys_fault_info s k") simp_all

lemma dispatch_inv:
  assumes "thread_inv k" "me k \<noteq> 0"
  shows "result_inv (dispatch c k)"
proof -
  note calls = exit_current_inv [OF assms] send_inv [OF assms(1)] recv_inv [OF assms(1)]
    reply_inv [OF assms(1)] sys_fault_wait_inv [OF assms] sys_yield_inv [OF assms(1)]
    sys_fault_info_inv [OF assms(1)]
  have plain: "result_inv (plain (sys_write a b d k))" "result_inv (plain (borrow_read a b d e f k))"
    "result_inv (plain (borrow_write a b d e f k))" "result_inv (plain (sys_restart c a k))" for a b d e f
    using assms(1)
    by (auto intro!: plain_inv simp: borrow_read_def borrow_write_def
      dest: sys_write_inv borrow_inv sys_restart_inv)
  have now: "result_inv (Some (Some x, k))" for x :: u64 using assms(1) by simp
  show ?thesis
    unfolding dispatch_def Let_def
    using calls(1) finish_inv [OF calls(2)] finish_inv [OF calls(3)] finish_inv [OF calls(4)]
      finish_inv [OF calls(5)] finish_inv [OF calls(6)] finish_inv [OF calls(7)]
      plain [THEN finish_inv] finish_inv [OF now]
    by (simp only: if_split) blast
qed

lemma switched_ready: "switched_inv k \<Longrightarrow> ready (sv k (me k)) k \<and> st k (me k) = Some Runnable"
  by (simp add: switched_inv_def ready_def)

lemma resume_recv_inv:
  assumes "ready (K_recv b c w) k" "st k (me k) = Some Runnable"
  shows "result_inv (do {
      (r, k) \<leftarrow> recv_woken k;
      case r of None \<Rightarrow> recv_loop b c w k | Some r \<Rightarrow> Some (Some r, k) })"
proof (cases "recv_woken k")
  case (Some p)
  obtain r k' where p: "p = (r, k')" by fastforce
  note w = recv_woken_inv [OF assms Some [unfolded p]]
  have "me k \<noteq> 0" using assms(1) by (simp add: ready_def parked_def)
  then have "result_inv (recv_loop b c w k')"
    using recv_loop_inv [of b c w k'] w by (cases "recv_loop b c w k'") simp_all
  then show ?thesis using Some p w by (cases r) simp_all
qed simp

text \<open>A task that has just been switched to runs on consistently.\<close>

lemma resume_inv:
  assumes "switched_inv k"
  shows "result_inv (resume k)"
proof -
  have r: "ready (sv k (me k)) k" "st k (me k) = Some Runnable"
    using switched_ready [OF assms] by simp_all
  note thread = ready_thread [OF r]
  show ?thesis
  proof (cases "sv k (me k)")
    case (K_fresh e a)
    then have "thread_inv k" using r by (simp add: ready_def thread_inv_def parked_def)
    then show ?thesis using K_fresh by (simp add: resume_def sv_def)
  next
    case K_dead
    then show ?thesis using r by (auto simp: ready_def parked_def)
  next
    case K_send_woke
    then have "ready K_send k" using r ready_send_woke by simp
    from finish_inv [OF send_park_inv [OF this]] show ?thesis using K_send_woke by (simp add: resume_def sv_def)
  next
    case K_send
    with r have "thread_inv k" by (intro woken_sender) simp_all
    from finish_inv [OF send_woken_inv [OF this]] show ?thesis using K_send by (simp add: resume_def sv_def)
  next
    case (K_recv b c w)
    then have "ready (K_recv b c w) k" using r by simp
    from finish_inv [OF resume_recv_inv [OF this r(2)]] show ?thesis using K_recv by (simp add: resume_def sv_def)
  next
    case (K_recv_refused b c w)
    then have "thread_inv k" "me k \<noteq> 0" using r thread by (simp_all add: ready_def parked_def)
    then have "result_inv (recv_loop b c w k)"
      using recv_loop_inv [of b c w k] by (cases "recv_loop b c w k") simp_all
    from finish_inv [OF this] show ?thesis using K_recv_refused by (simp add: resume_def sv_def)
  next
    case K_fault_wait
    then have k: "ready K_fault_wait k" using r by simp
    let ?k = "set_waiter (me k) False k"
    have "me ?k \<noteq> 0" using k by (simp add: ready_def parked_def view_simps)
    with fault_wait_over [OF k r(2)] have "result_inv (wait_for_fault ?k)"
      using wait_for_fault_inv [of ?k] by (cases "wait_for_fault ?k") simp_all
    from finish_inv [OF this] show ?thesis using K_fault_wait by (simp add: resume_def sv_def)
  qed (use thread in \<open>auto simp: resume_def sv_def intro: finish_inv\<close>)
qed

lemma step_over_inv: "thread_inv k \<Longrightarrow> step_over k = Some k' \<Longrightarrow> thread_inv k'"
  by (auto simp: step_over_def bind_eq_Some_conv)

text \<open>
  An exception is handled consistently. One from EL0, or a system call, comes from a task with an
  address space.
\<close>

lemma handle_exception_inv:
  assumes "thread_inv k"
    and "from_lower_el v \<or> exception_class (Syndrome (tf_esr (my_frame k))) = EC_SVC64 \<Longrightarrow>
      \<not> is_irq v \<Longrightarrow> me k \<noteq> 0"
  shows "result_inv (handle_exception c v intid k)"
proof -
  have over: "result_inv (do { k \<leftarrow> step_over k'; Some (Some (), k) })" if "thread_inv k'" for k'
    using step_over_inv [OF that] by (cases "step_over k'") simp_all
  show ?thesis
    using dispatch_irq_inv [OF assms(1)] dispatch_inv [OF assms(1)] fault_current_inv [OF assms(1)]
      assms over
    by (simp add: handle_exception_def Let_def)
qed

text \<open>Kernel threads may block, and wake one another.\<close>

lemma block_current_inv:
  assumes "thread_inv k" "me k \<noteq> 0"
  shows "result_inv (and_then (block_current k) (\<lambda>k. Some (Some x, k)))"
proof -
  let ?k = "mark_current_blocked k"
  have i: "inv k" using assms(1) by (simp add: thread_inv_def)
  have same: "pn ?k = pn k" "wt ?k = wt k" "fw ?k = fw k" "sv ?k = sv k" "me ?k = me k" "sized ?k" "ps ?k = ps k"
    using invD(1) [OF i] by (simp_all add: view_simps)
  have st: "st ?k i = (if i = me k then Some Blocked else st k i)" for i
    using assms(1) by (simp add: view_simps thread_inv_def)
  have "home ?k" using invD(2) [OF i] assms(2) st by (simp add: home_def)
  then have "inv ?k"
    using assms(1) same st by (intro inv_slot [OF i same(6), where s = "me k"])
      (auto simp: thread_inv_def quiet_def intro: corresponds_None)
  then have r: "ready K_kernel ?k"
    using assms(1) same st by (simp add: ready_def parked_def thread_inv_def quiet_def)
  show ?thesis
    unfolding block_current_def
  proof (rule and_then_inv)
    fix k' assume p: "park K_kernel ?k = Some (False, k')"
    have "st ?k (me ?k) = Some Blocked" using st same by simp
    with park_inv(2) [OF r p] have "thread_inv k'" by (auto intro: ready_thread)
    then show "result_inv (Some (Some x, k'))" by simp
  qed (use park_inv(1) [OF r] in blast)
qed

lemma unblock_kernel_inv:
  assumes "thread_inv k" "s \<noteq> me k" "s < MAX_TASKS" "sv k s = K_kernel"
  shows "result_inv (and_then (unblock K_kernel s k) (\<lambda>k. Some (Some x, k)))"
proof -
  have i: "inv k" using assms(1) by (simp add: thread_inv_def)
  have "target_of (pn k s) = None"
    using invD(4) [OF i assms(3,2)] assms(4) by (simp add: parked_def quiet_def)
  note u = unblock_inv [OF thread_ready [OF assms(1)] this assms(2), of K_kernel]
  show ?thesis
  proof (rule and_then_inv)
    fix k' assume p: "unblock K_kernel s k = Some (False, k')"
    have "st k (me k) = Some Runnable" using assms(1) by (simp add: thread_inv_def)
    with u(2) [OF _ p] have "thread_inv k'" by (intro ready_thread [of K_kernel]) simp_all
    then show "result_inv (Some (Some x, k'))" by simp
  qed (use u(1) in blast)
qed

text \<open>x\<close>

end
