(* ===== verification/Machine.thy ===== *)
theory Machine
  imports Invariant
begin

text \<open>
  The running machine: which operations of the kernel follow one another, and what holds in
  every state the machine reaches.

  The core is either in a thread (a task in its own code, or a kernel thread between two calls
  into the kernel) or has just been switched to a task, which is about to continue from where it
  gave up the CPU. A \<open>step\<close> is

  \<^item> an exception from EL0, with any trap frame: the task's registers, the syndrome and the
    acknowledged interrupt are whatever they are;
  \<^item> an exception taken by a kernel thread, other than a system call;
  \<^item> a store of a user task to memory its own tables let it write;
  \<^item> a call of a kernel thread: creating tasks, killing, restarting, yielding, blocking, waking
    another kernel thread, releasing slots, naming a supervisor, routing an interrupt, posting a
    notification, returning from its entry function;
  \<^item> the counter running on;
  \<^item> the continuation of the task that was switched to.

  A call of a kernel thread is one step, though an interrupt may come between two of the locked
  sections it is made of.
\<close>

section \<open>Steps\<close>

datatype mode = Thread | Switched

text \<open>How a handler that returned or switched leaves the core.\<close>

definition lands :: "('a option \<times> kernel) option \<Rightarrow> mode \<times> kernel \<Rightarrow> bool" where
  "lands r s \<longleftrightarrow> (case r of None \<Rightarrow> False
     | Some (Some _, k) \<Rightarrow> s = (Thread, k) | Some (None, k) \<Rightarrow> s = (Switched, k))"

text \<open>Before the first task: the tables empty, nothing on any stack.\<close>

definition cold :: "kernel \<Rightarrow> bool" where
  "cold k \<longleftrightarrow> ksched k = scheduler_new \<and> ktable k = ipc_table_new \<and> knotify k = notify_new \<and>
     ksupervisor k = None \<and> kwaiters k = replicate MAX_TASKS False \<and>
     ksaved k = replicate MAX_TASKS K_kernel \<and> length (ktraps k) = MAX_TASKS"

definition boot :: "kernel \<Rightarrow> kernel option" where
  "boot k = do { k \<leftarrow> init_address_spaces k; tasks_init k }"

definition user_store :: "u64 \<Rightarrow> u8 \<Rightarrow> kernel \<Rightarrow> kernel option" where
  "user_store va b k = do {
     root \<leftarrow> space_root_of (me k) k;
     ok \<leftarrow> user_writable (kphys k) root va 1;
     assert_that ok;
     pa \<leftarrow> translate (kphys k) root va;
     Some (set_phys ((kphys k)\<lparr>pmem := (pmem (kphys k))(pa := b)\<rparr>) k)
   }"

definition is_svc :: "trap_frame \<Rightarrow> bool" where
  "is_svc f \<longleftrightarrow> exception_class (Syndrome (tf_esr f)) = EC_SVC64"

inductive step :: "code \<Rightarrow> mode \<times> kernel \<Rightarrow> mode \<times> kernel \<Rightarrow> bool" for c where
  user_trap: "space_root_of (me k) k \<noteq> None \<Longrightarrow> from_lower_el v \<Longrightarrow>
    lands (handle_exception c v intid (set_my_frame f k)) s \<Longrightarrow> step c (Thread, k) s"
| kernel_trap: "space_root_of (me k) k = None \<Longrightarrow> \<not> from_lower_el v \<Longrightarrow> is_irq v \<or> \<not> is_svc f \<Longrightarrow>
    lands (handle_exception c v intid (set_my_frame f k)) s \<Longrightarrow> step c (Thread, k) s"
| store: "user_store va b k = Some k' \<Longrightarrow> step c (Thread, k) (Thread, k')"
| create: "space_root_of (me k) k = None \<Longrightarrow> spawn_at c nm entry arg prio k = Some (slot, k') \<Longrightarrow>
    step c (Thread, k) (Thread, k')"
| create_user: "space_root_of (me k) k = None \<Longrightarrow> spawn_user_program c nm start fin arg prio k = Some (slot, k') \<Longrightarrow>
    step c (Thread, k) (Thread, k')"
| kills: "space_root_of (me k) k = None \<Longrightarrow> kill slot k = Some k' \<Longrightarrow> step c (Thread, k) (Thread, k')"
| restarts: "space_root_of (me k) k = None \<Longrightarrow> restart c slot k = Some (r, k') \<Longrightarrow> step c (Thread, k) (Thread, k')"
| release: "space_root_of (me k) k = None \<Longrightarrow> step c (Thread, k) (Thread, snd (release_dead k))"
| supervise: "space_root_of (me k) k = None \<Longrightarrow> step c (Thread, k) (Thread, set_supervisor slot k)"
| routes: "space_root_of (me k) k = None \<Longrightarrow> route_irq intid slot bits (knotify k) = Some n \<Longrightarrow>
    step c (Thread, k) (Thread, k\<lparr>knotify := n\<rparr>)"
| posts: "space_root_of (me k) k = None \<Longrightarrow> step c (Thread, k) (Thread, post slot bits k)"
| yields: "space_root_of (me k) k = None \<Longrightarrow>
    lands (and_then (yield_now K_kernel k) (\<lambda>k. Some (Some (), k))) s \<Longrightarrow> step c (Thread, k) s"
| blocks: "space_root_of (me k) k = None \<Longrightarrow> me k \<noteq> 0 \<Longrightarrow>
    lands (and_then (block_current k) (\<lambda>k. Some (Some (), k))) s \<Longrightarrow> step c (Thread, k) s"
| wakes: "space_root_of (me k) k = None \<Longrightarrow> slot < MAX_TASKS \<Longrightarrow> slot \<noteq> me k \<Longrightarrow> sv k slot = K_kernel \<Longrightarrow>
    lands (and_then (unblock K_kernel slot k) (\<lambda>k. Some (Some (), k))) s \<Longrightarrow> step c (Thread, k) s"
| returns: "space_root_of (me k) k = None \<Longrightarrow> me k \<noteq> 0 \<Longrightarrow> lands (task_finished k) s \<Longrightarrow> step c (Thread, k) s"
| counts: "step c (Thread, k) (Thread, k\<lparr>ktimer := (ktimer k)\<lparr>cntpct := t\<rparr>\<rparr>)"
| continues: "lands (resume k) s \<Longrightarrow> step c (Switched, k) s"

text \<open>\<open>(step c)\<^sup>*\<^sup>* s s'\<close>: the machine gets from \<open>s\<close> to \<open>s'\<close>.\<close>

section \<open>Every reachable state is consistent\<close>

definition consistent :: "mode \<times> kernel \<Rightarrow> bool" where
  "consistent s \<longleftrightarrow> (case s of (Thread, k) \<Rightarrow> thread_inv k | (Switched, k) \<Rightarrow> switched_inv k)"

lemma consistent_simps [simp]:
  "consistent (Thread, k) = thread_inv k" "consistent (Switched, k) = switched_inv k"
  by (simp_all add: consistent_def)

lemma lands_inv: "lands r s \<Longrightarrow> result_inv r \<Longrightarrow> consistent s"
  by (auto simp: lands_def split: option.splits)

lemma boot_inv:
  assumes "cold k" "boot k = Some k'"
  shows "thread_inv k'"
proof -
  obtain m sp r stack where k': "k' = on_sched (\<lambda>s. (set_task 0 (Some
       \<lparr>task_name = ''kernel'', task_space = None, task_sp = 0, task_stack = stack,
        owns_stack = False, task_priority = IDLE, task_state = Runnable, task_exit = None,
        task_fault = None, task_image = None\<rparr>) s)\<lparr>current := 0\<rparr>)
       (k\<lparr>kmach := m, kempty := sp, kregs := r\<rparr>)"
    using assms(2) by (auto simp: boot_def init_address_spaces_def tasks_init_def bind_eq_Some_conv)
  have at: "task_at (ksched k') i = (if i = 0 then Some \<lparr>task_name = ''kernel'', task_space = None,
      task_sp = 0, task_stack = stack, owns_stack = False, task_priority = IDLE,
      task_state = Runnable, task_exit = None, task_fault = None, task_image = None\<rparr> else None)" for i
    using assms(1) by (auto simp: k' cold_def scheduler_new_def on_sched_def set_task_def task_at_def
        nth_list_update MAX_TASKS_def)
  have v: "me k' = 0" "pn k' i = None" "wt k' i = 0" "\<not> fw k' i" "sv k' i = K_kernel" if "i < MAX_TASKS" for i
    using assms(1) that
    by (simp_all add: k' cold_def on_sched_def me_def pn_def wt_def fw_def sv_def ipc_table_new_def notify_new_def)
  have "sized k'"
    using assms(1)
    by (simp add: k' cold_def on_sched_def sized_def me_def scheduler_new_def table_ok_def
      ipc_table_new_def notify_new_def notify_ok_def)
      (simp add: MAX_TASKS_def)
  moreover have "me k' = 0" using v(1) [of 0] by (simp add: MAX_TASKS_def)
  ultimately show ?thesis
    using at v by (auto simp: thread_inv_def inv_but_def home_def st_def space_root_of_def
      corresponds_def parked_def quiet_def sized_def)
qed

lemma user_task: "thread_inv k \<Longrightarrow> space_root_of (me k) k \<noteq> None \<Longrightarrow> me k \<noteq> 0"
  using thread_home by blast

lemma trap_consistent:
  assumes "thread_inv k" "lands (handle_exception c v intid (set_my_frame f k)) s"
    and "from_lower_el v \<or> is_svc f \<Longrightarrow> \<not> is_irq v \<Longrightarrow> me k \<noteq> 0"
  shows "consistent s"
proof (rule lands_inv [OF assms(2)], rule handle_exception_inv)
  show "thread_inv (set_my_frame f k)" using assms(1) by simp
  have "me k < length (ktraps k)" using assms(1) by (simp add: thread_inv_def inv_but_def sized_def)
  then have "my_frame (set_my_frame f k) = f" by (simp add: my_frame_def set_my_frame_def me_def)
  then show "me (set_my_frame f k) \<noteq> 0"
    if "from_lower_el v \<or> exception_class (Syndrome (tf_esr (my_frame (set_my_frame f k)))) = EC_SVC64"
      "\<not> is_irq v"
    using that assms(3) by (simp add: is_svc_def view_simps)
qed

lemma route_inv:
  assumes "thread_inv k" "route_irq intid slot bits (knotify k) = Some n"
  shows "thread_inv (k\<lparr>knotify := n\<rparr>)"
proof -
  have "same_views k (k\<lparr>knotify := n\<rparr>)"
    using assms(2) by (auto simp: route_irq_def bind_eq_Some_conv same_views_def sized_def me_def notify_ok_def)
  from same_views_inv(3) [OF this assms(1)] show ?thesis .
qed

lemma step_consistent: "step c s s' \<Longrightarrow> consistent s \<Longrightarrow> consistent s'"
proof (induction rule: step.induct)
  case (user_trap k v intid f s)
  then show ?case using trap_consistent user_task by simp
next
  case (kernel_trap k v f intid s)
  then show ?case by (intro trap_consistent [OF _ kernel_trap(4)]) auto
next
  case (store va b k k')
  then show ?case by (auto simp: user_store_def assert_that_def bind_eq_Some_conv)
next
  case (create k nm entry arg prio slot k')
  then show ?case by (simp add: spawn_at_def spawn_in_inv(1))
next
  case (create_user k nm start fin arg prio slot k')
  then show ?case by (simp add: spawn_user_program_inv(1))
next
  case (yields k s)
  then show ?case unfolding yield_now_def
    by (intro lands_inv [OF yields(2) [unfolded yield_now_def]] switch_result_inv) simp_all
next
  case (blocks k s)
  then show ?case by (intro lands_inv [OF blocks(3)] block_current_inv) simp_all
next
  case (wakes k slot s)
  then show ?case by (intro lands_inv [OF wakes(5)] unblock_kernel_inv) simp_all
next
  case (returns k s)
  then show ?case using lands_inv [OF returns(3)] task_finished_inv by simp
next
  case (continues k s)
  then show ?case using lands_inv [OF continues(1)] resume_inv by simp
qed (simp_all add: kill_inv restart_inv release_dead_inv set_supervisor_def route_inv post_inv)

lemma steps_consistent: "(step c)\<^sup>*\<^sup>* s s' \<Longrightarrow> consistent s \<Longrightarrow> consistent s'"
  by (induction rule: rtranclp_induct) (auto intro: step_consistent)

section \<open>What this rules out\<close>

lemma consistent_inv: "consistent (m, k) \<Longrightarrow> inv k \<and> st k (me k) = Some Runnable"
  by (cases m) (auto simp: thread_inv_def switched_inv_def)

lemma waiting_blocked:
  assumes "consistent (m, k)" "i < MAX_TASKS" "target_of (pn k i) = Some t"
  shows "st k i = Some Blocked" "i \<noteq> me k" "t < MAX_TASKS" "t \<noteq> i" "live (st k t)"
proof -
  have c: "inv k" "st k (me k) = Some Runnable" using consistent_inv [OF assms(1)] by simp_all
  from invD(3) [OF c(1) assms(2)] assms(3)
  show "st k i = Some Blocked" "t < MAX_TASKS" "t \<noteq> i" "live (st k t)" by (auto simp: corresponds_def)
  with c(2) show "i \<noteq> me k" by auto
qed

lemma blocked_receiver_unposted:
  assumes "consistent (m, k)" "i < MAX_TASKS" "st k i = Some Blocked"
  shows "wt k i AND ps k i = 0"
proof -
  have c: "inv k" "st k (me k) = Some Runnable" using consistent_inv [OF assms(1)] by simp_all
  then have "i \<noteq> me k" using assms(3) by auto
  from invD(4) [OF c(1) assms(2) this] assms(3) show ?thesis
    by (cases "sv k i") (simp_all add: parked_def quiet_def)
qed

section \<open>The example system\<close>

lemma all_slots: "(\<forall>i < MAX_TASKS. P i) \<longleftrightarrow> P 0 \<and> P 1 \<and> P 2 \<and> P 3 \<and> P 4 \<and> P 5 \<and> P 6 \<and> P 7"
  by (simp only: below_MAX_TASKS) blast

definition scene_code :: code where
  "scene_code = \<lparr>task_trampoline = 0x40080000, user_task_entry = 0x40081000\<rparr>"

definition scene_message :: message where
  "scene_message = \<lparr>msg_target = 2, msg_operation = 7, msg_out = 0, msg_out_len = 0, msg_reply_buf = 0,
     msg_reply_cap = 0\<rparr>"

definition scene_calm :: kernel where
  "scene_calm = scene 1 Runnable Runnable None None K_kernel K_kernel"

lemma scene_calm_inv: "consistent (Thread, scene_calm)"
proof -
  have "sized scene_calm" unfolding scene_calm_def by (rule scene_ok) (simp add: MAX_TASKS_def)
  then show ?thesis
    by (simp add: thread_inv_def inv_but_def all_slots home_def corresponds_def parked_def quiet_def
        scene_simps scene_calm_def)
qed

text \<open>The client sends to the server, which gets the CPU.\<close>

lemma scene_send:
  "\<exists>k. step c (Thread, scene_calm) (Switched, k) \<and> pn k 1 = Some (SendWait scene_message) \<and>
     me k = 2 \<and> st k 1 = Some Blocked"
proof -
  have "\<exists>k. handle_exception c (VectorIndex 8) 0
        (set_my_frame (scene_frame [2, 7, 0, 0, 0, 0, 0, 0] 4) scene_calm) = Some (None, k) \<and>
      pn k 1 = Some (SendWait scene_message) \<and> me k = 2 \<and> st k 1 = Some Blocked"
    by (simp add: trap_simps scene_simps scene_calm_def ipc_simps switch_simps scene_message_def)
  then obtain k where k: "handle_exception c (VectorIndex 8) 0
        (set_my_frame (scene_frame [2, 7, 0, 0, 0, 0, 0, 0] 4) scene_calm) = Some (None, k)"
    "pn k 1 = Some (SendWait scene_message)" "me k = 2" "st k 1 = Some Blocked" by blast
  have "step c (Thread, scene_calm) (Switched, k)"
    using k(1)
    by (intro step.user_trap [where v = "VectorIndex 8" and intid = 0 and
          f = "scene_frame [2, 7, 0, 0, 0, 0, 0, 0] 4"])
      (simp_all add: lands_def from_lower_el_def scene_calm_def scene_simps)
  with k show ?thesis by blast
qed

definition cold_kernel :: kernel where
  "cold_kernel = scene_calm\<lparr>kmach := boot_mach, ksched := scheduler_new, ktable := ipc_table_new,
     ksupervisor := None, kempty := None\<rparr>"

lemma cold_kernel_boots: "cold cold_kernel \<and> (\<exists>k. boot cold_kernel = Some k)"
proof -
  have wf: "frames_wf (mframes boot_mach)" using boot_frames_init by simp
  have "card (idle_frames boot_mach) = 65280"
    using card_idle_frames [OF wf] wf_free [OF wf] boot_frames_init by (simp add: free_frames_def)
  then have "idle_frames boot_mach \<noteq> {}" by auto
  from alloc_table [OF wf this] obtain f m where "alloc boot_mach = Some (Some f, m)" by blast
  then show ?thesis
    by (simp add: cold_kernel_def cold_def scene_calm_def scene_def boot_def init_address_spaces_def
        address_space_new_def tasks_init_def frame_from_addr_def FRAME_SIZE_def is_multiple_of_def replicate_MAX_TASKS)
      (simp add: MAX_TASKS_def notify_new_def replicate_MAX_TASKS)
qed

section \<open>Properties\<close>

text \<open>
  C1. From the boot on, whatever the user tasks, the interrupts and the kernel threads do, the
  scheduler, the message table, the notifications and the fault waiters stay consistent: the
  booted kernel is consistent, and so is every state the machine gets to from a consistent one.
\<close>

theorem machine_consistent:
  "(cold k \<and> boot k = Some k' \<longrightarrow> consistent (Thread, k')) \<and>
   (consistent s \<and> (step c)\<^sup>*\<^sup>* s s' \<longrightarrow> consistent s')"
  using boot_inv steps_consistent [of c s s'] by auto

theorem machine_consistent_witness:
  "\<exists>k s. boot cold_kernel = Some k \<and> consistent (Thread, k) \<and>
     step scene_code (Thread, scene_calm) s \<and> s \<noteq> (Thread, scene_calm) \<and> consistent s"
proof -
  obtain k where k: "cold cold_kernel" "boot cold_kernel = Some k" using cold_kernel_boots by blast
  obtain k2 where k2: "step scene_code (Thread, scene_calm) (Switched, k2)" using scene_send [of scene_code] by blast
  have "consistent (Thread, k) \<and> consistent (Switched, k2)"
    using k scene_calm_inv r_into_rtranclp [of "step scene_code", OF k2]
      machine_consistent [of cold_kernel k "(Thread, scene_calm)" scene_code "(Switched, k2)"] by blast
  with k k2 show ?thesis by blast
qed

text \<open>
  C2. While a message or a lease is outstanding its owner cannot run: a task recorded as waiting to
  be received, or for a reply, is blocked and does not have the CPU, and the task it waits on is
  another one that has not stopped, so nobody waits on the dead.
\<close>

theorem sender_waits_for_the_living:
  assumes "consistent s" "(step c)\<^sup>*\<^sup>* s (m, k)" "i < MAX_TASKS"
    and "pending (ktable k) ! i = Some (SendWait msg) \<or> pending (ktable k) ! i = Some (ReplyWait msg)"
  shows "st k i = Some Blocked \<and> i \<noteq> current (ksched k) \<and> msg_target msg < MAX_TASKS \<and>
    msg_target msg \<noteq> i \<and> is_alive (msg_target msg) k"
proof -
  have "consistent (m, k)" using steps_consistent assms(1,2) by blast
  moreover have "target_of (pn k i) = Some (msg_target msg)" using assms(4) by (auto simp: pn_def)
  ultimately show ?thesis
    using waiting_blocked [OF _ assms(3)] by (simp add: is_alive_live me_def [symmetric])
qed

theorem sender_waits_for_the_living_witness:
  "\<exists>k. step scene_code (Thread, scene_calm) (Switched, k) \<and> st k 1 = Some Blocked \<and> is_alive 2 k"
proof -
  obtain k where k: "step scene_code (Thread, scene_calm) (Switched, k)" "pn k 1 = Some (SendWait scene_message)"
    using scene_send [of scene_code] by blast
  from sender_waits_for_the_living [OF scene_calm_inv r_into_rtranclp [of "step scene_code", OF k(1)], of 1 scene_message]
  show ?thesis using k by (auto simp: pn_def MAX_TASKS_def scene_message_def)
qed

text \<open>
  Where a handler can be when it asks for a switch: the machine, the tables and the continuations may
  be anything by then, but of the task states only the current task's own has changed, unless it is
  task 0, and some blocked tasks have been woken.
\<close>

definition goes_on :: "kernel \<Rightarrow> kernel \<Rightarrow> bool" where
  "goes_on k k1 \<longleftrightarrow> sized k1 \<and> me k1 = me k \<and>
     (\<forall>i < MAX_TASKS. st k1 i = st k i \<or> i = me k \<and> i \<noteq> 0 \<or> st k i = Some Blocked \<and> st k1 i = Some Runnable)"

lemma goes_on_home:
  assumes "goes_on k k1" "st k 0 = Some Runnable"
  shows "st k1 0 = Some Runnable"
proof -
  have "0 < MAX_TASKS" by (simp add: MAX_TASKS_def)
  with assms show ?thesis unfolding goes_on_def by fastforce
qed

lemma switch_finds_a_task:
  assumes "sized k" "st k 0 = Some Runnable" "switch_to_next r kont k = None"
  shows "reap_zombies k = None \<or> kempty k = None"
proof (rule ccontr)
  assume "\<not> (reap_zombies k = None \<or> kempty k = None)"
  then obtain k1 sp where k1: "reap_zombies k = Some k1" "kempty k = Some sp" by auto
  have calm: "calm k k1" using k1(1) by (rule reap_zombies_calm)
  have sz: "length (tasks (ksched k1)) = MAX_TASKS" "current (ksched k1) < MAX_TASKS"
    using sizedD(1,2) [of k1] assms(1) calm_view(6) [OF calm] by (simp_all add: me_def)
  have "st k1 0 = Some Runnable" using calm_view(7) [OF calm, of 0] assms(2) by auto
  then have "runnable (ksched k1) 0" by (simp add: runnable_st)
  then obtain nxt where nxt: "next_runnable (ksched k1) = Some nxt"
    using next_runnable_None [OF sz(2,1)] by blast
  then have "st k1 nxt = Some Runnable" using next_runnable_Some(1) [OF nxt sz(2)] by (simp only: runnable_st)
  then obtain t where t: "task_at (ksched k1) nxt = Some t" by (auto simp: st_eq_Some)
  have "kempty k1 = Some sp" using k1(2) calm_view(11) [OF calm] by simp
  then have "switch_to_next r kont k \<noteq> None"
    using k1(1) nxt t
    by (cases "current_task k1"; cases "task_space t") (auto simp: switch_to_next_def Let_def empty_space_root_def)
  then show False using assms(3) by simp
qed

lemma goes_on_stopped:
  assumes "thread_inv k" "me k \<noteq> 0"
  shows "goes_on k (mark_current_blocked k)"
    "abandon (me k) (on_sched (update_task (me k) f) k) = Some k2 \<Longrightarrow> goes_on k k2"
proof -
  have sz: "sized k" using assms(1) by (simp add: thread_inv_def inv_but_def)
  show "goes_on k (mark_current_blocked k)"
    using sz assms(2) by (auto simp: goes_on_def view_simps)
  assume a: "abandon (me k) (on_sched (update_task (me k) f) k) = Some k2"
  have sz1: "sized (on_sched (update_task (me k) f) k)" using sz by (simp add: view_simps)
  note v = abandon_view [OF a sz1]
  show "goes_on k k2"
    using v(3,7,8) assms(2) by (auto simp: goes_on_def view_simps st_update_task me_def [symmetric])
qed

text \<open>
  C8. There is always something to run. In every reachable state the task that has the CPU is runnable,
  and so is task 0. A switch asked for from there, by yielding, by a preemption, or after the current
  task has blocked, ended or faulted and whomever it has woken, does not panic for want of a task: when
  \<open>switch_to_next\<close> panics at all, then because handing a finished task's frames back did, or because
  the empty address space is missing, which the boot makes before the first task.
\<close>

theorem cpu_always_has_work:
  assumes "consistent s" "(step c)\<^sup>*\<^sup>* s (m, k)"
  shows "runnable (ksched k) (current (ksched k)) \<and> runnable (ksched k) 0 \<and>
    (\<forall>k1 r kont. goes_on k k1 \<and> switch_to_next r kont k1 = None \<longrightarrow> reap_zombies k1 = None \<or> kempty k1 = None) \<and>
    goes_on k k \<and>
    (m = Thread \<and> me k \<noteq> 0 \<longrightarrow> goes_on k (mark_current_blocked k) \<and>
      (\<forall>f k2. abandon (me k) (on_sched (update_task (me k) f) k) = Some k2 \<longrightarrow> goes_on k k2))"
proof -
  have c: "consistent (m, k)" using steps_consistent assms by blast
  then have i: "inv k" "st k (me k) = Some Runnable" using consistent_inv by auto
  then have h: "sized k" "st k 0 = Some Runnable" by (auto simp: inv_but_def home_def)
  have "goes_on k k" using h(1) by (simp add: goes_on_def)
  moreover have "reap_zombies k1 = None \<or> kempty k1 = None"
    if "goes_on k k1 \<and> switch_to_next r kont k1 = None" for k1 r kont
    using switch_finds_a_task [OF _ goes_on_home [OF conjunct1 [OF that] h(2)] conjunct2 [OF that]] that
    by (simp add: goes_on_def)
  moreover have "goes_on k (mark_current_blocked k) \<and>
      (\<forall>f k2. abandon (me k) (on_sched (update_task (me k) f) k) = Some k2 \<longrightarrow> goes_on k k2)"
    if "m = Thread \<and> me k \<noteq> 0"
    using c that goes_on_stopped [of k] by auto
  moreover have "runnable (ksched k) (current (ksched k))" "runnable (ksched k) 0"
    using i(2) h(2) by (simp_all add: runnable_st me_def)
  ultimately show ?thesis by blast
qed

theorem cpu_always_has_work_witness:
  "\<exists>k. step scene_code (Thread, scene_calm) (Switched, k) \<and> current (ksched k) = 2 \<and> runnable (ksched k) 2 \<and>
     runnable (ksched k) 0"
proof -
  obtain k where k: "step scene_code (Thread, scene_calm) (Switched, k)" "me k = 2" using scene_send [of scene_code] by blast
  from cpu_always_has_work [OF scene_calm_inv r_into_rtranclp [of "step scene_code", OF k(1)]] k
  show ?thesis by (auto simp: me_def)
qed

text \<open>
  C7. No wakeup is lost: in every state, a task that is blocked has none of the notification bits it
  waits for posted, so a bit that arrives before the task sleeps is taken, and one that arrives
  after it wakes it.
\<close>

theorem no_lost_notification:
  assumes "consistent s" "(step c)\<^sup>*\<^sup>* s (m, k)" "i < MAX_TASKS" "st k i = Some Blocked"
  shows "wanted (knotify k) ! i AND posted (knotify k) ! i = 0"
  using blocked_receiver_unposted [OF steps_consistent [OF assms(2,1)] assms(3,4)]
  by (simp add: wt_def ps_def)

theorem no_lost_notification_witness:
  "\<exists>k. step scene_code (Thread, scene_calm) (Switched, k) \<and> wanted (knotify k) ! 1 AND posted (knotify k) ! 1 = 0"
proof -
  obtain k where k: "step scene_code (Thread, scene_calm) (Switched, k)" "st k 1 = Some Blocked" using scene_send [of scene_code] by blast
  from no_lost_notification [OF scene_calm_inv r_into_rtranclp [of "step scene_code", OF k(1)], of 1] k
  show ?thesis by (auto simp: MAX_TASKS_def)
qed

end
