(* ===== verification/Calls.thy ===== *)
theory Calls
  imports Machine
begin

text \<open>
  What the calls do, each one taken by itself: ending a task, releasing those that wait on it,
  receiving, replying, borrowing, restarting, writing to the console, and what is refused.
\<close>

section \<open>Ending\<close>

text \<open>
  What a switch away leaves of a task: its entry in the table, if it was not a zombie that
  somebody else could reap, and everything in the message table.
\<close>

lemma switched_away:
  assumes "switch_to_next r kont k = Some (True, k')"
  shows "me k' \<noteq> me k" "pn k' = pn k" "ktable k' = ktable k"
    "task_at (ksched k') (me k) = task_at (ksched k) (me k)"
proof -
  have "me k' \<noteq> me k \<and> pn k' = pn k \<and> ktable k' = ktable k \<and>
      task_at (ksched k') (me k) = task_at (ksched k) (me k)"
    using assms
  proof (cases rule: switch_to_next_cases)
    case (2 k1 nxt t root)
    note v = calm_view [OF 2(2)]
    have "task_at (ksched k') i = task_at (ksched k1) i" for i using 2(8) by (simp add: task_at_def)
    then have "task_at (ksched k') (me k) = task_at (ksched k) (me k)" using v(13) by simp
    then show ?thesis using 2(5,8) v(8) by (simp add: me_def pn_def fun_eq_iff)
  qed simp
  then show "me k' \<noteq> me k" "pn k' = pn k" "ktable k' = ktable k"
    "task_at (ksched k') (me k) = task_at (ksched k) (me k)" by simp_all
qed

lemma abandon_tasks:
  assumes "abandon g k = Some k'" "sized k" "\<not> live (st k i)" "i < MAX_TASKS"
  shows "task_at (ksched k') i = task_at (ksched k) i"
proof -
  have slot: "task_at (ksched (abandon_slot g s k1)) i = task_at (ksched k1) i"
    if "\<not> live (st k1 i)" for s k1
  proof (cases "waiting_on g k1 s")
    case True
    let ?k = "on_table (deliver_outcome s EDEAD 0) k1"
    have u: "unblock_deferred s ?k = (fst (unblock_deferred s ?k), snd (unblock_deferred s ?k))" by simp
    have "task_at (ksched (snd (unblock_deferred s ?k))) i = task_at (ksched ?k) i"
      using u
    proof (cases rule: unblock_deferred_cases)
      case (2 t)
      then have "s \<noteq> i" using that by (auto simp: st_def on_table_def)
      then show ?thesis unfolding 2(3) by (simp add: on_sched_def task_at_set_task)
    qed simp
    then show ?thesis using True by (simp add: abandon_slot_cases on_table_def)
  qed (simp add: abandon_slot_cases)
  have fold: "task_at (ksched (fold (abandon_slot g) slots k1)) i = task_at (ksched k1) i"
    if "\<not> live (st k1 i)" for slots k1
    using that
  proof (induction slots arbitrary: k1)
    case (Cons s slots)
    have "\<not> live (st (abandon_slot g s k1) i)" using Cons.prems slot by (simp add: st_def)
    from Cons.IH [OF this] slot [OF Cons.prems] show ?case by simp
  qed simp
  show ?thesis
    using assms(1) fold [OF assms(3), of "[0..<MAX_TASKS]"]
    by (auto simp: abandon_def Let_def assert_that_def bind_eq_Some_conv on_table_def simp del: upt.simps
      split: if_splits)
qed

lemma nobody_waits:
  assumes "inv k" "\<not> live (st k g)" "i < MAX_TASKS"
  shows "target_of (pn k i) \<noteq> Some g"
  using invD(3) [OF assms(1,3)] assms(2) by (auto simp: corresponds_def)

text \<open>
  C14. \<open>exit\<close> does not return: when the kernel gets through it, another task has the CPU, the
  closing loop having left at its first yield; the caller is a zombie that carries its exit code,
  holds no lease and waits for nothing, and nobody waits on it any more.
\<close>

theorem exit_leaves_for_good:
  assumes "consistent (Thread, k)" "me k \<noteq> 0" "exit_current code k = Some (r, k')"
  shows "r = None \<and> me k' \<noteq> me k \<and>
    (\<exists>t. task_at (ksched k') (me k) = Some t \<and> task_state t = Zombie \<and> task_exit t = Some code) \<and>
    pending (ktable k') ! me k = None \<and> lease_count (ktable k') ! me k = 0 \<and>
    (\<forall>i < MAX_TASKS. \<not> waits_on (me k) (pending (ktable k') ! i))"
proof -
  have t: "thread_inv k" using assms(1) by simp
  obtain x where x: "task_at (ksched k) (me k) = Some x" using thread_task [OF t] .
  let ?x = "x\<lparr>task_state := Zombie, task_exit := Some code\<rparr>"
  let ?k = "on_sched (set_task (me k) (Some ?x)) k"
  obtain k1 where k1: "abandon (me k) ?k = Some k1" "dying_loop k1 = Some (r, k')"
    using assms(3) x by (auto simp: exit_current_def Let_def bind_eq_Some_conv on_sched_set_task_update)
  have z: "\<not> live (Some (task_state ?x))" by simp
  note s = stop_inv [OF t assms(2) z]
  note r = stop_ready [OF t assms(2) z k1(1)]
  note d = dying_loop_inv [OF r(1) k1(2)]
  note away = switched_away [OF d(3) [unfolded yield_now_def], unfolded r(2)]
  have sz: "sized ?k" by (rule invD(1) [OF s(1)])
  have m: "me k < MAX_TASKS" using abandon_view(1) [OF k1(1) sz] .
  have "task_at (ksched ?k) (me k) = Some ?x"
    using m sizedD(1) [of k] t by (simp add: on_sched_def task_at_set_task thread_inv_def inv_but_def)
  moreover have "\<not> live (st ?k (me k))" using s(4) z by simp
  ultimately have at: "task_at (ksched k1) (me k) = Some ?x"
    using abandon_tasks [OF k1(1) sz] m by simp
  have pn: "pn k1 (me k) = None" using abandon_view(2) [OF k1(1) sz m] by simp
  have count: "lease_count (ktable k1) ! me k = 0"
  proof -
    let ?f = "fold (abandon_slot (me k)) [0..<MAX_TASKS] ?k"
    have "sized ?f" using abandon_fold_view [OF sz, of "[0..<MAX_TASKS]" "me k"] by (simp del: upt.simps)
    then have "me k < length (lease_count (ktable ?f))" using sizedD(3) m by (fastforce simp: table_ok_def)
    then show ?thesis
      using k1(1) by (auto simp: abandon_def Let_def assert_that_def bind_eq_Some_conv on_table_def
        split: if_splits)
  qed
  have "inv k1" "\<not> live (st k1 (me k))" using r at by (simp_all add: ready_def st_def)
  from nobody_waits [OF this] have "\<forall>i < MAX_TASKS. \<not> waits_on (me k) (pending (ktable k1) ! i)"
    by (simp add: waits_on_iff pn_def)
  then show ?thesis using d(1) away at pn count by (simp add: pn_def)
qed

text \<open>The server waits on the client, which exits.\<close>

lemma slot_numbers: "Suc 0 < MAX_TASKS" "2 < MAX_TASKS"
  by (simp_all add: MAX_TASKS_def)

definition scene_exit :: kernel where
  "scene_exit = scene 1 Runnable Blocked None (Some (SendWait (scene_message\<lparr>msg_target := 1\<rparr>))) K_kernel K_send"

lemma scene_exit_inv: "consistent (Thread, scene_exit)"
proof -
  have "sized scene_exit" unfolding scene_exit_def by (rule scene_ok) (simp add: MAX_TASKS_def)
  then show ?thesis
    by (simp add: thread_inv_def inv_but_def all_slots home_def corresponds_def parked_def quiet_def
        scene_simps scene_exit_def scene_message_def slot_numbers)
qed

lemma dying_loop_away: "yield_now K_dead k = Some (True, k') \<Longrightarrow> dying_loop k = Some (None, k')"
  by (subst dying_loop.simps) simp

lemmas abandon_simps = abandon_def abandon_slot_def waits_on_def assert_that_def

definition scene_gone :: kernel where
  "scene_gone = on_sched (set_task 1 (Some ((scene_task ''client'' scene_space NORMAL Zombie)\<lparr>task_exit := Some 42\<rparr>)))
     (on_table (\<lambda>t. (deliver_outcome 2 EDEAD 0 t)\<lparr>lease_count := [0, 0, 0, 0, 0, 0, 0, 0]\<rparr>)
        (scene 1 Runnable Runnable None None K_kernel K_send))"

lemma scene_exit_abandon:
  "abandon 1 (on_sched (update_task 1 (\<lambda>t. t\<lparr>task_state := Zombie, task_exit := Some 42\<rparr>)) scene_exit) = Some scene_gone"
  by (simp add: scene_exit_def scene_gone_def scene_simps scene_message_def switch_simps ipc_simps
        abandon_simps Let_def)

lemma scene_gone_yield:
  "\<exists>k. yield_now K_dead scene_gone = Some (True, k) \<and> me k = 2 \<and>
     outcomes (ktable k) ! 2 = \<lparr>out_a = EDEAD, out_b = 0, out_c = 0\<rparr>"
  by (simp add: scene_gone_def scene_simps switch_simps ipc_simps Let_def)

theorem exit_leaves_for_good_witness:
  "\<exists>k. exit_current 42 scene_exit = Some (None, k) \<and> me k = 2 \<and>
     \<not> waits_on 1 (pending (ktable k) ! 2) \<and> outcomes (ktable k) ! 2 = \<lparr>out_a = EDEAD, out_b = 0, out_c = 0\<rparr>"
proof -
  have me: "me scene_exit = 1" by (simp add: scene_exit_def scene_simps)
  obtain k where k: "yield_now K_dead scene_gone = Some (True, k)" "me k = 2"
    "outcomes (ktable k) ! 2 = \<lparr>out_a = EDEAD, out_b = 0, out_c = 0\<rparr>" using scene_gone_yield by blast
  have "exit_current 42 scene_exit = Some (None, k)"
    using me scene_exit_abandon dying_loop_away [OF k(1)] by (simp add: exit_current_def)
  with exit_leaves_for_good [OF scene_exit_inv _ this] k me show ?thesis by (auto simp: MAX_TASKS_def)
qed

section \<open>Releasing those that wait\<close>

lemma abandon_slot_table:
  assumes "sized k" "s < MAX_TASKS" "i < MAX_TASKS"
  shows "outcomes (ktable (abandon_slot g s k)) ! i =
      (if i = s \<and> waiting_on g k s then \<lparr>out_a = EDEAD, out_b = 0, out_c = 0\<rparr> else outcomes (ktable k) ! i)"
    "lease_count (ktable (abandon_slot g s k)) ! i =
      (if i = s \<and> waiting_on g k s then 0 else lease_count (ktable k) ! i)"
proof -
  have u: "ktable (snd (unblock_deferred s k1)) = ktable k1" for k1
    by (auto simp: unblock_deferred_def Let_def on_sched_def split: option.splits)
  have "length (outcomes (ktable k)) = MAX_TASKS" "length (lease_count (ktable k)) = MAX_TASKS"
    using sizedD(3) [OF assms(1)] by (simp_all add: table_ok_def)
  then show "outcomes (ktable (abandon_slot g s k)) ! i =
      (if i = s \<and> waiting_on g k s then \<lparr>out_a = EDEAD, out_b = 0, out_c = 0\<rparr> else outcomes (ktable k) ! i)"
    "lease_count (ktable (abandon_slot g s k)) ! i =
      (if i = s \<and> waiting_on g k s then 0 else lease_count (ktable k) ! i)"
    using assms(2,3)
    by (auto simp: abandon_slot_cases u on_table_def deliver_outcome_def set_leases_def set_pending_def
        set_outcome_def nth_list_update)
qed

lemma abandon_fold_table:
  assumes "sized k" "\<forall>s \<in> set slots. s < MAX_TASKS" "i < MAX_TASKS"
  shows "outcomes (ktable (fold (abandon_slot g) slots k)) ! i =
      (if i \<in> set slots \<and> waiting_on g k i then \<lparr>out_a = EDEAD, out_b = 0, out_c = 0\<rparr>
       else outcomes (ktable k) ! i) \<and>
    lease_count (ktable (fold (abandon_slot g) slots k)) ! i =
      (if i \<in> set slots \<and> waiting_on g k i then 0 else lease_count (ktable k) ! i)"
  using assms(1,2)
proof (induction slots arbitrary: k)
  case (Cons s slots)
  have s: "s < MAX_TASKS" using Cons.prems(2) by simp
  note v = abandon_slot_view [OF Cons.prems(1) s, where gone = g]
  have "waiting_on g (abandon_slot g s k) i = (waiting_on g k i \<and> i \<noteq> s)"
    using v(1) [OF assms(3)] by (auto simp: waiting_on_def)
  then show ?case
    using Cons.IH [OF v(7)] Cons.prems(2) abandon_slot_table [OF Cons.prems(1) s assms(3), of g] by auto
qed simp

text \<open>
  C15. When a task stops, exactly those that wait on it are released, each with \<open>EDEAD\<close>, its lease
  withdrawn, and able to run; everybody else's wait, outcome, lease and state are untouched, and
  the task itself waits for nothing and lends nothing.
\<close>

theorem abandon_releases_exactly_waiters:
  assumes "abandon gone k = Some k'" "sized k" "i < MAX_TASKS"
  shows "if i = gone then pending (ktable k') ! i = None \<and> lease_count (ktable k') ! i = 0 \<and> st k' i = st k i
    else if waits_on gone (pending (ktable k) ! i)
    then pending (ktable k') ! i = None \<and> lease_count (ktable k') ! i = 0 \<and>
      outcomes (ktable k') ! i = \<lparr>out_a = EDEAD, out_b = 0, out_c = 0\<rparr> \<and>
      st k' i = (if st k i = Some Blocked then Some Runnable else st k i)
    else pending (ktable k') ! i = pending (ktable k) ! i \<and> st k' i = st k i \<and>
      outcomes (ktable k') ! i = outcomes (ktable k) ! i \<and>
      lease_count (ktable k') ! i = lease_count (ktable k) ! i"
proof -
  let ?f = "fold (abandon_slot gone) [0..<MAX_TASKS] k"
  have k': "gone < MAX_TASKS"
    "k' = on_table (\<lambda>t. (set_pending gone None t)\<lparr>lease_count := (lease_count t)[gone := 0]\<rparr>) ?f"
    using assms(1) by (simp_all add: abandon_def Let_def assert_that_def bind_eq_Some_conv split: if_splits)
  have "sized ?f" using abandon_fold_view [OF assms(2), of "[0..<MAX_TASKS]" gone] by (simp del: upt.simps)
  then have len: "length (lease_count (ktable ?f)) = MAX_TASKS" using sizedD(3) by (simp add: table_ok_def)
  have t: "outcomes (ktable k') ! i = outcomes (ktable ?f) ! i"
    "lease_count (ktable k') ! i = (if i = gone then 0 else lease_count (ktable ?f) ! i)"
    using len k'(1) assms(3) by (simp_all add: k'(2) on_table_def set_pending_def nth_list_update)
  have "waiting_on gone k i = (i \<noteq> gone \<and> waits_on gone (pending (ktable k) ! i))"
    by (simp add: waiting_on_def waits_on_iff pn_def)
  then show ?thesis
    using abandon_view(2,3) [OF assms(1,2,3)] t
      abandon_fold_table [OF assms(2) _ assms(3), of "[0..<MAX_TASKS]" gone] assms(3)
    by (auto simp: pn_def)
qed

theorem abandon_releases_exactly_waiters_witness:
  "\<exists>k. abandon 1 scene_exit = Some k \<and> pending (ktable k) ! 2 = None \<and> st k 2 = Some Runnable"
proof -
  have "\<exists>k. abandon 1 scene_exit = Some k"
    by (simp add: scene_exit_def scene_simps scene_message_def switch_simps ipc_simps abandon_simps Let_def)
  then obtain k where k: "abandon 1 scene_exit = Some k" by blast
  have "sized scene_exit" using scene_exit_inv by (simp add: thread_inv_def inv_but_def)
  moreover have "waits_on 1 (pending (ktable scene_exit) ! 2)" "st scene_exit 2 = Some Blocked"
    by (simp_all add: scene_exit_def scene_simps scene_message_def waits_on_def)
  ultimately show ?thesis
    using abandon_releases_exactly_waiters [OF k, of 2] k slot_numbers by auto
qed

section \<open>Receiving\<close>

text \<open>The loop of \<open>recv\<close> with a bound on its turns: \<open>None\<close> when they do not suffice.\<close>

primrec recv_fuel ::
  "nat \<Rightarrow> u64 \<Rightarrow> u64 \<Rightarrow> u32 \<Rightarrow> kernel \<Rightarrow> ((u64 \<times> u64 \<times> u64) option \<times> kernel) option option" where
  "recv_fuel 0 buf cap nmask k = None"
| "recv_fuel (Suc n) buf cap nmask k = (case recv_turn buf cap nmask k of
       None \<Rightarrow> Some None
     | Some (Inl res) \<Rightarrow> Some (Some res)
     | Some (Inr k) \<Rightarrow> recv_fuel n buf cap nmask k)"

definition senders :: "kernel \<Rightarrow> nat set" where
  "senders k = {i. i < MAX_TASKS \<and> (\<exists>m. pn k i = Some (SendWait m) \<and> msg_target m = me k)}"

lemma finite_senders [simp]: "finite (senders k)"
  by (simp add: senders_def)

lemma card_senders: "card (senders k) \<le> MAX_TASKS"
  using card_mono [of "{..<MAX_TASKS}" "senders k"] by (auto simp: senders_def)

lemma unblock_stay: "unblock kont s k = Some (False, k') \<Longrightarrow> pn k' = pn k"
  by (auto simp: unblock_def unblock_deferred_view(2) split: prod.splits if_splits
    elim!: switch_to_next_cases dest: calm_view(1))

text \<open>Parking in \<open>recv\<close> gives up the CPU: a blocked task is not chosen.\<close>

lemma park_away:
  assumes "ready kont k" "st k (me k) = Some Blocked" "park kont k = Some (away, k')"
  shows away
proof (rule ccontr)
  assume "\<not> away"
  then have p: "park kont k = Some (False, k')" using assms(3) by simp
  have "switch_to_next Voluntary kont k = Some (False, k')"
    using p assms(2) by (auto simp: park_def current_task_def st_def me_def split: option.splits if_splits)
  then have "calm k k'" by (rule switch_to_next_cases) simp_all
  then have "st k' (me k') = Some Blocked"
    using calm_view(5) [of k k'] calm_view(7) [of k k' "me k"] assms(2) by auto
  then show False using park_inv(2) [OF assms(1) p] by auto
qed

lemma recv_park_leaves:
  assumes "recv_park buf cap w k = Some y" "thread_inv k" "me k \<noteq> 0" "w AND ps k (me k) = 0"
  shows "\<exists>res. y = Inl res"
proof -
  obtain n where arm: "notify_arm (me k) w (knotify k) = Some n"
    using assms(1) by (auto simp: recv_park_def bind_eq_Some_conv)
  let ?k = "mark_current_blocked (on_table (set_pending (me k) (Some (RecvWait buf cap))) (k\<lparr>knotify := n\<rparr>))"
  have r: "ready (K_recv buf cap w) ?k" by (rule ready_recv [OF assms(2,3) arm assms(4)])
  have blocked: "st ?k (me ?k) = Some Blocked" using assms(2) by (simp add: view_simps thread_inv_def)
  obtain away k2 where p: "park (K_recv buf cap w) ?k = Some (away, k2)"
    using assms(1) arm by (auto simp: recv_park_def bind_eq_Some_conv)
  have away by (rule park_away [OF r blocked p])
  with p show ?thesis using assms(1) arm by (auto simp: recv_park_def)
qed

text \<open>A turn that goes round again has failed a sender, which no longer waits.\<close>

lemma recv_turn_senders:
  assumes "recv_turn buf cap w k = Some (Inr k')" "thread_inv k" "me k \<noteq> 0"
  shows "card (senders k') < card (senders k)"
proof -
  obtain fired n where take: "notify_take (me k) w (knotify k) = Some (fired, n)"
    using assms(1) by (auto simp: recv_turn_def bind_eq_Some_conv)
  define k0 where "k0 = k\<lparr>knotify := n\<rparr>"
  note t0 = thread_knotify [OF assms(2) take, folded k0_def]
  have v0: "pn k0 = pn k" "me k0 = me k" by (simp_all add: k0_def view_simps)
  have y: "(if fired \<noteq> 0 then Some (Inl (Some (NOTIFICATION, ucast fired, 0), k0))
     else case best_sender (ktable k0) (ksched k0) (me k0) of
       None \<Rightarrow> recv_park buf cap w k0 | Some sender \<Rightarrow> recv_from sender buf cap w k0) = Some (Inr k')"
    using assms(1) take unfolding k0_def by (simp add: recv_turn_def Let_def)
  have "\<exists>sender. best_sender (ktable k0) (ksched k0) (me k0) = Some sender \<and>
      recv_from sender buf cap w k0 = Some (Inr k')"
    using y recv_park_leaves [OF _ t0(1), of buf cap w "Inr k'"] t0(2) v0 assms(3)
    by (auto split: if_splits option.splits)
  then obtain sender where sender: "best_sender (ktable k0) (ksched k0) (me k0) = Some sender"
    "recv_from sender buf cap w k0 = Some (Inr k')" by blast
  obtain m where m: "pending (ktable k0) ! sender = Some (SendWait m)"
    using sender(2) by (auto simp: recv_from_def split: option.splits pending.splits)
  have to_me: "sender < MAX_TASKS" "msg_target m = me k"
    using best_sender_target [OF sender(1)] m v0 by (simp_all add: waits_on_def)
  obtain d k1 where d: "deliver sender (msg_out m) (msg_out_len m) (me k0) buf cap k0 = Some (d, k1)"
    using sender(2) m by (auto simp: recv_from_def bind_eq_Some_conv)
  note v1 = same_views_view [OF deliver_same(1) [OF d]]
  have "d = None" using sender(2) m d by (cases d) (auto simp: recv_from_def)
  then have f: "finish_sender (K_recv_refused buf cap w) sender EFAULT 0 k1 = Some (False, k')"
    using sender(2) m d by (auto simp: recv_from_def bind_eq_Some_conv split: if_splits)
  let ?k = "on_table (deliver_outcome sender EFAULT 0) k1"
  have u: "unblock (K_recv_refused buf cap w) sender ?k = Some (False, k')"
    using f by (simp add: finish_sender_def)
  have "sized k1" using same_views_inv(3) [OF deliver_same(1) [OF d] t0(1)]
    by (simp add: thread_inv_def inv_but_def)
  then have "pn k' i = (if i = sender then None else pn k i)" if "i < MAX_TASKS" for i
    using unblock_stay [OF u] v0 v1 that sizedD(8) by (simp add: view_simps pn_def [symmetric])
  moreover have "me k' = me k" using unblock_me [OF u] v0 v1 by (simp add: view_simps)
  ultimately have "senders k' = senders k - {sender}" by (auto simp: senders_def split: if_splits)
  moreover have "sender \<in> senders k" using to_me m v0 by (simp add: senders_def pn_def [symmetric])
  ultimately show ?thesis using card_Diff1_less [OF finite_senders, of sender k] by (simp only:)
qed

lemma recv_fuel_enough:
  assumes "thread_inv k" "me k \<noteq> 0" "card (senders k) < n"
  shows "recv_fuel n buf cap w k = Some (recv_loop buf cap w k)"
  using assms
proof (induction n arbitrary: k)
  case (Suc n)
  show ?case
  proof (cases "recv_turn buf cap w k")
    case (Some t)
    show ?thesis
    proof (cases t)
      case (Inr k')
      have "thread_inv k' \<and> me k' = me k"
        using recv_turn_inv [OF Some Suc.prems(1,2)] Inr by simp
      moreover have "card (senders k') < n"
        using recv_turn_senders [of buf cap w k k'] Some Inr Suc.prems by simp
      ultimately show ?thesis
        using Suc.IH [of k'] Suc.prems(2) Some Inr by (simp add: recv_loop.simps [of buf cap w k])
    qed (simp add: Some recv_loop.simps)
  qed (simp add: recv_loop.simps)
qed simp

text \<open>
  C16. The loop of \<open>recv\<close> ends: one turn more than there are task slots is enough for it to answer,
  to give up the CPU or to panic, because a turn that goes round again has failed one of the
  senders that were waiting.
\<close>

theorem recv_terminates:
  assumes "consistent (Thread, k)" "me k \<noteq> 0"
  shows "recv_fuel (Suc MAX_TASKS) buf cap nmask k = Some (recv_loop buf cap nmask k)"
  using assms card_senders [of k] by (intro recv_fuel_enough) simp_all

definition scene_sent :: kernel where
  "scene_sent = scene 2 Blocked Runnable (Some (SendWait scene_message)) None K_send K_kernel"

lemma scene_sent_inv: "consistent (Thread, scene_sent)"
proof -
  have "sized scene_sent" unfolding scene_sent_def by (rule scene_ok) (simp add: MAX_TASKS_def)
  then show ?thesis
    by (simp add: thread_inv_def inv_but_def all_slots home_def corresponds_def parked_def quiet_def
        scene_simps scene_sent_def scene_message_def slot_numbers)
qed

theorem recv_terminates_witness:
  "\<exists>k. recv_loop 0x400000 0 0 scene_sent = Some (Some (1, 7, 0), k) \<and>
     pending (ktable k) ! 1 = Some (ReplyWait scene_message)"
proof -
  have "\<exists>k. recv_turn 0x400000 0 0 scene_sent = Some (Inl (Some (1, 7, 0), k)) \<and>
     pending (ktable k) ! 1 = Some (ReplyWait scene_message)"
    by (simp add: recv_turn_def notify_take_def idx_def recv_from_def best_sender_def sender_priority_def
        Let_def scene_sent_def scene_simps scene_message_def switch_simps ipc_simps)
  then obtain k where k: "recv_turn 0x400000 0 0 scene_sent = Some (Inl (Some (1, 7, 0), k))"
    "pending (ktable k) ! 1 = Some (ReplyWait scene_message)" by blast
  have "me scene_sent \<noteq> 0" by (simp add: scene_sent_def scene_simps)
  from recv_terminates [OF scene_sent_inv this, of "0x400000" 0 0] k(1)
  have "recv_loop 0x400000 0 0 scene_sent = Some (Some (1, 7, 0), k)" by simp
  with k(2) show ?thesis by blast
qed

end
