(* ===== verification/Guards.thy ===== *)
theory Guards
  imports Calls
begin

text \<open>
  What a call is refused, and what an accepted call is confined to: replying, borrowing, restarting,
  writing to the console, and the acknowledgement of interrupts.
\<close>

section \<open>Replying\<close>

lemma switch_table: "switch_to_next r kont k = Some (away, k') \<Longrightarrow> ktable k' = ktable k"
  by (elim switch_to_next_cases) (simp_all add: calm_view(8))

lemma unblock_table:
  assumes "unblock kont s k = Some (away, k')"
  shows "ktable k' = ktable k"
proof -
  have "ktable (snd (unblock_deferred s k)) = ktable k"
    by (auto simp: unblock_deferred_def Let_def on_sched_def split: option.splits)
  then show ?thesis
    using assms switch_table by (auto simp: unblock_def split: prod.splits if_splits)
qed

lemma deliver_len: "deliver s b l d db dc k = Some (Some n, k') \<Longrightarrow> n = min l dc"
  by (auto simp: deliver_def Let_def bind_eq_Some_conv split: if_splits option.splits)

lemma deliver_table: "deliver s b l d db dc k = Some (r, k') \<Longrightarrow> ktable k' = ktable k"
  using deliver_same(2) [of s b l d db dc k r k'] by (auto simp: set_phys_def)

lemma deliver_outcome_table:
  assumes "table_ok t" "i < MAX_TASKS"
  shows "pending (deliver_outcome s rc len t) ! i = (if i = s then None else pending t ! i)"
    "outcomes (deliver_outcome s rc len t) ! i = (if i = s then \<lparr>out_a = rc, out_b = len, out_c = 0\<rparr> else outcomes t ! i)"
    "leases (deliver_outcome s rc len t) ! i = (if i = s then replicate MAX_LEASES NO_LEASE else leases t ! i)"
    "lease_count (deliver_outcome s rc len t) ! i = (if i = s then 0 else lease_count t ! i)"
  using assms by (auto simp: deliver_outcome_def set_leases_def set_pending_def set_outcome_def table_ok_def)

text \<open>
  C13. Only the task a message was sent to can answer it, and only while the sender waits for the
  answer: any other reply is refused with \<open>EINVAL\<close> and changes nothing. An accepted reply whose
  data cannot be copied leaves the sender waiting; otherwise the sender is told the replier's code
  and the length copied, its lease ends, and no other task's wait, outcome or lease is touched.
\<close>

theorem reply_only_by_the_receiver:
  assumes "reply s rc data len k = Some (r, k')" "sized k"
  shows "if len \<le> MAX_MESSAGE \<and> unat s < MAX_TASKS \<and>
      (\<exists>m. pending (ktable k) ! unat s = Some (ReplyWait m) \<and> msg_target m = me k)
    then r = Some EFAULT \<and> ktable k' = ktable k \<or>
      pending (ktable k') ! unat s = None \<and> lease_count (ktable k') ! unat s = 0 \<and>
      (\<exists>n \<le> len. outcomes (ktable k') ! unat s = \<lparr>out_a = rc, out_b = n, out_c = 0\<rparr>) \<and>
      (\<forall>i < MAX_TASKS. i \<noteq> unat s \<longrightarrow> pending (ktable k') ! i = pending (ktable k) ! i \<and>
         outcomes (ktable k') ! i = outcomes (ktable k) ! i \<and>
         leases (ktable k') ! i = leases (ktable k) ! i \<and> lease_count (ktable k') ! i = lease_count (ktable k) ! i)
    else r = Some EINVAL \<and> k' = k"
proof (cases "len \<le> MAX_MESSAGE \<and> unat s < MAX_TASKS \<and>
      (\<exists>m. pending (ktable k) ! unat s = Some (ReplyWait m) \<and> msg_target m = me k)")
  case False
  then have "reply s rc data len k = Some (Some EINVAL, k)"
    by (auto simp: reply_def not_less split: option.splits pending.splits)
  with False assms(1) show ?thesis by auto
next
  case True
  then obtain m where m: "pending (ktable k) ! unat s = Some (ReplyWait m)" "msg_target m = me k" by blast
  have ok: "table_ok (ktable k)" by (rule sizedD(3) [OF assms(2)])
  obtain d k1 where d: "deliver (me k) data len (unat s) (msg_reply_buf m) (msg_reply_cap m) k = Some (d, k1)"
    using assms(1) True m by (auto simp: reply_def bind_eq_Some_conv split: if_splits)
  have t1: "ktable k1 = ktable k" by (rule deliver_table [OF d])
  show ?thesis
  proof (cases d)
    case None
    then show ?thesis using assms(1) True m d t1 by (auto simp: reply_def split: if_splits)
  next
    case (Some n)
    obtain away k2 where f: "finish_sender K_reply (unat s) rc n k1 = Some (away, k2)" "k' = k2"
      using assms(1) True m d Some
      by (auto simp: reply_def and_then_def bind_eq_Some_conv split: if_splits)
    have "ktable k2 = deliver_outcome (unat s) rc n (ktable k)"
      using unblock_table [OF f(1) [unfolded finish_sender_def]] t1 by (simp add: on_table_def)
    moreover have "n \<le> len" using deliver_len [OF d [unfolded Some]] by simp
    ultimately show ?thesis using True f(2) deliver_outcome_table [OF ok] by auto
  qed
qed

text \<open>The client waits for the server's reply.\<close>

definition scene_served :: kernel where
  "scene_served = scene 2 Blocked Runnable (Some (ReplyWait scene_message)) None K_send K_kernel"

lemma scene_served_sized: "sized scene_served"
  unfolding scene_served_def by (rule scene_ok) (simp add: MAX_TASKS_def)

lemma scene_served_reply: "\<exists>k. reply 1 5 0 0 scene_served = Some (Some 0, k)"
  by (simp add: reply_def scene_served_def scene_simps scene_message_def switch_simps ipc_simps Let_def)

theorem reply_only_by_the_receiver_witness:
  "\<exists>k n. reply 1 5 0 0 scene_served = Some (Some 0, k) \<and>
     outcomes (ktable k) ! 1 = \<lparr>out_a = 5, out_b = n, out_c = 0\<rparr> \<and>
     reply 0 5 0 0 scene_served = Some (Some EINVAL, scene_served)"
proof -
  obtain k where k: "reply 1 5 0 0 scene_served = Some (Some 0, k)" using scene_served_reply by blast
  obtain r k2 where bad: "reply 0 5 0 0 scene_served = Some (r, k2)"
    by (simp add: reply_def scene_served_def scene_simps switch_simps ipc_simps)
  have "pending (ktable scene_served) ! 1 = Some (ReplyWait scene_message)"
    "msg_target scene_message = me scene_served" "pending (ktable scene_served) ! 0 = None"
    by (simp_all add: scene_served_def scene_simps scene_message_def)
  with reply_only_by_the_receiver [OF k scene_served_sized]
    reply_only_by_the_receiver [OF bad scene_served_sized] k bad slot_numbers
  show ?thesis by (auto simp: EFAULT_def)
qed

section \<open>Borrowing\<close>

lemma borrow_steps:
  assumes "borrow peer index offset loc len writing k = Some (0, k')"
  shows "unat peer < MAX_TASKS \<and> len \<le> MAX_BORROW \<and>
    (\<exists>l proot mroot p remote. granted_lease (unat peer) index k = Some l \<and>
      lease_attrs l AND (if writing then LEASE_WRITE else LEASE_READ) \<noteq> 0 \<and>
      unat offset + unat len \<le> unat (lease_len l) \<and>
      space_root_of (unat peer) k = Some proot \<and> space_root_of (me k) k = Some mroot \<and>
      checked_add (lease_base l) offset = Some remote \<and>
      (if writing then user_readable (kphys k) mroot loc len else user_writable (kphys k) mroot loc len) = Some True \<and>
      (if writing then copy_across (kphys k) mroot loc proot remote len
       else copy_across (kphys k) proot remote mroot loc len) = Some (True, p) \<and>
      k' = set_phys p k)"
proof -
  have ne: "EINVAL \<noteq> 0" "EPERM \<noteq> 0" "EFAULT \<noteq> 0" by (simp_all add: EINVAL_def EPERM_def EFAULT_def)
  have a: "\<not> (MAX_TASKS \<le> unat peer \<or> MAX_BORROW < len)"
    using assms ne by (auto simp: borrow_def)
  then obtain l where l: "granted_lease (unat peer) index k = Some l"
    using assms ne by (auto simp: borrow_def split: option.splits)
  then have perm: "lease_attrs l AND (if writing then LEASE_WRITE else LEASE_READ) \<noteq> 0"
    using assms a ne by (auto simp: borrow_def)
  obtain e where e: "checked_add offset len = Some e" "e \<le> lease_len l"
    using assms a l perm ne by (auto simp: borrow_def not_less split: option.splits if_splits)
  then have sum: "unat offset + unat len \<le> unat (lease_len l)"
    using unat_add_no_overflow [of offset len]
    by (auto simp: checked_add_def word_le_nat_alt split: if_splits)
  obtain proot mroot where r: "space_root_of (unat peer) k = Some proot" "space_root_of (me k) k = Some mroot"
    using assms a l perm e ne by (auto simp: borrow_def not_less split: option.splits if_splits)
  have in_lease: "\<not> lease_len l < e" using e(2) by (simp only: not_less)
  have "borrow peer index offset loc len writing k = do {
      remote \<leftarrow> checked_add (lease_base l) offset;
      ok \<leftarrow> (if writing then user_readable (kphys k) mroot loc len else user_writable (kphys k) mroot loc len);
      if \<not> ok then Some (EFAULT, k)
      else do {
        (ok, p) \<leftarrow> (if writing then copy_across (kphys k) mroot loc proot remote len
           else copy_across (kphys k) proot remote mroot loc len);
        Some (if ok then 0 else EFAULT, set_phys p k) } }"
    unfolding borrow_def using a l perm e(1) in_lease r by simp
  note eq = this
  have "\<exists>remote ok. checked_add (lease_base l) offset = Some remote \<and>
    (if writing then user_readable (kphys k) mroot loc len else user_writable (kphys k) mroot loc len) = Some ok \<and>
    (if \<not> ok then Some (EFAULT, k) else do {
        (ok, p) \<leftarrow> (if writing then copy_across (kphys k) mroot loc proot remote len
           else copy_across (kphys k) proot remote mroot loc len);
        Some (if ok then 0 else EFAULT, set_phys p k) }) = Some (0, k')"
    using assms [unfolded eq] unfolding bind_eq_Some_conv by blast
  then obtain remote ok where c: "checked_add (lease_base l) offset = Some remote"
    "(if writing then user_readable (kphys k) mroot loc len else user_writable (kphys k) mroot loc len) = Some ok"
    and rest: "(if \<not> ok then Some (EFAULT, k) else do {
        (ok, p) \<leftarrow> (if writing then copy_across (kphys k) mroot loc proot remote len
           else copy_across (kphys k) proot remote mroot loc len);
        Some (if ok then 0 else EFAULT, set_phys p k) }) = Some (0, k')" by blast
  have ok using rest ne by (auto split: if_splits)
  then obtain p where p: "(if writing then copy_across (kphys k) mroot loc proot remote len
      else copy_across (kphys k) proot remote mroot loc len) = Some (True, p)" "k' = set_phys p k"
    using rest ne by (auto simp: bind_eq_Some_conv split: if_splits)
  show ?thesis
    using a l perm sum r c \<open>ok\<close> p by (intro conjI exI) (simp_all only: not_le not_less simp_thms de_Morgan_disj)
qed

text \<open>
  C12. Borrowing is confined to the lease: when it succeeds, the owner waits for this very task's
  reply, the lease is one of those it attached and permits the direction of the copy, the range
  lies inside the lease, the borrower may itself access its own buffer, and all that happens is
  the copy of exactly that range, which only memory shows.
\<close>

theorem borrow_confined_to_lease:
  assumes "borrow peer index offset loc len writing k = Some (0, k')"
  shows "\<exists>m l proot mroot p.
    pending (ktable k) ! unat peer = Some (ReplyWait m) \<and> msg_target m = me k \<and>
    unat index < lease_count (ktable k) ! unat peer \<and> l = leases (ktable k) ! unat peer ! unat index \<and>
    lease_attrs l AND (if writing then LEASE_WRITE else LEASE_READ) \<noteq> 0 \<and>
    unat offset + unat len \<le> unat (lease_len l) \<and> len \<le> MAX_BORROW \<and>
    space_root_of (unat peer) k = Some proot \<and> space_root_of (me k) k = Some mroot \<and>
    (if writing
     then user_readable (kphys k) mroot loc len = Some True \<and>
       copy_across (kphys k) mroot loc proot (lease_base l + offset) len = Some (True, p)
     else user_writable (kphys k) mroot loc len = Some True \<and>
       copy_across (kphys k) proot (lease_base l + offset) mroot loc len = Some (True, p)) \<and>
    k' = k\<lparr>kmach := (kmach k)\<lparr>mphys := p\<rparr>\<rparr>"
proof -
  obtain l proot mroot p remote where b: "len \<le> MAX_BORROW" "granted_lease (unat peer) index k = Some l"
    "lease_attrs l AND (if writing then LEASE_WRITE else LEASE_READ) \<noteq> 0"
    "unat offset + unat len \<le> unat (lease_len l)"
    "space_root_of (unat peer) k = Some proot" "space_root_of (me k) k = Some mroot"
    "checked_add (lease_base l) offset = Some remote"
    "(if writing then user_readable (kphys k) mroot loc len else user_writable (kphys k) mroot loc len) = Some True"
    "(if writing then copy_across (kphys k) mroot loc proot remote len
       else copy_across (kphys k) proot remote mroot loc len) = Some (True, p)" "k' = set_phys p k"
    using borrow_steps [OF assms] by blast
  have "remote = lease_base l + offset" using b(7) by (simp add: checked_add_def split: if_splits)
  moreover obtain m where "pending (ktable k) ! unat peer = Some (ReplyWait m)" "msg_target m = me k"
    "unat index < lease_count (ktable k) ! unat peer" "l = leases (ktable k) ! unat peer ! unat index"
    using b(2) by (auto simp: granted_lease_def split: option.splits pending.splits if_splits)
  ultimately show ?thesis using b by (cases writing) (auto simp: set_phys_def)
qed

text \<open>The server reads nothing, then tries to write, through the client's read-only lease.\<close>

theorem borrow_confined_to_lease_witness:
  "borrow 1 0 0x10 0x401000 0 False scene_served = Some (0, scene_served) \<and>
   borrow 1 0 0x10 0x401000 0 True scene_served = Some (EPERM, scene_served) \<and>
   (\<exists>l. l = leases (ktable scene_served) ! 1 ! 0 \<and> lease_attrs l AND LEASE_READ \<noteq> 0 \<and> 0x10 \<le> unat (lease_len l))"
proof -
  have copy: "copy_across p s a d b 0 = Some (True, p)" for p s a d b
    by (simp add: copy_across_def copy_from.simps)
  have b: "borrow 1 0 0x10 0x401000 0 False scene_served = Some (0, scene_served)"
    "borrow 1 0 0x10 0x401000 0 True scene_served = Some (EPERM, scene_served)"
    by (simp_all add: borrow_def scene_served_def scene_simps scene_message_def granted_lease_def copy
        MAX_BORROW_def Let_def page_lease_def LEASE_READ_def LEASE_WRITE_def checked_add_def set_phys_def
        user_writable_def user_range_def MAX_TASKS_def)
  from borrow_confined_to_lease [OF b(1)] b show ?thesis by auto
qed

section \<open>Interrupts\<close>

lemma post_devices: "kgic (post t bits k) = kgic k" "ktimer (post t bits k) = ktimer k"
  "kmach (post t bits k) = kmach k"
  by (auto simp: post_def Let_def request_reschedule_def unblock_deferred_def on_sched_def split: option.splits)

lemma post_posted:
  assumes "t < MAX_TASKS" "t < length (posted (knotify k))"
  shows "posted (knotify (post t bits k)) ! t = posted (knotify k) ! t OR bits"
  using assms by (auto simp: post_def Let_def request_reschedule_def unblock_deferred_def on_sched_def
    split: option.splits)

lemma switch_devices:
  "switch_to_next r kont k = Some (away, k') \<Longrightarrow> kgic k' = kgic k \<and> knotify k' = knotify k"
  by (elim switch_to_next_cases) (auto simp: calm_def)

text \<open>
  C22. An interrupt that is not spurious is released exactly once, before anything else runs,
  whether or not a task owns it and whether or not the handler switches; and if a task owns it, the
  bits of its route are posted to that task.
\<close>

theorem interrupt_released_once:
  assumes "dispatch_irq intid k = Some (r, k')" "intid \<noteq> SPURIOUS_INTID" "sized k"
  shows "gic_trace (kgic k') = gic_trace (kgic k) @
      [Write32 (phys_to_virt (kphys k) (gicc (kgic k) + GICC_EOIR)) intid] \<and>
    (\<forall>route. find_route intid (knotify k) = Some route \<and> route_task route < MAX_TASKS \<longrightarrow>
      posted (knotify k') ! route_task route =
        posted (knotify k) ! route_task route OR route_bits route)"
proof -
  let ?k = "snd (on_irq intid k)"
  have q: "kgic ?k = kgic k" "kmach ?k = kmach k"
    by (auto simp: on_irq_def post_devices split: option.splits)
  obtain k1 g where k1: "(if intid = TIMER_INTID then on_tick ?k else Some ?k) = Some k1"
    "end_of_interrupt (kphys k1) intid (kgic k1) = Some g"
    "and_then (preempt_if_needed (k1\<lparr>kgic := g\<rparr>)) (\<lambda>k. Some (Some (), k)) = Some (r, k')"
    using assms(1,2) by (auto simp: dispatch_irq_def split_beta Let_def bind_eq_Some_conv)
  have same: "kgic k1 = kgic k" "kmach k1 = kmach k" "knotify k1 = knotify ?k"
    using k1(1) q by (auto simp: on_tick_def request_reschedule_def bind_eq_Some_conv split: if_splits)
  obtain away k2 where k2: "preempt_if_needed (k1\<lparr>kgic := g\<rparr>) = Some (away, k2)" "k' = k2"
    using k1(3) by (auto simp: and_then_def bind_eq_Some_conv split: if_splits)
  have dev: "kgic k' = g \<and> knotify k' = knotify ?k"
    using k2 same switch_devices [of Preemptive K_preempted "k1\<lparr>kgic := g, kresched := False\<rparr>" away k2]
    by (auto simp: preempt_if_needed_def split: if_splits)
  have "g = kgic k\<lparr>gic_trace := gic_trace (kgic k) @
      [Write32 (phys_to_virt (kphys k) (gicc (kgic k) + GICC_EOIR)) intid]\<rparr>"
    using k1(2) same by (auto simp: end_of_interrupt_def gicc_write_def gic_reg_def checked_add_def
        bind_eq_Some_conv split: if_splits)
  moreover have "posted (knotify ?k) ! route_task route = posted (knotify k) ! route_task route OR route_bits route"
    if "find_route intid (knotify k) = Some route" "route_task route < MAX_TASKS" for route
    using that post_posted [of "route_task route" k] sizedD(10) [OF assms(3)] by (simp add: on_irq_def)
  ultimately show ?thesis using dev by auto
qed

definition scene_routed :: kernel where
  "scene_routed = scene_calm\<lparr>knotify := notify_new
     \<lparr>routes := [Some \<lparr>route_intid = 33, route_task = 2, route_bits = 4\<rparr>, None, None, None, None, None, None, None]\<rparr>\<rparr>"

theorem interrupt_released_once_witness:
  "\<exists>r k. dispatch_irq 33 scene_routed = Some (r, k) \<and> posted (knotify k) ! 2 = 4 \<and>
     gic_trace (kgic k) = [Write32 (phys_to_virt (kphys scene_routed) GICC_EOIR) 33]"
proof -
  have "sized scene_calm" using scene_calm_inv by (simp add: thread_inv_def inv_but_def)
  then have sized: "sized scene_routed"
    by (simp add: scene_routed_def view_simps notify_ok_def notify_new_def MAX_ROUTES_def)
  have "\<exists>r k. dispatch_irq 33 scene_routed = Some (r, k)"
    by (simp add: dispatch_irq_def SPURIOUS_INTID_def TIMER_INTID_def on_irq_def find_route_def post_def
        scene_routed_def scene_calm_def scene_def notify_new_def MAX_TASKS_def replicate_MAX_TASKS [unfolded MAX_TASKS_def]
        Let_def end_of_interrupt_def gicc_write_def gic_reg_def checked_add_def GICC_EOIR_def
        preempt_if_needed_def and_then_def)
  then obtain r k where k: "dispatch_irq 33 scene_routed = Some (r, k)" by blast
  have "find_route 33 (knotify scene_routed) = Some \<lparr>route_intid = 33, route_task = 2, route_bits = 4\<rparr>"
    "posted (knotify scene_routed) ! 2 = 0" "gic_trace (kgic scene_routed) = []" "gicc (kgic scene_routed) = 0"
    by (simp_all add: scene_routed_def scene_calm_def scene_def find_route_def notify_new_def replicate_MAX_TASKS)
  with interrupt_released_once [OF k _ sized] k slot_numbers show ?thesis by (auto simp: SPURIOUS_INTID_def)
qed

section \<open>Restarting\<close>

lemma restart_cases:
  assumes "restart c slot k = Some (r, k')"
  obtains "\<not> r" "abandon slot k = Some k'" "\<not> (st k' slot = Some Faulted \<and>
      (\<exists>t. task_at (ksched k') slot = Some t \<and> task_image t \<noteq> None))"
  | k1 t img space sp m where "r" "abandon slot k = Some k1" "task_at (ksched k1) slot = Some t"
      "task_state t = Faulted" "task_image t = Some img"
      "k' = on_sched (\<lambda>s. set_task slot (Some (t\<lparr>task_space := Some space, task_sp := sp, task_fault := None,
          task_exit := None, task_state := Runnable\<rparr>)) (set_task slot (Some (t\<lparr>task_space := None\<rparr>)) s))
        (k1\<lparr>kmach := m, ksaved := (ksaved k1)[slot := K_fresh (user_task_entry c) USER_TEXT_VA]\<rparr>)"
proof -
  obtain k1 where a: "abandon slot k = Some k1" using assms by (auto simp: restart_def bind_eq_Some_conv)
  show ?thesis
  proof (cases "\<exists>t img. task_at (ksched k1) slot = Some t \<and> task_state t = Faulted \<and> task_image t = Some img")
    case False
    then have "\<not> r" "k' = k1"
      using assms a by (auto simp: restart_def split: option.splits if_splits)
    with False a show ?thesis by (intro that(1)) (auto simp: st_def)
  next
    case True
    then obtain t img where t: "task_at (ksched k1) slot = Some t" "task_state t = Faulted"
      "task_image t = Some img" by blast
    obtain space sp m where "r" "k' = on_sched (set_task slot (Some (t\<lparr>task_space := Some space, task_sp := sp,
          task_fault := None, task_exit := None, task_state := Runnable\<rparr>)))
        ((on_sched (set_task slot (Some (t\<lparr>task_space := None\<rparr>))) k1)
          \<lparr>kmach := m, ksaved := (ksaved k1)[slot := K_fresh (user_task_entry c) USER_TEXT_VA]\<rparr>)"
      using assms a t by (auto simp: restart_def Let_def bind_eq_Some_conv on_sched_def intro!: that)
    then show ?thesis by (intro that(2) [OF _ a t]) (simp_all add: on_sched_def)
  qed
qed

lemma live_abandon:
  assumes "abandon g k = Some k'" "sized k" "i < MAX_TASKS"
  shows "live (st k' i) = live (st k i)"
  using abandon_view(3) [OF assms] by auto

text \<open>
  A restart that succeeds gives a faulted task a new life and nothing else: the task keeps its
  slot, name, stack, priority and program, has a fresh address space and no fault or exit code,
  can run, and starts from its entry point; nobody waits on it from its previous life, and the
  other slots hold the same tasks.
\<close>

theorem restart_renews:
  assumes "restart c slot k = Some (True, k')" "consistent (Thread, k)"
  shows "\<exists>t space sp. task_at (ksched k) slot = Some t \<and> task_state t = Faulted \<and>
    task_at (ksched k') slot = Some (t\<lparr>task_space := Some space, task_sp := sp, task_fault := None,
      task_exit := None, task_state := Runnable\<rparr>) \<and>
    ksaved k' ! slot = K_fresh (user_task_entry c) USER_TEXT_VA \<and>
    (\<forall>i < MAX_TASKS. \<not> waits_on slot (pending (ktable k') ! i)) \<and>
    (\<forall>i < MAX_TASKS. i \<noteq> slot \<longrightarrow>
      map_option task_name (task_at (ksched k') i) = map_option task_name (task_at (ksched k) i) \<and>
      (st k' i = st k i \<or> st k i = Some Blocked \<and> st k' i = Some Runnable))"
  using assms(1)
proof (cases rule: restart_cases)
  case (2 k1 t img space sp m)
  have i: "inv k" using assms(2) by (simp add: thread_inv_def)
  have sz: "sized k" by (rule invD(1) [OF i])
  note v = abandon_view [OF 2(2) sz]
  have s: "slot < MAX_TASKS" by fact
  have "\<not> live (st k1 slot)" using 2(3,4) by (simp add: st_def)
  then have dead: "\<not> live (st k slot)" using live_abandon [OF 2(2) sz s] by simp
  have same: "task_at (ksched k) slot = Some t" using abandon_tasks [OF 2(2) sz dead s] 2(3) by simp
  have len: "length (tasks (ksched k1)) = MAX_TASKS" "length (ksaved k1) = MAX_TASKS"
    using sizedD(1,6) [OF v(8)] by simp_all
  have at: "task_at (ksched k') j = (if j = slot then Some (t\<lparr>task_space := Some space, task_sp := sp,
      task_fault := None, task_exit := None, task_state := Runnable\<rparr>) else task_at (ksched k1) j)" for j
    using len s by (simp add: 2(6) on_sched_def task_at_set_task)
  have quiet: "\<not> waits_on slot (pending (ktable k') ! j)" if "j < MAX_TASKS" for j
    using nobody_waits [OF _ _ that, of k1 slot] abandon_inv [OF 2(2) i] \<open>\<not> live (st k1 slot)\<close>
    by (simp add: 2(6) on_sched_def waits_on_iff pn_def)
  have names: "map_option task_name (task_at (ksched k1) j) = map_option task_name (task_at (ksched k) j)" for j
  proof -
    have slot: "map_option task_name (task_at (ksched (abandon_slot slot q k2)) j) =
        map_option task_name (task_at (ksched k2) j)" for q k2
      by (auto simp: abandon_slot_def unblock_deferred_def on_sched_def on_table_def Let_def task_at_set_task
          split: option.splits)
    have "map_option task_name (task_at (ksched (fold (abandon_slot slot) qs k2)) j) =
        map_option task_name (task_at (ksched k2) j)" for qs k2
      by (induction qs arbitrary: k2) (simp_all add: slot)
    then show ?thesis
      using 2(2) by (auto simp: abandon_def Let_def assert_that_def on_table_def bind_eq_Some_conv
        simp del: upt.simps split: if_splits)
  qed
  have "st k' j = st k j \<or> st k j = Some Blocked \<and> st k' j = Some Runnable" if "j < MAX_TASKS" "j \<noteq> slot" for j
    using v(3) [OF that(1)] at that(2) by (auto simp: st_def split: if_splits)
  moreover have "ksaved k' ! slot = K_fresh (user_task_entry c) USER_TEXT_VA"
    using len s by (simp add: 2(6) on_sched_def)
  ultimately show ?thesis
    using same 2(4) at quiet names by (intro exI [of _ t] exI [of _ space] exI [of _ sp]) simp
qed simp

text \<open>What wakes a sender or a receiver passes by a task that is recorded nowhere.\<close>

lemma quiet_passed_by:
  assumes "sized k" "st k slot = Some Blocked" "pn k slot = None" "wt k slot = 0" "\<not> fw k slot" "slot < MAX_TASKS"
  shows "st (post task bits k) slot = Some Blocked" "st (wake_fault_waiters k) slot = Some Blocked"
    "abandon gone k = Some k' \<Longrightarrow> st k' slot = Some Blocked"
    "unat sender = slot \<Longrightarrow> reply sender rc data data_len k = Some (Some EINVAL, k)"
proof -
  show "st (post task bits k) slot = Some Blocked"
    using assms by (auto simp: view_simps)
  have "st (fold wake_waiter slots k2) slot = Some Blocked"
    if "st k2 slot = Some Blocked" "\<not> fw k2 slot" for slots k2
    using that
  proof (induction slots arbitrary: k2)
    case (Cons a slots)
    then have "st (wake_waiter a k2) slot = Some Blocked" "\<not> fw (wake_waiter a k2) slot"
      by (auto simp: wake_waiter_def view_simps) (simp_all add: fw_def)
    then show ?case using Cons.IH by simp
  qed simp
  then show "st (wake_fault_waiters k) slot = Some Blocked"
    using assms unfolding wake_fault_waiters_def by blast
  show "st k' slot = Some Blocked" if "abandon gone k = Some k'"
    using abandon_view(3) [OF that assms(1,6)] assms(2,3) by (simp add: waiting_on_def)
  show "reply sender rc data data_len k = Some (Some EINVAL, k)" if "unat sender = slot"
    using assms(3) that by (simp add: reply_def pn_def)
qed

text \<open>
  C36. A restart that is refused is not without effect: the task is abandoned before anything is
  checked. Asked of a task that is alive but blocked, \<open>restart\<close> answers that it did nothing, and
  leaves the task blocked with its entry in the message table gone. A task that was blocked in \<open>send\<close>
  is then recorded nowhere: it waits for no notification and for no fault, so a notification posted,
  a fault, the end of any task and a reply to it, all that could have released it, leave it blocked.
\<close>

theorem restart_refused_strands:
  assumes "restart c slot k = Some (r, k')" "consistent (Thread, k)" "st k slot = Some Blocked"
  shows "\<not> r \<and> st k' slot = Some Blocked \<and> pending (ktable k') ! slot = None \<and>
    ((\<exists>msg. pending (ktable k) ! slot = Some (SendWait msg) \<or> pending (ktable k) ! slot = Some (ReplyWait msg)) \<longrightarrow>
      wanted (knotify k') ! slot = 0 \<and> \<not> kwaiters k' ! slot \<and>
      (\<forall>task bits. st (post task bits k') slot = Some Blocked) \<and> st (wake_fault_waiters k') slot = Some Blocked \<and>
      (\<forall>gone k2. abandon gone k' = Some k2 \<longrightarrow> st k2 slot = Some Blocked) \<and>
      (\<forall>rc data n. reply (of_nat slot) rc data n k' = Some (Some EINVAL, k')))"
proof -
  have i: "inv k" "st k (me k) = Some Runnable" using assms(2) by (simp_all add: thread_inv_def)
  have sz: "sized k" by (rule invD(1) [OF i(1)])
  have a: "\<not> r" "abandon slot k = Some k'"
  proof -
    have "\<not> r \<and> abandon slot k = Some k'"
      using assms(1)
    proof (cases rule: restart_cases)
      case (2 k1 t img space sp m)
      note v = abandon_view [OF 2(2) sz]
      have "st k1 slot = Some Blocked" using v(3) [OF v(1)] assms(3) by (simp add: waiting_on_def)
      then show ?thesis using 2(3,4) by (simp add: st_def)
    qed simp
    then show "\<not> r" "abandon slot k = Some k'" by simp_all
  qed
  note v = abandon_view [OF a(2) sz]
  have stuck: "st k' slot = Some Blocked" "pn k' slot = None"
    using v(2,3) [OF v(1)] assms(3) by (simp_all add: waiting_on_def)
  have "wt k' slot = 0 \<and> \<not> fw k' slot"
    if "pending (ktable k) ! slot = Some (SendWait msg) \<or> pending (ktable k) ! slot = Some (ReplyWait msg)" for msg
  proof -
    have "slot \<noteq> me k" using i(2) assms(3) by auto
    then have "parked (sv k slot) k slot" using invD(4) [OF i(1) v(1)] by simp
    then show ?thesis
      using that assms(3) v(4,5)
      by (cases "sv k slot") (auto simp: parked_def quiet_def target_of_def pn_def)
  qed
  moreover have "unat (of_nat slot :: u64) = slot" using v(1) by (simp add: unat_of_nat MAX_TASKS_def)
  ultimately show ?thesis
    using a(1) stuck quiet_passed_by [OF v(8) stuck _ _ v(1)]
    by (auto simp: pn_def wt_def fw_def)
qed

text \<open>The client has sent to the server, which restarts it.\<close>

theorem restart_refused_strands_witness:
  "\<exists>k. restart scene_code 1 scene_sent = Some (False, k) \<and> pending (ktable scene_sent) ! 1 = Some (SendWait scene_message) \<and>
     st k 1 = Some Blocked \<and> pending (ktable k) ! 1 = None"
proof -
  have "\<exists>k. restart scene_code 1 scene_sent = Some (False, k)"
    by (simp add: restart_def scene_sent_def scene_simps scene_message_def switch_simps ipc_simps
        abandon_simps Let_def)
  then obtain k where k: "restart scene_code 1 scene_sent = Some (False, k)" by blast
  have "st scene_sent 1 = Some Blocked" "pending (ktable scene_sent) ! 1 = Some (SendWait scene_message)"
    by (simp_all add: scene_sent_def scene_simps)
  with restart_refused_strands [OF k scene_sent_inv] k show ?thesis by auto
qed

section \<open>Writing to the console\<close>

text \<open>What is mapped at canonical addresses the kernel can load.\<close>

lemma el1_bytes_mapped:
  fixes len :: u64
  assumes "\<forall>i < unat len. translate (kphys k) root (buf + of_nat i) \<noteq> None"
    and "unat buf + unat len \<le> 2 ^ 48" "ttbr0 (kregs k) = addr root"
  shows "\<exists>bs. el1_bytes k buf (unat len) = Some bs"
proof -
  have one: "el1_load k (buf + of_nat i) \<noteq> None" if i: "i < unat len" for i
  proof -
    have low: "take_bit 48 (buf + of_nat i) = buf + of_nat i" by (rule canonical_bytes [OF assms(2) i])
    have "translate (kphys k) root (buf + of_nat i) \<noteq> None" using assms(1) i by blast
    moreover have "drop_bit 48 (buf + of_nat i) = 0"
      using low by (metis drop_bit_take_bit take_bit_0 diff_self_eq_0)
    moreover have "Frame (ttbr0 (kregs k)) = root" using assms(3) by simp
    ultimately show ?thesis by (simp add: el1_load_def)
  qed
  have "\<exists>bs. el1_bytes k (buf + of_nat j) n = Some bs" if "j + n \<le> unat len" for j n
    using that
  proof (induction n arbitrary: j)
    case (Suc n)
    then obtain bs where "el1_bytes k (buf + of_nat (Suc j)) n = Some bs" by (metis add_Suc add_Suc_right)
    moreover obtain b where "el1_load k (buf + of_nat j) = Some b" using one [of j] Suc.prems by auto
    ultimately show ?case by (simp add: add.assoc add.commute [of 1])
  qed simp
  from this [of 0 "unat len"] show ?thesis by simp
qed

text \<open>
  C37. A user task can stop the kernel. Take a buffer that the check accepts. \<open>write\<close> of it, as it is, does
  not panic when the caller's own tables are in force and map it. With any of the bits 48 to 63 of its address set,
  so that it still ends below \<open>KERNEL_BASE\<close>, the check of the buffer answers the same, and the load
  that the kernel then makes through the address panics.
\<close>

theorem sys_write_panics_on_top_bits:
  assumes "current_space_root k = Some root" "user_readable (kphys k) root buf len = Some True"
    and "unat buf + unat len \<le> 2 ^ 48" "0 < len" "len \<le> MAX_WRITE"
    and "drop_bit 48 (buf OR push_bit 48 t) \<noteq> 0" "unat (buf OR push_bit 48 t) + unat len \<le> unat KERNEL_BASE"
  shows "user_readable (kphys k) root (buf OR push_bit 48 t) len = Some True \<and>
    sys_write 1 (buf OR push_bit 48 t) len k = None \<and>
    (buf \<noteq> 0 \<and> ttbr0 (kregs k) = addr root \<and>
       (\<forall>i < unat len. translate (kphys k) root (buf + of_nat i) \<noteq> None) \<longrightarrow> sys_write 1 buf len k \<noteq> None)"
proof -
  have check: "user_readable (kphys k) root (buf OR push_bit 48 t) len = Some True"
    by (rule user_readable_ignores_top_bits [OF assms(2,3,7)])
  obtain n where "unat len = Suc n" using assms(4) by (cases "unat len") (auto simp: unat_eq_0)
  then have "el1_bytes k (buf OR push_bit 48 t) (unat len) = None" using assms(6) by (simp add: el1_load_def)
  then have "sys_write 1 (buf OR push_bit 48 t) len k = None"
    using check assms(1,5) by (auto simp: sys_write_def assert_that_def not_less)
  moreover have "sys_write 1 buf len k \<noteq> None" if "buf \<noteq> 0" "ttbr0 (kregs k) = addr root"
    "\<forall>i < unat len. translate (kphys k) root (buf + of_nat i) \<noteq> None"
    using el1_bytes_mapped [OF that(3) assms(3) that(2)] that(1) assms(1,2,5)
    by (auto simp: sys_write_def assert_that_def not_less)
  ultimately show ?thesis using check by blast
qed

theorem sys_write_panics_on_top_bits_witness:
  "sys_write 1 (0x400ffc OR push_bit 48 0x1234) 8 scene_calm = None"
  using sys_write_panics_on_top_bits [where root = "Frame 0x1000" and buf = "0x400ffc" and t = "0x1234" and len = 8
      and k = scene_calm] demo_readable
  by (simp add: scene_calm_def scene_simps current_space_root_def MAX_WRITE_def KERNEL_BASE_def)

end
