(* ===== verification/Fdt.thy ===== *)
theory Fdt
  imports Frames Text
begin

text \<open>
  The flattened device tree (\<open>fdt.rs\<close>): the checks on its header, the bounds-checked reads, the
  walk over the structure block, properties and \<open>reg\<close>, the searches, and the memory map.

  A read goes through memory, so every operation takes \<open>phys\<close>. Two kinds of failure are kept
  apart: \<open>None\<close> is a panic (an overflow, an index out of bounds), \<open>Some None\<close> is Rust's
  \<open>None\<close>; \<open>attempt\<close> is the \<open>?\<close> operator on the inner one. A \<open>str\<close> is the list
  of its bytes. An iterator that is advanced returns its next state.
\<close>

section \<open>The header\<close>

definition MAGIC :: u32 where "MAGIC = 0xd00dfeed"
definition HEADER_SIZE :: u32 where "HEADER_SIZE = 40"
definition SUPPORTED_VERSION :: u32 where "SUPPORTED_VERSION = 17"
definition MAX_BLOB :: u32 where "MAX_BLOB = 1024 * 1024"

datatype fdt_error =
    Null
  | Misaligned u64
  | BadMagic u32
  | TooSmall u32
  | TooLarge u32
  | Version u32
  | BlockOutOfRange
  | Blob_OutsideRam u64

definition fdt_describe :: "fdt_error \<Rightarrow> string" where
  "fdt_describe e = (case e of
       Null \<Rightarrow> ''null pointer''
     | Misaligned _ \<Rightarrow> ''not 8 byte aligned''
     | BadMagic _ \<Rightarrow> ''bad magic''
     | TooSmall _ \<Rightarrow> ''totalsize too small''
     | TooLarge _ \<Rightarrow> ''totalsize too large''
     | Version _ \<Rightarrow> ''unsupported version''
     | BlockOutOfRange \<Rightarrow> ''block runs off the end''
     | Blob_OutsideRam _ \<Rightarrow> ''blob is not in RAM'')"

record header =
  totalsize :: u32
  off_dt_struct :: u32
  off_dt_strings :: u32
  off_mem_rsvmap :: u32
  version :: u32
  last_comp_version :: u32
  boot_cpuid_phys :: u32
  size_dt_strings :: u32
  size_dt_struct :: u32

record blob =
  blob_pa :: u64
  blob_va :: u64
  blob_header :: header

text \<open>
  \<open>be32\<close>. \<open>ptr.read()\<close> also asks that the pointer is a multiple of four. The header's own fields are,
  because \<open>probe\<close> asks that the blob is aligned; offsets that come out of the blob need not be, and the
  model reads the four bytes then, as the processor does.
\<close>

definition be32 :: "phys \<Rightarrow> u64 \<Rightarrow> u32 \<Rightarrow> u32 option" where
  "be32 p va offset = do {
     ptr \<leftarrow> checked_add va (ucast offset);
     Some (be_join (read_bytes p ptr 4))
   }"

definition ends_inside :: "u32 \<Rightarrow> u32 \<Rightarrow> u32 \<Rightarrow> bool" where
  "ends_inside tsize offset n = (case checked_add offset n of Some e \<Rightarrow> e \<le> tsize | None \<Rightarrow> False)"

definition read_header :: "phys \<Rightarrow> u64 \<Rightarrow> u32 \<Rightarrow> header option" where
  "read_header p va tsize = do {
     a \<leftarrow> be32 p va 8; b \<leftarrow> be32 p va 12; c \<leftarrow> be32 p va 16; d \<leftarrow> be32 p va 20;
     e \<leftarrow> be32 p va 24; f \<leftarrow> be32 p va 28; g \<leftarrow> be32 p va 32; h \<leftarrow> be32 p va 36;
     Some \<lparr>totalsize = tsize, off_dt_struct = a, off_dt_strings = b, off_mem_rsvmap = c, version = d,
       last_comp_version = e, boot_cpuid_phys = f, size_dt_strings = g, size_dt_struct = h\<rparr>
   }"

definition probe_blob :: "phys \<Rightarrow> u64 \<Rightarrow> (fdt_error + header) option" where
  "probe_blob p va =
     (if va = 0 then Some (Inl Null)
      else if \<not> is_multiple_of va 8 then Some (Inl (Misaligned va))
      else do {
        magic \<leftarrow> be32 p va 0;
        if magic \<noteq> MAGIC then Some (Inl (BadMagic magic))
        else do {
          tsize \<leftarrow> be32 p va 4;
          if tsize < HEADER_SIZE then Some (Inl (TooSmall tsize))
          else if MAX_BLOB < tsize then Some (Inl (TooLarge tsize))
          else do {
            h \<leftarrow> read_header p va tsize;
            if SUPPORTED_VERSION < last_comp_version h \<or> version h < last_comp_version h
            then Some (Inl (Version (version h)))
            else if \<not> ends_inside tsize (off_dt_struct h) (size_dt_struct h) \<or>
              \<not> ends_inside tsize (off_dt_strings h) (size_dt_strings h) \<or>
              tsize \<le> off_mem_rsvmap h
            then Some (Inl BlockOutOfRange)
            else Some (Inr h)
          }
        }
      })"

text \<open>The second component is the static \<open>BLOB\<close>.\<close>

definition fdt_init :: "mach \<Rightarrow> blob option \<Rightarrow> u64 \<Rightarrow> ((fdt_error + blob) \<times> blob option) option" where
  "fdt_init m stored pa =
     (if pa = 0 then Some (Inl Null, stored)
      else if pa < ram_base (mframes m) then Some (Inl (Blob_OutsideRam pa), stored)
      else do {
        top \<leftarrow> checked_add (ram_base (mframes m)) (ram_size (mframes m));
        if top < saturating_add pa (ucast HEADER_SIZE) then Some (Inl (Blob_OutsideRam pa), stored)
        else do {
          let va = phys_to_virt (mphys m) pa;
          r \<leftarrow> probe_blob (mphys m) va;
          case r of
            Inl e \<Rightarrow> Some (Inl e, stored)
          | Inr h \<Rightarrow> do {
              last \<leftarrow> checked_add pa (ucast (totalsize h));
              if top < last then Some (Inl (Blob_OutsideRam pa), stored)
              else let b = \<lparr>blob_pa = pa, blob_va = va, blob_header = h\<rparr> in Some (Inr b, Some b)
            }
        }
      })"

definition early_probe :: "phys \<Rightarrow> u64 \<Rightarrow> (u64 \<times> u64) option option" where
  "early_probe p dtb_pa =
     (if dtb_pa = 0 then Some None
      else do {
        r \<leftarrow> probe_blob p dtb_pa;
        Some (case r of Inl _ \<Rightarrow> None | Inr h \<Rightarrow> Some (dtb_pa, ucast (totalsize h)))
      })"

section \<open>Reading the blob\<close>

definition attempt :: "'a option option \<Rightarrow> ('a \<Rightarrow> 'b option option) \<Rightarrow> 'b option option" where
  "attempt r f = do { x \<leftarrow> r; case x of None \<Rightarrow> Some None | Some v \<Rightarrow> f v }"

abbreviation blob_size :: "blob \<Rightarrow> u32" where
  "blob_size b \<equiv> totalsize (blob_header b)"

definition u32_at :: "phys \<Rightarrow> blob \<Rightarrow> u32 \<Rightarrow> u32 option option" where
  "u32_at p b offset = (case checked_add offset 4 of
       None \<Rightarrow> Some None
     | Some e \<Rightarrow> if blob_size b < e then Some None else map_option Some (be32 p (blob_va b) offset))"

definition u64_at :: "phys \<Rightarrow> blob \<Rightarrow> u32 \<Rightarrow> u64 option option" where
  "u64_at p b offset = attempt (u32_at p b offset) (\<lambda>high. do {
     o4 \<leftarrow> checked_add offset 4;
     attempt (u32_at p b o4) (\<lambda>low. Some (Some (push_bit 32 (ucast high) OR ucast low)))
   })"

definition bytes_at :: "phys \<Rightarrow> blob \<Rightarrow> u32 \<Rightarrow> u32 \<Rightarrow> u8 list option option" where
  "bytes_at p b offset len = (case checked_add offset len of
       None \<Rightarrow> Some None
     | Some e \<Rightarrow>
         if blob_size b < e then Some None
         else do {
           ptr \<leftarrow> checked_add (blob_va b) (ucast offset);
           Some (Some (read_bytes p ptr (unat len)))
         })"

text \<open>The search for the terminator in \<open>str_at\<close>.\<close>

function find_nul :: "phys \<Rightarrow> u64 \<Rightarrow> u32 \<Rightarrow> u32 \<Rightarrow> u32 option option" where
  "find_nul p va at limit =
     (if \<not> at < limit then Some None
      else do {
        ptr \<leftarrow> checked_add va (ucast at);
        if load p ptr = 0 then Some (Some at)
        else do { o4 \<leftarrow> checked_add at 1; find_nul p va o4 limit }
      })"
  by pat_completeness auto

termination
  by (relation "measure (\<lambda>(p, va, at, limit). unat limit - unat at)")
    (auto simp: word_less_nat_alt dest!: checked_addD)

declare find_nul.simps [simp del]

definition str_at :: "phys \<Rightarrow> blob \<Rightarrow> u32 \<Rightarrow> u32 \<Rightarrow> u8 list option option" where
  "str_at p b offset limit =
     (let limit = min limit (blob_size b) in
      if limit \<le> offset then Some None
      else attempt (find_nul p (blob_va b) offset limit) (\<lambda>e. do {
        n \<leftarrow> checked_sub e offset;
        attempt (bytes_at p b offset n) (\<lambda>bytes. Some (if from_utf8 bytes then Some bytes else None))
      }))"

definition name_string :: "phys \<Rightarrow> blob \<Rightarrow> u32 \<Rightarrow> u8 list option option" where
  "name_string p b name_offset =
     (case checked_add (off_dt_strings (blob_header b)) name_offset of
        None \<Rightarrow> Some None
      | Some start \<Rightarrow>
          (case checked_add (off_dt_strings (blob_header b)) (size_dt_strings (blob_header b)) of
             None \<Rightarrow> Some None
           | Some e \<Rightarrow> if e \<le> start then Some None else str_at p b start e))"

definition align4 :: "u32 \<Rightarrow> u32" where
  "align4 offset = saturating_add offset 3 AND NOT 3"

lemma unat_clear_low_bits: "unat (y AND NOT 3 :: u32) = unat y - unat y mod 4"
proof -
  have three: "(3 :: u32) = mask 2" by (simp add: mask_eq_exp_minus_1)
  have low: "unat (take_bit 2 y) = unat y mod 4"
    by (simp add: unsigned_take_bit_eq take_bit_nat_def)
  have "Suc (Suc (n - 2)) = n" if "\<not> n < 2" for n :: nat
    using that by simp
  then have "y AND NOT 3 = push_bit 2 (drop_bit 2 y)"
    unfolding three by (intro bit_word_eqI) (auto simp: bit_simps)
  also have "\<dots> = y - take_bit 2 y"
    by (metis add_diff_cancel_right' bits_ident)
  finally show ?thesis
    using low by (simp add: unat_sub word_le_nat_alt)
qed

lemma align4_bounds: "unat x \<le> unat (align4 x) + 3" "unat (align4 x) \<le> unat x + 3"
proof -
  have "unat x < 2 ^ 32" using unsigned_less [of x] by simp
  moreover have "unat (saturating_add x 3) = min (unat x + 3) (2 ^ 32 - 1)"
    using unsigned_less [of x]
    by (auto simp: saturating_add_def unat_add_no_overflow unsigned_minus_1_eq_mask mask_eq_exp_minus_1)
  moreover have "unat (align4 x) + 3 \<ge> unat (saturating_add x 3)"
    "unat (align4 x) \<le> unat (saturating_add x 3)" "unat (align4 x) mod 4 = 0"
    unfolding align4_def unat_clear_low_bits by (auto simp: minus_mod_eq_mult_div)
  ultimately show "unat x \<le> unat (align4 x) + 3" "unat (align4 x) \<le> unat x + 3"
    by (auto simp: min_def split: if_splits)
qed

section \<open>Tokens, nodes and the walk\<close>

definition FDT_BEGIN_NODE :: u32 where "FDT_BEGIN_NODE = 1"
definition FDT_END_NODE :: u32 where "FDT_END_NODE = 2"
definition FDT_PROP :: u32 where "FDT_PROP = 3"
definition FDT_NOP :: u32 where "FDT_NOP = 4"
definition FDT_END :: u32 where "FDT_END = 9"
definition MAX_DEPTH :: nat where "MAX_DEPTH = 16"
definition DEFAULT_ADDRESS_CELLS :: u32 where "DEFAULT_ADDRESS_CELLS = 2"
definition DEFAULT_SIZE_CELLS :: u32 where "DEFAULT_SIZE_CELLS = 1"

record node =
  node_offset :: u32
  node_depth :: nat
  address_cells :: u32
  size_cells :: u32

datatype fdt_step = Node_Step node "u8 list" | Property_Step "u8 list" "u8 list"

record walker =
  w_blob :: blob
  w_offset :: u32
  w_end :: u32
  w_depth :: nat
  w_cells :: "(u32 \<times> u32) list"

definition walker_at :: "blob \<Rightarrow> u32 \<Rightarrow> walker" where
  "walker_at b offset =
     \<lparr>w_blob = b, w_offset = offset,
      w_end = saturating_add (off_dt_struct (blob_header b)) (size_dt_struct (blob_header b)),
      w_depth = 0, w_cells = replicate MAX_DEPTH (DEFAULT_ADDRESS_CELLS, DEFAULT_SIZE_CELLS)\<rparr>"

definition walk :: "blob \<Rightarrow> walker" where
  "walk b = walker_at b (off_dt_struct (blob_header b))"

definition read_cells :: "u8 list \<Rightarrow> u32 option" where
  "read_cells v = (if 4 \<le> length v then Some (be_join (take 4 v)) else None)"

type_synonym turn = "(fdt_step option \<times> walker) + walker"

text \<open>A turn of \<open>next\<close>: it answers (\<open>Inl\<close>) or goes round again (\<open>Inr\<close>). The cases of
  \<open>BEGIN_NODE\<close> and \<open>PROP\<close>:\<close>

definition open_node :: "phys \<Rightarrow> walker \<Rightarrow> turn option" where
  "open_node p w = do {
     let offset = w_offset w;
     start \<leftarrow> checked_add offset 4;
     got \<leftarrow> str_at p (w_blob w) start (w_end w);
     case got of
       None \<Rightarrow> Some (Inl (None, w))
     | Some name \<Rightarrow>
         if MAX_DEPTH \<le> w_depth w + 1 then Some (Inl (None, w))
         else do {
           let depth = w_depth w + 1;
           parent \<leftarrow> idx (w_cells w) (depth - 1);
           assert_that (depth < length (w_cells w));
           past \<leftarrow> checked_add start (of_nat (length name));
           past \<leftarrow> checked_add past 1;
           Some (Inl
             (Some (Node_Step \<lparr>node_offset = offset, node_depth = depth, address_cells = fst parent,
                size_cells = snd parent\<rparr> name),
              w\<lparr>w_depth := depth,
                w_cells := (w_cells w)[depth := (DEFAULT_ADDRESS_CELLS, DEFAULT_SIZE_CELLS)],
                w_offset := align4 past\<rparr>))
         }
   }"

text \<open>One property at \<open>offset\<close>: its name, its value, and where the next token is.\<close>

definition prop_at :: "phys \<Rightarrow> blob \<Rightarrow> u32 \<Rightarrow> (u8 list \<times> u8 list \<times> u32) option option" where
  "prop_at p b offset = do {
     o4 \<leftarrow> checked_add offset 4;
     attempt (u32_at p b o4) (\<lambda>len. do {
       o8 \<leftarrow> checked_add offset 8;
       attempt (u32_at p b o8) (\<lambda>name_offset. do {
         o12 \<leftarrow> checked_add offset 12;
         attempt (bytes_at p b o12 len) (\<lambda>v.
           attempt (name_string p b name_offset) (\<lambda>name. do {
             past \<leftarrow> checked_add o12 len;
             Some (Some (name, v, align4 past))
           }))
       })
     })
   }"

definition note_cells :: "u8 list \<Rightarrow> u8 list \<Rightarrow> walker \<Rightarrow> walker option" where
  "note_cells name v w =
     (if w_depth w = 0 then Some w
      else case read_cells v of
        None \<Rightarrow> Some w
      | Some cells \<Rightarrow>
          if name = ascii ''#address-cells'' then do {
            old \<leftarrow> idx (w_cells w) (w_depth w);
            Some (w\<lparr>w_cells := (w_cells w)[w_depth w := (cells, snd old)]\<rparr>)
          }
          else if name = ascii ''#size-cells'' then do {
            old \<leftarrow> idx (w_cells w) (w_depth w);
            Some (w\<lparr>w_cells := (w_cells w)[w_depth w := (fst old, cells)]\<rparr>)
          }
          else Some w)"

definition take_prop :: "phys \<Rightarrow> walker \<Rightarrow> turn option" where
  "take_prop p w = do {
     got \<leftarrow> prop_at p (w_blob w) (w_offset w);
     case got of
       None \<Rightarrow> Some (Inl (None, w))
     | Some (name, v, past) \<Rightarrow> do {
         w \<leftarrow> note_cells name v (w\<lparr>w_offset := past\<rparr>);
         Some (Inl (Some (Property_Step name v), w))
       }
   }"

definition walker_turn :: "phys \<Rightarrow> walker \<Rightarrow> turn option" where
  "walker_turn p w =
     (if w_end w \<le> w_offset w then Some (Inl (None, w))
      else do {
        got \<leftarrow> u32_at p (w_blob w) (w_offset w);
        case got of
          None \<Rightarrow> Some (Inl (None, w))
        | Some token \<Rightarrow>
            if token = FDT_NOP then do {
              o4 \<leftarrow> checked_add (w_offset w) 4;
              Some (Inr (w\<lparr>w_offset := o4\<rparr>))
            }
            else if token = FDT_END then Some (Inl (None, w))
            else if token = FDT_BEGIN_NODE then open_node p w
            else if token = FDT_END_NODE then
              (if w_depth w = 0 then Some (Inl (None, w))
               else do {
                 o4 \<leftarrow> checked_add (w_offset w) 4;
                 Some (Inr (w\<lparr>w_depth := w_depth w - 1, w_offset := o4\<rparr>))
               })
            else if token = FDT_PROP then take_prop p w
            else Some (Inl (None, w))
      })"

text \<open>What is left of the structure block.\<close>

definition w_left :: "walker \<Rightarrow> nat" where
  "w_left w = unat (w_end w) - unat (w_offset w)"

lemma not_open_again: "open_node p w \<noteq> Some (Inr w')" "take_prop p w \<noteq> Some (Inr w')"
  by (auto simp: open_node_def take_prop_def Let_def bind_eq_Some_conv split: option.splits if_splits)

lemma walker_turn_again:
  assumes "walker_turn p w = Some (Inr w')"
  shows "w_left w' < w_left w"
proof -
  have inside: "\<not> w_end w \<le> w_offset w"
    using assms by (auto simp: walker_turn_def)
  obtain token where token: "u32_at p (w_blob w) (w_offset w) = Some (Some token)"
    using assms inside
    by (cases "u32_at p (w_blob w) (w_offset w)") (auto simp: walker_turn_def split: option.split_asm)
  have "\<exists>o4. checked_add (w_offset w) 4 = Some o4 \<and> w_offset w' = o4 \<and> w_end w' = w_end w"
    using assms token inside
    by (cases "checked_add (w_offset w) 4")
      (auto simp: walker_turn_def not_open_again split: if_split_asm)
  with inside show ?thesis
    using checked_addD [of "w_offset w" 4 "w_offset w'"]
    by (auto simp add: w_left_def word_less_nat_alt not_le)
qed

function walker_next :: "phys \<Rightarrow> walker \<Rightarrow> (fdt_step option \<times> walker) option" where
  "walker_next p w = do {
     r \<leftarrow> walker_turn p w;
     case r of Inl answer \<Rightarrow> Some answer | Inr w \<Rightarrow> walker_next p w
   }"
  by pat_completeness auto

termination
  by (relation "measure (\<lambda>(p, w). w_left w)") (auto intro: walker_turn_again)

declare walker_next.simps [simp del]

lemma u32_at_inside:
  "u32_at p b offset = Some (Some v) \<Longrightarrow> unat offset + 4 \<le> unat (blob_size b)"
  by (auto simp: u32_at_def not_less word_le_nat_alt dest!: checked_addD split: option.splits if_splits)

lemma bytes_at_inside:
  assumes "bytes_at p b offset len = Some (Some bs)"
  shows "unat offset + unat len \<le> unat (blob_size b)" "length bs = unat len"
  using assms
  by (auto simp: bytes_at_def not_less word_le_nat_alt bind_eq_Some_conv dest!: checked_addD
      split: option.splits if_splits)

lemma attempt_SomeE:
  assumes "attempt r f = Some (Some y)"
  obtains x where "r = Some (Some x)" "f x = Some (Some y)"
  using assms by (auto simp: attempt_def bind_eq_Some_conv split: option.splits)

lemma prop_at_inside:
  assumes "prop_at p b offset = Some (Some (name, v, past))"
  shows "unat offset + 12 + length v \<le> unat (blob_size b)" "unat offset < unat past"
proof -
  obtain len o12 where *: "checked_add offset 12 = Some o12" "bytes_at p b o12 len = Some (Some v)"
    "\<exists>e. checked_add o12 len = Some e \<and> past = align4 e"
    using assms
    by (auto simp: prop_at_def bind_eq_Some_conv elim!: attempt_SomeE)
  show "unat offset + 12 + length v \<le> unat (blob_size b)"
    using bytes_at_inside [OF *(2)] checked_addD [OF *(1)] by simp
  show "unat offset < unat past"
    using *(3) checked_addD [OF *(1)] align4_bounds(1) [of "o12 + len"]
    by (auto dest!: checked_addD simp: checked_add_Some_iff unat_add_no_overflow)
qed

section \<open>The properties of a node\<close>

text \<open>\<open>Blob::properties\<close>: where the properties of a node begin.\<close>

definition props_start :: "phys \<Rightarrow> blob \<Rightarrow> node \<Rightarrow> u32 option" where
  "props_start p b n = do {
     offset \<leftarrow> checked_add (node_offset n) 4;
     got \<leftarrow> str_at p b offset (blob_size b);
     case got of
       Some name \<Rightarrow> do {
         past \<leftarrow> checked_add offset (of_nat (length name));
         past \<leftarrow> checked_add past 1;
         Some (align4 past)
       }
     | None \<Rightarrow> Some (- 1)
   }"

text \<open>\<open>Properties::next\<close>, with the offset it leaves behind.\<close>

function prop_next :: "phys \<Rightarrow> blob \<Rightarrow> u32 \<Rightarrow> (u8 list \<times> u8 list \<times> u32) option option" where
  "prop_next p b offset = do {
     got \<leftarrow> u32_at p b offset;
     case got of
       None \<Rightarrow> Some None
     | Some token \<Rightarrow>
         if token = FDT_NOP then do { o4 \<leftarrow> checked_add offset 4; prop_next p b o4 }
         else if token \<noteq> FDT_PROP then Some None
         else prop_at p b offset
   }"
  by pat_completeness auto

termination
  by (relation "measure (\<lambda>(p, b, offset). unat (blob_size b) - unat offset)")
    (auto dest!: u32_at_inside checked_addD)

declare prop_next.simps [simp del]

lemma prop_next_inside:
  "prop_next p b offset = Some (Some (name, v, past)) \<Longrightarrow>
     unat offset + 12 + length v \<le> unat (blob_size b) \<and> unat offset < unat past"
proof (induction p b offset rule: prop_next.induct)
  case (1 p b offset)
  from 1(2) obtain token where got: "u32_at p b offset = Some (Some token)"
    by (subst (asm) prop_next.simps) (auto simp: bind_eq_Some_conv split: option.splits)
  show ?case
  proof (cases "token = FDT_NOP")
    case True
    with 1(2) got obtain o4 where "checked_add offset 4 = Some o4"
      "prop_next p b o4 = Some (Some (name, v, past))"
      by (subst (asm) prop_next.simps) (auto simp: bind_eq_Some_conv)
    with 1(1) [OF got refl True] show ?thesis by (auto dest!: checked_addD)
  next
    case False
    with 1(2) got have "prop_at p b offset = Some (Some (name, v, past))"
      by (subst (asm) prop_next.simps) (auto split: if_splits)
    then show ?thesis using prop_at_inside by blast
  qed
qed

text \<open>\<open>same\<close>: the lengths, then one byte at a time.\<close>

definition same :: "u8 list \<Rightarrow> u8 list \<Rightarrow> bool" where
  "same a b = (if length a \<noteq> length b then False else list_all (\<lambda>(x, y). x = y) (zip a b))"

lemma same_iff [simp]: "same a b \<longleftrightarrow> a = b"
  by (auto simp: same_def list_all_length intro: nth_equalityI)

text \<open>The \<open>find\<close> of \<open>Blob::property\<close>.\<close>

function find_prop :: "phys \<Rightarrow> blob \<Rightarrow> u32 \<Rightarrow> u8 list \<Rightarrow> u8 list option option" where
  "find_prop p b offset wanted = do {
     got \<leftarrow> prop_next p b offset;
     case got of
       None \<Rightarrow> Some None
     | Some (found, v, past) \<Rightarrow>
         if same found wanted then Some (Some v) else find_prop p b past wanted
   }"
  by pat_completeness auto

termination
  by (relation "measure (\<lambda>(p, b, offset, wanted). unat (blob_size b) - unat offset)")
    (auto dest!: prop_next_inside)

declare find_prop.simps [simp del]

definition property :: "phys \<Rightarrow> blob \<Rightarrow> node \<Rightarrow> u8 list \<Rightarrow> u8 list option option" where
  "property p b n name = do { offset \<leftarrow> props_start p b n; find_prop p b offset name }"

definition property_u32 :: "phys \<Rightarrow> blob \<Rightarrow> node \<Rightarrow> u8 list \<Rightarrow> u32 option option" where
  "property_u32 p b n name = attempt (property p b n name) (\<lambda>v.
     Some (if 4 \<le> length v then Some (be_join (take 4 v)) else None))"

definition property_str :: "phys \<Rightarrow> blob \<Rightarrow> node \<Rightarrow> u8 list \<Rightarrow> u8 list option option" where
  "property_str p b n name = attempt (property p b n name) (\<lambda>v.
     Some (if 0 \<in> set v
           then let text = takeWhile (\<lambda>c. c \<noteq> 0) v in if from_utf8 text then Some text else None
           else None))"

section \<open>Addresses\<close>

text \<open>\<open>take_cells\<close>: big endian cells as one number, shifted in at 64 bits, and the rest.\<close>

primrec take_cells_from :: "nat \<Rightarrow> u64 \<Rightarrow> u8 list \<Rightarrow> (u64 \<times> u8 list) option" where
  "take_cells_from 0 v rest = Some (v, rest)"
| "take_cells_from (Suc n) v rest =
     (if length rest < 4 then None
      else take_cells_from n (push_bit 32 v OR ucast (be_join (take 4 rest) :: u32)) (drop 4 rest))"

definition take_cells :: "u8 list \<Rightarrow> u32 \<Rightarrow> (u64 \<times> u8 list) option" where
  "take_cells bytes n = take_cells_from (unat n) 0 bytes"

definition entry_size :: "node \<Rightarrow> nat option" where
  "entry_size n = do {
     cells \<leftarrow> checked_add (address_cells n) (size_cells n);
     bytes \<leftarrow> checked_mul cells 4;
     Some (unat bytes)
   }"

definition reg :: "phys \<Rightarrow> blob \<Rightarrow> node \<Rightarrow> nat \<Rightarrow> (u64 \<times> u64) option option" where
  "reg p b n index =
     (if 2 < address_cells n \<or> 2 < size_cells n \<or> address_cells n = 0 then Some None
      else attempt (property p b n (ascii ''reg'')) (\<lambda>v. do {
        entry \<leftarrow> entry_size n;
        let start = index * entry;
        Some (if 2 ^ 64 \<le> start \<or> 2 ^ 64 \<le> start + entry \<or> length v < start + entry then None
              else do {
                (address, rest) \<leftarrow> take_cells (take entry (drop start v)) (address_cells n);
                (sz, _) \<leftarrow> take_cells rest (size_cells n);
                Some (address, sz)
              })
      }))"

record region =
  region_base :: u64
  region_size :: u64

function regions_from :: "phys \<Rightarrow> blob \<Rightarrow> node \<Rightarrow> nat \<Rightarrow> region list \<Rightarrow> (nat \<times> region list) option" where
  "regions_from p b n found out =
     (if found < length out then do {
        got \<leftarrow> reg p b n found;
        case got of
          None \<Rightarrow> Some (found, out)
        | Some (base, sz) \<Rightarrow>
            regions_from p b n (found + 1) (out[found := \<lparr>region_base = base, region_size = sz\<rparr>])
      }
      else Some (found, out))"
  by pat_completeness auto

termination
  by (relation "measure (\<lambda>(p, b, n, found, out). length out - found)") auto

declare regions_from.simps [simp del]

definition regions :: "phys \<Rightarrow> blob \<Rightarrow> node \<Rightarrow> region list \<Rightarrow> (nat \<times> region list) option" where
  "regions p b n out = regions_from p b n 0 out"

section \<open>Searches\<close>

text \<open>64 is the character that begins a unit address, 47 the separator of a path.\<close>

definition name_matches :: "u8 list \<Rightarrow> u8 list \<Rightarrow> bool" where
  "name_matches name component =
     (if same name component then True
      else if 64 \<in> set name then same (takeWhile (\<lambda>c. c \<noteq> 64) name) component
      else False)"

definition string_list_contains :: "u8 list \<Rightarrow> u8 list \<Rightarrow> bool" where
  "string_list_contains xs wanted = list_ex (\<lambda>entry. same entry wanted) (split_on 0 xs)"

definition components :: "u8 list \<Rightarrow> u8 list list" where
  "components path = filter (\<lambda>part. part \<noteq> []) (split_on 47 path)"

text \<open>Does the node just opened lie on the path?\<close>

definition on_the_path :: "u8 list \<Rightarrow> bool list \<Rightarrow> node \<Rightarrow> u8 list \<Rightarrow> bool option" where
  "on_the_path path on_path n name =
     (if node_depth n = 1 then Some (name = [])
      else do {
        i \<leftarrow> nat_sub (node_depth n) 2;
        case idx (components path) i of
          Some component \<Rightarrow> do {
            above \<leftarrow> idx on_path (node_depth n - 1);
            Some (above \<and> name_matches name component)
          }
        | None \<Rightarrow> Some False
      })"

lemma find_nul_inside:
  "find_nul p va at limit = Some (Some stop) \<Longrightarrow> unat at \<le> unat stop \<and> unat stop < unat limit"
proof (induction p va at limit rule: find_nul.induct)
  case (1 p va at limit)
  from 1(2) have inside: "at < limit"
    by (subst (asm) find_nul.simps) (auto split: if_splits)
  from 1(2) inside obtain ptr where ptr: "checked_add va (ucast at) = Some ptr"
    by (subst (asm) find_nul.simps) (auto simp: bind_eq_Some_conv)
  show ?case
  proof (cases "load p ptr = 0")
    case True
    with 1(2) inside ptr show ?thesis
      by (subst (asm) find_nul.simps) (auto simp: word_less_nat_alt)
  next
    case False
    with 1(2) inside ptr obtain o1 where "checked_add at 1 = Some o1"
      "find_nul p va o1 limit = Some (Some stop)"
      by (subst (asm) find_nul.simps) (auto simp: bind_eq_Some_conv)
    with 1(1) [OF _ ptr False] inside show ?thesis by (auto dest!: checked_addD)
  qed
qed

lemma str_at_inside:
  assumes "str_at p b offset limit = Some (Some name)"
  shows "unat offset + length name < unat (min limit (blob_size b))"
proof -
  obtain stop n where *: "find_nul p (blob_va b) offset (min limit (blob_size b)) = Some (Some stop)"
    "checked_sub stop offset = Some n" "bytes_at p b offset n = Some (Some name)"
    using assms
    by (auto simp: str_at_def Let_def bind_eq_Some_conv elim!: attempt_SomeE split: if_split_asm)
  then have "length name = unat stop - unat offset" "unat offset \<le> unat stop"
    using bytes_at_inside(2) [OF *(3)]
    by (auto simp: checked_sub_Some_iff unat_sub word_le_nat_alt)
  with find_nul_inside [OF *(1)] show ?thesis by simp
qed

lemma open_nodeE:
  assumes "open_node p w = Some (Inl (Some s, w'))"
  obtains start name past past' where "checked_add (w_offset w) 4 = Some start"
    "str_at p (w_blob w) start (w_end w) = Some (Some name)"
    "w_depth w + 1 < MAX_DEPTH" "w_depth w + 1 < length (w_cells w)"
    "checked_add start (of_nat (length name)) = Some past'" "checked_add past' 1 = Some past"
    "s = Node_Step \<lparr>node_offset = w_offset w, node_depth = w_depth w + 1,
       address_cells = fst (w_cells w ! w_depth w), size_cells = snd (w_cells w ! w_depth w)\<rparr> name"
    "w' = w\<lparr>w_depth := w_depth w + 1,
       w_cells := (w_cells w)[w_depth w + 1 := (DEFAULT_ADDRESS_CELLS, DEFAULT_SIZE_CELLS)],
       w_offset := align4 past\<rparr>"
proof -
  obtain start got where start: "checked_add (w_offset w) 4 = Some start"
    and got: "str_at p (w_blob w) start (w_end w) = Some got"
    using assms by (auto simp: open_node_def Let_def bind_eq_Some_conv)
  with assms obtain name where name: "got = Some name"
    by (cases got) (auto simp: open_node_def)
  with start got assms obtain past past' where
    "checked_add start (of_nat (length name)) = Some past'" "checked_add past' 1 = Some past"
    by (auto simp: open_node_def Let_def bind_eq_Some_conv split: if_split_asm)
  with start got name assms show thesis
    by (intro that [of start name past' past])
      (auto simp: open_node_def Let_def bind_eq_Some_conv idx_Some_iff not_le split: if_split_asm)
qed

lemma open_node_shrinks:
  assumes "open_node p w = Some (Inl (Some s, w'))" "\<not> w_end w \<le> w_offset w"
  shows "w_left w' < w_left w"
  using assms(1)
proof (rule open_nodeE)
  fix start name past past'
  assume *: "checked_add (w_offset w) 4 = Some start"
    "checked_add start (of_nat (length name)) = Some past'" "checked_add past' 1 = Some past"
  assume w': "w' = w\<lparr>w_depth := w_depth w + 1,
       w_cells := (w_cells w)[w_depth w + 1 := (DEFAULT_ADDRESS_CELLS, DEFAULT_SIZE_CELLS)],
       w_offset := align4 past\<rparr>"
  have "unat (w_offset w) + 5 \<le> unat past" using * by (auto dest!: checked_addD)
  then have "unat (w_offset w) < unat (align4 past)"
    using align4_bounds(1) [of past] by simp
  with assms(2) show ?thesis by (auto simp: w' w_left_def not_le word_less_nat_alt)
qed

lemma take_prop_shrinks:
  assumes "take_prop p w = Some (Inl (Some s, w'))" "\<not> w_end w \<le> w_offset w"
  shows "w_left w' < w_left w"
proof -
  obtain name v past where *: "prop_at p (w_blob w) (w_offset w) = Some (Some (name, v, past))"
    "note_cells name v (w\<lparr>w_offset := past\<rparr>) = Some w'"
    using assms(1) by (auto simp: take_prop_def bind_eq_Some_conv split: option.split_asm)
  then have "w_offset w' = past" "w_end w' = w_end w"
    by (auto simp: note_cells_def bind_eq_Some_conv split: option.split_asm if_split_asm)
  with assms(2) prop_at_inside(2) [OF *(1)] show ?thesis
    by (auto simp: w_left_def not_le word_less_nat_alt)
qed

lemma walker_turn_shrinks:
  assumes "walker_turn p w = Some (Inl (Some s, w'))"
  shows "w_left w' < w_left w"
proof -
  have inside: "\<not> w_end w \<le> w_offset w"
    using assms by (auto simp: walker_turn_def)
  obtain token where token: "u32_at p (w_blob w) (w_offset w) = Some (Some token)"
    using assms inside
    by (cases "u32_at p (w_blob w) (w_offset w)") (auto simp: walker_turn_def split: option.split_asm)
  have "open_node p w = Some (Inl (Some s, w')) \<or> take_prop p w = Some (Inl (Some s, w'))"
    using assms token inside
    by (cases "checked_add (w_offset w) 4") (auto simp: walker_turn_def split: if_split_asm)
  with inside show ?thesis using open_node_shrinks take_prop_shrinks by blast
qed

lemma walker_next_shrinks:
  "walker_next p w = Some (Some s, w') \<Longrightarrow> w_left w' < w_left w"
proof (induction p w rule: walker_next.induct)
  case (1 p w)
  from 1(2) obtain r where r: "walker_turn p w = Some r"
    by (subst (asm) walker_next.simps) (auto simp: bind_eq_Some_conv)
  show ?case
  proof (cases r)
    case (Inl answer)
    with 1(2) r have "walker_turn p w = Some (Inl (Some s, w'))"
      by (subst (asm) walker_next.simps) auto
    then show ?thesis by (rule walker_turn_shrinks)
  next
    case (Inr w2)
    with 1(2) r have "walker_next p w2 = Some (Some s, w')"
      by (subst (asm) walker_next.simps) auto
    with 1(1) [OF r Inr] walker_turn_again [of p w w2] r Inr show ?thesis by simp
  qed
qed

function find_node_loop :: "phys \<Rightarrow> u8 list \<Rightarrow> nat \<Rightarrow> walker \<Rightarrow> bool list \<Rightarrow> node option option" where
  "find_node_loop p path wanted w on_path = do {
     (got, w) \<leftarrow> walker_next p w;
     case got of
       None \<Rightarrow> Some None
     | Some (Property_Step _ _) \<Rightarrow> find_node_loop p path wanted w on_path
     | Some (Node_Step n name) \<Rightarrow> do {
         matched \<leftarrow> on_the_path path on_path n name;
         assert_that (node_depth n < length on_path);
         if matched \<and> node_depth n = wanted + 1 then Some (Some n)
         else find_node_loop p path wanted w (on_path[node_depth n := matched])
       }
   }"
  by pat_completeness auto

termination
  by (relation "measure (\<lambda>(p, path, wanted, w, on_path). w_left w)") (auto dest: walker_next_shrinks)

declare find_node_loop.simps [simp del]

definition find_node :: "phys \<Rightarrow> blob \<Rightarrow> u8 list \<Rightarrow> node option option" where
  "find_node p b path =
     find_node_loop p path (length (components path)) (walk b) ((replicate MAX_DEPTH False)[0 := True])"

function find_compatible_loop :: "phys \<Rightarrow> blob \<Rightarrow> u8 list \<Rightarrow> u32 \<Rightarrow> walker \<Rightarrow> node option option" where
  "find_compatible_loop p b wanted offset w = do {
     (got, w) \<leftarrow> walker_next p w;
     case got of
       None \<Rightarrow> Some None
     | Some (Property_Step _ _) \<Rightarrow> find_compatible_loop p b wanted offset w
     | Some (Node_Step n _) \<Rightarrow>
         if node_offset n \<le> offset then find_compatible_loop p b wanted offset w
         else do {
           xs \<leftarrow> property p b n (ascii ''compatible'');
           if (case xs of Some xs \<Rightarrow> string_list_contains xs wanted | None \<Rightarrow> False)
           then Some (Some n)
           else find_compatible_loop p b wanted offset w
         }
   }"
  by pat_completeness auto

termination
  by (relation "measure (\<lambda>(p, b, wanted, offset, w). w_left w)") (auto dest: walker_next_shrinks)

declare find_compatible_loop.simps [simp del]

definition find_compatible_after :: "phys \<Rightarrow> blob \<Rightarrow> u8 list \<Rightarrow> u32 \<Rightarrow> node option option" where
  "find_compatible_after p b wanted offset = find_compatible_loop p b wanted offset (walk b)"

definition find_compatible :: "phys \<Rightarrow> blob \<Rightarrow> u8 list \<Rightarrow> node option option" where
  "find_compatible p b wanted = find_compatible_after p b wanted 0"

section \<open>The memory map\<close>

definition MAX_RESERVATIONS :: nat where "MAX_RESERVATIONS = 8"

record mem_map =
  mm_base :: u64
  mm_size :: u64
  mm_banks :: nat
  mm_reservations :: "(u64 \<times> u64) list"
  mm_count :: nat
  mm_dropped :: nat

definition mm_empty :: mem_map where
  "mm_empty = \<lparr>mm_base = 0, mm_size = 0, mm_banks = 0,
     mm_reservations = replicate MAX_RESERVATIONS (0, 0), mm_count = 0, mm_dropped = 0\<rparr>"

definition mm_reserve :: "u64 \<Rightarrow> u64 \<Rightarrow> mem_map \<Rightarrow> mem_map option" where
  "mm_reserve base sz m =
     (if sz = 0 then Some m
      else if mm_count m = MAX_RESERVATIONS then Some (m\<lparr>mm_dropped := mm_dropped m + 1\<rparr>)
      else do {
        assert_that (mm_count m < length (mm_reservations m));
        Some (m\<lparr>mm_reservations := (mm_reservations m)[mm_count m := (base, sz)],
                mm_count := mm_count m + 1\<rparr>)
      })"

definition reserved :: "mem_map \<Rightarrow> (u64 \<times> u64) list option" where
  "reserved m = do {
     assert_that (mm_count m \<le> length (mm_reservations m));
     Some (take (mm_count m) (mm_reservations m))
   }"

lemma u64_at_inside:
  "u64_at p b offset = Some (Some v) \<Longrightarrow> unat offset + 8 \<le> unat (blob_size b)"
  by (auto simp: u64_at_def bind_eq_Some_conv dest!: u32_at_inside checked_addD elim!: attempt_SomeE)

text \<open>The header's own reservation block.\<close>

function reserve_block :: "phys \<Rightarrow> blob \<Rightarrow> u32 \<Rightarrow> mem_map \<Rightarrow> mem_map option" where
  "reserve_block p b offset m = do {
     base \<leftarrow> u64_at p b offset;
     o8 \<leftarrow> checked_add offset 8;
     sz \<leftarrow> u64_at p b o8;
     case (base, sz) of
       (Some base, Some sz) \<Rightarrow>
         if base = 0 \<and> sz = 0 then Some m
         else do {
           m \<leftarrow> mm_reserve base sz m;
           o16 \<leftarrow> checked_add offset 16;
           reserve_block p b o16 m
         }
     | _ \<Rightarrow> Some m
   }"
  by pat_completeness auto

termination
  by (relation "measure (\<lambda>(p, b, offset, m). unat (blob_size b) - unat offset)")
    (auto dest!: u64_at_inside checked_addD)

declare reserve_block.simps [simp del]

text \<open>The children of \<open>/reserved-memory\<close>.\<close>

function reserve_children :: "phys \<Rightarrow> blob \<Rightarrow> node \<Rightarrow> walker \<Rightarrow> mem_map \<Rightarrow> mem_map option" where
  "reserve_children p b parent w m = do {
     (got, w) \<leftarrow> walker_next p w;
     case got of
       None \<Rightarrow> Some m
     | Some (Property_Step _ _) \<Rightarrow> reserve_children p b parent w m
     | Some (Node_Step n _) \<Rightarrow>
         if node_offset n \<le> node_offset parent then reserve_children p b parent w m
         else if node_depth n \<le> node_depth parent then Some m
         else if node_depth n = node_depth parent + 1 then do {
           got \<leftarrow> reg p b n 0;
           m \<leftarrow> (case got of Some (base, sz) \<Rightarrow> mm_reserve base sz m | None \<Rightarrow> Some m);
           reserve_children p b parent w m
         }
         else reserve_children p b parent w m
   }"
  by pat_completeness auto

termination
  by (relation "measure (\<lambda>(p, b, parent, w, m). w_left w)") (auto dest: walker_next_shrinks)

declare reserve_children.simps [simp del]

text \<open>The first bank of \<open>/memory\<close>, and how many there are.\<close>

definition note_memory :: "phys \<Rightarrow> blob \<Rightarrow> mem_map \<Rightarrow> mem_map option" where
  "note_memory p b m = do {
     got \<leftarrow> find_node p b (ascii ''/memory'');
     case got of
       None \<Rightarrow> Some m
     | Some memory \<Rightarrow> do {
         got \<leftarrow> reg p b memory 0;
         case got of
           None \<Rightarrow> Some m
         | Some (base, sz) \<Rightarrow>
             if sz = 0 then Some m
             else do {
               v \<leftarrow> property p b memory (ascii ''reg'');
               banks \<leftarrow> (case v of
                   Some v \<Rightarrow> do { entry \<leftarrow> entry_size memory; Some (length v div max entry 1) }
                 | None \<Rightarrow> Some 1);
               Some (m\<lparr>mm_base := base, mm_size := sz, mm_banks := banks\<rparr>)
             }
       }
   }"

definition memory_map :: "phys \<Rightarrow> blob \<Rightarrow> mem_map option" where
  "memory_map p b = do {
     m \<leftarrow> mm_reserve (blob_pa b) (ucast (blob_size b)) mm_empty;
     m \<leftarrow> reserve_block p b (off_mem_rsvmap (blob_header b)) m;
     parent \<leftarrow> find_node p b (ascii ''/reserved-memory'');
     m \<leftarrow> (case parent of
         Some parent \<Rightarrow> reserve_children p b parent (walk b) m
       | None \<Rightarrow> Some m);
     note_memory p b m
   }"

end
