(* ===== verification/Fdt_Safety.thy ===== *)
theory Fdt_Safety
  imports Fdt
begin

text \<open>
  What the parser of the device tree may do with a blob that passed the checks on its header,
  whatever its other bytes are: it does not panic, and it reads nothing outside the blob.
\<close>

section \<open>No panic\<close>

text \<open>A blob that \<open>fdt_init\<close> may have recorded, the walkers over it and the nodes they find.\<close>

definition blob_ok :: "blob \<Rightarrow> bool" where
  "blob_ok b \<longleftrightarrow> unat (blob_va b) + unat (blob_size b) < 2 ^ 64 \<and> blob_size b \<le> MAX_BLOB"

definition walker_ok :: "blob \<Rightarrow> walker \<Rightarrow> bool" where
  "walker_ok b w \<longleftrightarrow> w_blob w = b \<and> length (w_cells w) = MAX_DEPTH \<and> w_depth w < MAX_DEPTH"

definition node_ok :: "blob \<Rightarrow> node \<Rightarrow> bool" where
  "node_ok b n \<longleftrightarrow>
     unat (node_offset n) + 4 \<le> unat (blob_size b) \<and> 1 \<le> node_depth n \<and> node_depth n < MAX_DEPTH"

lemma blob_ok_size: "blob_ok b \<Longrightarrow> unat (blob_size b) \<le> 2 ^ 20"
  by (simp add: blob_ok_def MAX_BLOB_def word_le_nat_alt)

lemma checked_add_ok: "unat (x :: 'a::len word) + unat y < 2 ^ LENGTH('a) \<Longrightarrow> checked_add x y = Some (x + y)"
  by (simp add: checked_add_def)

text \<open>\<open>runs r P\<close>: \<open>r\<close> does not panic, and its value has \<open>P\<close>.\<close>

definition runs :: "'a option \<Rightarrow> ('a \<Rightarrow> bool) \<Rightarrow> bool" where
  "runs r P \<longleftrightarrow> (\<exists>x. r = Some x \<and> P x)"

lemma runs_simps [simp]:
  "runs (Some x) P \<longleftrightarrow> P x"
  "\<not> runs None P"
  "runs (Option.bind r f) P \<longleftrightarrow> runs r (\<lambda>x. runs (f x) P)"
  "runs (assert_that c) P' \<longleftrightarrow> c \<and> P' ()"
  by (auto simp: runs_def bind_eq_Some_conv)

lemma runs_attempt [simp]:
  "runs (attempt r f) P \<longleftrightarrow> runs r (\<lambda>x. case x of None \<Rightarrow> P None | Some v \<Rightarrow> runs (f v) P)"
proof (cases r)
  case (Some x)
  then show ?thesis by (cases x) (simp_all add: attempt_def runs_def)
qed (simp add: attempt_def runs_def)

lemma runs_mono: "runs r Q \<Longrightarrow> (\<And>x. Q x \<Longrightarrow> P x) \<Longrightarrow> runs r P"
  by (auto simp: runs_def)

lemma runs_not_None: "runs r P \<Longrightarrow> r \<noteq> None"
  by (auto simp: runs_def)

lemma runsI: "r \<noteq> None \<Longrightarrow> (\<And>x. r = Some x \<Longrightarrow> P x) \<Longrightarrow> runs r P"
  by (auto simp: runs_def)

lemma unat_wide [simp]: "unat (ucast (x :: u32) :: u64) = unat x"
proof -
  have "unat x < 2 ^ 32" using unsigned_less [of x] by simp
  then show ?thesis by (simp add: unsigned_ucast_eq take_bit_nat_eq_self)
qed

lemma be32_ok:
  assumes "blob_ok b" "unat offset + 4 \<le> unat (blob_size b)"
  shows "be32 p (blob_va b) offset \<noteq> None"
  using assms by (auto simp: be32_def blob_ok_def checked_add_def)

lemma small_offset:
  fixes offset n :: u32
  assumes "blob_ok b" "unat offset \<le> unat (blob_size b)" "unat n \<le> 2 ^ 20"
  shows "checked_add offset n = Some (offset + n)" "unat (offset + n) = unat offset + unat n"
proof -
  have "unat offset + unat n < 2 ^ LENGTH(32)"
    using assms blob_ok_size [OF assms(1)] by simp
  then show "checked_add offset n = Some (offset + n)" "unat (offset + n) = unat offset + unat n"
    by (simp_all add: checked_add_ok unat_add_no_overflow)
qed

lemma runs_add:
  assumes "blob_ok b" "unat offset \<le> unat (blob_size b)" "unat n \<le> 2 ^ 20"
    "\<And>s. s = offset + n \<Longrightarrow> unat s = unat offset + unat n \<Longrightarrow> P s"
  shows "runs (checked_add offset (n :: u32)) P"
  using assms(4) small_offset [OF assms(1-3)] by simp

text \<open>The rules of the reads: what to show for each answer.\<close>

lemma runs_u32_at:
  assumes "blob_ok b" "P None" "\<And>v. unat offset + 4 \<le> unat (blob_size b) \<Longrightarrow> P (Some v)"
  shows "runs (u32_at p b offset) P"
proof (rule runsI)
  show "u32_at p b offset \<noteq> None"
    using be32_ok [of b offset p] assms(1)
    by (auto simp: u32_at_def not_less word_le_nat_alt dest!: checked_addD split: option.splits)
  fix x assume "u32_at p b offset = Some x"
  then show "P x" using assms(2,3) u32_at_inside by (cases x) auto
qed

lemma runs_u64_at:
  assumes "blob_ok b" "P None" "\<And>v. unat offset + 8 \<le> unat (blob_size b) \<Longrightarrow> P (Some v)"
  shows "runs (u64_at p b offset) P"
  using assms
  by (auto simp: u64_at_def intro!: runs_u32_at runs_add [of b])

lemma runs_bytes_at:
  assumes "blob_ok b" "P None"
    "\<And>v. unat offset + unat len \<le> unat (blob_size b) \<Longrightarrow> length v = unat len \<Longrightarrow> P (Some v)"
  shows "runs (bytes_at p b offset len) P"
proof (rule runsI)
  have "checked_add (blob_va b) (ucast offset) = Some (blob_va b + ucast offset)"
    if "unat offset \<le> unat (blob_size b)"
    using assms(1) that by (auto simp: blob_ok_def checked_add_def)
  then show "bytes_at p b offset len \<noteq> None"
    by (auto simp: bytes_at_def not_less word_le_nat_alt split: option.splits dest: checked_addD)
  fix x assume "bytes_at p b offset len = Some x"
  then show "P x" using assms(2,3) bytes_at_inside by (cases x) auto
qed

lemma find_nul_ok:
  assumes "blob_ok b" "limit \<le> blob_size b"
  shows "find_nul p (blob_va b) at limit \<noteq> None"
  using assms
proof (induction p "blob_va b" at limit rule: find_nul.induct)
  case (1 p at limit)
  show ?case
  proof (cases "at < limit")
    case True
    with 1(2,3) have "checked_add (blob_va b) (ucast at) \<noteq> None" "checked_add at 1 \<noteq> None"
      using blob_ok_size [OF 1(2)]
      by (auto simp: blob_ok_def checked_add_def word_less_nat_alt word_le_nat_alt)
    then show ?thesis
      using 1 True by (subst find_nul.simps) auto
  qed (subst find_nul.simps, simp)
qed


lemma runs_str_at:
  assumes "blob_ok b" "P None" "\<And>v. unat offset + length v < unat (blob_size b) \<Longrightarrow>
      unat (of_nat (length v) :: u32) = length v \<Longrightarrow> P (Some v)"
  shows "runs (str_at p b offset limit) P"
proof (rule runsI)
  let ?limit = "min limit (blob_size b)"
  have "runs (find_nul p (blob_va b) offset ?limit) (\<lambda>x. case x of None \<Rightarrow> True | Some stop \<Rightarrow> offset \<le> stop)"
    using find_nul_ok [OF assms(1) min.cobounded2] find_nul_inside
    by (intro runsI) (auto simp: word_le_nat_alt split: option.splits)
  then have "runs (str_at p b offset limit) (\<lambda>_. True)"
    by (auto simp: str_at_def Let_def checked_sub_def intro!: assms(1) runs_bytes_at elim!: runs_mono
        split: option.splits)
  then show "str_at p b offset limit \<noteq> None" by (rule runs_not_None)
  fix x assume x: "str_at p b offset limit = Some x"
  show "P x"
  proof (cases x)
    case (Some v)
    with x have "unat offset + length v < unat (blob_size b)"
      using str_at_inside [of p b offset limit v]
      by (simp add: min_def word_le_nat_alt split: if_splits)
    moreover from this have "unat (of_nat (length v) :: u32) = length v"
      using blob_ok_size [OF assms(1)] by (simp add: unat_of_nat)
    ultimately show ?thesis using assms(3) Some by simp
  qed (simp add: assms(2))
qed

lemma runs_name_string:
  assumes "blob_ok b" "\<And>x. P x"
  shows "runs (name_string p b name_offset) P"
  using assms by (auto simp: name_string_def intro!: runs_str_at split: option.splits)

lemma runs_prop_at:
  assumes "blob_ok b" "unat offset + 4 \<le> unat (blob_size b)" "P None"
    "\<And>name v past. P (Some (name, v, past))"
  shows "runs (prop_at p b offset) P"
  using assms blob_ok_size [OF assms(1)]
  by (auto simp: prop_at_def intro!: runs_u32_at runs_add [of b] runs_bytes_at runs_name_string
      split: option.splits)

lemma runs_note_cells:
  assumes "walker_ok b w" "\<And>w'. walker_ok b w' \<Longrightarrow> P w'"
  shows "runs (note_cells name v w) P"
  using assms by (auto simp: note_cells_def walker_ok_def split: option.splits)

lemma runs_open_node:
  assumes "blob_ok b" "walker_ok b w" "unat (w_offset w) + 4 \<le> unat (blob_size b)"
    "\<And>w'. walker_ok b w' \<Longrightarrow> P (Inl (None, w'))"
    "\<And>w' n name. walker_ok b w' \<Longrightarrow> node_ok b n \<Longrightarrow> P (Inl (Some (Node_Step n name), w'))"
  shows "runs (open_node p w) P"
  using assms blob_ok_size [OF assms(1)]
  by (auto simp: open_node_def Let_def walker_ok_def node_ok_def
      intro!: runs_str_at runs_add [of b] split: option.splits)

lemma runs_take_prop:
  assumes "blob_ok b" "walker_ok b w" "unat (w_offset w) + 4 \<le> unat (blob_size b)"
    "\<And>w'. walker_ok b w' \<Longrightarrow> P (Inl (None, w'))"
    "\<And>w' name v. walker_ok b w' \<Longrightarrow> P (Inl (Some (Property_Step name v), w'))"
  shows "runs (take_prop p w) P"
  using assms
  by (auto simp: take_prop_def walker_ok_def intro!: runs_prop_at runs_note_cells [of b])

lemma runs_walker_turn:
  assumes "blob_ok b" "walker_ok b w"
    "\<And>w'. walker_ok b w' \<Longrightarrow> P (Inl (None, w'))"
    "\<And>w' name v. walker_ok b w' \<Longrightarrow> P (Inl (Some (Property_Step name v), w'))"
    "\<And>w' n name. walker_ok b w' \<Longrightarrow> node_ok b n \<Longrightarrow> P (Inl (Some (Node_Step n name), w'))"
    "\<And>w'. walker_ok b w' \<Longrightarrow> P (Inr w')"
  shows "runs (walker_turn p w) P"
proof -
  have "w_blob w = b" using assms(2) by (simp add: walker_ok_def)
  then show ?thesis
    using assms
    by (auto simp: walker_turn_def intro!: runs_u32_at runs_add [of b] runs_open_node [of b]
        runs_take_prop [of b] simp flip: \<open>w_blob w = b\<close>) (auto simp: walker_ok_def)
qed

text \<open>What \<open>next\<close> answers, and the walker it leaves.\<close>

definition answer_ok :: "blob \<Rightarrow> fdt_step option \<times> walker \<Rightarrow> bool" where
  "answer_ok b r \<longleftrightarrow> walker_ok b (snd r) \<and> (\<forall>n name. fst r = Some (Node_Step n name) \<longrightarrow> node_ok b n)"

lemma walker_next_ok: "blob_ok b \<Longrightarrow> walker_ok b w \<Longrightarrow> runs (walker_next p w) (answer_ok b)"
proof (induction p w rule: walker_next.induct)
  case (1 p w)
  then have "runs (walker_turn p w) (\<lambda>r. case r of Inl answer \<Rightarrow> answer_ok b answer
    | Inr w2 \<Rightarrow> walker_ok b w2)"
    by (intro runs_walker_turn [of b]) (auto simp: answer_ok_def)
  then obtain r where r: "walker_turn p w = Some r"
    "case r of Inl answer \<Rightarrow> answer_ok b answer | Inr w2 \<Rightarrow> walker_ok b w2"
    by (auto simp: runs_def)
  with 1 show ?case by (subst walker_next.simps) (auto split: sum.splits)
qed

lemma runs_walker_next:
  assumes "blob_ok b" "walker_ok b w" "\<And>w'. walker_ok b w' \<Longrightarrow> P (None, w')"
    "\<And>name v w'. walker_next p w = Some (Some (Property_Step name v), w') \<Longrightarrow> walker_ok b w' \<Longrightarrow>
      P (Some (Property_Step name v), w')"
    "\<And>n name w'. walker_next p w = Some (Some (Node_Step n name), w') \<Longrightarrow> walker_ok b w' \<Longrightarrow> node_ok b n \<Longrightarrow>
      P (Some (Node_Step n name), w')"
  shows "runs (walker_next p w) P"
proof -
  obtain r w' where r: "walker_next p w = Some (r, w')" "answer_ok b (r, w')"
    using walker_next_ok [OF assms(1,2), of p] by (auto simp: runs_def)
  show ?thesis
  proof (cases r)
    case None
    with r assms(3) show ?thesis by (simp add: answer_ok_def)
  next
    case (Some s)
    with r assms(4,5) show ?thesis by (cases s) (auto simp: answer_ok_def)
  qed
qed

lemma walk_ok: "walker_ok b (walk b)"
  by (simp add: walker_ok_def walk_def walker_at_def MAX_DEPTH_def)

lemma runs_props_start:
  assumes "blob_ok b" "node_ok b n" "\<And>offset. P offset"
  shows "runs (props_start p b n) P"
  using assms blob_ok_size [OF assms(1)]
  by (auto simp: props_start_def node_ok_def intro!: runs_str_at runs_add [of b])

lemma prop_next_ok: "blob_ok b \<Longrightarrow> runs (prop_next p b offset) (\<lambda>_. True)"
proof (induction p b offset rule: prop_next.induct)
  case (1 p b offset)
  have "runs (do { o4 \<leftarrow> checked_add offset 4; prop_next p b o4 }) (\<lambda>_. True)"
    if "u32_at p b offset = Some (Some token)" "token = FDT_NOP" for token
    using that 1 u32_at_inside [OF that(1)] small_offset(1) [OF 1(2), of offset 4] by auto
  moreover have "runs (u32_at p b offset) (\<lambda>got. got \<noteq> None \<longrightarrow> unat offset + 4 \<le> unat (blob_size b))"
    using 1(2) by (intro runs_u32_at) auto
  ultimately show ?case
    using 1(2)
    by (subst prop_next.simps) (auto simp: runs_def [of "u32_at p b offset"] intro!: runs_prop_at
        split: option.splits)
qed

lemma find_prop_ok: "blob_ok b \<Longrightarrow> runs (find_prop p b offset wanted) (\<lambda>_. True)"
proof (induction p b offset wanted rule: find_prop.induct)
  case (1 p b offset wanted)
  obtain got where "prop_next p b offset = Some got"
    using prop_next_ok [OF 1(2), of p offset] by (auto simp: runs_def)
  with 1 show ?case by (subst find_prop.simps) (auto split: option.splits)
qed

lemma runs_property:
  assumes "blob_ok b" "node_ok b n" "\<And>x. P x"
  shows "runs (property p b n name) P"
  using assms by (auto simp: property_def intro!: runs_props_start runs_mono [OF find_prop_ok])

lemma runs_entry_size:
  assumes "address_cells n \<le> 2" "size_cells n \<le> 2" "\<And>x. P x"
  shows "runs (entry_size n) P"
proof -
  have "unat (address_cells n) \<le> 2" "unat (size_cells n) \<le> 2"
    using assms(1,2) by (simp_all add: word_le_nat_alt)
  then show ?thesis
    using assms(3) by (simp add: entry_size_def checked_add_def checked_mul_def unat_add_no_overflow)
qed

lemma runs_reg:
  assumes "blob_ok b" "node_ok b n" "P None"
    "\<And>x. address_cells n \<le> 2 \<Longrightarrow> size_cells n \<le> 2 \<Longrightarrow> P (Some x)"
  shows "runs (reg p b n i) P"
proof (cases "2 < address_cells n \<or> 2 < size_cells n \<or> address_cells n = 0")
  case True
  with assms(3) show ?thesis by (simp add: reg_def)
next
  case False
  then have small: "address_cells n \<le> 2" "size_cells n \<le> 2" by auto
  have P: "P x" for x using assms(3,4) small by (cases x) auto
  show ?thesis
    unfolding reg_def using False assms(1,2) small P
    by (auto simp: Let_def intro!: runs_property runs_entry_size split: option.splits)
qed

lemma regions_ok: "blob_ok b \<Longrightarrow> node_ok b n \<Longrightarrow>
    runs (regions_from p b n found out) (\<lambda>(k, out'). length out' = length out \<and> (found \<le> length out \<longrightarrow> k \<le> length out))"
proof (induction p b n found out rule: regions_from.induct)
  case (1 p b n found out)
  obtain got where "reg p b n found = Some got"
    using runs_reg [OF 1(2,3), of "\<lambda>_. True" p found] by (auto simp: runs_def)
  with 1 show ?case
    by (subst regions_from.simps) (fastforce split: option.splits elim!: runs_mono)
qed

lemma walker_nextE:
  assumes "blob_ok b" "walker_ok b w"
  obtains got w' where "walker_next p w = Some (got, w')" "walker_ok b w'"
    "\<And>n name. got = Some (Node_Step n name) \<Longrightarrow> node_ok b n"
  using walker_next_ok [OF assms, of p] by (auto simp: runs_def answer_ok_def)

lemma find_node_loop_ok:
  "blob_ok b \<Longrightarrow> walker_ok b w \<Longrightarrow> length on_path = MAX_DEPTH \<Longrightarrow>
     runs (find_node_loop p path wanted w on_path) (\<lambda>got. \<forall>n. got = Some n \<longrightarrow> node_ok b n)"
proof (induction p path wanted w on_path rule: find_node_loop.induct)
  case (1 p path wanted w on_path)
  have path: "runs (on_the_path path on_path n name) (\<lambda>_. node_depth n < length on_path)"
    if "node_ok b n" for n name
    using that 1(5) by (auto simp: on_the_path_def node_ok_def nat_sub_def split: option.splits)
  obtain got w' where got: "walker_next p w = Some (got, w')" "walker_ok b w'"
    "\<And>n name. got = Some (Node_Step n name) \<Longrightarrow> node_ok b n"
    using walker_nextE [OF 1(3,4)] by blast
  show ?case
  proof (cases "\<exists>n name. got = Some (Node_Step n name)")
    case True
    then obtain n name where n: "got = Some (Node_Step n name)" by blast
    then obtain matched where "on_the_path path on_path n name = Some matched" "node_depth n < length on_path"
      using path [OF got(3)] by (auto simp: runs_def)
    with n got 1(1) [OF got(1) refl n refl] 1(3-5) show ?thesis
      by (subst find_node_loop.simps) auto
  next
    case False
    with got(1,2) 1(2) [OF got(1) refl] 1(3-5) show ?thesis
      by (subst find_node_loop.simps) (auto split: option.splits fdt_step.splits)
  qed
qed

lemma runs_find_node:
  assumes "blob_ok b" "P None" "\<And>n. node_ok b n \<Longrightarrow> P (Some n)"
  shows "runs (find_node p b path) P"
proof -
  have "length ((replicate MAX_DEPTH False)[0 := True]) = MAX_DEPTH" by simp
  from find_node_loop_ok [OF assms(1) walk_ok this] show ?thesis
    unfolding find_node_def by (rule runs_mono) (metis assms(2,3) option.exhaust)
qed

lemma find_compatible_loop_ok:
  "blob_ok b \<Longrightarrow> walker_ok b w \<Longrightarrow>
     runs (find_compatible_loop p b wanted offset w) (\<lambda>got. \<forall>n. got = Some n \<longrightarrow> node_ok b n \<and> offset < node_offset n)"
proof (induction p b wanted offset w rule: find_compatible_loop.induct)
  case (1 p b wanted offset w)
  obtain got w' where got: "walker_next p w = Some (got, w')" "walker_ok b w'"
    "\<And>n name. got = Some (Node_Step n name) \<Longrightarrow> node_ok b n"
    using walker_nextE [OF 1(4,5)] by blast
  show ?case
  proof (cases "\<exists>n name. got = Some (Node_Step n name)")
    case True
    then obtain n name where n: "got = Some (Node_Step n name)" by blast
    then obtain xs where "property p b n (ascii ''compatible'') = Some xs"
      using runs_property [OF 1(4) got(3), of n name "\<lambda>_. True"] by (auto simp: runs_def)
    with n got 1(1,2) [OF got(1) refl n refl] 1(4,5) show ?thesis
      by (subst find_compatible_loop.simps) auto
  next
    case False
    with got(1,2) 1(3) [OF got(1) refl] 1(4,5) show ?thesis
      by (subst find_compatible_loop.simps) (auto split: option.splits fdt_step.splits)
  qed
qed

section \<open>The memory map\<close>

text \<open>The map under construction: the blob itself is the first reservation.\<close>

definition mm_ok :: "blob \<Rightarrow> mem_map \<Rightarrow> bool" where
  "mm_ok b m \<longleftrightarrow> length (mm_reservations m) = MAX_RESERVATIONS \<and>
     1 \<le> mm_count m \<and> mm_count m \<le> MAX_RESERVATIONS \<and>
     mm_reservations m ! 0 = (blob_pa b, ucast (blob_size b)) \<and>
     (0 < mm_dropped m \<longrightarrow> mm_count m = MAX_RESERVATIONS)"

lemma mm_reserve_ok: "mm_ok b m \<Longrightarrow> runs (mm_reserve base sz m) (mm_ok b)"
  by (auto simp: mm_reserve_def mm_ok_def MAX_RESERVATIONS_def)

lemma reserve_block_ok:
  "blob_ok b \<Longrightarrow> unat offset \<le> unat (blob_size b) \<Longrightarrow> mm_ok b m \<Longrightarrow>
     runs (reserve_block p b offset m) (mm_ok b)"
proof (induction p b offset m rule: reserve_block.induct)
  case (1 p b offset m)
  have o8: "checked_add offset 8 = Some (offset + 8)"
    using small_offset [OF 1(2,3), of 8] by simp
  obtain base sz where read: "u64_at p b offset = Some base" "u64_at p b (offset + 8) = Some sz"
    using runs_u64_at [OF 1(2), of "\<lambda>_. True"] by (fastforce simp: runs_def)
  show ?case
  proof (cases "\<exists>x y. base = Some x \<and> sz = Some y \<and> \<not> (x = 0 \<and> y = 0)")
    case True
    then obtain x y where xy: "base = Some x" "sz = Some y" "\<not> (x = 0 \<and> y = 0)" by blast
    obtain m' where m': "mm_reserve x y m = Some m'" "mm_ok b m'"
      using mm_reserve_ok [OF 1(4)] by (fastforce simp: runs_def)
    have o16: "checked_add offset 16 = Some (offset + 16)" "unat (offset + 16) \<le> unat (blob_size b)"
      using small_offset [OF 1(2,3)] u64_at_inside [of p b "offset + 8"] read(2) xy(2) by auto
    show ?thesis
      using 1(1) [OF read(1) o8 read(2) _ xy(1,2) xy(3) m'(1) o16(1)] 1(2) o16(2) m' read xy o8 o16(1)
      by (subst reserve_block.simps) auto
  next
    case False
    with read o8 1(4) show ?thesis
      by (subst reserve_block.simps) (auto split: option.splits)
  qed
qed

lemma reserve_children_ok:
  "blob_ok b \<Longrightarrow> walker_ok b w \<Longrightarrow> mm_ok b m \<Longrightarrow>
     runs (reserve_children p b parent w m) (mm_ok b)"
proof (induction p b parent w m rule: reserve_children.induct)
  case (1 p b parent w m)
  obtain got w' where got: "walker_next p w = Some (got, w')" "walker_ok b w'"
    "\<And>n name. got = Some (Node_Step n name) \<Longrightarrow> node_ok b n"
    using walker_nextE [OF 1(5,6)] by blast
  show ?case
  proof (cases "\<exists>n name. got = Some (Node_Step n name)")
    case True
    then obtain n name where n: "got = Some (Node_Step n name)" by blast
    obtain r where r: "reg p b n 0 = Some r"
      using runs_reg [OF 1(5) got(3) [OF n], of "\<lambda>_. True"] by (auto simp: runs_def)
    obtain m' where m': "(case r of Some (base, sz) \<Rightarrow> mm_reserve base sz m | None \<Rightarrow> Some m) = Some m'"
      "mm_ok b m'"
      using mm_reserve_ok [OF 1(7)] 1(7) by (cases r) (fastforce simp: runs_def)+
    show ?thesis
      using n got r m' 1(1,2,3) [OF got(1) refl n refl] 1(5-7)
      by (subst reserve_children.simps) auto
  next
    case False
    with got(1,2) 1(4) [OF got(1) refl] 1(5-7) show ?thesis
      by (subst reserve_children.simps) (auto split: option.splits fdt_step.splits)
  qed
qed

lemma note_memory_ok: "blob_ok b \<Longrightarrow> mm_ok b m \<Longrightarrow> runs (note_memory p b m) (mm_ok b)"
  unfolding note_memory_def
  by (auto intro!: runs_find_node runs_reg runs_property runs_entry_size split: option.splits)
    (auto simp: mm_ok_def)

lemma memory_map_ok:
  assumes "blob_ok b" "HEADER_SIZE \<le> blob_size b" "off_mem_rsvmap (blob_header b) < blob_size b"
  shows "runs (memory_map p b) (mm_ok b)"
proof -
  have "(ucast (blob_size b) :: u64) \<noteq> 0"
    using assms(2) by (auto simp: HEADER_SIZE_def word_le_nat_alt simp flip: unat_eq_0)
  then have first: "runs (mm_reserve (blob_pa b) (ucast (blob_size b)) mm_empty) (mm_ok b)"
    by (auto simp: mm_reserve_def mm_empty_def mm_ok_def MAX_RESERVATIONS_def)
  show ?thesis
    unfolding memory_map_def using assms
    by (auto intro!: runs_mono [OF first] runs_mono [OF reserve_block_ok] runs_find_node note_memory_ok
        runs_mono [OF reserve_children_ok] walk_ok simp: word_less_nat_alt split: option.splits)
qed

text \<open>What \<open>fdt_init\<close> records.\<close>

lemma probe_accepts:
  assumes "probe_blob p va = Some (Inr h)"
  shows "totalsize h \<le> MAX_BLOB" "HEADER_SIZE \<le> totalsize h" "off_mem_rsvmap h < totalsize h"
    "unat (off_dt_struct h) + unat (size_dt_struct h) \<le> unat (totalsize h)"
    "unat (off_dt_strings h) + unat (size_dt_strings h) \<le> unat (totalsize h)"
proof -
  obtain tsize where ts: "be32 p va 4 = Some tsize" "\<not> tsize < HEADER_SIZE" "\<not> MAX_BLOB < tsize"
    and h: "read_header p va tsize = Some h" "ends_inside tsize (off_dt_struct h) (size_dt_struct h)"
      "ends_inside tsize (off_dt_strings h) (size_dt_strings h)" "\<not> tsize \<le> off_mem_rsvmap h"
    using assms by (auto simp: probe_blob_def bind_eq_Some_conv split: if_split_asm)
  have "totalsize h = tsize"
    using h(1) by (auto simp: read_header_def bind_eq_Some_conv)
  with ts h show "totalsize h \<le> MAX_BLOB" "HEADER_SIZE \<le> totalsize h" "off_mem_rsvmap h < totalsize h"
    "unat (off_dt_struct h) + unat (size_dt_struct h) \<le> unat (totalsize h)"
    "unat (off_dt_strings h) + unat (size_dt_strings h) \<le> unat (totalsize h)"
    by (auto simp: ends_inside_def word_le_nat_alt word_less_nat_alt not_less not_le dest!: checked_addD split: option.splits)
qed

lemma fdt_initD:
  assumes "fdt_init m stored pa = Some (Inr b, stored')"
  obtains h where "probe_blob (mphys m) (phys_to_virt (mphys m) pa) = Some (Inr h)"
    "b = \<lparr>blob_pa = pa, blob_va = phys_to_virt (mphys m) pa, blob_header = h\<rparr>" "stored' = Some b"
    "ram_base (mframes m) \<le> pa"
    "unat pa + unat (totalsize h) \<le> unat (ram_base (mframes m)) + unat (ram_size (mframes m))"
proof -
  let ?va = "phys_to_virt (mphys m) pa"
  obtain top where *: "pa \<noteq> 0" "\<not> pa < ram_base (mframes m)"
    "checked_add (ram_base (mframes m)) (ram_size (mframes m)) = Some top"
    "\<not> top < saturating_add pa (ucast HEADER_SIZE)"
    using assms by (auto simp: fdt_init_def bind_eq_Some_conv split: if_split_asm)
  with assms obtain r where r: "probe_blob (mphys m) ?va = Some r"
    by (auto simp: fdt_init_def Let_def bind_eq_Some_conv)
  with * assms obtain h where h: "probe_blob (mphys m) ?va = Some (Inr h)"
    by (cases r) (auto simp: fdt_init_def)
  with * assms obtain last where "checked_add pa (ucast (totalsize h)) = Some last" "\<not> top < last"
    "b = \<lparr>blob_pa = pa, blob_va = ?va, blob_header = h\<rparr>" "stored' = Some b"
    by (auto simp: fdt_init_def Let_def bind_eq_Some_conv split: if_split_asm)
  with * h show thesis
    by (intro that [of h]) (auto simp: not_less word_le_nat_alt dest!: checked_addD)
qed

lemma fdt_init_ok:
  assumes "fdt_init m stored pa = Some (Inr b, stored')"
    and "unat (phys_to_virt (mphys m) (ram_base (mframes m))) + unat (ram_size (mframes m)) < 2 ^ 64"
  shows "blob_ok b" "HEADER_SIZE \<le> blob_size b" "off_mem_rsvmap (blob_header b) < blob_size b"
    "blob_pa b = pa" "stored' = Some b"
proof -
  let ?base = "ram_base (mframes m)" and ?top = "unat (ram_base (mframes m)) + unat (ram_size (mframes m))"
  obtain h where h: "probe_blob (mphys m) (phys_to_virt (mphys m) pa) = Some (Inr h)"
    "b = \<lparr>blob_pa = pa, blob_va = phys_to_virt (mphys m) pa, blob_header = h\<rparr>" "stored' = Some b"
    "?base \<le> pa" "unat pa + unat (totalsize h) \<le> ?top"
    using assms(1) by (rule fdt_initD)
  have "phys_to_virt (mphys m) pa = phys_to_virt (mphys m) ?base + (pa - ?base)"
    by (simp add: phys_to_virt_def)
  moreover have gap: "unat (pa - ?base) = unat pa - unat ?base" "unat ?base \<le> unat pa"
    using h(4) by (simp_all add: unat_sub word_le_nat_alt)
  ultimately have "unat (phys_to_virt (mphys m) pa) =
      unat (phys_to_virt (mphys m) ?base) + (unat pa - unat ?base)"
    using assms(2) h(5) by (simp add: unat_add_no_overflow)
  with assms(2) h(5) gap(2) have "unat (phys_to_virt (mphys m) pa) + unat (totalsize h) < 2 ^ 64"
    by simp
  with h(2,3) probe_accepts [OF h(1)] show "blob_ok b" "HEADER_SIZE \<le> blob_size b"
    "off_mem_rsvmap (blob_header b) < blob_size b" "blob_pa b = pa" "stored' = Some b"
    by (simp_all add: blob_ok_def)
qed

text \<open>
  C5. The memory map can be read from every blob that \<open>fdt_init\<close> accepts, whatever the rest of
  its bytes are, as long as the kernel's window on RAM does not wrap around the address space: no
  length, offset, cell count or string in it makes the parser panic. The map reserves the blob
  itself first, and never holds more regions than it has room for; the ones that did not fit are
  counted, and only when the table is full.
\<close>

theorem memory_map_never_panics:
  assumes "fdt_init m stored pa = Some (Inr b, stored')"
    and "unat (phys_to_virt (mphys m) (ram_base (mframes m))) + unat (ram_size (mframes m)) < 2 ^ 64"
  shows "\<exists>mm rs. memory_map (mphys m) b = Some mm \<and> reserved mm = Some rs \<and>
    rs \<noteq> [] \<and> hd rs = (pa, ucast (blob_size b)) \<and> length rs \<le> MAX_RESERVATIONS \<and>
    (mm_dropped mm \<noteq> 0 \<longrightarrow> length rs = MAX_RESERVATIONS)"
proof -
  note b = fdt_init_ok [OF assms]
  obtain mm where mm: "memory_map (mphys m) b = Some mm" "mm_ok b mm"
    using memory_map_ok [OF b(1-3), of "mphys m"] by (auto simp: runs_def)
  then have "reserved mm = Some (take (mm_count mm) (mm_reservations mm))"
    "hd (mm_reservations mm) = mm_reservations mm ! 0"
    by (simp add: reserved_def mm_ok_def, intro hd_conv_nth) (auto simp: mm_ok_def MAX_RESERVATIONS_def)
  with mm b(4) show ?thesis by (auto simp: mm_ok_def)
qed

definition tiny_tree :: "u8 list" where
  "tiny_tree = concat (map (be_split 4 :: u32 \<Rightarrow> u8 list)
     [MAGIC, 64, 40, 56, 40, 17, 16, 0, 8, 16, 0, 0, 0, 0, 0, 0])"

definition tiny_mach :: mach where
  "tiny_mach =
     \<lparr>mphys = store_bytes \<lparr>pmem = (\<lambda>_. 0), phys_offset = 0xffff000000000000\<rparr>
        0xffff000048000000 tiny_tree,
      mframes = frames_boot\<rparr>"

lemma tiny_tree_bytes:
  "tiny_tree = [0xd0, 0x0d, 0xfe, 0xed, 0, 0, 0, 64, 0, 0, 0, 40, 0, 0, 0, 56, 0, 0, 0, 40, 0, 0, 0, 17,
     0, 0, 0, 16, 0, 0, 0, 0, 0, 0, 0, 8, 0, 0, 0, 16, 0, 0, 0, 0, 0, 0, 0, 0, 0, 0, 0, 0, 0, 0, 0, 0,
     0, 0, 0, 0, 0, 0, 0, 0]"
  by code_simp


lemma tiny_load:
  "load (mphys tiny_mach) (0xffff000048000000 + of_nat i) = (if i < 64 then tiny_tree ! i else 0)" if "i < 2 ^ 20"
  using that by (simp add: tiny_mach_def load_def store_bytes_def kernel_pa_def tiny_tree_bytes unat_of_nat)

lemma at_offset: "va + ucast (offset :: u32) + of_nat i = (va + of_nat (unat offset + i) :: u64)"
  by (simp add: word_eq_iff_unsigned unsigned_of_nat add.assoc)

lemma tiny_be32:
  assumes "unat offset < 2 ^ 16"
  shows "be32 (mphys tiny_mach) 0xffff000048000000 offset =
    Some (be_join (map (\<lambda>i. if unat offset + i < 64 then tiny_tree ! (unat offset + i) else 0) [0, 1, 2, 3]))"
proof -
  have "load (mphys tiny_mach) (0xffff000048000000 + ucast offset + of_nat i) =
      (if unat offset + i < 64 then tiny_tree ! (unat offset + i) else 0)" if "i < 4" for i
    unfolding at_offset using assms that by (intro tiny_load) simp
  then have "read_bytes (mphys tiny_mach) (0xffff000048000000 + ucast offset) 4 =
      map (\<lambda>i. if unat offset + i < 64 then tiny_tree ! (unat offset + i) else 0) [0..<4]"
    by (simp add: read_bytes_def del: upt.simps)
  moreover have "[0..<4] = [0, 1, 2, 3 :: nat]" by code_simp
  ultimately show ?thesis
    using assms by (simp add: be32_def checked_add_def)
qed

definition tiny_blob :: blob where
  "tiny_blob = \<lparr>blob_pa = 0x48000000, blob_va = 0xffff000048000000,
     blob_header = \<lparr>totalsize = 64, off_dt_struct = 40, off_dt_strings = 56, off_mem_rsvmap = 40,
       version = 17, last_comp_version = 16, boot_cpuid_phys = 0, size_dt_strings = 8, size_dt_struct = 16\<rparr>\<rparr>"

lemma tiny_init: "fdt_init tiny_mach None 0x48000000 = Some (Inr tiny_blob, Some tiny_blob)"
proof -
  have va: "phys_to_virt (mphys tiny_mach) 0x48000000 = 0xffff000048000000"
    by (simp add: phys_to_virt_def tiny_mach_def store_bytes_def)
  have "probe_blob (mphys tiny_mach) 0xffff000048000000 = Some (Inr (blob_header tiny_blob))"
    by (simp add: probe_blob_def read_header_def tiny_be32 be_join_def le_join_def tiny_tree_bytes is_multiple_of_def
      MAGIC_def HEADER_SIZE_def MAX_BLOB_def SUPPORTED_VERSION_def tiny_blob_def ends_inside_def checked_add_def)
  with va show ?thesis
   by (simp add: fdt_init_def Let_def tiny_blob_def HEADER_SIZE_def saturating_add_def checked_add_def tiny_mach_def store_bytes_def frames_boot_def ram_base_def
     ram_size_def DEFAULT_RAM_BASE_def DEFAULT_RAM_SIZE_def)
qed

lemma memory_map_never_panics_witness:
  "\<exists>mm rs. memory_map (mphys tiny_mach) tiny_blob = Some mm \<and> reserved mm = Some rs \<and>
    rs \<noteq> [] \<and> hd rs = (0x48000000, 64) \<and> length rs \<le> MAX_RESERVATIONS \<and>
    (mm_dropped mm \<noteq> 0 \<longrightarrow> length rs = MAX_RESERVATIONS)"
proof -
  have "unat (phys_to_virt (mphys tiny_mach) (ram_base (mframes tiny_mach))) + unat (ram_size (mframes tiny_mach))
      < 2 ^ 64"
    by (simp add: tiny_mach_def store_bytes_def phys_to_virt_def frames_boot_def ram_base_def ram_size_def
        DEFAULT_RAM_BASE_def DEFAULT_RAM_SIZE_def)
  from memory_map_never_panics [OF tiny_init this] show ?thesis
    by (simp add: tiny_blob_def)
qed

text \<open>
  C17. Every question the kernel asks the tree is answered for every blob whose header was accepted:
  a node is found or not, and every node the searches return can be asked for its properties and
  its \<open>reg\<close> entries without a panic. A search that continues after an offset makes progress: what
  it finds lies strictly behind it, so the loop that enumerates devices ends.
\<close>

theorem tree_queries_never_panic:
  assumes "blob_ok b"
  shows "(\<exists>found. find_node p b path = Some found \<and> (\<forall>n. found = Some n \<longrightarrow> node_ok b n)) \<and>
    (\<exists>found. find_compatible_after p b wanted offset = Some found \<and>
       (\<forall>n. found = Some n \<longrightarrow> node_ok b n \<and> offset < node_offset n)) \<and>
    (\<forall>n. node_ok b n \<longrightarrow> property p b n name \<noteq> None \<and> property_u32 p b n name \<noteq> None \<and>
       property_str p b n name \<noteq> None \<and> reg p b n i \<noteq> None \<and>
       (\<exists>k out'. regions p b n out = Some (k, out') \<and> k \<le> length out \<and> length out' = length out))"
proof (intro conjI allI impI)
  show "\<exists>found. find_node p b path = Some found \<and> (\<forall>n. found = Some n \<longrightarrow> node_ok b n)"
    using runs_find_node [OF assms, of "\<lambda>f. \<forall>n. f = Some n \<longrightarrow> node_ok b n"] by (auto simp: runs_def)
  show "\<exists>found. find_compatible_after p b wanted offset = Some found \<and>
      (\<forall>n. found = Some n \<longrightarrow> node_ok b n \<and> offset < node_offset n)"
    using find_compatible_loop_ok [OF assms walk_ok] by (auto simp: find_compatible_after_def runs_def)
next
  fix n
  assume n: "node_ok b n"
  note ask = runs_property [OF assms n, of "\<lambda>_. True"]
  show "property p b n name \<noteq> None" using runs_not_None [OF ask] by simp
  show "property_u32 p b n name \<noteq> None" "property_str p b n name \<noteq> None"
    using ask [of p name] by (auto simp: property_u32_def property_str_def attempt_def runs_def Let_def
        split: option.splits)
  show "reg p b n i \<noteq> None" using runs_reg [OF assms n, of "\<lambda>_. True" p i] runs_not_None by simp
  show "\<exists>k out'. regions p b n out = Some (k, out') \<and> k \<le> length out \<and> length out' = length out"
    using regions_ok [OF assms n, of p 0 out] by (auto simp: regions_def runs_def)
qed

lemma tiny_blob_ok: "blob_ok tiny_blob"
  by (simp add: blob_ok_def tiny_blob_def MAX_BLOB_def)

lemma tree_queries_never_panic_witness:
  "\<exists>found. find_node (mphys tiny_mach) tiny_blob (ascii ''/memory'') = Some found"
  using tree_queries_never_panic [OF tiny_blob_ok, of "mphys tiny_mach" "ascii ''/memory''" "[]" 0 "[]" 0 "[]"]
  by blast

section \<open>Nothing outside the blob is read\<close>

text \<open>Two memories that hold the same blob.\<close>

definition same_blob :: "phys \<Rightarrow> phys \<Rightarrow> blob \<Rightarrow> bool" where
  "same_blob p q b \<longleftrightarrow>
     (\<forall>i < unat (blob_size b). load p (blob_va b + of_nat i) = load q (blob_va b + of_nat i))"

lemma read_bytes_same:
  fixes offset :: u32
  assumes "same_blob p q b" "unat offset + n \<le> unat (blob_size b)"
  shows "read_bytes p (blob_va b + ucast offset) n = read_bytes q (blob_va b + ucast offset) n"
proof -
  have "load p (blob_va b + ucast offset + of_nat i) = load q (blob_va b + ucast offset + of_nat i)"
    if "i < n" for i
  proof -
    have "unat offset + i < unat (blob_size b)" using assms(2) that by simp
    then show ?thesis
      unfolding at_offset by (rule assms(1) [unfolded same_blob_def, rule_format])
  qed
  then show ?thesis by (simp add: read_bytes_def)
qed

lemma be32_same:
  "same_blob p q b \<Longrightarrow> unat offset + 4 \<le> unat (blob_size b) \<Longrightarrow>
     be32 p (blob_va b) offset = be32 q (blob_va b) offset"
  by (auto simp: be32_def checked_add_def read_bytes_same)

lemma u32_at_same: "same_blob p q b \<Longrightarrow> u32_at p b offset = u32_at q b offset"
  using be32_same [of p q b offset]
  by (auto simp: u32_at_def not_less word_le_nat_alt word_less_nat_alt dest: checked_addD split: option.splits)

lemma u64_at_same: "same_blob p q b \<Longrightarrow> u64_at p b offset = u64_at q b offset"
  by (simp add: u64_at_def u32_at_same cong: option.case_cong)

lemma bytes_at_same:
  assumes "same_blob p q b"
  shows "bytes_at p b offset len = bytes_at q b offset len"
proof (cases "checked_add offset len")
  case (Some e)
  have "read_bytes p (blob_va b + ucast offset) (unat len) = read_bytes q (blob_va b + ucast offset) (unat len)"
    if "\<not> blob_size b < e"
    using that checked_addD [OF Some] by (intro read_bytes_same [OF assms]) (simp add: not_less word_le_nat_alt)
  with Some show ?thesis by (simp add: bytes_at_def checked_add_def [of "blob_va b"])
qed (simp add: bytes_at_def)

lemma find_nul_same:
  assumes "same_blob p q b" "limit \<le> blob_size b"
  shows "find_nul p (blob_va b) at limit = find_nul q (blob_va b) at limit"
  using assms
proof (induction p "blob_va b" at limit rule: find_nul.induct)
  case (1 p at limit)
  have "load p (blob_va b + ucast at) = load q (blob_va b + ucast at)" if "at < limit"
    using 1(2,3) that read_bytes_same [of p q b at 1]
    by (simp add: read_bytes_def word_less_nat_alt word_le_nat_alt)
  then show ?case
    using 1 by (subst (1 2) find_nul.simps) (cases "checked_add at 1"; auto simp: checked_add_def [of "blob_va b"])
qed

lemma str_at_same: "same_blob p q b \<Longrightarrow> str_at p b offset limit = str_at q b offset limit"
  by (simp add: str_at_def Let_def find_nul_same bytes_at_same)

lemma name_string_same: "same_blob p q b \<Longrightarrow> name_string p b o' = name_string q b o'"
  by (simp add: name_string_def str_at_same split: option.split)

lemma prop_at_same: "same_blob p q b \<Longrightarrow> prop_at p b offset = prop_at q b offset"
  by (simp add: prop_at_def u32_at_same bytes_at_same name_string_same)

lemma walker_turn_same:
  "same_blob p q (w_blob w) \<Longrightarrow> walker_turn p w = walker_turn q w"
  by (simp add: walker_turn_def open_node_def take_prop_def u32_at_same str_at_same prop_at_same
      cong: if_cong option.case_cong)

lemma w_blob_turn:
  assumes "walker_turn p w = Some (Inr w')"
  shows "w_blob w' = w_blob w"
proof -
  have inside: "\<not> w_end w \<le> w_offset w"
    using assms by (auto simp: walker_turn_def)
  obtain token where token: "u32_at p (w_blob w) (w_offset w) = Some (Some token)"
    using assms inside
    by (cases "u32_at p (w_blob w) (w_offset w)") (auto simp: walker_turn_def split: option.split_asm)
  show ?thesis
    using assms token inside
    by (cases "checked_add (w_offset w) 4")
      (auto simp: walker_turn_def not_open_again split: if_split_asm)
qed

lemma walker_next_same:
  "same_blob p q (w_blob w) \<Longrightarrow> walker_next p w = walker_next q w"
proof (induction p w rule: walker_next.induct)
  case (1 p w)
  have "walker_turn p w = walker_turn q w" using 1(2) by (rule walker_turn_same)
  then obtain r where "walker_turn p w = r" "walker_turn q w = r" by blast
  with 1 show ?case
    by (cases r; subst (1 2) walker_next.simps) (auto dest!: w_blob_turn split: sum.splits)
qed

lemma props_same:
  assumes "same_blob p q b"
  shows "props_start p b n = props_start q b n" "prop_next p b offset = prop_next q b offset"
    "find_prop p b offset wanted = find_prop q b offset wanted" "property p b n name = property q b n name"
    "reg p b n i = reg q b n i"
proof -
  show start: "props_start p b n = props_start q b n"
    by (simp add: props_start_def str_at_same [OF assms])
  have nxt: "prop_next p b offset = prop_next q b offset" for offset
    using assms
  proof (induction p b offset rule: prop_next.induct)
    case (1 p b offset)
    have "u32_at p b offset = u32_at q b offset" using 1(2) by (rule u32_at_same)
    with 1 show ?case
      by (cases "u32_at q b offset"; cases "checked_add offset 4"; subst (1 2) prop_next.simps)
        (auto simp: prop_at_same split: option.splits)
  qed
  have find: "find_prop p b offset wanted = find_prop q b offset wanted" for offset wanted
    using assms nxt
  proof (induction p b offset wanted rule: find_prop.induct)
    case (1 p b offset wanted)
    then show ?case
      by (cases "prop_next q b offset"; subst (1 2) find_prop.simps) (auto split: option.splits)
  qed
  have property: "property p b n name = property q b n name" for name
    by (simp add: property_def start find)
  then show "reg p b n i = reg q b n i" "property p b n name = property q b n name"
    by (simp_all add: reg_def)
  show "prop_next p b offset = prop_next q b offset" "find_prop p b offset wanted = find_prop q b offset wanted"
    by (rule nxt find)+
qed

lemma walker_next_both:
  assumes "blob_ok b" "same_blob p q b" "walker_ok b w"
  obtains got w' where "walker_next p w = Some (got, w')" "walker_next q w = Some (got, w')" "walker_ok b w'"
proof -
  have "walker_next p w = walker_next q w"
    using assms(2,3) by (intro walker_next_same) (simp add: walker_ok_def)
  with assms show thesis by (metis that walker_nextE)
qed

lemma find_node_loop_same:
  "blob_ok b \<Longrightarrow> same_blob p q b \<Longrightarrow> walker_ok b w \<Longrightarrow>
     find_node_loop p path wanted w on_path = find_node_loop q path wanted w on_path"
proof (induction p path wanted w on_path rule: find_node_loop.induct)
  case (1 p path wanted w on_path)
  obtain got w' where got: "walker_next p w = Some (got, w')" "walker_next q w = Some (got, w')"
    "walker_ok b w'"
    using 1(3-5) by (rule walker_next_both)
  consider "got = None" | name v where "got = Some (Property_Step name v)"
    | n name where "got = Some (Node_Step n name)"
    by (metis fdt_step.exhaust option.exhaust)
  then show ?case
  proof cases
    case (3 n name)
    note again = 1(1) [OF got(1) refl 3 refl _ _ _ 1(3,4) got(3)]
    show ?thesis
      using got 3 again
      by (subst (1 2) find_node_loop.simps) (cases "on_the_path path on_path n name"; simp add: assert_that_def)
  qed (use got 1(2) [OF got(1) refl _ refl 1(3,4) got(3)] in \<open>subst (1 2) find_node_loop.simps, simp\<close>)+
qed

lemma find_compatible_loop_same:
  "blob_ok b \<Longrightarrow> same_blob p q b \<Longrightarrow> walker_ok b w \<Longrightarrow>
     find_compatible_loop p b wanted offset w = find_compatible_loop q b wanted offset w"
proof (induction p b wanted offset w rule: find_compatible_loop.induct)
  case (1 p b wanted offset w)
  obtain got w' where got: "walker_next p w = Some (got, w')" "walker_next q w = Some (got, w')"
    "walker_ok b w'"
    using 1(4-6) by (rule walker_next_both)
  consider "got = None" | name v where "got = Some (Property_Step name v)"
    | n name where "got = Some (Node_Step n name)"
    by (metis fdt_step.exhaust option.exhaust)
  then show ?case
  proof cases
    case (3 n name)
    show ?thesis
      using got 3 1(1,2) [OF got(1) refl 3 refl] 1(4-6)
      by (subst (1 2) find_compatible_loop.simps)
        (cases "property q b n (ascii ''compatible'')"; simp add: props_same(4) [OF 1(5)])
  qed (use got 1(3) [OF got(1) refl _ refl 1(4,5) got(3)] in \<open>subst (1 2) find_compatible_loop.simps, simp\<close>)+
qed

lemma reserve_block_same:
  "same_blob p q b \<Longrightarrow> reserve_block p b offset m = reserve_block q b offset m"
proof (induction p b offset m rule: reserve_block.induct)
  case (1 p b offset m)
  note same = u64_at_same [OF 1(2)]
  have "(case (base, sz) of (Some base, Some sz) \<Rightarrow>
        if base = 0 \<and> sz = 0 then Some m
        else do { m \<leftarrow> mm_reserve base sz m; o16 \<leftarrow> checked_add offset 16; reserve_block p b o16 m }
      | _ \<Rightarrow> Some m) =
    (case (base, sz) of (Some base, Some sz) \<Rightarrow>
        if base = 0 \<and> sz = 0 then Some m
        else do { m \<leftarrow> mm_reserve base sz m; o16 \<leftarrow> checked_add offset 16; reserve_block q b o16 m }
      | _ \<Rightarrow> Some m)"
    if "u64_at p b offset = Some base" "checked_add offset 8 = Some o8" "u64_at p b o8 = Some sz"
    for base o8 sz
    using 1(1) [OF that] 1(2) by (auto split: option.splits intro!: Option.bind_cong)
  then show ?case
    by (subst (1 2) reserve_block.simps) (auto simp: same intro!: Option.bind_cong)
qed

lemma reserve_children_same:
  "blob_ok b \<Longrightarrow> same_blob p q b \<Longrightarrow> walker_ok b w \<Longrightarrow>
     reserve_children p b parent w m = reserve_children q b parent w m"
proof (induction p b parent w m rule: reserve_children.induct)
  case (1 p b parent w m)
  obtain got w' where got: "walker_next p w = Some (got, w')" "walker_next q w = Some (got, w')"
    "walker_ok b w'"
    using 1(5-7) by (rule walker_next_both)
  consider "got = None" | name v where "got = Some (Property_Step name v)"
    | n name where "got = Some (Node_Step n name)"
    by (metis fdt_step.exhaust option.exhaust)
  then show ?case
  proof cases
    case (3 n name)
    have reg: "reg p b n 0 = reg q b n 0" by (rule props_same(5) [OF 1(6)])
    show ?thesis
      using got 3 1(1,2,3) [OF got(1) refl 3 refl] 1(5-7) reg
      by (subst (1 2) reserve_children.simps) (auto intro!: Option.bind_cong)
  qed (use got 1(4) [OF got(1) refl _ refl 1(5,6) got(3)] in \<open>subst (1 2) reserve_children.simps, simp\<close>)+
qed

text \<open>
  C18. The parser reads the blob and nothing else: if two memories agree on the \<open>totalsize\<close> bytes
  of an accepted blob, they give the same memory map and the same answer to every search and every
  \<open>reg\<close>. No offset, length or missing terminator in the blob takes a read outside it.
\<close>

theorem parser_reads_only_the_blob:
  assumes "blob_ok b"
    and "\<forall>i < unat (blob_size b). load p (blob_va b + of_nat i) = load q (blob_va b + of_nat i)"
  shows "memory_map p b = memory_map q b \<and>
    find_node p b path = find_node q b path \<and>
    find_compatible_after p b wanted offset = find_compatible_after q b wanted offset \<and>
    property p b n name = property q b n name \<and>
    regions p b n out = regions q b n out"
proof -
  have same: "same_blob p q b" using assms(2) by (simp add: same_blob_def)
  have node: "find_node p b path = find_node q b path" for path
    unfolding find_node_def by (rule find_node_loop_same [OF assms(1) same walk_ok])
  have regions: "regions_from p b n found out = regions_from q b n found out" for found out
    using same
  proof (induction p b n found out rule: regions_from.induct)
    case (1 p b n found out)
    have "reg p b n found = reg q b n found" by (rule props_same(5) [OF 1(2)])
    with 1 show ?case
      by (subst (1 2) regions_from.simps) (auto intro!: Option.bind_cong split: option.splits)
  qed
  have bank: "note_memory p b = note_memory q b"
    unfolding fun_eq_iff note_memory_def node props_same(4,5) [OF same] by simp
  have "memory_map p b = memory_map q b"
    unfolding memory_map_def node bank reserve_block_same [OF same]
      reserve_children_same [OF assms(1) same walk_ok]
    by simp
  then show ?thesis
    using node props_same(4) [OF same] regions find_compatible_loop_same [OF assms(1) same walk_ok]
    by (simp add: find_compatible_after_def regions_def)
qed

text \<open>The same tree in a memory that differs everywhere else.\<close>

lemma parser_reads_only_the_blob_witness:
  "memory_map (mphys tiny_mach) tiny_blob =
   memory_map (store_bytes \<lparr>pmem = (\<lambda>_. 0xff), phys_offset = 0xffff000000000000\<rparr> 0xffff000048000000 tiny_tree)
     tiny_blob"
proof -
  have "length tiny_tree = 64" by (simp add: tiny_tree_bytes)
  then have "\<forall>i < unat (blob_size tiny_blob). load (mphys tiny_mach) (blob_va tiny_blob + of_nat i) =
    load (store_bytes \<lparr>pmem = (\<lambda>_. 0xff), phys_offset = 0xffff000000000000\<rparr> 0xffff000048000000 tiny_tree)
      (blob_va tiny_blob + of_nat i)"
    by (simp add: tiny_blob_def tiny_mach_def load_def store_bytes_def kernel_pa_def unat_of_nat)
  from parser_reads_only_the_blob [OF tiny_blob_ok this] show ?thesis by blast
qed

end
