(* ===== verification/Mmio.thy ===== *)
theory Mmio
  imports Memory
begin

text \<open>
  Device registers: what \<open>read_volatile\<close> and \<open>write_volatile\<close> of a register do is the
  device's business. A device is a pair of functions on a state of its own, and an argument of
  every operation that touches its registers; the state is passed along like memory is.

  \<open>traced\<close> adds to a device the record of the accesses made to it, in order, and nothing else:
  it turns a statement about the order of accesses into one about a list.
\<close>

record 'd hw =
  hw_read :: "u64 \<Rightarrow> 'd \<Rightarrow> u32 \<times> 'd"
  hw_write :: "u64 \<Rightarrow> u32 \<Rightarrow> 'd \<Rightarrow> 'd"

text \<open>An access through the pointer \<open>va\<close> reaches the register at its physical address.\<close>

definition mmio_read :: "'d hw \<Rightarrow> phys \<Rightarrow> u64 \<Rightarrow> 'd \<Rightarrow> u32 \<times> 'd" where
  "mmio_read hw p va d = hw_read hw (kernel_pa p va) d"

definition mmio_write :: "'d hw \<Rightarrow> phys \<Rightarrow> u64 \<Rightarrow> u32 \<Rightarrow> 'd \<Rightarrow> 'd" where
  "mmio_write hw p va v d = hw_write hw (kernel_pa p va) v d"

text \<open>\<open>while read(a) is not ok { spin_loop() }\<close>: \<open>None\<close> when the device never gives in.\<close>

partial_function (option) poll ::
  "'d hw \<Rightarrow> phys \<Rightarrow> u64 \<Rightarrow> (u32 \<Rightarrow> bool) \<Rightarrow> 'd \<Rightarrow> 'd option" where
  "poll hw p va ok d =
     (let (v, d) = mmio_read hw p va d in if ok v then Some d else poll hw p va ok d)"

section \<open>Traces\<close>

datatype access = Read u64 u32 | Write u64 u32

definition traced :: "'d hw \<Rightarrow> ('d \<times> access list) hw" where
  "traced hw = \<lparr>
     hw_read = (\<lambda>a (d, t). let (v, d) = hw_read hw a d in (v, d, t @ [Read a v])),
     hw_write = (\<lambda>a v (d, t). (hw_write hw a v d, t @ [Write a v]))\<rparr>"

lemma traced_read [simp]:
  "mmio_read (traced hw) p va (d, t) =
     (let (v, d) = mmio_read hw p va d in (v, d, t @ [Read (kernel_pa p va) v]))"
  by (simp add: traced_def mmio_read_def)

lemma traced_write [simp]:
  "mmio_write (traced hw) p va v (d, t) = (mmio_write hw p va v d, t @ [Write (kernel_pa p va) v])"
  by (simp add: traced_def mmio_write_def)

text \<open>What a poll leaves on the trace: the refused values, then the accepted one.\<close>

lemma poll_trace:
  assumes "poll (traced hw) p va ok (d, t) = Some (d', t')"
  shows "\<exists>vs v. t' = t @ map (Read (kernel_pa p va)) (vs @ [v]) \<and> (\<forall>u \<in> set vs. \<not> ok u) \<and> ok v"
proof -
  have "\<forall>d t. s = (d, t) \<and> hw' = traced hw \<longrightarrow> (\<exists>vs v.
      snd s' = t @ map (Read (kernel_pa p va)) (vs @ [v]) \<and> (\<forall>u \<in> set vs. \<not> ok u) \<and> ok v)"
    if "poll hw' p va ok s = Some s'" for hw' s s'
    using that
  proof (induction rule: poll.raw_induct [rotated, consumes 1, case_names again])
    case (again f hw' p va ok s s')
    show ?case
    proof (intro allI impI, elim conjE)
      fix d t assume s: "s = (d, t)" "hw' = traced hw"
      obtain v d1 where r: "mmio_read hw p va d = (v, d1)" by fastforce
      show "\<exists>vs v. snd s' = t @ map (Read (kernel_pa p va)) (vs @ [v]) \<and> (\<forall>u \<in> set vs. \<not> ok u) \<and> ok v"
      proof (cases "ok v")
        case True
        with again(2) s r show ?thesis by (intro exI [of _ "[]"] exI [of _ v]) auto
      next
        case False
        with again(2) s r have "f (traced hw) p va ok (d1, t @ [Read (kernel_pa p va) v]) = Some s'"
          by simp
        from again(1) [OF this] obtain vs u where
          "snd s' = t @ [Read (kernel_pa p va) v] @ map (Read (kernel_pa p va)) (vs @ [u])"
          "\<forall>u \<in> set vs. \<not> ok u" "ok u"
          by auto
        with False show ?thesis by (intro exI [of _ "v # vs"] exI [of _ u]) simp
      qed
    qed
  qed
  from this [OF assms] show ?thesis by simp
qed

end
