(* ===== verification/Uart.thy ===== *)
theory Uart
  imports Mmio
begin

text \<open>
  The console (\<open>uart.rs\<close>): programming the PL011 and sending bytes to it. The static
  \<open>BASE\<close> and the base inside \<open>CONSOLE\<close> are the two fields of \<open>uart\<close>. Formatting
  (\<open>print!\<close>) is the library's; the bytes it produces go through \<open>write_str\<close>.
\<close>

definition PL011_BOOTSTRAP :: u64 where "PL011_BOOTSTRAP = 0x09000000"
definition DR :: u64 where "DR = 0x00"
definition FR :: u64 where "FR = 0x18"
definition IBRD :: u64 where "IBRD = 0x24"
definition FBRD :: u64 where "FBRD = 0x28"
definition LCR_H :: u64 where "LCR_H = 0x2c"
definition CR :: u64 where "CR = 0x30"
definition IMSC :: u64 where "IMSC = 0x38"
definition ICR :: u64 where "ICR = 0x44"
definition FR_BUSY :: u32 where "FR_BUSY = push_bit 3 1"
definition FR_TXFF :: u32 where "FR_TXFF = push_bit 5 1"
definition LCR_H_FEN :: u32 where "LCR_H_FEN = push_bit 4 1"
definition LCR_H_WLEN_8 :: u32 where "LCR_H_WLEN_8 = push_bit 5 3"
definition CR_UARTEN :: u32 where "CR_UARTEN = push_bit 0 1"
definition CR_TXE :: u32 where "CR_TXE = push_bit 8 1"
definition CR_RXE :: u32 where "CR_RXE = push_bit 9 1"

record uart =
  uart_static :: u64
  uart_console :: u64

definition uart_boot :: uart where
  "uart_boot = \<lparr>uart_static = PL011_BOOTSTRAP, uart_console = PL011_BOOTSTRAP\<rparr>"

definition uart_reg :: "phys \<Rightarrow> u64 \<Rightarrow> u64 \<Rightarrow> u64 option" where
  "uart_reg p base offset = do { a \<leftarrow> checked_add base offset; Some (phys_to_virt p a) }"

definition uart_read_until :: "'d hw \<Rightarrow> phys \<Rightarrow> u64 \<Rightarrow> u32 \<Rightarrow> 'd \<Rightarrow> 'd option" where
  "uart_read_until hw p base flag d = do {
     a \<leftarrow> uart_reg p base FR;
     poll hw p a (\<lambda>v. v AND flag = 0) d
   }"

definition uart_write :: "'d hw \<Rightarrow> phys \<Rightarrow> u64 \<Rightarrow> u64 \<Rightarrow> u32 \<Rightarrow> 'd \<Rightarrow> 'd option" where
  "uart_write hw p base offset v d = do {
     a \<leftarrow> uart_reg p base offset;
     Some (mmio_write hw p a v d)
   }"

definition uart_init :: "'d hw \<Rightarrow> phys \<Rightarrow> u64 \<Rightarrow> 'd \<Rightarrow> 'd option" where
  "uart_init hw p base d = do {
     d \<leftarrow> uart_write hw p base CR 0 d;
     d \<leftarrow> uart_read_until hw p base FR_BUSY d;
     d \<leftarrow> uart_write hw p base IBRD 13 d;
     d \<leftarrow> uart_write hw p base FBRD 1 d;
     d \<leftarrow> uart_write hw p base LCR_H (LCR_H_FEN OR LCR_H_WLEN_8) d;
     d \<leftarrow> uart_write hw p base IMSC 0 d;
     d \<leftarrow> uart_write hw p base ICR 0x7ff d;
     uart_write hw p base CR (CR_UARTEN OR CR_TXE OR CR_RXE) d
   }"

definition uart_adopt :: "'d hw \<Rightarrow> phys \<Rightarrow> u64 \<Rightarrow> uart \<Rightarrow> 'd \<Rightarrow> (uart \<times> 'd) option" where
  "uart_adopt hw p base u d = do {
     let u = u\<lparr>uart_static := base, uart_console := base\<rparr>;
     d \<leftarrow> uart_init hw p (uart_console u) d;
     Some (u, d)
   }"

definition put_byte :: "'d hw \<Rightarrow> phys \<Rightarrow> u64 \<Rightarrow> u8 \<Rightarrow> 'd \<Rightarrow> 'd option" where
  "put_byte hw p base byte d = do {
     d \<leftarrow> uart_read_until hw p base FR_TXFF d;
     uart_write hw p base DR (ucast byte) d
   }"

text \<open>\<open>Uart::write_str\<close>; 10 is the line feed, 13 the carriage return.\<close>

definition put_char :: "'d hw \<Rightarrow> phys \<Rightarrow> u64 \<Rightarrow> u8 \<Rightarrow> 'd \<Rightarrow> 'd option" where
  "put_char hw p base byte d = do {
     d \<leftarrow> (if byte = 10 then put_byte hw p base 13 d else Some d);
     put_byte hw p base byte d
   }"

definition console_write_str :: "'d hw \<Rightarrow> phys \<Rightarrow> uart \<Rightarrow> u8 list \<Rightarrow> 'd \<Rightarrow> 'd option" where
  "console_write_str hw p u text d = for_each (put_char hw p (uart_console u)) text d"

text \<open>\<open>raw_put\<close> and \<open>emergency_print\<close>: no translation, the pointer is the address.\<close>

definition raw_put :: "'d hw \<Rightarrow> phys \<Rightarrow> u64 \<Rightarrow> u8 \<Rightarrow> 'd \<Rightarrow> 'd option" where
  "raw_put hw p base byte d = do {
     a \<leftarrow> checked_add base FR;
     d \<leftarrow> poll hw p a (\<lambda>v. v AND FR_TXFF = 0) d;
     a \<leftarrow> checked_add base DR;
     Some (mmio_write hw p a (ucast byte) d)
   }"

definition raw_char :: "'d hw \<Rightarrow> phys \<Rightarrow> u64 \<Rightarrow> u8 \<Rightarrow> 'd \<Rightarrow> 'd option" where
  "raw_char hw p base byte d = do {
     d \<leftarrow> (if byte = 10 then raw_put hw p base 13 d else Some d);
     raw_put hw p base byte d
   }"

definition emergency_print :: "'d hw \<Rightarrow> phys \<Rightarrow> uart \<Rightarrow> u8 list \<Rightarrow> 'd \<Rightarrow> 'd option" where
  "emergency_print hw p u text d = for_each (raw_char hw p (uart_static u)) text d"

end
