(* ===== verification/Virtio.thy ===== *)
theory Virtio
  imports Mmio Fdt Paging
begin

text \<open>
  The virtio-mmio transport (\<open>virtio.rs\<close>): register access, the feature handshake, and the
  discovery of transports in the device tree. The device is an argument (see \<open>Mmio\<close>).
\<close>

definition VIRTIO_MAGIC :: u32 where "VIRTIO_MAGIC = 0x74726976"
definition VIRTIO_VERSION :: u32 where "VIRTIO_VERSION = 2"
definition MAX_TRANSPORTS :: nat where "MAX_TRANSPORTS = 32"
definition MAGIC_VALUE :: u64 where "MAGIC_VALUE = 0x000"
definition VERSION_REG :: u64 where "VERSION_REG = 0x004"
definition DEVICE_ID :: u64 where "DEVICE_ID = 0x008"
definition DEVICE_FEATURES :: u64 where "DEVICE_FEATURES = 0x010"
definition DEVICE_FEATURES_SEL :: u64 where "DEVICE_FEATURES_SEL = 0x014"
definition DRIVER_FEATURES :: u64 where "DRIVER_FEATURES = 0x020"
definition DRIVER_FEATURES_SEL :: u64 where "DRIVER_FEATURES_SEL = 0x024"
definition INTERRUPT_STATUS :: u64 where "INTERRUPT_STATUS = 0x060"
definition INTERRUPT_ACK :: u64 where "INTERRUPT_ACK = 0x064"
definition STATUS :: u64 where "STATUS = 0x070"
definition STATUS_ACKNOWLEDGE :: u32 where "STATUS_ACKNOWLEDGE = 1"
definition STATUS_DRIVER :: u32 where "STATUS_DRIVER = 2"
definition STATUS_FEATURES_OK :: u32 where "STATUS_FEATURES_OK = 8"
definition STATUS_DRIVER_OK :: u32 where "STATUS_DRIVER_OK = 4"
definition STATUS_FAILED :: u32 where "STATUS_FAILED = 128"
definition VIRTIO_F_VERSION_1 :: u64 where "VIRTIO_F_VERSION_1 = push_bit 32 1"

definition device_name :: "u32 \<Rightarrow> string" where
  "device_name i =
     (if i = 0 then ''empty'' else if i = 1 then ''network'' else if i = 2 then ''block''
      else if i = 3 then ''console'' else if i = 4 then ''entropy'' else if i = 16 then ''gpu''
      else if i = 18 then ''input'' else ''unknown'')"

datatype virtio_error = NotVirtio u32 | WrongVersion u32 | Legacy | FeaturesRefused

record transport =
  tr_base :: u64
  tr_intid :: u32
  tr_device_id :: u32
  tr_features :: u64

definition transport_read :: "'d hw \<Rightarrow> phys \<Rightarrow> transport \<Rightarrow> u64 \<Rightarrow> 'd \<Rightarrow> (u32 \<times> 'd) option" where
  "transport_read hw p t offset d = do {
     a \<leftarrow> checked_add (tr_base t) offset;
     Some (mmio_read hw p (phys_to_virt p a) d)
   }"

definition transport_write :: "'d hw \<Rightarrow> phys \<Rightarrow> transport \<Rightarrow> u64 \<Rightarrow> u32 \<Rightarrow> 'd \<Rightarrow> 'd option" where
  "transport_write hw p t offset v d = do {
     a \<leftarrow> checked_add (tr_base t) offset;
     Some (mmio_write hw p (phys_to_virt p a) v d)
   }"

definition device_features :: "'d hw \<Rightarrow> phys \<Rightarrow> transport \<Rightarrow> 'd \<Rightarrow> (u64 \<times> 'd) option" where
  "device_features hw p t d = do {
     d \<leftarrow> transport_write hw p t DEVICE_FEATURES_SEL 1 d;
     (high, d) \<leftarrow> transport_read hw p t DEVICE_FEATURES d;
     d \<leftarrow> transport_write hw p t DEVICE_FEATURES_SEL 0 d;
     (low, d) \<leftarrow> transport_read hw p t DEVICE_FEATURES d;
     Some (push_bit 32 (ucast high) OR ucast low, d)
   }"

definition set_driver_features :: "'d hw \<Rightarrow> phys \<Rightarrow> transport \<Rightarrow> u64 \<Rightarrow> 'd \<Rightarrow> 'd option" where
  "set_driver_features hw p t features d = do {
     d \<leftarrow> transport_write hw p t DRIVER_FEATURES_SEL 1 d;
     d \<leftarrow> transport_write hw p t DRIVER_FEATURES (ucast (drop_bit 32 features)) d;
     d \<leftarrow> transport_write hw p t DRIVER_FEATURES_SEL 0 d;
     transport_write hw p t DRIVER_FEATURES (ucast features) d
   }"

definition transport_reset :: "'d hw \<Rightarrow> phys \<Rightarrow> transport \<Rightarrow> 'd \<Rightarrow> 'd option" where
  "transport_reset hw p t d = do {
     d \<leftarrow> transport_write hw p t STATUS 0 d;
     a \<leftarrow> checked_add (tr_base t) STATUS;
     poll hw p (phys_to_virt p a) (\<lambda>v. v = 0) d
   }"

definition negotiate ::
  "'d hw \<Rightarrow> phys \<Rightarrow> transport \<Rightarrow> u64 \<Rightarrow> 'd \<Rightarrow> ((virtio_error + u64) \<times> 'd) option" where
  "negotiate hw p t wanted d = do {
     d \<leftarrow> transport_reset hw p t d;
     d \<leftarrow> transport_write hw p t STATUS STATUS_ACKNOWLEDGE d;
     d \<leftarrow> transport_write hw p t STATUS (STATUS_ACKNOWLEDGE OR STATUS_DRIVER) d;
     (offered, d) \<leftarrow> device_features hw p t d;
     if offered AND VIRTIO_F_VERSION_1 = 0 then do {
       d \<leftarrow> transport_write hw p t STATUS STATUS_FAILED d;
       Some (Inl Legacy, d)
     }
     else do {
       let agreed = offered AND (wanted OR VIRTIO_F_VERSION_1);
       d \<leftarrow> set_driver_features hw p t agreed d;
       d \<leftarrow> transport_write hw p t STATUS (STATUS_ACKNOWLEDGE OR STATUS_DRIVER OR STATUS_FEATURES_OK) d;
       (status, d) \<leftarrow> transport_read hw p t STATUS d;
       if status AND STATUS_FEATURES_OK = 0 then do {
         d \<leftarrow> transport_write hw p t STATUS STATUS_FAILED d;
         Some (Inl FeaturesRefused, d)
       }
       else Some (Inr agreed, d)
     }
   }"

definition set_driver_ok :: "'d hw \<Rightarrow> phys \<Rightarrow> transport \<Rightarrow> 'd \<Rightarrow> 'd option" where
  "set_driver_ok hw p t d = do {
     (status, d) \<leftarrow> transport_read hw p t STATUS d;
     transport_write hw p t STATUS (status OR STATUS_DRIVER_OK) d
   }"

definition ack_interrupt :: "'d hw \<Rightarrow> phys \<Rightarrow> transport \<Rightarrow> 'd \<Rightarrow> (u32 \<times> 'd) option" where
  "ack_interrupt hw p t d = do {
     (status, d) \<leftarrow> transport_read hw p t INTERRUPT_STATUS d;
     d \<leftarrow> (if status \<noteq> 0 then transport_write hw p t INTERRUPT_ACK status d else Some d);
     Some (status, d)
   }"

definition transport_status :: "'d hw \<Rightarrow> phys \<Rightarrow> transport \<Rightarrow> 'd \<Rightarrow> (u32 \<times> 'd) option" where
  "transport_status hw p t d = transport_read hw p t STATUS d"

section \<open>Discovery\<close>

text \<open>
  \<open>probe\<close>. The inner option is Rust's; the memory changes because the window is mapped first.
  \<open>intid_of\<close> reads the first two cells of \<open>interrupts\<close>.
\<close>

definition intid_of :: "u8 list \<Rightarrow> u32 option option" where
  "intid_of interrupts =
     (if length interrupts < 4 then Some None
      else let kind = be_join (take 4 interrupts) :: u32 in
        if length interrupts < 8 then Some None
        else let number = be_join (take 4 (drop 4 interrupts)) in
          if kind = 0 then do { i \<leftarrow> checked_add number 32; Some (Some i) }
          else if kind = 1 then do { i \<leftarrow> checked_add number 16; Some (Some i) }
          else Some None)"

definition inspect :: "'d hw \<Rightarrow> phys \<Rightarrow> transport \<Rightarrow> 'd \<Rightarrow> ((virtio_error + transport) \<times> 'd) option" where
  "inspect hw p t d = do {
     (magic, d) \<leftarrow> transport_read hw p t MAGIC_VALUE d;
     if magic \<noteq> VIRTIO_MAGIC then Some (Inl (NotVirtio magic), d)
     else do {
       (version, d) \<leftarrow> transport_read hw p t VERSION_REG d;
       if version \<noteq> VIRTIO_VERSION then Some (Inl (WrongVersion version), d)
       else do {
         (dev, d) \<leftarrow> transport_read hw p t DEVICE_ID d;
         (features, d) \<leftarrow> device_features hw p t d;
         Some (Inr (t\<lparr>tr_device_id := dev, tr_features := features\<rparr>), d)
       }
     }
   }"

definition virtio_probe ::
  "'d hw \<Rightarrow> frame \<Rightarrow> blob \<Rightarrow> node \<Rightarrow> mach \<Rightarrow> 'd \<Rightarrow>
     ((virtio_error + transport) option \<times> mach \<times> 'd) option" where
  "virtio_probe hw kroot b n m d = do {
     (found, windows) \<leftarrow> regions (mphys m) b n [\<lparr>region_base = 0, region_size = 0\<rparr>];
     if found = 0 then Some (None, m, d)
     else do {
       window \<leftarrow> idx windows 0;
       (_, m) \<leftarrow> map_device m kroot (region_base window) (region_size window);
       got \<leftarrow> property (mphys m) b n (ascii ''interrupts'');
       intid \<leftarrow> (case got of None \<Rightarrow> Some None | Some interrupts \<Rightarrow> intid_of interrupts);
       case intid of
         None \<Rightarrow> Some (None, m, d)
       | Some intid \<Rightarrow> do {
           (r, d) \<leftarrow> inspect hw (mphys m)
             \<lparr>tr_base = region_base window, tr_intid = intid, tr_device_id = 0, tr_features = 0\<rparr> d;
           Some (Some r, m, d)
         }
     }
   }"

text \<open>The loop of \<open>discover\<close>; the refusals it prints are not part of the result.\<close>

record search =
  sr_slots :: nat
  sr_occupied :: nat
  sr_table :: "transport option list"

definition note_slot :: "(virtio_error + transport) option \<Rightarrow> search \<Rightarrow> search option" where
  "note_slot r s = (case r of
       Some (Inr t) \<Rightarrow>
         if tr_device_id t = 0 then Some s
         else if sr_occupied s < MAX_TRANSPORTS then do {
           assert_that (sr_occupied s < length (sr_table s));
           Some (s\<lparr>sr_table := (sr_table s)[sr_occupied s := Some t], sr_occupied := sr_occupied s + 1\<rparr>)
         }
         else Some s
     | _ \<Rightarrow> Some s)"

lemma found_behind:
  "find_compatible_loop p b wanted offset w = Some (Some n) \<Longrightarrow> offset < node_offset n"
proof (induction p b wanted offset w rule: find_compatible_loop.induct)
  case (1 p b wanted offset w)
  obtain got w' where got: "walker_next p w = Some (got, w')"
    using 1(4) by (subst (asm) find_compatible_loop.simps) (auto simp: bind_eq_Some_conv)
  consider "got = None" | name v where "got = Some (Property_Step name v)"
    | n' name where "got = Some (Node_Step n' name)"
    by (metis fdt_step.exhaust option.exhaust)
  then show ?case
  proof cases
    case (3 n' name)
    show ?thesis
      using got 3 1(4) 1(1,2) [OF got refl 3 refl]
      by (subst (asm) find_compatible_loop.simps)
        (auto simp: bind_eq_Some_conv not_le split: if_split_asm)
  qed (use got 1(4) 1(3) [OF got refl _ refl] in \<open>subst (asm) find_compatible_loop.simps, simp\<close>)+
qed

function discover_from ::
  "'d hw \<Rightarrow> frame \<Rightarrow> blob \<Rightarrow> u32 \<Rightarrow> search \<Rightarrow> mach \<Rightarrow> 'd \<Rightarrow> (search \<times> mach \<times> 'd) option" where
  "discover_from hw kroot b offset s m d = do {
     got \<leftarrow> find_compatible_after (mphys m) b (ascii ''virtio,mmio'') offset;
     case got of
       None \<Rightarrow> Some (s, m, d)
     | Some n \<Rightarrow> do {
         (r, m, d) \<leftarrow> virtio_probe hw kroot b n m d;
         s \<leftarrow> note_slot r (s\<lparr>sr_slots := sr_slots s + 1\<rparr>);
         if sr_slots s = MAX_TRANSPORTS then Some (s, m, d)
         else discover_from hw kroot b (node_offset n) s m d
       }
   }"
  by pat_completeness auto

termination
  by (relation "measure (\<lambda>(hw, kroot, b, offset, s, m, d). 2 ^ 32 - unat offset)")
    (use unsigned_less [where 'b = 32 and 'a = nat] in
      \<open>auto simp: find_compatible_after_def word_less_nat_alt dest!: found_behind intro!: diff_less_mono2\<close>)

declare discover_from.simps [simp del]

text \<open>The statics \<open>TRANSPORTS\<close> and \<open>SLOTS_SEEN\<close>.\<close>

record virtio_state =
  vs_transports :: "transport option list"
  vs_slots :: nat

definition discover ::
  "'d hw \<Rightarrow> frame \<Rightarrow> blob \<Rightarrow> mach \<Rightarrow> 'd \<Rightarrow> (virtio_state \<times> (nat \<times> nat) \<times> mach \<times> 'd) option" where
  "discover hw kroot b m d = do {
     (s, m, d) \<leftarrow> discover_from hw kroot b 0
       \<lparr>sr_slots = 0, sr_occupied = 0, sr_table = replicate MAX_TRANSPORTS None\<rparr> m d;
     Some (\<lparr>vs_transports = sr_table s, vs_slots = sr_slots s\<rparr>, (sr_slots s, sr_occupied s), m, d)
   }"

definition find_transport :: "u32 \<Rightarrow> virtio_state \<Rightarrow> transport option" where
  "find_transport dev vs =
     List.find (\<lambda>t. tr_device_id t = dev) (List.map_filter (\<lambda>x. x) (vs_transports vs))"

end
