(* ===== verification/Virtqueue.thy ===== *)
theory Virtqueue
  imports Virtio
begin

text \<open>
  The split virtqueue (\<open>virtqueue.rs\<close>): the rings in one frame of memory, the driver's
  bookkeeping, and its operations. The device reads and writes the same frame; what it does there
  is the environment's.

  Volatile accesses go through the physical map like every kernel access. The fences order accesses
  that the model makes one after the other.
\<close>

definition QUEUE_SIZE :: u16 where "QUEUE_SIZE = 16"
definition DESCRIPTOR_BYTES :: u64 where "DESCRIPTOR_BYTES = 16"
definition DESC_OFFSET :: u64 where "DESC_OFFSET = 0"
definition AVAIL_OFFSET :: u64 where "AVAIL_OFFSET = 256"
definition USED_OFFSET :: u64 where "USED_OFFSET = 512"
definition DESC_NEXT :: u16 where "DESC_NEXT = 1"
definition DESC_WRITE :: u16 where "DESC_WRITE = 2"
definition QUEUE_SEL :: u64 where "QUEUE_SEL = 0x030"
definition QUEUE_NUM_MAX :: u64 where "QUEUE_NUM_MAX = 0x034"
definition QUEUE_NUM :: u64 where "QUEUE_NUM = 0x038"
definition QUEUE_READY :: u64 where "QUEUE_READY = 0x044"
definition QUEUE_NOTIFY :: u64 where "QUEUE_NOTIFY = 0x050"
definition QUEUE_DESC_LOW :: u64 where "QUEUE_DESC_LOW = 0x080"
definition QUEUE_DESC_HIGH :: u64 where "QUEUE_DESC_HIGH = 0x084"
definition QUEUE_DRIVER_LOW :: u64 where "QUEUE_DRIVER_LOW = 0x090"
definition QUEUE_DRIVER_HIGH :: u64 where "QUEUE_DRIVER_HIGH = 0x094"
definition QUEUE_DEVICE_LOW :: u64 where "QUEUE_DEVICE_LOW = 0x0a0"
definition QUEUE_DEVICE_HIGH :: u64 where "QUEUE_DEVICE_HIGH = 0x0a4"

record buffer =
  buf_pa :: u64
  buf_len :: u32
  device_writes :: bool

datatype queue_error = QueueTooSmall u32 | NoMemory | Full | Empty

record queue =
  q_frame :: frame
  q_size :: u16
  free_head :: u16
  free_count :: u16
  last_used :: u16

section \<open>The rings in memory\<close>

definition ring_ptr :: "phys \<Rightarrow> queue \<Rightarrow> u64 \<Rightarrow> u64 option" where
  "ring_ptr p q offset = do {
     a \<leftarrow> checked_add (addr (q_frame q)) offset;
     Some (phys_to_virt p a)
   }"

definition ring_get :: "nat \<Rightarrow> phys \<Rightarrow> queue \<Rightarrow> u64 \<Rightarrow> 'a::len word option" where
  "ring_get n p q offset = do { a \<leftarrow> ring_ptr p q offset; Some (le_join (read_bytes p a n)) }"

definition ring_put :: "nat \<Rightarrow> phys \<Rightarrow> queue \<Rightarrow> u64 \<Rightarrow> 'a::len word \<Rightarrow> phys option" where
  "ring_put n p q offset v = do { a \<leftarrow> ring_ptr p q offset; Some (store_bytes p a (le_split n v)) }"

definition desc_base :: "u16 \<Rightarrow> u64 option" where
  "desc_base index = do {
     n \<leftarrow> checked_mul (ucast index) DESCRIPTOR_BYTES;
     checked_add DESC_OFFSET n
   }"

definition desc_field :: "u16 \<Rightarrow> u64 \<Rightarrow> u64 option" where
  "desc_field index n = do { base \<leftarrow> desc_base index; checked_add base n }"

definition write_descriptor :: "phys \<Rightarrow> queue \<Rightarrow> u16 \<Rightarrow> buffer \<Rightarrow> u16 \<Rightarrow> bool \<Rightarrow> phys option" where
  "write_descriptor p q index b link chained = do {
     base \<leftarrow> desc_base index;
     let flags = (if chained then DESC_NEXT else 0) OR (if device_writes b then DESC_WRITE else 0);
     p \<leftarrow> ring_put 8 p q base (buf_pa b);
     o8 \<leftarrow> checked_add base 8;
     p \<leftarrow> ring_put 4 p q o8 (buf_len b);
     o12 \<leftarrow> checked_add base 12;
     p \<leftarrow> ring_put 2 p q o12 flags;
     o14 \<leftarrow> checked_add base 14;
     ring_put 2 p q o14 link
   }"

definition write_descriptor_next :: "phys \<Rightarrow> queue \<Rightarrow> u16 \<Rightarrow> u16 \<Rightarrow> phys option" where
  "write_descriptor_next p q index link = do { a \<leftarrow> desc_field index 14; ring_put 2 p q a link }"

definition descriptor_next :: "phys \<Rightarrow> queue \<Rightarrow> u16 \<Rightarrow> u16 option" where
  "descriptor_next p q index = do { a \<leftarrow> desc_field index 14; ring_get 2 p q a }"

definition descriptor_flags :: "phys \<Rightarrow> queue \<Rightarrow> u16 \<Rightarrow> u16 option" where
  "descriptor_flags p q index = do { a \<leftarrow> desc_field index 12; ring_get 2 p q a }"

definition available_index :: "phys \<Rightarrow> queue \<Rightarrow> u16 option" where
  "available_index p q = ring_get 2 p q (AVAIL_OFFSET + 2)"

definition used_index :: "phys \<Rightarrow> queue \<Rightarrow> u16 option" where
  "used_index p q = ring_get 2 p q (USED_OFFSET + 2)"

section \<open>Operations\<close>

definition queue_new ::
  "'d hw \<Rightarrow> transport \<Rightarrow> u32 \<Rightarrow> mach \<Rightarrow> 'd \<Rightarrow> ((queue_error + queue) \<times> mach \<times> 'd) option" where
  "queue_new hw t index m d = do {
     d \<leftarrow> transport_write hw (mphys m) t QUEUE_SEL index d;
     (most, d) \<leftarrow> transport_read hw (mphys m) t QUEUE_NUM_MAX d;
     if most < ucast QUEUE_SIZE then Some (Inl (QueueTooSmall most), m, d)
     else do {
       (got, m) \<leftarrow> alloc m;
       case got of
         None \<Rightarrow> Some (Inl NoMemory, m, d)
       | Some f \<Rightarrow> do {
           let q = \<lparr>q_frame = f, q_size = QUEUE_SIZE, free_head = 0, free_count = QUEUE_SIZE, last_used = 0\<rparr>;
           p \<leftarrow> for_each (\<lambda>i p. write_descriptor_next p q (of_nat i) (of_nat i + 1))
             [0..<unat QUEUE_SIZE] (mphys m);
           let m = m\<lparr>mphys := p\<rparr>;
           d \<leftarrow> transport_write hw p t QUEUE_NUM (ucast QUEUE_SIZE) d;
           a \<leftarrow> checked_add (addr f) DESC_OFFSET;
           d \<leftarrow> transport_write hw p t QUEUE_DESC_LOW (ucast a) d;
           d \<leftarrow> transport_write hw p t QUEUE_DESC_HIGH (ucast (drop_bit 32 a)) d;
           a \<leftarrow> checked_add (addr f) AVAIL_OFFSET;
           d \<leftarrow> transport_write hw p t QUEUE_DRIVER_LOW (ucast a) d;
           d \<leftarrow> transport_write hw p t QUEUE_DRIVER_HIGH (ucast (drop_bit 32 a)) d;
           a \<leftarrow> checked_add (addr f) USED_OFFSET;
           d \<leftarrow> transport_write hw p t QUEUE_DEVICE_LOW (ucast a) d;
           d \<leftarrow> transport_write hw p t QUEUE_DEVICE_HIGH (ucast (drop_bit 32 a)) d;
           d \<leftarrow> transport_write hw p t QUEUE_READY 1 d;
           Some (Inr q, m, d)
         }
     }
   }"

text \<open>The loop of \<open>add\<close>: fill the descriptors; the new head of the free list.\<close>

fun fill_chain :: "phys \<Rightarrow> queue \<Rightarrow> u16 \<Rightarrow> buffer list \<Rightarrow> (u16 \<times> phys) option" where
  "fill_chain p q index [] = Some (index, p)"
| "fill_chain p q index (b # bs) = do {
     link \<leftarrow> descriptor_next p q index;
     p \<leftarrow> write_descriptor p q index b link (bs \<noteq> []);
     if bs \<noteq> [] then fill_chain p q link bs else Some (link, p)
   }"

definition publish :: "phys \<Rightarrow> queue \<Rightarrow> u16 \<Rightarrow> phys option" where
  "publish p q head = do {
     i \<leftarrow> available_index p q;
     assert_that (q_size q \<noteq> 0);
     let position = i mod q_size q;
     n \<leftarrow> checked_mul (ucast position :: u64) 2;
     a \<leftarrow> checked_add (AVAIL_OFFSET + 4) n;
     p \<leftarrow> ring_put 2 p q a head;
     i \<leftarrow> available_index p q;
     ring_put 2 p q (AVAIL_OFFSET + 2) (i + 1)
   }"

definition queue_add ::
  "buffer list \<Rightarrow> phys \<Rightarrow> queue \<Rightarrow> ((queue_error + u16) \<times> phys \<times> queue) option" where
  "queue_add bs p q =
     (if bs = [] then Some (Inl Empty, p, q)
      else if unat (free_count q) < length bs then Some (Inl Full, p, q)
      else do {
        let head = free_head q;
        (link, p) \<leftarrow> fill_chain p q head bs;
        n \<leftarrow> checked_sub (free_count q) (of_nat (length bs));
        let q = q\<lparr>free_head := link, free_count := n\<rparr>;
        p \<leftarrow> publish p q head;
        Some (Inr head, p, q)
      })"

definition queue_notify :: "'d hw \<Rightarrow> phys \<Rightarrow> transport \<Rightarrow> u32 \<Rightarrow> 'd \<Rightarrow> 'd option" where
  "queue_notify hw p t index d = transport_write hw p t QUEUE_NOTIFY index d"

text \<open>The walk of \<open>recycle\<close>: the end of the chain and its length, which is a \<open>u16\<close>.\<close>

function chain_end :: "phys \<Rightarrow> queue \<Rightarrow> u16 \<Rightarrow> u16 \<Rightarrow> (u16 \<times> u16) option" where
  "chain_end p q index n = do {
     flags \<leftarrow> descriptor_flags p q index;
     if flags AND DESC_NEXT \<noteq> 0 then do {
       index \<leftarrow> descriptor_next p q index;
       n' \<leftarrow> checked_add n 1;
       chain_end p q index n'
     }
     else Some (index, n)
   }"
  by pat_completeness auto

termination
  by (relation "measure (\<lambda>(p, q, index, n). 2 ^ 16 - unat n)")
    (use unsigned_less [where 'b = 16 and 'a = nat] in \<open>auto dest!: checked_addD intro!: diff_less_mono2\<close>)

declare chain_end.simps [simp del]

definition recycle :: "u16 \<Rightarrow> phys \<Rightarrow> queue \<Rightarrow> (phys \<times> queue) option" where
  "recycle head p q = do {
     (index, n) \<leftarrow> chain_end p q head 1;
     p \<leftarrow> write_descriptor_next p q index (free_head q);
     count \<leftarrow> checked_add (free_count q) n;
     Some (p, q\<lparr>free_head := head, free_count := count\<rparr>)
   }"

definition take_used :: "phys \<Rightarrow> queue \<Rightarrow> ((u16 \<times> u32) option \<times> phys \<times> queue) option" where
  "take_used p q = do {
     used \<leftarrow> used_index p q;
     if last_used q = used then Some (None, p, q)
     else do {
       assert_that (q_size q \<noteq> 0);
       let position = (ucast (last_used q mod q_size q) :: u64);
       n \<leftarrow> checked_mul position 8;
       entry \<leftarrow> checked_add (USED_OFFSET + 4) n;
       head32 \<leftarrow> ring_get 4 p q entry;
       let head = (ucast (head32 :: u32) :: u16);
       e4 \<leftarrow> checked_add entry 4;
       written \<leftarrow> ring_get 4 p q e4;
       (p, q) \<leftarrow> recycle head p (q\<lparr>last_used := last_used q + 1\<rparr>);
       Some (Some (head, written), p, q)
     }
   }"

definition queue_free :: "queue \<Rightarrow> u16" where
  "queue_free q = free_count q"

definition queue_release :: "'d hw \<Rightarrow> transport \<Rightarrow> u32 \<Rightarrow> queue \<Rightarrow> mach \<Rightarrow> 'd \<Rightarrow> (mach \<times> 'd) option" where
  "queue_release hw t index q m d = do {
     d \<leftarrow> transport_write hw (mphys m) t QUEUE_SEL index d;
     d \<leftarrow> transport_write hw (mphys m) t QUEUE_READY 0 d;
     fs \<leftarrow> free (mframes m) (q_frame q);
     Some (m\<lparr>mframes := fs\<rparr>, d)
   }"

end
