(* ===== verification/Boot.thy ===== *)
theory Boot
  imports Uart Virtqueue Gic
begin

text \<open>
  Coming up (\<open>main.rs\<close>): the path before the jump to the high half, and after it the adoption
  of the memory map and of the devices the tree describes. What is printed is left out; an
  \<open>assert!\<close> is not.
\<close>

section \<open>Before the jump\<close>

text \<open>
  \<open>kernel_main\<close> up to \<open>jump_to_high_half\<close>, on the registers and memory the firmware left.
  \<open>map_blob\<close> is its \<open>if let\<close>.
\<close>

definition map_blob :: "frame \<Rightarrow> (u64 \<times> u64) option \<Rightarrow> mach \<Rightarrow> mach option" where
  "map_blob root1 found m = (case found of
       None \<Rightarrow> Some m
     | Some (pa, n) \<Rightarrow> do {
         guessed_end \<leftarrow> checked_add (ram_base (mframes m)) (ram_size (mframes m));
         outside \<leftarrow> (if pa < ram_base (mframes m) then Some True
           else do { last \<leftarrow> checked_add pa n; Some (guessed_end < last) });
         if outside then map_physical m root1 pa n else Some m
       })"

definition kernel_main :: "layout \<Rightarrow> u64 \<Rightarrow> u64 \<Rightarrow> sysregs \<Rightarrow> mach \<Rightarrow> (sysregs \<times> mach) option" where
  "kernel_main l mmfr0 dtb r m = do {
     found \<leftarrow> early_probe (mphys m) dtb;
     fs \<leftarrow> frames_init (kernel_end l) (mframes m) DEFAULT_RAM_BASE DEFAULT_RAM_SIZE;
     let m = m\<lparr>mframes := fs\<rparr>;
     ((root0, root1), m) \<leftarrow> build_tables l m;
     m \<leftarrow> map_blob root1 found m;
     Some (mmu_enable mmfr0 r root0 root1, m)
   }"

section \<open>The memory map\<close>

text \<open>The loop over the reservations; the count is what it prints.\<close>

definition reserve_one :: "u64 \<times> u64 \<Rightarrow> nat \<times> frame_state \<Rightarrow> (nat \<times> frame_state) option" where
  "reserve_one r s = do {
     (outcome, fs) \<leftarrow> reserve_range (snd s) (fst r) (snd r);
     Some (case outcome of Inr n \<Rightarrow> (fst s + n, fs) | Inl _ \<Rightarrow> (fst s, fs))
   }"

definition adopt_memory_map :: "frame \<Rightarrow> blob \<Rightarrow> mach \<Rightarrow> mach option" where
  "adopt_memory_map kroot b m = do {
     mm \<leftarrow> memory_map (mphys m) b;
     if mm_size mm = 0 then Some m
     else do {
       old_end \<leftarrow> checked_add (ram_base (mframes m)) (ram_size (mframes m));
       new_end \<leftarrow> checked_add (mm_base mm) (min (mm_size mm) MAX_RAM);
       m \<leftarrow> extend_physical_map m kroot old_end new_end;
       (outcome, fs) \<leftarrow> adopt (mframes m) (mm_base mm) (mm_size mm);
       rs \<leftarrow> reserved mm;
       (_, fs) \<leftarrow> for_each reserve_one rs (0, fs);
       first \<leftarrow> is_taken fs (blob_pa b);
       assert_that first;
       past \<leftarrow> checked_add (blob_pa b) (ucast (blob_size b));
       end_at \<leftarrow> checked_sub past 1;
       last \<leftarrow> is_taken fs end_at;
       assert_that last;
       Some (m\<lparr>mframes := fs\<rparr>)
     }
   }"

section \<open>The devices\<close>

definition no_region :: region where
  "no_region = \<lparr>region_base = 0, region_size = 0\<rparr>"

definition discover_console ::
  "'d hw \<Rightarrow> frame \<Rightarrow> blob \<Rightarrow> region list \<Rightarrow> mach \<Rightarrow> uart \<Rightarrow> 'd \<Rightarrow> (region list \<times> mach \<times> uart \<times> 'd) option" where
  "discover_console hw kroot b windows m u d = do {
     got \<leftarrow> find_compatible (mphys m) b (ascii ''arm,pl011'');
     case got of
       None \<Rightarrow> Some (windows, m, u, d)
     | Some n \<Rightarrow> do {
         (found, windows) \<leftarrow> regions (mphys m) b n windows;
         assert_that (1 \<le> found);
         w \<leftarrow> idx windows 0;
         (_, m) \<leftarrow> map_device m kroot (region_base w) (region_size w);
         (u, d) \<leftarrow> uart_adopt hw (mphys m) (region_base w) u d;
         Some (windows, m, u, d)
       }
   }"

definition discover_gic ::
  "frame \<Rightarrow> blob \<Rightarrow> region list \<Rightarrow> mach \<Rightarrow> gic \<Rightarrow> (mach \<times> gic) option" where
  "discover_gic kroot b windows m g = do {
     got \<leftarrow> find_compatible (mphys m) b (ascii ''arm,cortex-a15-gic'');
     case got of
       None \<Rightarrow> Some (m, g)
     | Some n \<Rightarrow> do {
         (found, windows) \<leftarrow> regions (mphys m) b n windows;
         assert_that (2 \<le> found);
         distributor \<leftarrow> idx windows 0;
         cpu \<leftarrow> idx windows 1;
         assert_that (region_base distributor \<noteq> region_base cpu);
         (_, m) \<leftarrow> map_device m kroot (region_base distributor) (region_size distributor);
         (_, m) \<leftarrow> map_device m kroot (region_base cpu) (region_size cpu);
         Some (m, gic_adopt (region_base distributor) (region_base cpu) g)
       }
   }"

definition discover_devices ::
  "'d hw \<Rightarrow> frame \<Rightarrow> blob \<Rightarrow> mach \<Rightarrow> uart \<Rightarrow> gic \<Rightarrow> 'd \<Rightarrow> (mach \<times> uart \<times> gic \<times> 'd) option" where
  "discover_devices hw kroot b m u g d = do {
     (windows, m, u, d) \<leftarrow> discover_console hw kroot b (replicate 4 no_region) m u d;
     (m, g) \<leftarrow> discover_gic kroot b windows m g;
     Some (m, u, g, d)
   }"

text \<open>
  \<open>kernel_main_high\<close> up to the self tests: the console, and what the tree says when there is
  one. Later steps are \<open>boot\<close> of \<open>Machine\<close>, \<open>gic_init\<close> and \<open>timer_init\<close>.
\<close>

record world =
  wo_mach :: mach
  wo_regs :: sysregs
  wo_uart :: uart
  wo_gic :: gic
  wo_blob :: "blob option"
  wo_virtio :: virtio_state

definition kernel_main_high :: "'d hw \<Rightarrow> u64 \<Rightarrow> world \<Rightarrow> 'd \<Rightarrow> (world \<times> 'd) option" where
  "kernel_main_high hw dtb w d = do {
     (r, p) \<leftarrow> finish_high_half (wo_regs w) (mphys (wo_mach w));
     let m = (wo_mach w)\<lparr>mphys := p\<rparr>;
     let kroot = kernel_root r;
     d \<leftarrow> uart_init hw p (uart_console (wo_uart w)) d;
     (found, stored) \<leftarrow> fdt_init m (wo_blob w) dtb;
     case found of
       Inl _ \<Rightarrow> Some (w\<lparr>wo_mach := m, wo_regs := r, wo_blob := stored\<rparr>, d)
     | Inr b \<Rightarrow> do {
         m \<leftarrow> adopt_memory_map kroot b m;
         (m, u, g, d) \<leftarrow> discover_devices hw kroot b m (wo_uart w) (wo_gic w) d;
         (v, _, m, d) \<leftarrow> discover hw kroot b m d;
         Some (\<lparr>wo_mach = m, wo_regs = r, wo_uart = u, wo_gic = g, wo_blob = stored, wo_virtio = v\<rparr>, d)
       }
   }"

definition current_el :: "u64 \<Rightarrow> u64" where
  "current_el el = drop_bit 2 el AND 3"

end
