(* ===== verification/Queue_Rings.thy ===== *)
theory Queue_Rings
  imports Virtqueue "HOL-Library.Multiset"
begin

text \<open>
  What the queue promises: every descriptor is either free or in the chain of one outstanding
  request, and the operations move them between the two. The state of the specification lists the
  free descriptors and, for each outstanding request, its descriptors with the buffers the device
  finds in them; \<open>queue_rel\<close> says when the rings in memory and the driver's bookkeeping stand for
  such a state.
\<close>

section \<open>Fields of the rings\<close>

text \<open>The word of \<open>n\<close> bytes at \<open>off\<close> in the frame of the queue.\<close>

definition fld :: "phys \<Rightarrow> queue \<Rightarrow> nat \<Rightarrow> nat \<Rightarrow> 'a::len word" where
  "fld p q n off = le_join (map (\<lambda>i. pmem p (addr (q_frame q) + of_nat (off + i))) [0..<n])"

definition put :: "phys \<Rightarrow> queue \<Rightarrow> nat \<Rightarrow> nat \<Rightarrow> 'a::len word \<Rightarrow> phys" where
  "put p q n off v = store_bytes p (phys_to_virt p (addr (q_frame q) + of_nat off)) (le_split n v)"

definition in_frame :: "queue \<Rightarrow> bool" where
  "in_frame q \<longleftrightarrow> unat (addr (q_frame q)) + 4096 \<le> 2 ^ 64"

lemma ring_ptr_in_frame:
  assumes "in_frame q" "unat offset < 4096"
  shows "ring_ptr p q offset = Some (phys_to_virt p (addr (q_frame q) + offset))"
  using assms by (simp add: ring_ptr_def in_frame_def checked_add_def)

lemma ring_get_fld:
  assumes "in_frame q" "unat offset < 4096"
  shows "ring_get n p q offset = Some (fld p q n (unat offset))"
  using assms by (simp add: ring_get_def ring_ptr_in_frame read_bytes_phys fld_def add.assoc)

lemma ring_put_put:
  assumes "in_frame q" "unat offset < 4096"
  shows "ring_put n p q offset v = Some (put p q n (unat offset) v)"
  using assms by (simp add: ring_put_def ring_ptr_in_frame put_def)

lemma phys_offset_put [simp]: "phys_offset (put p q n off v) = phys_offset p"
  by (simp add: put_def)

lemma pmem_put:
  assumes "n < 2 ^ 32"
  shows "pmem (put p q n off v) (addr (q_frame q) + of_nat k) =
    (if unat (of_nat k - of_nat off :: u64) < n then le_split n v ! unat (of_nat k - of_nat off :: u64)
     else pmem p (addr (q_frame q) + of_nat k))"
  by (simp add: put_def pmem_store_bytes)

lemma gap_of_nat:
  assumes "k < 4096" "off < 4096"
  shows "unat (of_nat k - of_nat off :: u64) = (if off \<le> k then k - off else 2 ^ 64 + k - off)"
proof -
  have "unat (of_nat k :: u64) = k" "unat (of_nat off :: u64) = off"
    using assms by (simp_all add: unat_of_nat_u64)
  then show ?thesis using assms by (simp add: unat_sub_if_size word_size) presburger
qed

lemma fld_put_other:
  assumes "off' + n' \<le> off \<or> off + n \<le> off'" "off + n \<le> 4096" "off' + n' \<le> 4096"
  shows "fld (put p q n off v) q n' off' = fld p q n' off'"
proof -
  have "pmem (put p q n off v) (addr (q_frame q) + of_nat (off' + i)) =
      pmem p (addr (q_frame q) + of_nat (off' + i))" if "i < n'" for i
    using assms that gap_of_nat [of "off' + i" off] by (subst pmem_put) auto
  then show ?thesis
    unfolding fld_def by (intro arg_cong [of _ _ le_join] map_cong refl) (simp del: of_nat_add)
qed

lemma fld_put_same:
  assumes "LENGTH('a) = 8 * n" "off + n \<le> 4096"
  shows "fld (put p q n off (v :: 'a::len word)) q n off = v"
proof -
  have "pmem (put p q n off v) (addr (q_frame q) + of_nat (off + i)) = le_split n v ! i" if "i < n" for i
    using assms that gap_of_nat [of "off + i" off] by (subst pmem_put) auto
  then have "map (\<lambda>i. pmem (put p q n off v) (addr (q_frame q) + of_nat (off + i))) [0..<n] = le_split n v"
    by (intro nth_equalityI) (simp_all del: of_nat_add)
  then show ?thesis using assms(1) by (simp add: fld_def le_join_split)
qed

lemma fld_cong_frame: "q_frame q = q_frame q' \<Longrightarrow> fld p q n off = fld p q' n off"
  by (simp add: fld_def)

section \<open>Descriptors\<close>

text \<open>The fields of descriptor \<open>i\<close>, of the available ring and of the used ring.\<close>

abbreviation d_pa :: "phys \<Rightarrow> queue \<Rightarrow> u16 \<Rightarrow> u64" where "d_pa p q i \<equiv> fld p q 8 (16 * unat i)"
abbreviation d_len :: "phys \<Rightarrow> queue \<Rightarrow> u16 \<Rightarrow> u32" where "d_len p q i \<equiv> fld p q 4 (16 * unat i + 8)"
abbreviation d_flags :: "phys \<Rightarrow> queue \<Rightarrow> u16 \<Rightarrow> u16" where "d_flags p q i \<equiv> fld p q 2 (16 * unat i + 12)"
abbreviation d_next :: "phys \<Rightarrow> queue \<Rightarrow> u16 \<Rightarrow> u16" where "d_next p q i \<equiv> fld p q 2 (16 * unat i + 14)"
abbreviation avail_idx :: "phys \<Rightarrow> queue \<Rightarrow> u16" where "avail_idx p q \<equiv> fld p q 2 258"
abbreviation avail_ring :: "phys \<Rightarrow> queue \<Rightarrow> u16 \<Rightarrow> u16" where
  "avail_ring p q i \<equiv> fld p q 2 (260 + 2 * unat (i mod 16))"
abbreviation used_idx :: "phys \<Rightarrow> queue \<Rightarrow> u16" where "used_idx p q \<equiv> fld p q 2 514"
abbreviation used_id :: "phys \<Rightarrow> queue \<Rightarrow> u16 \<Rightarrow> u32" where
  "used_id p q i \<equiv> fld p q 4 (516 + 8 * unat (i mod 16))"
abbreviation used_len :: "phys \<Rightarrow> queue \<Rightarrow> u16 \<Rightarrow> u32" where
  "used_len p q i \<equiv> fld p q 4 (520 + 8 * unat (i mod 16))"

lemma unat_ucast16 [simp]: "unat (ucast (i :: u16) :: u64) = unat i"
proof -
  have "unat i < 2 ^ 16" using unsigned_less [of i] by simp
  then show ?thesis by (simp add: unsigned_ucast_eq take_bit_nat_eq_self)
qed

lemma desc_base_small: "i < 16 \<Longrightarrow> \<exists>a. desc_base i = Some a \<and> unat a = 16 * unat i"
  by (auto simp: desc_base_def DESCRIPTOR_BYTES_def DESC_OFFSET_def checked_mul_def checked_add_def
      word_less_nat_alt unat_mult_no_overflow unat_ucast16)

lemma desc_field_small:
  assumes "i < 16" "unat n < 16"
  shows "\<exists>a. desc_field i n = Some a \<and> unat a = 16 * unat i + unat n"
proof -
  obtain a where "desc_base i = Some a" "unat a = 16 * unat i" using desc_base_small [OF assms(1)] by blast
  then show ?thesis using assms by (auto simp: desc_field_def checked_add_def word_less_nat_alt unat_add_no_overflow)
qed

lemma descriptor_get:
  assumes "in_frame q" "i < 16"
  shows "descriptor_next p q i = Some (d_next p q i)" "descriptor_flags p q i = Some (d_flags p q i)"
proof -
  have i: "unat i < 16" using assms(2) by (simp add: word_less_nat_alt)
  obtain a b where "desc_field i 14 = Some a" "unat a = 16 * unat i + 14"
    "desc_field i 12 = Some b" "unat b = 16 * unat i + 12"
    using desc_field_small [OF assms(2), of 14] desc_field_small [OF assms(2), of 12] by auto
  with i show "descriptor_next p q i = Some (d_next p q i)" "descriptor_flags p q i = Some (d_flags p q i)"
    by (simp_all add: descriptor_next_def descriptor_flags_def ring_get_fld [OF assms(1)])
qed

lemma index_get:
  assumes "in_frame q"
  shows "available_index p q = Some (avail_idx p q)" "used_index p q = Some (used_idx p q)"
  by (simp_all add: available_index_def used_index_def AVAIL_OFFSET_def USED_OFFSET_def
      ring_get_fld [OF assms])

definition link_to :: "phys \<Rightarrow> queue \<Rightarrow> u16 \<Rightarrow> u16 \<Rightarrow> phys" where
  "link_to p q i j = put p q 2 (16 * unat i + 14) j"

definition fill :: "phys \<Rightarrow> queue \<Rightarrow> u16 \<Rightarrow> buffer \<Rightarrow> u16 \<Rightarrow> bool \<Rightarrow> phys" where
  "fill p q i b link chained =
     put (put (put (put p q 8 (16 * unat i) (buf_pa b)) q 4 (16 * unat i + 8) (buf_len b))
       q 2 (16 * unat i + 12) ((if chained then DESC_NEXT else 0) OR (if device_writes b then DESC_WRITE else 0)))
       q 2 (16 * unat i + 14) link"

lemma descriptor_put:
  assumes "in_frame q" "i < 16"
  shows "write_descriptor_next p q i j = Some (link_to p q i j)"
    "write_descriptor p q i b j chained = Some (fill p q i b j chained)"
proof -
  have i: "unat i < 16" using assms(2) by (simp add: word_less_nat_alt)
  obtain a where a: "desc_base i = Some a" "unat a = 16 * unat i" using desc_base_small [OF assms(2)] by blast
  have add: "checked_add a n = Some (a + n) \<and> unat (a + n) = 16 * unat i + unat n" if "unat n < 16" for n
    using a(2) i that by (simp add: checked_add_def unat_add_no_overflow)
  show "write_descriptor_next p q i j = Some (link_to p q i j)"
    using a add [of 14] i
    by (simp add: write_descriptor_next_def desc_field_def ring_put_put [OF assms(1)] link_to_def)
  show "write_descriptor p q i b j chained = Some (fill p q i b j chained)"
    using a add [of 14] add [of 12] add [of 8] i
    by (simp add: write_descriptor_def Let_def ring_put_put [OF assms(1)] fill_def)
qed

text \<open>What is left alone: every field that lies outside the descriptor.\<close>

lemma fld_link_to:
  assumes "i < 16"
  shows "d_next (link_to p q i j) q i = j"
    "off + n \<le> 4096 \<Longrightarrow> off + n \<le> 16 * unat i + 14 \<or> 16 * unat i + 16 \<le> off \<Longrightarrow>
      fld (link_to p q i j) q n off = fld p q n off"
proof -
  have "unat i < 16" using assms by (simp add: word_less_nat_alt)
  then show "d_next (link_to p q i j) q i = j"
    "off + n \<le> 4096 \<Longrightarrow> off + n \<le> 16 * unat i + 14 \<or> 16 * unat i + 16 \<le> off \<Longrightarrow>
      fld (link_to p q i j) q n off = fld p q n off"
    by (auto simp: link_to_def fld_put_same fld_put_other)
qed

lemma fld_fill:
  assumes "i < 16"
  shows "d_pa (fill p q i b j ch) q i = buf_pa b" "d_len (fill p q i b j ch) q i = buf_len b"
    "d_flags (fill p q i b j ch) q i =
      (if ch then DESC_NEXT else 0) OR (if device_writes b then DESC_WRITE else 0)"
    "d_next (fill p q i b j ch) q i = j"
    "off + n \<le> 4096 \<Longrightarrow> off + n \<le> 16 * unat i \<or> 16 * unat i + 16 \<le> off \<Longrightarrow>
      fld (fill p q i b j ch) q n off = fld p q n off"
proof -
  have "unat i < 16" using assms by (simp add: word_less_nat_alt)
  then show "d_pa (fill p q i b j ch) q i = buf_pa b" "d_len (fill p q i b j ch) q i = buf_len b"
    "d_flags (fill p q i b j ch) q i =
      (if ch then DESC_NEXT else 0) OR (if device_writes b then DESC_WRITE else 0)"
    "d_next (fill p q i b j ch) q i = j"
    "off + n \<le> 4096 \<Longrightarrow> off + n \<le> 16 * unat i \<or> 16 * unat i + 16 \<le> off \<Longrightarrow>
      fld (fill p q i b j ch) q n off = fld p q n off"
    by (auto simp: fill_def fld_put_same fld_put_other)
qed

text \<open>\<open>changes p p' q K\<close>: from \<open>p\<close> to \<open>p'\<close> only the bytes of the frame at the offsets in \<open>K\<close> change.\<close>

definition changes :: "phys \<Rightarrow> phys \<Rightarrow> queue \<Rightarrow> nat set \<Rightarrow> bool" where
  "changes p p' q K \<longleftrightarrow> phys_offset p' = phys_offset p \<and>
     (\<forall>a. (\<forall>k \<in> K. a \<noteq> addr (q_frame q) + of_nat k) \<longrightarrow> pmem p' a = pmem p a)"

lemma changes_refl [simp]: "changes p p q K"
  by (simp add: changes_def)

lemma changes_trans:
  assumes "changes p p1 q K" "changes p1 p2 q L" "K \<subseteq> M" "L \<subseteq> M"
  shows "changes p p2 q M"
  using assms unfolding changes_def by (metis subsetD)

lemma changes_mono: "changes p p' q K \<Longrightarrow> K \<subseteq> M \<Longrightarrow> changes p p' q M"
  by (rule changes_trans [of p p' q K p' K]) auto

lemma changes_put:
  assumes "n < 2 ^ 32"
  shows "changes p (put p q n off v) q {off..<off + n}"
proof -
  have "\<exists>k \<in> {off..<off + n}. a = addr (q_frame q) + of_nat k"
    if "unat (a - (addr (q_frame q) + of_nat off)) < n" for a
    by (rule bexI [of _ "off + unat (a - (addr (q_frame q) + of_nat off))"]) (use that in auto)
  then show ?thesis
    by (auto simp: changes_def put_def pmem_store_bytes)
qed

lemma changes_then_put:
  "changes p p1 q K \<Longrightarrow> n < 2 ^ 32 \<Longrightarrow> {off..<off + n} \<subseteq> K \<Longrightarrow> changes p (put p1 q n off v) q K"
  using changes_trans [of p p1 q K "put p1 q n off v" "{off..<off + n}" K] changes_put [of n p1 q off v]
  by simp

lemma fld_changes:
  assumes "changes p p' q K" "K \<inter> {off..<off + n} = {}" "K \<subseteq> {..<4096}" "off + n \<le> 4096"
  shows "fld p' q n off = fld p q n off"
proof -
  have "pmem p' (addr (q_frame q) + of_nat (off + i)) = pmem p (addr (q_frame q) + of_nat (off + i))"
    if i: "i < n" for i
  proof -
    have "addr (q_frame q) + of_nat (off + i) \<noteq> addr (q_frame q) + of_nat k" if k: "k \<in> K" for k
    proof
      assume "addr (q_frame q) + of_nat (off + i) = addr (q_frame q) + of_nat k"
      then have "unat (of_nat (off + i) :: u64) = unat (of_nat k :: u64)" by (metis add_left_cancel)
      moreover have "k < 4096" "off + i < 4096" using i k assms(3,4) by auto
      ultimately have "off + i = k" by (simp add: unat_of_nat_u64 del: of_nat_add)
      with i k assms(2) show False by auto
    qed
    then show ?thesis using assms(1) by (simp add: changes_def del: of_nat_add)
  qed
  then show ?thesis
    unfolding fld_def by (intro arg_cong [of _ _ le_join] map_cong refl) (simp del: of_nat_add)
qed

definition desc_bytes :: "u16 set \<Rightarrow> nat set" where
  "desc_bytes I = (\<Union>i \<in> I. {16 * unat i..<16 * unat i + 16})"

lemma desc_bytes_simps [simp]:
  "desc_bytes {} = {}" "desc_bytes (insert i I) = {16 * unat i..<16 * unat i + 16} \<union> desc_bytes I"
  by (auto simp: desc_bytes_def)

lemma desc_bytes_low: "\<forall>i \<in> I. i < 16 \<Longrightarrow> desc_bytes I \<subseteq> {..<256}"
  by (auto simp: desc_bytes_def word_less_nat_alt)

lemma changes_link_to: "changes p (link_to p q i j) q (desc_bytes {i})"
  unfolding link_to_def by (rule changes_mono [OF changes_put]) auto

lemma changes_fill: "changes p (fill p q i b j ch) q (desc_bytes {i})"
  unfolding fill_def by (intro changes_then_put changes_refl) auto

text \<open>The changed bytes lie in the frame, outside the descriptors \<open>X\<close>, which keep their fields.\<close>

definition clear_of :: "nat set \<Rightarrow> u16 set \<Rightarrow> bool" where
  "clear_of K X \<longleftrightarrow> K \<subseteq> {..<4096} \<and>
     (\<forall>x \<in> X. x < 16 \<and> K \<inter> {16 * unat x..<16 * unat x + 16} = {})"

lemma clear_of_desc:
  assumes "\<forall>i \<in> I. i < 16" "\<forall>x \<in> X. x < 16" "X \<inter> I = {}"
  shows "clear_of (desc_bytes I) X"
proof -
  have "16 * unat j + 16 \<le> 16 * unat x \<or> 16 * unat x + 16 \<le> 16 * unat j" if "j \<in> I" "x \<in> X" for j x
  proof -
    have "unat j \<noteq> unat x" using that assms(3) unsigned_word_eqI [of j x] by auto
    then show ?thesis by linarith
  qed
  then have "desc_bytes I \<inter> {16 * unat x..<16 * unat x + 16} = {}" if "x \<in> X" for x
    using that by (fastforce simp: desc_bytes_def)
  moreover have "desc_bytes I \<subseteq> {..<4096}" using desc_bytes_low [OF assms(1)] by force
  ultimately show ?thesis using assms(2) by (simp add: clear_of_def)
qed

lemma clear_of_rings: "K \<subseteq> {256..<4096} \<Longrightarrow> \<forall>x \<in> X. x < 16 \<Longrightarrow> clear_of K X"
  by (force simp: clear_of_def word_less_nat_alt)

lemma fld_clear:
  assumes "changes p p' q K" "clear_of K X" "x \<in> X" "k + n \<le> 16"
  shows "fld p' q n (16 * unat x + k) = fld p q n (16 * unat x + k)"
  using assms(2-4)
  by (intro fld_changes [OF assms(1)]) (fastforce simp: clear_of_def word_less_nat_alt)+

lemma desc_same:
  assumes "changes p p' q K" "clear_of K X" "x \<in> X"
  shows "d_pa p' q x = d_pa p q x" "d_len p' q x = d_len p q x" "d_flags p' q x = d_flags p q x"
    "d_next p' q x = d_next p q x"
  using fld_clear [OF assms, of 0 8] fld_clear [OF assms, of 8 4] fld_clear [OF assms, of 12 2]
    fld_clear [OF assms, of 14 2] by simp_all

section \<open>The specification\<close>

record ring_spec =
  sp_free :: "u16 list"
  sp_busy :: "(u16 \<times> buffer) list list"

definition sp_new :: ring_spec where
  "sp_new = \<lparr>sp_free = map of_nat [0..<16], sp_busy = []\<rparr>"

definition sp_add :: "buffer list \<Rightarrow> ring_spec \<Rightarrow> (queue_error + u16) \<times> ring_spec" where
  "sp_add bs s =
     (if bs = [] then (Inl Empty, s)
      else if length (sp_free s) < length bs then (Inl Full, s)
      else (Inr (hd (sp_free s)),
        s\<lparr>sp_free := drop (length bs) (sp_free s),
          sp_busy := sp_busy s @ [zip (take (length bs) (sp_free s)) bs]\<rparr>))"

definition sp_done :: "(u16 \<times> buffer) list \<Rightarrow> ring_spec \<Rightarrow> ring_spec" where
  "sp_done c s = s\<lparr>sp_free := map fst c @ sp_free s, sp_busy := remove1 c (sp_busy s)\<rparr>"

definition descs :: "ring_spec \<Rightarrow> u16 list" where
  "descs s = sp_free s @ concat (map (map fst) (sp_busy s))"

text \<open>How the rings represent it: the free list, and the chains as the device reads them.\<close>

fun linked :: "phys \<Rightarrow> queue \<Rightarrow> u16 \<Rightarrow> u16 list \<Rightarrow> bool" where
  "linked p q h [] = True"
| "linked p q h (x # xs) \<longleftrightarrow> h = x \<and> linked p q (d_next p q x) xs"

definition describes :: "phys \<Rightarrow> queue \<Rightarrow> u16 \<Rightarrow> buffer \<Rightarrow> bool" where
  "describes p q i b \<longleftrightarrow> d_pa p q i = buf_pa b \<and> d_len p q i = buf_len b \<and>
     (d_flags p q i AND DESC_WRITE \<noteq> 0 \<longleftrightarrow> device_writes b)"

fun chain :: "phys \<Rightarrow> queue \<Rightarrow> (u16 \<times> buffer) list \<Rightarrow> bool" where
  "chain p q [] = False"
| "chain p q [(i, b)] \<longleftrightarrow> describes p q i b \<and> d_flags p q i AND DESC_NEXT = 0"
| "chain p q ((i, b) # (j, b') # c) \<longleftrightarrow> describes p q i b \<and> d_flags p q i AND DESC_NEXT \<noteq> 0 \<and>
     d_next p q i = j \<and> chain p q ((j, b') # c)"

definition queue_rel :: "phys \<Rightarrow> queue \<Rightarrow> ring_spec \<Rightarrow> bool" where
  "queue_rel p q s \<longleftrightarrow> in_frame q \<and> q_size q = 16 \<and>
     distinct (descs s) \<and> (\<forall>i. i \<in> set (descs s) \<longleftrightarrow> i < 16) \<and>
     unat (free_count q) = length (sp_free s) \<and> linked p q (free_head q) (sp_free s) \<and>
     (\<forall>c \<in> set (sp_busy s). chain p q c)"

lemma linked_cong:
  "(\<And>x. x \<in> set xs \<Longrightarrow> d_next p' q x = d_next p q x) \<Longrightarrow> linked p' q h xs \<longleftrightarrow> linked p q h xs"
  by (induction xs arbitrary: h) auto

lemma chain_cong:
  assumes "\<And>i. i \<in> fst ` set c \<Longrightarrow> d_pa p' q i = d_pa p q i \<and> d_len p' q i = d_len p q i \<and>
    d_flags p' q i = d_flags p q i \<and> d_next p' q i = d_next p q i"
  shows "chain p' q c \<longleftrightarrow> chain p q c"
  using assms by (induction p q c rule: chain.induct) (auto simp: describes_def)

lemma linked_other:
  "changes p p' q K \<Longrightarrow> clear_of K (set xs) \<Longrightarrow> linked p' q h xs \<longleftrightarrow> linked p q h xs"
  by (rule linked_cong) (rule desc_same(4))

lemma chain_other:
  "changes p p' q K \<Longrightarrow> clear_of K (fst ` set c) \<Longrightarrow> chain p' q c \<longleftrightarrow> chain p q c"
  by (rule chain_cong) (intro conjI desc_same)

lemma fld_same_frame: "q_frame q' = q_frame q \<Longrightarrow> fld p q' n off = fld p q n off"
  by (simp add: fld_def)

lemma same_frame:
  assumes "q_frame q' = q_frame q"
  shows "linked p q' h xs = linked p q h xs" "chain p q' c = chain p q c"
    "in_frame q' = in_frame q" "changes p p' q' K = changes p p' q K"
proof -
  show "linked p q' h xs = linked p q h xs"
    by (induction xs arbitrary: h) (simp_all add: fld_same_frame [OF assms])
  show "chain p q' c = chain p q c"
  proof (induction c rule: induct_list012)
    case (2 x)
    then show ?case by (cases x) (simp add: fld_same_frame [OF assms] describes_def)
  next
    case (3 x y c)
    then show ?case by (cases x; cases y) (simp add: fld_same_frame [OF assms] describes_def)
  qed simp
qed (use assms in \<open>simp_all add: in_frame_def changes_def\<close>)

section \<open>Adding a request\<close>

lemma flag_bits:
  "((if ch then DESC_NEXT else 0) OR (if w then DESC_WRITE else 0)) AND DESC_NEXT \<noteq> 0 \<longleftrightarrow> ch"
  "((if ch then DESC_NEXT else 0) OR (if w then DESC_WRITE else 0)) AND DESC_WRITE \<noteq> 0 \<longleftrightarrow> w"
  by (simp_all add: DESC_NEXT_def DESC_WRITE_def)

lemma fill_chain_spec:
  assumes "in_frame q" "bs \<noteq> []" "length xs = length bs" "linked p q h (xs @ ys)"
    "distinct (xs @ ys)" "\<forall>x \<in> set (xs @ ys). x < 16"
  shows "\<exists>e p'. fill_chain p q h bs = Some (e, p') \<and> linked p' q e ys \<and> chain p' q (zip xs bs) \<and>
    changes p p' q (desc_bytes (set xs))"
  using assms(2-)
proof (induction bs arbitrary: xs p h)
  case Nil
  then show ?case by simp
next
  case (Cons b bs)
  obtain x xs' where xs: "xs = x # xs'" "length xs' = length bs"
    using Cons.prems(2) by (cases xs) auto
  let ?p = "fill p q x b (d_next p q x) (bs \<noteq> [])"
  have x: "h = x" "x < 16" "x \<notin> set (xs' @ ys)" "\<forall>y \<in> set (xs' @ ys). y < 16"
    and next_x: "linked p q (d_next p q x) (xs' @ ys)"
    using Cons.prems(3-5) by (auto simp: xs)
  have start: "descriptor_next p q x = Some (d_next p q x)"
    "write_descriptor p q x b (d_next p q x) (bs \<noteq> []) = Some ?p"
    using descriptor_get [OF assms(1) x(2)] descriptor_put [OF assms(1) x(2)] by auto
  have ch: "changes p ?p q (desc_bytes {x})" by (rule changes_fill)
  have rest: "linked ?p q (d_next p q x) (xs' @ ys)"
    using next_x linked_other [OF ch clear_of_desc [of "{x}" "set (xs' @ ys)"]] x(2,3,4) by auto
  have here: "describes ?p q x b" "d_flags ?p q x AND DESC_NEXT \<noteq> 0 \<longleftrightarrow> bs \<noteq> []"
    "d_next ?p q x = d_next p q x"
    by (simp_all only: describes_def fld_fill [OF x(2)] flag_bits simp_thms)
  show ?case
  proof (cases "bs = []")
    case True
    then have "xs' = []" using xs(2) by simp
    with True start ch rest here x(1) show ?thesis by (auto simp: xs)
  next
    case False
    obtain e p' where IH: "fill_chain ?p q (d_next p q x) bs = Some (e, p')" "linked p' q e ys"
      "chain p' q (zip xs' bs)" "changes ?p p' q (desc_bytes (set xs'))"
      using Cons.IH [OF False xs(2) rest] Cons.prems(4,5) by (auto simp: xs)
    obtain y xs'' b' bs' where cons: "xs' = y # xs''" "bs = b' # bs'"
      using False xs(2) by (cases bs; cases xs') auto
    have "chain p' q (zip xs (b # bs))"
      using IH(3) here next_x x desc_same [OF IH(4) clear_of_desc [of "set xs'" "{x}"]] False
      by (auto simp: xs cons describes_def)
    moreover have "changes p p' q (desc_bytes (set xs))"
      using ch IH(4) by (rule changes_trans) (auto simp: xs desc_bytes_def)
    ultimately show ?thesis
      using start IH(1,2) False x(1) by auto
  qed
qed

lemma publish_spec:
  assumes "in_frame q" "q_size q = 16"
  shows "\<exists>p'. publish p q h = Some p' \<and> changes p p' q {258..<292} \<and>
    avail_ring p' q (avail_idx p q) = h \<and> avail_idx p' q = avail_idx p q + 1"
proof -
  let ?i = "avail_idx p q"
  let ?off = "260 + 2 * unat (?i mod 16)"
  have m: "unat (?i mod 16) < 16" by (simp add: unat_div_mod)
  let ?p = "put p q 2 ?off h"
  have idx: "avail_idx ?p q = ?i" using m by (intro fld_put_other) auto
  have n: "checked_mul (ucast (?i mod 16) :: u64) 2 = Some (ucast (?i mod 16) * 2)"
    "unat (ucast (?i mod 16) * 2 :: u64) = 2 * unat (?i mod 16)"
    using m by (simp_all add: checked_mul_def unat_mult_no_overflow)
  have a: "checked_add (AVAIL_OFFSET + 4) (ucast (?i mod 16) * 2) = Some (AVAIL_OFFSET + 4 + ucast (?i mod 16) * 2)"
    "unat (AVAIL_OFFSET + 4 + ucast (?i mod 16) * 2) = ?off"
    using m n(2) by (simp_all add: AVAIL_OFFSET_def checked_add_def unat_add_no_overflow)
  have "publish p q h = Some (put ?p q 2 258 (?i + 1))"
    using m n a idx
    by (simp add: publish_def Let_def index_get [OF assms(1)] assms(2) AVAIL_OFFSET_def
        ring_put_put [OF assms(1)])
  moreover have "changes p (put ?p q 2 258 (?i + 1)) q {258..<292}"
    using m by (intro changes_then_put changes_refl) auto
  moreover have "avail_ring (put ?p q 2 258 (?i + 1)) q ?i = h"
    using m by (simp add: fld_put_other fld_put_same)
  moreover have "avail_idx (put ?p q 2 258 (?i + 1)) q = ?i + 1"
    by (simp add: fld_put_same)
  ultimately show ?thesis by blast
qed

lemma sixteen:
  assumes "distinct (xs :: u16 list)" "\<forall>x \<in> set xs. x < 16"
  shows "length xs \<le> 16"
proof -
  have "length xs = card (unat ` set xs)"
    using assms(1) by (simp add: distinct_card card_image inj_on_def unsigned_word_eqI)
  also have "\<dots> \<le> card {..<16 :: nat}"
    using assms(2) by (intro card_mono) (auto simp: word_less_nat_alt)
  finally show ?thesis by simp
qed

lemma descs_memberD:
  assumes "queue_rel p q s"
  shows "x \<in> set (sp_free s) \<Longrightarrow> x < 16" "c \<in> set (sp_busy s) \<Longrightarrow> x \<in> fst ` set c \<Longrightarrow> x < 16"
    "length (sp_free s) \<le> 16"
proof -
  have all: "\<And>i. i \<in> set (descs s) \<Longrightarrow> i < 16" and d: "distinct (descs s)"
    using assms by (auto simp: queue_rel_def)
  show "x \<in> set (sp_free s) \<Longrightarrow> x < 16" "c \<in> set (sp_busy s) \<Longrightarrow> x \<in> fst ` set c \<Longrightarrow> x < 16"
    using all by (auto simp: descs_def)
  show "length (sp_free s) \<le> 16"
    using d all by (intro sixteen) (auto simp: descs_def)
qed

lemma descs_add:
  assumes "length bs \<le> length (sp_free s)" "bs \<noteq> []"
  shows "mset (descs (snd (sp_add bs s))) = mset (descs s)"
proof -
  have "map fst (zip (take (length bs) (sp_free s)) bs) = take (length bs) (sp_free s)"
    using assms(1) by (simp add: map_fst_zip)
  moreover have "mset (sp_free s) = mset (take (length bs) (sp_free s)) + mset (drop (length bs) (sp_free s))"
    by (metis append_take_drop_id mset_append)
  ultimately show ?thesis using assms by (simp add: sp_add_def descs_def not_less)
qed

lemma queue_add_spec:
  assumes "queue_rel p q s" "bs \<noteq> []" "length bs \<le> length (sp_free s)"
  shows "\<exists>h p' q'. queue_add bs p q = Some (Inr h, p', q') \<and> fst (sp_add bs s) = Inr h \<and>
    queue_rel p' q' (snd (sp_add bs s)) \<and> q_frame q' = q_frame q \<and> last_used q' = last_used q \<and>
    avail_ring p' q (avail_idx p q) = h \<and> avail_idx p' q = avail_idx p q + 1 \<and> changes p p' q {..<292}"
proof -
  let ?n = "length bs"
  let ?xs = "take ?n (sp_free s)" and ?ys = "drop ?n (sp_free s)"
  have rel: "in_frame q" "q_size q = 16" "distinct (descs s)" "\<And>i. i \<in> set (descs s) \<longleftrightarrow> i < 16"
    "unat (free_count q) = length (sp_free s)" "linked p q (free_head q) (?xs @ ?ys)"
    "\<And>c. c \<in> set (sp_busy s) \<Longrightarrow> chain p q c"
    using assms(1) by (auto simp: queue_rel_def)
  have small: "\<forall>x \<in> set (?xs @ ?ys). x < 16" using descs_memberD(1) [OF assms(1)] by simp
  have dist: "distinct (?xs @ ?ys)" using rel(3) by (simp add: descs_def)
  obtain e p1 where fill: "fill_chain p q (free_head q) bs = Some (e, p1)" "linked p1 q e ?ys"
    "chain p1 q (zip ?xs bs)" "changes p p1 q (desc_bytes (set ?xs))"
    using fill_chain_spec [OF rel(1) assms(2) _ rel(6) dist small] assms(3) by auto
  let ?q = "q\<lparr>free_head := e, free_count := free_count q - of_nat ?n\<rparr>"
  have qf: "q_frame ?q = q_frame q" by simp
  obtain p2 where pub: "publish p1 ?q (free_head q) = Some p2" "changes p1 p2 q {258..<292}"
    "avail_ring p2 q (avail_idx p1 q) = free_head q" "avail_idx p2 q = avail_idx p1 q + 1"
    using publish_spec [of ?q p1 "free_head q"] rel(1,2) by (auto simp: same_frame [OF qf] fld_same_frame [OF qf])
  have xs_small: "\<forall>i \<in> set ?xs. i < 16" using small by (auto dest: in_set_takeD)
  have ys_small: "\<forall>i \<in> set ?ys. i < 16" using small by (auto dest: in_set_dropD)
  have zip_small: "\<forall>i \<in> fst ` set (zip ?xs bs). i < 16"
    using xs_small by (auto dest: set_zip_leftD)
  have low: "desc_bytes (set ?xs) \<subseteq> {..<256}" by (rule desc_bytes_low [OF xs_small])
  have avail: "avail_idx p1 q = avail_idx p q"
    using low by (intro fld_changes [OF fill(4)]) fastforce+
  have count: "checked_sub (free_count q) (of_nat ?n) = Some (free_count q - of_nat ?n)"
    "unat (free_count q - of_nat ?n) = length ?ys"
    using rel(5) assms(3) descs_memberD(3) [OF assms(1)]
    by (simp_all add: checked_sub_def word_le_nat_alt unat_sub unat_of_nat)
  have head: "free_head q = hd (sp_free s)"
    using rel(6) assms(2,3) by (cases "sp_free s") auto
  have ring: "clear_of {258..<292} X" if "\<forall>x \<in> X. x < 16" for X
    using that by (intro clear_of_rings) auto
  have "linked p2 q e ?ys"
    using fill(2) linked_other [OF pub(2) ring [OF ys_small]] by simp
  moreover have "chain p2 q (zip ?xs bs)"
    using fill(3) chain_other [OF pub(2) ring [OF zip_small]] by simp
  moreover have "chain p2 q c" if c: "c \<in> set (sp_busy s)" for c
  proof -
    have "fst ` set c \<inter> set ?xs = {}"
      using rel(3) c by (auto simp: descs_def dest: in_set_takeD)
    moreover have "\<forall>x \<in> fst ` set c. x < 16" using descs_memberD(2) [OF assms(1) c] by blast
    ultimately show ?thesis
      using rel(7) [OF c] chain_other [OF fill(4) clear_of_desc [OF xs_small]] chain_other [OF pub(2) ring] by auto
  qed
  moreover have "distinct (descs (snd (sp_add bs s)))" "set (descs (snd (sp_add bs s))) = set (descs s)"
    using descs_add [OF assms(3,2)] rel(3) by (metis mset_eq_imp_distinct_iff, metis mset_eq_setD)
  ultimately have "queue_rel p2 ?q (snd (sp_add bs s))"
    using rel(1,2,4) count(2) assms(2,3)
    by (auto simp: queue_rel_def sp_add_def same_frame [OF qf])
  moreover have "queue_add bs p q = Some (Inr (free_head q), p2, ?q)"
    using assms(2,3) rel(5) fill(1) pub(1) count(1) by (simp add: queue_add_def Let_def not_less)
  moreover have "changes p p2 q {..<292}"
    using low by (intro changes_trans [OF fill(4) pub(2)]) force+
  ultimately show ?thesis
    using pub(3,4) avail head assms(2,3) by (auto simp: sp_add_def)
qed

lemma queue_add_refused:
  assumes "queue_rel p q s" "bs = [] \<or> length (sp_free s) < length bs"
  shows "queue_add bs p q = Some (fst (sp_add bs s), p, q)" "snd (sp_add bs s) = s"
  using assms by (auto simp: queue_add_def sp_add_def queue_rel_def)

section \<open>Taking back a finished request\<close>

lemma chain_end_spec:
  "in_frame q \<Longrightarrow> chain p q c \<Longrightarrow> \<forall>x \<in> fst ` set c. x < 16 \<Longrightarrow> unat n + length c \<le> 2 ^ 16 \<Longrightarrow>
     chain_end p q (fst (hd c)) n = Some (fst (last c), n + of_nat (length c - 1))"
proof (induction p q c arbitrary: n rule: chain.induct)
  case (2 p q i b)
  then show ?case by (subst chain_end.simps) (simp add: descriptor_get)
next
  case (3 p q i b j b' c)
  have "checked_add n 1 = Some (n + 1)" "unat (n + 1) = unat n + 1"
    using 3(5) by (simp_all add: checked_add_def unat_add_no_overflow)
  with 3 show ?case
    by (subst chain_end.simps) (simp add: descriptor_get algebra_simps)
qed simp

text \<open>Linking the last descriptor of a chain to the free list makes one list of the two.\<close>

lemma linked_chain:
  assumes "chain p q c" "\<And>x. x \<in> fst ` set (butlast c) \<Longrightarrow> d_next p' q x = d_next p q x"
    "d_next p' q (fst (last c)) = f" "linked p' q f ys"
  shows "linked p' q (fst (hd c)) (map fst c @ ys)"
  using assms
proof (induction p q c rule: chain.induct)
  case (3 p q i b j b' c)
  have "d_next p' q i = j" using 3(2,3) by auto
  moreover have "linked p' q (fst (hd ((j, b') # c))) (map fst ((j, b') # c) @ ys)"
    using 3 by auto
  ultimately show ?case by simp
qed auto

lemma mset_remove_chain:
  "c \<in> set B \<Longrightarrow> mset (map fst c) + mset (concat (map (map fst) (remove1 c B))) = mset (concat (map (map fst) B))"
  by (induction B) auto

lemma descs_done: "c \<in> set (sp_busy s) \<Longrightarrow> mset (descs (sp_done c s)) = mset (descs s)"
  using mset_remove_chain [of c "sp_busy s"] by (simp add: descs_def sp_done_def)

lemma distinct_chain:
  assumes "queue_rel p q s" "c \<in> set (sp_busy s)"
  shows "distinct (map fst c)" "fst ` set c \<inter> set (sp_free s) = {}" "c \<noteq> []"
    "d \<in> set (remove1 c (sp_busy s)) \<Longrightarrow> fst ` set c \<inter> fst ` set d = {}"
proof -
  have "distinct (descs (sp_done c s))"
    using descs_done [OF assms(2)] assms(1) by (metis mset_eq_imp_distinct_iff queue_rel_def)
  then show "distinct (map fst c)" "fst ` set c \<inter> set (sp_free s) = {}"
    "d \<in> set (remove1 c (sp_busy s)) \<Longrightarrow> fst ` set c \<inter> fst ` set d = {}"
    by (auto simp: descs_def sp_done_def)
  show "c \<noteq> []" using assms by (auto simp: queue_rel_def)
qed

lemma recycle_spec:
  assumes "queue_rel p q s" "c \<in> set (sp_busy s)"
  shows "\<exists>p' q'. recycle (fst (hd c)) p q = Some (p', q') \<and> queue_rel p' q' (sp_done c s) \<and>
    q_frame q' = q_frame q \<and> last_used q' = last_used q \<and> changes p p' q {..<256}"
proof -
  have rel: "in_frame q" "q_size q = 16" "distinct (descs s)" "\<And>i. i \<in> set (descs s) \<longleftrightarrow> i < 16"
    "unat (free_count q) = length (sp_free s)" "linked p q (free_head q) (sp_free s)"
    "\<And>c. c \<in> set (sp_busy s) \<Longrightarrow> chain p q c"
    using assms(1) by (auto simp: queue_rel_def)
  note dist = distinct_chain [OF assms]
  have c_small: "\<forall>x \<in> fst ` set c. x < 16" using descs_memberD(2) [OF assms] by blast
  have after: "distinct (descs (sp_done c s))" "set (descs (sp_done c s)) = set (descs s)"
    using descs_done [OF assms(2)] rel(3) by (metis mset_eq_imp_distinct_iff, metis mset_eq_setD)
  have len: "length (sp_free s) + length c \<le> 16"
  proof -
    have "distinct (map fst c @ sp_free s)" using after(1) by (simp add: descs_def sp_done_def Int_Un_distrib)
    moreover have "\<forall>x \<in> set (map fst c @ sp_free s). x < 16"
      using c_small descs_memberD(1) [OF assms(1)] by auto
    ultimately have "length (map fst c @ sp_free s) \<le> 16" by (rule sixteen)
    then show ?thesis by simp
  qed
  let ?l = "fst (last c)"
  let ?p = "link_to p q ?l (free_head q)"
  let ?q = "q\<lparr>free_head := fst (hd c), free_count := free_count q + of_nat (length c)\<rparr>"
  have qf: "q_frame ?q = q_frame q" by simp
  have l: "?l < 16" "?l \<in> fst ` set c" using c_small dist(3) by auto
  have ch: "changes p ?p q (desc_bytes {?l})" by (rule changes_link_to)
  have n: "1 + of_nat (length c - 1) = (of_nat (length c) :: u16)"
    using dist(3) by (cases c) simp_all
  have count: "checked_add (free_count q) (of_nat (length c)) = Some (free_count q + of_nat (length c))"
    "unat (free_count q + of_nat (length c)) = length (sp_free s) + length c"
    using len rel(5) by (simp_all add: checked_add_def unat_add_no_overflow unat_of_nat)
  have "chain_end p q (fst (hd c)) 1 = Some (?l, of_nat (length c))"
    using chain_end_spec [OF rel(1) rel(7) [OF assms(2)] c_small, of 1] len n by simp
  then have "recycle (fst (hd c)) p q = Some (?p, ?q)"
    using count(1) descriptor_put(1) [OF rel(1) l(1)] by (simp add: recycle_def)
  moreover have "queue_rel ?p ?q (sp_done c s)"
  proof -
    have "d_next ?p q x = d_next p q x" if x: "x \<in> fst ` set (butlast c)" for x
    proof -
      have c: "c = butlast c @ [last c]" using dist(3) by simp
      then have "distinct (map fst (butlast c) @ [?l])"
        using dist(1) by (metis map_append list.simps(8,9))
      then have "?l \<notin> fst ` set (butlast c)" by simp
      then have "x \<noteq> ?l" using x by blast
      moreover have "x < 16" using x c_small by (auto dest: in_set_butlastD)
      ultimately show ?thesis
        using l(1) by (intro desc_same(4) [OF ch clear_of_desc [of "{?l}" "{x}"]]) auto
    qed
    moreover have "linked ?p q (free_head q) (sp_free s)"
      using rel(6) linked_other [OF ch clear_of_desc [of "{?l}" "set (sp_free s)"]] l dist(2)
        descs_memberD(1) [OF assms(1)] by auto
    ultimately have "linked ?p q (fst (hd c)) (map fst c @ sp_free s)"
      using fld_link_to(1) [OF l(1)] by (intro linked_chain [OF rel(7) [OF assms(2)]]) auto
    moreover have "chain ?p q d" if d: "d \<in> set (remove1 c (sp_busy s))" for d
    proof -
      have d': "d \<in> set (sp_busy s)" using d set_remove1_subset by fastforce
      have "\<forall>x \<in> fst ` set d. x < 16" using descs_memberD(2) [OF assms(1) d'] by blast
      then show ?thesis
        using rel(7) [OF d'] chain_other [OF ch clear_of_desc [of "{?l}" "fst ` set d"]] l dist(4) [OF d] by auto
    qed
    ultimately show ?thesis
      using rel(1,2,4) count(2) after by (auto simp: queue_rel_def sp_done_def same_frame [OF qf])
  qed
  moreover have "changes p ?p q {..<256}"
    using ch desc_bytes_low [of "{?l}"] l(1) by (intro changes_mono [OF ch]) auto
  ultimately show ?thesis by auto
qed

lemma take_used_spec:
  assumes "queue_rel p q s" "last_used q \<noteq> used_idx p q" "c \<in> set (sp_busy s)"
    "ucast (used_id p q (last_used q)) = fst (hd c)"
  shows "\<exists>p' q'. take_used p q = Some (Some (fst (hd c), used_len p q (last_used q)), p', q') \<and>
    queue_rel p' q' (sp_done c s) \<and> q_frame q' = q_frame q \<and> last_used q' = last_used q + 1 \<and>
    changes p p' q {..<256}"
proof -
  let ?i = "last_used q mod 16"
  have rel: "in_frame q" "q_size q = 16" using assms(1) by (simp_all add: queue_rel_def)
  have m: "unat ?i < 16" by (simp add: unat_div_mod)
  have n: "checked_mul (ucast ?i :: u64) 8 = Some (ucast ?i * 8)" "unat (ucast ?i * 8 :: u64) = 8 * unat ?i"
    using m by (simp_all add: checked_mul_def unat_mult_no_overflow)
  have e: "checked_add (USED_OFFSET + 4) (ucast ?i * 8) = Some (USED_OFFSET + 4 + ucast ?i * 8)"
    "unat (USED_OFFSET + 4 + ucast ?i * 8) = 516 + 8 * unat ?i"
    using m n(2) by (simp_all add: USED_OFFSET_def checked_add_def unat_add_no_overflow)
  have e4: "checked_add (USED_OFFSET + 4 + ucast ?i * 8) 4 = Some (USED_OFFSET + 4 + ucast ?i * 8 + 4)"
    "unat (USED_OFFSET + 4 + ucast ?i * 8 + 4) = 520 + 8 * unat ?i"
    using m e(2) unat_add_no_overflow [of "USED_OFFSET + 4 + ucast ?i * 8" 4]
    by (simp_all only: checked_add_def) simp_all
  let ?q = "q\<lparr>last_used := last_used q + 1\<rparr>"
  have qf: "q_frame ?q = q_frame q" by simp
  have "queue_rel p ?q s" using assms(1) by (simp add: queue_rel_def same_frame [OF qf])
  then obtain p' q' where r: "recycle (fst (hd c)) p ?q = Some (p', q')" "queue_rel p' q' (sp_done c s)"
    "q_frame q' = q_frame q" "last_used q' = last_used q + 1" "changes p p' q {..<256}"
    using recycle_spec [OF _ assms(3), of p ?q] by (auto simp: same_frame [OF qf])
  have "take_used p q = Some (Some (fst (hd c), used_len p q (last_used q)), p', q')"
    using assms(2,4) rel(2) m n(1) e e4 r(1)
    by (simp add: take_used_def Let_def index_get [OF rel(1)] ring_get_fld [OF rel(1)])
  with r show ?thesis by blast
qed

lemma take_used_none:
  "queue_rel p q s \<Longrightarrow> last_used q = used_idx p q \<Longrightarrow> take_used p q = Some (None, p, q)"
  by (simp add: take_used_def queue_rel_def index_get)

text \<open>
  C6. The queue implements the ownership discipline of the specification. \<open>add\<close> answers what the
  specification answers; when it accepts, it takes the descriptors from the front of the free list,
  the device finds in them exactly the buffers of the request, chained in order, and the next entry of
  the available ring names the head; when it refuses, nothing changes. \<open>take_used\<close> of an
  outstanding request gives its descriptors back, at the front of the free list, and returns what the
  device reported. In both cases every descriptor stays either free or in exactly one outstanding
  chain, and nothing outside the descriptors and the available ring is written.
\<close>

theorem queue_refines_ownership:
  assumes "queue_rel p q s"
  shows "(\<exists>p' q'. queue_add bs p q = Some (fst (sp_add bs s), p', q') \<and> queue_rel p' q' (snd (sp_add bs s)) \<and>
      changes p p' q {..<292} \<and> last_used q' = last_used q \<and>
      (case fst (sp_add bs s) of
         Inl _ \<Rightarrow> p' = p \<and> q' = q
       | Inr h \<Rightarrow> avail_ring p' q (avail_idx p q) = h \<and> avail_idx p' q = avail_idx p q + 1)) \<and>
    (last_used q = used_idx p q \<longrightarrow> take_used p q = Some (None, p, q)) \<and>
    (\<forall>c \<in> set (sp_busy s). last_used q \<noteq> used_idx p q \<longrightarrow>
      ucast (used_id p q (last_used q)) = fst (hd c) \<longrightarrow>
      (\<exists>p' q'. take_used p q = Some (Some (fst (hd c), used_len p q (last_used q)), p', q') \<and>
        queue_rel p' q' (sp_done c s) \<and> last_used q' = last_used q + 1 \<and> changes p p' q {..<256}))"
proof -
  have "\<exists>p' q'. queue_add bs p q = Some (fst (sp_add bs s), p', q') \<and> queue_rel p' q' (snd (sp_add bs s)) \<and>
      changes p p' q {..<292} \<and> last_used q' = last_used q \<and>
      (case fst (sp_add bs s) of
         Inl _ \<Rightarrow> p' = p \<and> q' = q
       | Inr h \<Rightarrow> avail_ring p' q (avail_idx p q) = h \<and> avail_idx p' q = avail_idx p q + 1)"
  proof (cases "bs = [] \<or> length (sp_free s) < length bs")
    case True
    have "\<exists>e. fst (sp_add bs s) = Inl e" using True by (auto simp: sp_add_def)
    with queue_add_refused [OF assms True] assms show ?thesis by auto
  next
    case False
    then obtain h p' q' where "queue_add bs p q = Some (Inr h, p', q')" "fst (sp_add bs s) = Inr h"
      "queue_rel p' q' (snd (sp_add bs s))" "last_used q' = last_used q"
      "avail_ring p' q (avail_idx p q) = h" "avail_idx p' q = avail_idx p q + 1" "changes p p' q {..<292}"
      using queue_add_spec [OF assms, of bs] by (auto simp: not_less)
    then show ?thesis by auto
  qed
  moreover have "last_used q = used_idx p q \<longrightarrow> take_used p q = Some (None, p, q)"
    using take_used_none [OF assms] by simp
  moreover have "\<exists>p' q'. take_used p q = Some (Some (fst (hd c), used_len p q (last_used q)), p', q') \<and>
        queue_rel p' q' (sp_done c s) \<and> last_used q' = last_used q + 1 \<and> changes p p' q {..<256}"
    if "c \<in> set (sp_busy s)" "last_used q \<noteq> used_idx p q"
      "ucast (used_id p q (last_used q)) = fst (hd c)" for c
    using take_used_spec [OF assms that(2,1,3)] by blast
  ultimately show ?thesis by simp
qed

section \<open>A new queue\<close>

lemma linked_upt:
  "(\<And>i. k \<le> i \<Longrightarrow> i < n \<Longrightarrow> d_next p q (of_nat i) = of_nat i + 1) \<Longrightarrow>
     linked p q (of_nat k) (map of_nat [k..<n])"
proof (induction "n - k" arbitrary: k)
  case 0
  then show ?case by simp
next
  case (Suc l)
  then have "k < n" by simp
  then show ?case using Suc(1) [of "k + 1"] Suc(2,3) by (simp add: upt_conv_Cons add.commute)
qed

lemma small_descriptor: "i < 16 \<Longrightarrow> (of_nat i :: u16) < 16" "i < 16 \<Longrightarrow> unat (of_nat i :: u16) = i"
  by (simp_all add: word_less_nat_alt unat_of_nat)

lemma thread_free_list:
  assumes "in_frame q"
  shows "\<exists>p'. for_each (\<lambda>i p. write_descriptor_next p q (of_nat i) (of_nat i + 1)) [0..<16] p = Some p' \<and>
    changes p p' q {..<256} \<and> (\<forall>i < 16. d_next p' q (of_nat i) = of_nat i + 1)"
proof -
  let ?P = "\<lambda>ys p'. set ys \<subseteq> {..<16} \<and> changes p p' q {..<256} \<and>
    (\<forall>i \<in> set ys. d_next p' q (of_nat i) = of_nat i + 1)"
  have "\<exists>p'. for_each (\<lambda>i p. write_descriptor_next p q (of_nat i) (of_nat i + 1)) [0..<16] p = Some p' \<and>
    ?P [0..<16] p'"
  proof (rule for_each_rule)
    show "?P [] p" by simp
    fix ys i p1 assume P: "?P ys p1" and "i \<in> set [0..<16]"
    then have i: "i < 16" by simp
    let ?p = "link_to p1 q (of_nat i) (of_nat i + 1)"
    have ch: "changes p1 ?p q (desc_bytes {of_nat i})" by (rule changes_link_to)
    have "d_next ?p q (of_nat j) = of_nat j + 1" if j: "j \<in> set (ys @ [i])" for j
    proof (cases "j = i")
      case True
      then show ?thesis using fld_link_to(1) [OF small_descriptor(1) [OF i]] by simp
    next
      case False
      then have "j \<in> set ys" using j by simp
      with P have "j < 16" "d_next p1 q (of_nat j) = of_nat j + 1" by auto
      moreover have "(of_nat j :: u16) \<noteq> of_nat i"
        using False \<open>j < 16\<close> i small_descriptor(2) by metis
      ultimately show ?thesis
        using desc_same(4) [OF ch clear_of_desc [of "{of_nat i}" "{of_nat j}"]] i by (simp add: small_descriptor)
    qed
    moreover have "changes p ?p q {..<256}"
      using P changes_trans [OF _ ch, of p "{..<256}" "{..<256}"] desc_bytes_low [of "{of_nat i}"] i
      by (simp add: small_descriptor)
    moreover have "write_descriptor_next p1 q (of_nat i) (of_nat i + 1) = Some ?p"
      using descriptor_put(1) [OF assms small_descriptor(1) [OF i]] .
    ultimately show "\<exists>s'. write_descriptor_next p1 q (of_nat i) (of_nat i + 1) = Some s' \<and> ?P (ys @ [i]) s'"
      using P i by auto
  qed
  then show ?thesis by (auto simp: atLeast0LessThan)
qed

lemma new_rel:
  assumes "in_frame q" "q_size q = 16" "free_head q = 0" "free_count q = 16"
    and "\<forall>i < 16. d_next p q (of_nat i) = of_nat i + 1"
  shows "queue_rel p q sp_new"
proof -
  have descs: "descs sp_new = map of_nat [0..<16]" by (simp add: descs_def sp_new_def)
  have "inj_on (of_nat :: nat \<Rightarrow> u16) {0..<16}"
    using small_descriptor(2) by (metis atLeastLessThan_iff inj_onI)
  then have "distinct (descs sp_new)" by (simp only: descs distinct_map set_upt distinct_upt simp_thms)
  moreover have "i \<in> set (descs sp_new) \<longleftrightarrow> i < 16" for i
  proof
    assume "i \<in> set (descs sp_new)"
    then show "i < 16" unfolding descs by (auto simp del: upt.simps simp: small_descriptor)
  next
    assume "i < 16"
    then have "unat i \<in> {0..<16}" "of_nat (unat i) = i" by (simp_all add: word_less_nat_alt)
    then show "i \<in> set (descs sp_new)" unfolding descs set_map set_upt by (metis image_eqI)
  qed
  moreover have "linked p q (free_head q) (sp_free sp_new)"
    using linked_upt [of 0 16 p q] assms(3,5) by (simp add: sp_new_def del: upt.simps)
  ultimately show ?thesis
    using assms(1,2,4) by (simp add: queue_rel_def sp_new_def del: upt.simps)
qed

text \<open>A register access of the transport, on the trace.\<close>

lemma transport_write_traced:
  assumes "unat (tr_base t) + 256 < 2 ^ 64" "unat off \<le> 256"
  shows "transport_write (traced hw) p t off v s =
    Some (hw_write hw (tr_base t + off) v (fst s), snd s @ [Write (tr_base t + off) v])"
  using assms by (cases s) (simp add: transport_write_def checked_add_def, simp add: mmio_write_def)

lemma transport_read_traced:
  assumes "unat (tr_base t) + 256 < 2 ^ 64" "unat off \<le> 256" "hw_read hw (tr_base t + off) d = (v, d')"
  shows "transport_read (traced hw) p t off (d, xs) = Some (v, d', xs @ [Read (tr_base t + off) v])"
  using assms by (simp add: transport_read_def checked_add_def) (simp add: mmio_read_def)

text \<open>What the device is told about the rings in frame \<open>f\<close>, in this order.\<close>

definition ring_setup :: "transport \<Rightarrow> frame \<Rightarrow> access list" where
  "ring_setup t f = Write (tr_base t + 0x38) 16 #
     concat (map (\<lambda>(reg, a). [Write (tr_base t + reg) (ucast a), Write (tr_base t + reg + 4) (ucast (drop_bit 32 a))])
       [(0x80, addr f), (0x90, addr f + 256), (0xa0, addr f + 512)]) @
     [Write (tr_base t + 0x44) 1]"

lemma alloc_in_frame:
  assumes "frames_wf (mframes m)" "avail (mframes m) \<noteq> {}"
  shows "\<exists>f m'. alloc m = Some (Some f, m') \<and> f = Min (idle_frames m) \<and> frames_wf (mframes m') \<and>
    avail (mframes m') = avail (mframes m) - {Min (avail (mframes m))} \<and> same_ram (mframes m) (mframes m') \<and>
    unat (addr f) + 4096 \<le> 2 ^ 64 \<and> (\<forall>k < 4096. pmem (mphys m') (addr f + of_nat k) = 0)"
proof -
  let ?i = "Min (avail (mframes m))" and ?f = "frame_of (mframes m) (Min (avail (mframes m)))"
  obtain fs where fs: "alloc m = Some (Some ?f, \<lparr>mphys = zero_frames (mphys m) ?f 1, mframes = fs\<rparr>)"
    "avail fs = avail (mframes m) - {?i}" "frames_wf fs" "same_ram (mframes m) fs"
    using alloc_spec(2) [OF assms] by blast
  have "?i < frame_count (mframes m)" using assms(2) by (intro availD) simp
  then have "unat (addr ?f) + 4096 \<le> 2 ^ 64"
    using wf_frame(2) [OF assms(1), of ?i] wf_end(2) [OF assms(1)]
      unsigned_less [of "ram_base (mframes m) + ram_size (mframes m)", where 'a = nat] by simp
  moreover have "\<forall>k < 4096. pmem (zero_frames (mphys m) ?f 1) (addr ?f + of_nat k) = 0"
    by (simp add: pmem_zero_frames unat_of_nat_u64)
  ultimately show ?thesis using fs Min_idle_frames [OF assms] by auto
qed

lemma zero_fld:
  assumes "\<forall>k < 4096. pmem p (addr (q_frame q) + of_nat k) = 0" "off + n \<le> 4096"
  shows "fld p q n off = 0"
proof -
  have "map (\<lambda>i. pmem p (addr (q_frame q) + of_nat (off + i))) [0..<n] = replicate n 0"
    using assms by (intro nth_equalityI) (simp_all del: of_nat_add)
  moreover have "le_join (replicate n 0) = 0" by (induction n) (simp_all add: le_join_def)
  ultimately show ?thesis by (simp add: fld_def del: of_nat_add)
qed

lemma queue_new_rings:
  assumes "frames_wf (mframes m)" "avail (mframes m) \<noteq> {}"
  shows "\<exists>m1 p q. alloc m = Some (Some (q_frame q), m1) \<and>
    q = \<lparr>q_frame = q_frame q, q_size = QUEUE_SIZE, free_head = 0, free_count = QUEUE_SIZE, last_used = 0\<rparr> \<and>
    for_each (\<lambda>i p. write_descriptor_next p q (of_nat i) (of_nat i + 1)) [0..<unat QUEUE_SIZE] (mphys m1) = Some p \<and>
    queue_rel p q sp_new \<and> avail_idx p q = 0 \<and> used_idx p q = 0 \<and> q_frame q = Min (idle_frames m) \<and>
    idle_frames (m1\<lparr>mphys := p\<rparr>) = idle_frames m - {q_frame q}"
proof -
  obtain f m1 where f: "alloc m = Some (Some f, m1)" "f = Min (idle_frames m)" "same_ram (mframes m) (mframes m1)"
    "avail (mframes m1) = avail (mframes m) - {Min (avail (mframes m))}"
    "unat (addr f) + 4096 \<le> 2 ^ 64" "\<forall>k < 4096. pmem (mphys m1) (addr f + of_nat k) = 0"
    using alloc_in_frame [OF assms] by blast
  let ?q = "\<lparr>q_frame = f, q_size = QUEUE_SIZE, free_head = 0, free_count = QUEUE_SIZE, last_used = 0\<rparr>"
  have q: "in_frame ?q" using f(5) by (simp add: in_frame_def)
  obtain p where p: "for_each (\<lambda>i p. write_descriptor_next p ?q (of_nat i) (of_nat i + 1)) [0..<16] (mphys m1) = Some p"
    "changes (mphys m1) p ?q {..<256}" "\<forall>i < 16. d_next p ?q (of_nat i) = of_nat i + 1"
    using thread_free_list [OF q] by blast
  have "queue_rel p ?q sp_new"
    by (rule new_rel [OF q _ _ _ p(3)]) (simp_all add: QUEUE_SIZE_def)
  moreover have "{..<256} \<inter> {258..<260} = ({} :: nat set)" "{..<256} \<inter> {514..<516} = ({} :: nat set)" by auto
  then have "avail_idx p ?q = 0" "used_idx p ?q = 0"
    using f(6) by (simp_all add: fld_changes [OF p(2)] zero_fld)
  moreover have "Min (avail (mframes m)) < frame_count (mframes m)" using assms(2) by (intro availD) simp
  then have "idle_frames (m1\<lparr>mphys := p\<rparr>) = idle_frames m - {f}"
    using idle_frames_Diff [OF assms(1), of "{Min (avail (mframes m))}"] f(2-4) Min_idle_frames [OF assms]
    by (simp add: idle_frames_def same_ramD [OF f(3)])
  ultimately show ?thesis
    using f(1,2) p(1) by (intro exI [of _ m1] exI [of _ p] exI [of _ ?q]) (simp add: QUEUE_SIZE_def)
qed

text \<open>
  C38. A new queue. A device that offers fewer than sixteen entries is refused and nothing is taken;
  without memory the answer says so. Otherwise the queue takes the lowest free frame, its rings
  represent the empty specification, both indexes start at zero, and the device is told the three
  ring addresses, low half first, before \<open>QUEUE_READY\<close>, which is the last write.
\<close>

theorem queue_new_ready:
  assumes "frames_wf (mframes m)" "unat (tr_base t) + 256 < 2 ^ 64"
    and "hw_read hw (tr_base t + 0x34) (hw_write hw (tr_base t + 0x30) index d) = (most, d1)"
  shows "let start = [Write (tr_base t + 0x30) index, Read (tr_base t + 0x34) most] in
    if most < 16 then queue_new (traced hw) t index m (d, []) = Some (Inl (QueueTooSmall most), m, d1, start)
    else if avail (mframes m) = {} then queue_new (traced hw) t index m (d, []) = Some (Inl NoMemory, m, d1, start)
    else \<exists>q m' d'. queue_new (traced hw) t index m (d, []) = Some (Inr q, m', d', start @ ring_setup t (q_frame q)) \<and>
      queue_rel (mphys m') q sp_new \<and> avail_idx (mphys m') q = 0 \<and> used_idx (mphys m') q = 0 \<and> last_used q = 0 \<and>
      q_frame q = Min (idle_frames m) \<and> idle_frames m' = idle_frames m - {q_frame q}"
proof -
  let ?start = "[Write (tr_base t + 0x30) index, Read (tr_base t + 0x34) most]"
  note tw = transport_write_traced [OF assms(2)]
  have first: "transport_write (traced hw) p t QUEUE_SEL index (d, []) =
      Some (hw_write hw (tr_base t + 0x30) index d, [Write (tr_base t + 0x30) index])"
    "transport_read (traced hw) p t QUEUE_NUM_MAX (hw_write hw (tr_base t + 0x30) index d, [Write (tr_base t + 0x30) index]) =
      Some (most, d1, ?start)" for p
    using transport_read_traced [OF assms(2) _ assms(3)] by (simp_all add: tw QUEUE_SEL_def QUEUE_NUM_MAX_def)
  consider "most < 16" | "\<not> most < 16" "avail (mframes m) = {}" | "\<not> most < 16" "avail (mframes m) \<noteq> {}"
    by blast
  then show ?thesis
  proof cases
    case 3
    obtain m1 p q where q: "alloc m = Some (Some (q_frame q), m1)"
      "q = \<lparr>q_frame = q_frame q, q_size = QUEUE_SIZE, free_head = 0, free_count = QUEUE_SIZE, last_used = 0\<rparr>"
      "for_each (\<lambda>i p. write_descriptor_next p q (of_nat i) (of_nat i + 1)) [0..<unat QUEUE_SIZE] (mphys m1) = Some p"
      "queue_rel p q sp_new" "avail_idx p q = 0" "used_idx p q = 0" "q_frame q = Min (idle_frames m)"
      "idle_frames (m1\<lparr>mphys := p\<rparr>) = idle_frames m - {q_frame q}"
      using queue_new_rings [OF assms(1) 3(2)] by blast
    have sums: "checked_add (addr (q_frame q)) n = Some (addr (q_frame q) + n)" if "unat n < 4096" for n
      using q(4) that by (simp add: queue_rel_def in_frame_def checked_add_def)
    have "last_used q = 0" by (subst q(2)) simp
    moreover have "\<exists>d'. queue_new (traced hw) t index m (d, []) =
        Some (Inr q, m1\<lparr>mphys := p\<rparr>, d', ?start @ ring_setup t (q_frame q))"
      using 3(1) q(3)
      by (simp add: queue_new_def first q(1) Let_def q(2) [symmetric, unfolded QUEUE_SIZE_def] tw sums QUEUE_SIZE_def DESC_OFFSET_def AVAIL_OFFSET_def
          USED_OFFSET_def QUEUE_NUM_def QUEUE_DESC_LOW_def QUEUE_DESC_HIGH_def QUEUE_DRIVER_LOW_def
          QUEUE_DRIVER_HIGH_def QUEUE_DEVICE_LOW_def QUEUE_DEVICE_HIGH_def QUEUE_READY_def ring_setup_def add.assoc
          del: upt.simps)
    then obtain d' where "queue_new (traced hw) t index m (d, []) =
        Some (Inr q, m1\<lparr>mphys := p\<rparr>, d', ?start @ ring_setup t (q_frame q))" by blast
    ultimately show ?thesis
      unfolding Let_def if_not_P [OF 3(1)] if_not_P [OF 3(2)]
      using q(4-8) by (intro exI [of _ q] exI [of _ "m1\<lparr>mphys := p\<rparr>"] exI [of _ d']) simp
  qed (simp_all add: queue_new_def first QUEUE_SIZE_def alloc_spec(1) [OF assms(1)])
qed

text \<open>A device for the witnesses: it always answers 16 and remembers nothing.\<close>

definition dull_device :: "unit hw" where
  "dull_device = \<lparr>hw_read = (\<lambda>a d. (16, d)), hw_write = (\<lambda>a v d. d)\<rparr>"

definition dull_transport :: transport where
  "dull_transport = \<lparr>tr_base = 0xa000000, tr_intid = 48, tr_device_id = 2, tr_features = 0\<rparr>"

lemma boot_queue:
  "\<exists>p q. queue_rel p q sp_new \<and> avail_idx p q = 0 \<and> used_idx p q = 0 \<and> last_used q = 0"
proof -
  have "frames_wf (mframes boot_mach)" "avail (mframes boot_mach) \<noteq> {}" using boot_frames_init by auto
  from queue_new_rings [OF this] obtain p q where
    "queue_rel p q sp_new" "avail_idx p q = 0" "used_idx p q = 0"
    "q = \<lparr>q_frame = q_frame q, q_size = QUEUE_SIZE, free_head = 0, free_count = QUEUE_SIZE, last_used = 0\<rparr>"
    by blast
  moreover from this(4) have "last_used q = 0" by (metis queue.select_convs(5))
  ultimately show ?thesis by blast
qed

theorem queue_new_ready_witness:
  "\<exists>q m' d'. queue_new (traced dull_device) dull_transport 0 boot_mach ((), []) =
      Some (Inr q, m', d', [Write 0xa000030 0, Read 0xa000034 16] @ ring_setup dull_transport (q_frame q)) \<and>
    queue_rel (mphys m') q sp_new"
proof -
  have b: "frames_wf (mframes boot_mach)" "avail (mframes boot_mach) \<noteq> {}" using boot_frames_init by auto
  have "hw_read dull_device (tr_base dull_transport + 0x34) (hw_write dull_device (tr_base dull_transport + 0x30) 0 ()) = (16, ())"
    by (simp add: dull_device_def)
  from queue_new_ready [OF b(1) _ this] b(2) show ?thesis
    by (simp add: dull_transport_def Let_def) blast
qed

theorem queue_refines_ownership_witness:
  "\<exists>p q p' q'. queue_rel p q sp_new \<and>
     queue_add [\<lparr>buf_pa = 0x40400000, buf_len = 16, device_writes = False\<rparr>,
       \<lparr>buf_pa = 0x40401000, buf_len = 512, device_writes = True\<rparr>] p q = Some (Inr 0, p', q') \<and>
     queue_rel p' q' (snd (sp_add [\<lparr>buf_pa = 0x40400000, buf_len = 16, device_writes = False\<rparr>,
       \<lparr>buf_pa = 0x40401000, buf_len = 512, device_writes = True\<rparr>] sp_new)) \<and>
     avail_ring p' q 0 = 0 \<and> avail_idx p' q = 1"
proof -
  obtain p q where pq: "queue_rel p q sp_new" "avail_idx p q = 0" using boot_queue by blast
  let ?bs = "[\<lparr>buf_pa = 0x40400000, buf_len = 16, device_writes = False\<rparr>,
    \<lparr>buf_pa = 0x40401000, buf_len = 512, device_writes = True\<rparr>]"
  have "fst (sp_add ?bs sp_new) = Inr 0" by (simp add: sp_add_def sp_new_def hd_map)
  with queue_refines_ownership [OF pq(1), of ?bs] pq show ?thesis by (simp only: sum.case simp_thms add_0) blast
qed

end
