(* ===== verification/Spaces.thy ===== *)
theory Spaces
  imports Paging
begin

text \<open>
  What the page tables stand for. A set of tables in memory is read as a tree: \<open>table_frames\<close>
  collects the frames below a table, \<open>tidy\<close> says that no frame occurs twice in it, and \<open>leaf_at\<close>
  is the map from addresses to leaves that a walk computes. Mapping a page or a block then changes
  the map at that page or block and nowhere else, takes new tables from the free frames, and keeps
  the tree tidy.

  \<open>leaf d e\<close> gives the frames that count as belonging to a leaf \<open>e\<close> in a table of depth
  \<open>d\<close> (3 minus the level of the translation): none when only the tables matter, those of the
  mapped memory for a user address space, which owns its pages.
\<close>

lemma mod_0_add: "x mod k = 0 \<Longrightarrow> y mod k = 0 \<Longrightarrow> (x + y) mod k = (0 :: nat)"
  by (simp add: mod_eq_0_iff_dvd)

section \<open>Frames that keep their contents\<close>

definition agree :: "phys \<Rightarrow> phys \<Rightarrow> frame set \<Rightarrow> bool" where
  "agree p p' S \<longleftrightarrow> phys_offset p' = phys_offset p \<and>
     (\<forall>s \<in> S. frame_aligned s \<longrightarrow> (\<forall>k < 4096. pmem p' (addr s + of_nat k) = pmem p (addr s + of_nat k)))"

lemma agree_refl [simp]: "agree p p S"
  by (simp add: agree_def)

lemma agree_trans: "agree p p1 S \<Longrightarrow> agree p1 p2 T \<Longrightarrow> U \<subseteq> S \<inter> T \<Longrightarrow> agree p p2 U"
  by (fastforce simp: agree_def)

lemma agree_mono: "agree p p' S \<Longrightarrow> U \<subseteq> S \<Longrightarrow> agree p p' U"
  by (auto simp: agree_def)

lemma agree_read_entry:
  assumes "agree p p' S" "t \<in> S" "frame_aligned t" "j < 512"
  shows "read_entry p' t j = read_entry p t j"
proof (rule read_entry_cong)
  show "phys_offset p' = phys_offset p" using assms(1) by (simp add: agree_def)
  have "pmem p' (addr t + of_nat (8 * j + b)) = pmem p (addr t + of_nat (8 * j + b))" if "b < 8" for b
    using assms that by (simp add: agree_def del: of_nat_add of_nat_mult)
  then show "\<forall>a \<in> entry_bytes t j. pmem p' a = pmem p a"
    by (auto simp: entry_bytes_def add.assoc)
qed

lemma other_frame:
  assumes "frame_aligned s" "frame_aligned t" "s \<noteq> t" "k < 4096" "k' < 4096"
  shows "addr s + of_nat k \<noteq> addr t + of_nat k'"
proof
  assume "addr s + of_nat k = addr t + of_nat k'"
  then have "drop_bit 12 (addr s) = drop_bit 12 (addr t)"
    using drop_bit_add_offset [of 12 "addr s" k] drop_bit_add_offset [of 12 "addr t" k'] assms
    by (simp add: frame_aligned_def)
  then have "addr s = addr t"
    by (rule aligned_eqI [OF assms(1,2) [unfolded frame_aligned_def]])
  with assms(3) show False by (simp add: frame.expand)
qed

lemma in_frame_offset: "unat (a - addr t) < 4096 \<Longrightarrow> \<exists>k < 4096. a = addr t + of_nat k"
  by (intro exI [of _ "unat (a - addr t)"]) simp

lemma agree_write_entry:
  assumes "frame_aligned t" "i < 512"
  shows "agree p (write_entry p t i v) (- {t})"
proof -
  have "pmem (write_entry p t i v) (addr s + of_nat k) = pmem p (addr s + of_nat k)"
    if s: "s \<noteq> t" "frame_aligned s" "k < 4096" for s k
  proof -
    have "\<not> unat (addr s + of_nat k - (addr t + 8 * of_nat i)) < 8"
    proof
      assume lt: "unat (addr s + of_nat k - (addr t + 8 * of_nat i)) < 8"
      define b where "b = unat (addr s + of_nat k - (addr t + 8 * of_nat i))"
      have "addr s + of_nat k = addr t + of_nat (8 * i + b)"
        by (simp add: b_def add.assoc)
      moreover have "8 * i + b < 4096" using assms(2) lt by (simp add: b_def)
      ultimately show False using other_frame [OF s(2) assms(1) s(1) s(3)] by blast
    qed
    then show ?thesis
      by (simp add: write_entry_def write_u64_def pmem_store_bytes kernel_pa_entry)
  qed
  then show ?thesis by (simp add: agree_def)
qed

lemma agree_zero_frames:
  assumes "frame_aligned f"
  shows "agree p (zero_frames p f 1) (- {f})"
proof -
  have "pmem (zero_frames p f 1) (addr s + of_nat k) = pmem p (addr s + of_nat k)"
    if "s \<noteq> f" "frame_aligned s" "k < 4096" for s k
    using in_frame_offset [of "addr s + of_nat k" f] other_frame [OF that(2) assms that(1,3)]
    by (auto simp: pmem_zero_frames)
  then show ?thesis by (simp add: agree_def)
qed

section \<open>Tables as a tree\<close>

definition valid :: "u64 \<Rightarrow> bool" where "valid e \<longleftrightarrow> e AND VALID \<noteq> 0"
definition is_table :: "u64 \<Rightarrow> bool" where "is_table e \<longleftrightarrow> valid e \<and> e AND TABLE_OR_PAGE \<noteq> 0"

type_synonym leaf_set = "nat \<Rightarrow> u64 \<Rightarrow> frame set"

text \<open>The frames below an entry \<open>e\<close> of a table of depth \<open>d\<close>, and those of a table.\<close>

primrec frames_below :: "leaf_set \<Rightarrow> phys \<Rightarrow> nat \<Rightarrow> u64 \<Rightarrow> frame set" where
  "frames_below leaf p 0 e = (if valid e then leaf 0 e else {})"
| "frames_below leaf p (Suc d) e =
     (if is_table e
      then insert (entry_frame e) (\<Union>i<512. frames_below leaf p d (read_entry p (entry_frame e) i))
      else if valid e then leaf (Suc d) e else {})"

definition table_frames :: "leaf_set \<Rightarrow> phys \<Rightarrow> nat \<Rightarrow> frame \<Rightarrow> frame set" where
  "table_frames leaf p d t = insert t (\<Union>i<512. frames_below leaf p d (read_entry p t i))"

text \<open>
  No frame occurs twice, and no table of the last level is empty: a table is only ever made on the
  way to a leaf.
\<close>

definition node_apart :: "leaf_set \<Rightarrow> phys \<Rightarrow> nat \<Rightarrow> frame \<Rightarrow> bool" where
  "node_apart leaf p d t \<longleftrightarrow>
     (\<forall>i < 512. t \<notin> frames_below leaf p d (read_entry p t i)) \<and>
     (\<forall>i < 512. \<forall>j < 512. i \<noteq> j \<longrightarrow>
        frames_below leaf p d (read_entry p t i) \<inter> frames_below leaf p d (read_entry p t j) = {})"

definition some_entry :: "phys \<Rightarrow> frame \<Rightarrow> bool" where
  "some_entry p t \<longleftrightarrow> (\<exists>j < 512. valid (read_entry p t j))"

primrec tidy :: "leaf_set \<Rightarrow> phys \<Rightarrow> nat \<Rightarrow> frame \<Rightarrow> bool" where
  "tidy leaf p 0 t \<longleftrightarrow> node_apart leaf p 0 t"
| "tidy leaf p (Suc d) t \<longleftrightarrow> node_apart leaf p (Suc d) t \<and>
     (\<forall>i < 512. is_table (read_entry p t i) \<longrightarrow>
        tidy leaf p d (entry_frame (read_entry p t i)) \<and>
        (d = 0 \<longrightarrow> some_entry p (entry_frame (read_entry p t i))))"

lemma under_table: "is_table e \<Longrightarrow> frames_below leaf p (Suc d) e = table_frames leaf p d (entry_frame e)"
  by (simp add: table_frames_def)

text \<open>The walk: the depth at which it ends and the leaf it finds there.\<close>

primrec leaf_at :: "phys \<Rightarrow> u64 \<Rightarrow> nat \<Rightarrow> frame \<Rightarrow> (nat \<times> u64) option" where
  "leaf_at p va 0 t = (let e = read_entry p t (table_index va 3) in if valid e then Some (0, e) else None)"
| "leaf_at p va (Suc d) t = (let e = read_entry p t (table_index va (2 - d)) in
     if \<not> valid e then None else if is_table e then leaf_at p va d (entry_frame e) else Some (Suc d, e))"

text \<open>The physical address a leaf gives.\<close>

definition leaf_pa :: "u64 \<Rightarrow> nat \<times> u64 \<Rightarrow> u64 option" where
  "leaf_pa va l = (if fst l = 0 then Some ((snd l AND ADDR_MASK) OR (va AND (PAGE_SIZE - 1)))
     else do {
       sz \<leftarrow> block_size (3 - fst l);
       Some ((snd l AND ADDR_MASK AND NOT (sz - 1)) OR (va AND (sz - 1)))
     })"

lemma lookup_leaf_at: "lookup p root va = map_option snd (leaf_at p va 3 root)"
  by (simp add: lookup_def numeral_3_eq_3 valid_def is_table_def Let_def)

lemma translate_leaf_at: "translate p root va = Option.bind (leaf_at p va 3 root) (leaf_pa va)"
  by (simp add: translate_def numeral_3_eq_3 numeral_2_eq_2 valid_def is_table_def Let_def leaf_pa_def)

text \<open>\<open>no_leaf\<close> counts the tables alone.\<close>

definition no_leaf :: leaf_set where
  "no_leaf = (\<lambda>d e. {})"

lemma below_no_leaf: "frames_below no_leaf p d e \<subseteq> frames_below leaf p d e"
proof (induction d arbitrary: e)
  case 0
  then show ?case by (simp add: no_leaf_def)
next
  case (Suc d)
  have "(\<Union>i<512. frames_below no_leaf p d (read_entry p t i)) \<subseteq> (\<Union>i<512. frames_below leaf p d (read_entry p t i))"
    for t by (intro UN_mono Suc order_refl)
  then show ?case by (auto simp: no_leaf_def)
qed

lemma table_frames_no_leaf: "table_frames no_leaf p d t \<subseteq> table_frames leaf p d t"
  unfolding table_frames_def by (intro insert_mono UN_mono below_no_leaf order_refl)

section \<open>What is elsewhere does not matter\<close>

text \<open>A tree is as it was when its tables are.\<close>

lemma under_keep:
  "agree p p' S \<Longrightarrow> frames_below no_leaf p d e \<subseteq> S \<Longrightarrow> frames_below leaf p' d e = frames_below leaf p d e"
proof (induction d arbitrary: e)
  case (Suc d)
  show ?case
  proof (cases "is_table e")
    case True
    let ?t = "entry_frame e"
    have t: "?t \<in> S" "\<And>i. i < 512 \<Longrightarrow> frames_below no_leaf p d (read_entry p ?t i) \<subseteq> S"
      using Suc.prems(2) True by auto
    have "frames_below leaf p' d (read_entry p' ?t i) = frames_below leaf p d (read_entry p ?t i)" if "i < 512" for i
      using Suc.IH [OF Suc.prems(1) t(2) [OF that]] agree_read_entry [OF Suc.prems(1) t(1) _ that] by simp
    then show ?thesis using True by simp
  qed simp
qed simp

lemma table_frames_keep:
  assumes "agree p p' S" "table_frames no_leaf p d t \<subseteq> S" "frame_aligned t"
  shows "table_frames leaf p' d t = table_frames leaf p d t" "node_apart leaf p' d t = node_apart leaf p d t"
proof -
  have t: "t \<in> S" "\<And>i. i < 512 \<Longrightarrow> frames_below no_leaf p d (read_entry p t i) \<subseteq> S"
    using assms(2) by (auto simp: table_frames_def)
  have "frames_below leaf p' d (read_entry p' t i) = frames_below leaf p d (read_entry p t i)" if "i < 512" for i
    using under_keep [OF assms(1) t(2) [OF that]] agree_read_entry [OF assms(1) t(1) assms(3) that] by simp
  then show "table_frames leaf p' d t = table_frames leaf p d t" "node_apart leaf p' d t = node_apart leaf p d t"
    by (simp_all add: table_frames_def node_apart_def)
qed

lemma child_frames:
  assumes "is_table (read_entry p t i)" "i < 512"
  shows "table_frames leaf p d (entry_frame (read_entry p t i)) \<subseteq> table_frames leaf p (Suc d) t"
  using assms by (auto simp: table_frames_def)

lemma tidy_keep:
  "agree p p' S \<Longrightarrow> table_frames no_leaf p d t \<subseteq> S \<Longrightarrow> frame_aligned t \<Longrightarrow> tidy leaf p' d t = tidy leaf p d t"
proof (induction d arbitrary: t)
  case 0
  then show ?case using table_frames_keep(2) [OF 0] by simp
next
  case (Suc d)
  have t: "t \<in> S" using Suc.prems(2) by (simp add: table_frames_def)
  have e: "read_entry p' t i = read_entry p t i" if "i < 512" for i
    using agree_read_entry [OF Suc.prems(1) t Suc.prems(3) that] .
  have "tidy leaf p' d (entry_frame (read_entry p t i)) = tidy leaf p d (entry_frame (read_entry p t i)) \<and>
      some_entry p' (entry_frame (read_entry p t i)) = some_entry p (entry_frame (read_entry p t i))"
    if "i < 512" "is_table (read_entry p t i)" for i
  proof -
    have sub: "table_frames no_leaf p d (entry_frame (read_entry p t i)) \<subseteq> S"
      using child_frames [OF that(2,1)] Suc.prems(2) by blast
    then have "entry_frame (read_entry p t i) \<in> S" by (simp add: table_frames_def)
    then have "some_entry p' (entry_frame (read_entry p t i)) = some_entry p (entry_frame (read_entry p t i))"
      using agree_read_entry [OF Suc.prems(1)] by (auto simp: some_entry_def)
    with Suc.IH [OF Suc.prems(1) sub] show ?thesis by simp
  qed
  then show ?case using table_frames_keep(2) [OF Suc.prems] e by auto
qed

lemma leaf_at_keep:
  "agree p p' S \<Longrightarrow> table_frames no_leaf p d t \<subseteq> S \<Longrightarrow> frame_aligned t \<Longrightarrow> leaf_at p' va d t = leaf_at p va d t"
proof (induction d arbitrary: t)
  case 0
  then show ?case
    using agree_read_entry [of p p' S t] table_index_less [of va 3] by (simp add: table_frames_def)
next
  case (Suc d)
  let ?i = "table_index va (2 - d)"
  have i: "?i < 512" by (rule table_index_less)
  have "t \<in> S" using Suc.prems(2) by (simp add: table_frames_def)
  then have e: "read_entry p' t ?i = read_entry p t ?i"
    using agree_read_entry [OF Suc.prems(1) _ Suc.prems(3) i] by simp
  have "leaf_at p' va d (entry_frame (read_entry p t ?i)) = leaf_at p va d (entry_frame (read_entry p t ?i))"
    if "is_table (read_entry p t ?i)"
  proof -
    have "table_frames no_leaf p d (entry_frame (read_entry p t ?i)) \<subseteq> S"
      using child_frames [OF that i, of no_leaf d] Suc.prems(2) by blast
    then show ?thesis by (intro Suc.IH [OF Suc.prems(1)]) simp_all
  qed
  then show ?case by (simp add: e Let_def)
qed

text \<open>The same when all its frames, the mapped ones included, keep their contents.\<close>

lemma under_agree:
  "agree p p' S \<Longrightarrow> frames_below leaf p d e \<subseteq> S \<Longrightarrow> frames_below leaf p' d e = frames_below leaf p d e"
  by (erule under_keep, erule order_trans [OF below_no_leaf])

lemma table_frames_agree:
  assumes "agree p p' S" "table_frames leaf p d t \<subseteq> S" "frame_aligned t"
  shows "table_frames leaf p' d t = table_frames leaf p d t" "node_apart leaf p' d t = node_apart leaf p d t"
  using table_frames_keep [OF assms(1) order_trans [OF table_frames_no_leaf assms(2)] assms(3)] by blast+

lemma tidy_agree:
  "agree p p' S \<Longrightarrow> table_frames leaf p d t \<subseteq> S \<Longrightarrow> frame_aligned t \<Longrightarrow> tidy leaf p' d t = tidy leaf p d t"
  by (rule tidy_keep) (auto dest: order_trans [OF table_frames_no_leaf])

lemma leaf_at_agree:
  "agree p p' S \<Longrightarrow> table_frames leaf p d t \<subseteq> S \<Longrightarrow> frame_aligned t \<Longrightarrow> leaf_at p' va d t = leaf_at p va d t"
  by (rule leaf_at_keep) (auto dest: order_trans [OF table_frames_no_leaf])

section \<open>Replacing one entry\<close>

definition others :: "leaf_set \<Rightarrow> phys \<Rightarrow> nat \<Rightarrow> frame \<Rightarrow> nat \<Rightarrow> frame set" where
  "others leaf p d t i = insert t (\<Union>j \<in> {..<512} - {i}. frames_below leaf p d (read_entry p t j))"

lemma table_frames_others:
  "i < 512 \<Longrightarrow> table_frames leaf p d t = others leaf p d t i \<union> frames_below leaf p d (read_entry p t i)"
  by (auto simp: table_frames_def others_def)

lemma under_others: "j < 512 \<Longrightarrow> j \<noteq> i \<Longrightarrow> frames_below leaf p d (read_entry p t j) \<subseteq> others leaf p d t i"
  by (auto simp: others_def)

lemma node_apart_others:
  "node_apart leaf p d t \<Longrightarrow> i < 512 \<Longrightarrow> others leaf p d t i \<inter> frames_below leaf p d (read_entry p t i) = {}"
  by (auto simp: node_apart_def others_def)

lemma tidy_node: "tidy leaf p d t \<Longrightarrow> node_apart leaf p d t"
  by (cases d) auto

text \<open>From \<open>p\<close> to \<open>p'\<close> only what is below entry \<open>i\<close> of table \<open>t\<close> changes.\<close>

definition slot_change :: "leaf_set \<Rightarrow> phys \<Rightarrow> phys \<Rightarrow> nat \<Rightarrow> frame \<Rightarrow> nat \<Rightarrow> bool" where
  "slot_change leaf p p' d t i \<longleftrightarrow> agree p p' (others leaf p d t i - {t}) \<and>
     (\<forall>j < 512. j \<noteq> i \<longrightarrow> read_entry p' t j = read_entry p t j)"

lemma slot_change_under:
  assumes "slot_change leaf p p' d t i" "node_apart leaf p d t" "j < 512" "j \<noteq> i"
  shows "frames_below leaf p' d (read_entry p' t j) = frames_below leaf p d (read_entry p t j)"
proof -
  have "t \<notin> frames_below leaf p d (read_entry p t j)" using assms(2,3) by (simp add: node_apart_def)
  then have "frames_below leaf p d (read_entry p t j) \<subseteq> others leaf p d t i - {t}"
    using under_others [OF assms(3,4), of leaf p d t] by blast
  moreover have "agree p p' (others leaf p d t i - {t})" using assms(1) by (simp add: slot_change_def)
  ultimately have "frames_below leaf p' d (read_entry p t j) = frames_below leaf p d (read_entry p t j)"
    by (intro under_agree)
  then show ?thesis using assms(1,3,4) by (simp add: slot_change_def)
qed

lemma slot_change_frames:
  assumes "slot_change leaf p p' d t i" "node_apart leaf p d t" "i < 512"
    and "frames_below leaf p' d (read_entry p' t i) \<inter> others leaf p d t i = {}"
  shows "table_frames leaf p' d t = others leaf p d t i \<union> frames_below leaf p' d (read_entry p' t i)"
    "node_apart leaf p' d t"
proof -
  note same = slot_change_under [OF assms(1,2)]
  have o: "others leaf p' d t i = others leaf p d t i"
    using same by (auto simp: others_def)
  then show "table_frames leaf p' d t = others leaf p d t i \<union> frames_below leaf p' d (read_entry p' t i)"
    using table_frames_others [OF assms(3), of leaf p'] by simp
  show "node_apart leaf p' d t"
    unfolding node_apart_def
  proof (intro conjI allI impI)
    fix j assume j: "j < (512 :: nat)"
    show "t \<notin> frames_below leaf p' d (read_entry p' t j)"
      using assms(2,4) same [OF j] j by (cases "j = i") (auto simp: node_apart_def others_def)
    fix k assume k: "k < (512 :: nat)" "j \<noteq> k"
    then consider "j \<noteq> i" "k \<noteq> i" | "j = i" "k \<noteq> i" | "k = i" "j \<noteq> i" by blast
    then show "frames_below leaf p' d (read_entry p' t j) \<inter> frames_below leaf p' d (read_entry p' t k) = {}"
    proof cases
      case 1
      then show ?thesis using same j k assms(2) by (simp add: node_apart_def)
    next
      case 2
      then show ?thesis using same [OF k(1)] under_others [OF k(1) 2(2), of leaf p d t] assms(4) by auto
    next
      case 3
      then show ?thesis using same [OF j] under_others [OF j 3(2), of leaf p d t] assms(4) by auto
    qed
  qed
qed

lemma slot_change_child:
  assumes "slot_change leaf p p' (Suc d) t i" "node_apart leaf p (Suc d) t" "j < 512" "j \<noteq> i"
    "is_table (read_entry p t j)"
  shows "tidy leaf p' d (entry_frame (read_entry p t j)) = tidy leaf p d (entry_frame (read_entry p t j))"
    "some_entry p' (entry_frame (read_entry p t j)) = some_entry p (entry_frame (read_entry p t j))"
    "leaf_at p' va d (entry_frame (read_entry p t j)) = leaf_at p va d (entry_frame (read_entry p t j))"
proof -
  let ?S = "others leaf p (Suc d) t i - {t}" and ?c = "entry_frame (read_entry p t j)"
  have a: "agree p p' ?S" using assms(1) by (simp add: slot_change_def)
  have "t \<notin> frames_below leaf p (Suc d) (read_entry p t j)" using assms(2,3) by (simp add: node_apart_def)
  then have sub: "table_frames leaf p d ?c \<subseteq> ?S"
    using under_others [OF assms(3,4), of leaf p "Suc d" t] unfolding under_table [OF assms(5)] by blast
  then show "tidy leaf p' d ?c = tidy leaf p d ?c" "leaf_at p' va d ?c = leaf_at p va d ?c"
    using tidy_agree [OF a sub] leaf_at_agree [OF a sub] by simp_all
  have "?c \<in> ?S" using sub by (simp add: table_frames_def)
  then show "some_entry p' ?c = some_entry p ?c"
    using agree_read_entry [OF a] by (auto simp: some_entry_def)
qed

lemma slot_change_tidy:
  assumes "slot_change leaf p p' (Suc d) t i" "tidy leaf p (Suc d) t" "i < 512"
    and "frames_below leaf p' (Suc d) (read_entry p' t i) \<inter> others leaf p (Suc d) t i = {}"
    and "is_table (read_entry p' t i) \<Longrightarrow> tidy leaf p' d (entry_frame (read_entry p' t i)) \<and>
      (d = 0 \<longrightarrow> some_entry p' (entry_frame (read_entry p' t i)))"
  shows "tidy leaf p' (Suc d) t"
proof -
  note node = tidy_node [OF assms(2)]
  have "tidy leaf p' d (entry_frame (read_entry p' t j)) \<and>
      (d = 0 \<longrightarrow> some_entry p' (entry_frame (read_entry p' t j)))"
    if j: "j < 512" "is_table (read_entry p' t j)" for j
  proof (cases "j = i")
    case True
    then show ?thesis using assms(5) j by simp
  next
    case False
    then have e: "read_entry p' t j = read_entry p t j" using assms(1) j by (simp add: slot_change_def)
    then show ?thesis
      using slot_change_child [OF assms(1) node j(1) False] j assms(2) by simp
  qed
  then show ?thesis using slot_change_frames(2) [OF assms(1) node assms(3,4)] by simp
qed

lemma slot_change_leaf_at:
  assumes "slot_change leaf p p' d t i" "node_apart leaf p d t" "table_index va (3 - d) \<noteq> i"
  shows "leaf_at p' va d t = leaf_at p va d t"
proof -
  let ?j = "table_index va (3 - d)"
  have j: "?j < 512" by (rule table_index_less)
  have e: "read_entry p' t ?j = read_entry p t ?j"
    using assms(1,3) j by (simp add: slot_change_def)
  show ?thesis
  proof (cases d)
    case 0
    then show ?thesis using e by simp
  next
    case (Suc d')
    then show ?thesis
      using e assms slot_change_child(3) [of leaf p p' d' t i ?j va] j
      by (simp add: Let_def)
  qed
qed

section \<open>Growing the tree\<close>

text \<open>
  The way to the entry for \<open>va\<close> at depth \<open>dd\<close> is open: every entry above it is a table or
  nothing, and the entry itself holds nothing that would be lost.
\<close>

primrec open_way :: "leaf_set \<Rightarrow> phys \<Rightarrow> u64 \<Rightarrow> nat \<Rightarrow> nat \<Rightarrow> frame \<Rightarrow> bool" where
  "open_way leaf p va dd 0 t \<longleftrightarrow> frames_below leaf p 0 (read_entry p t (table_index va 3)) = {}"
| "open_way leaf p va dd (Suc d) t \<longleftrightarrow> (let e = read_entry p t (table_index va (2 - d)) in
     if Suc d \<le> dd then frames_below leaf p (Suc d) e = {}
     else \<not> valid e \<or> is_table e \<and> open_way leaf p va dd d (entry_frame e))"

text \<open>The addresses that share the entry: same indexes from the top table down to depth \<open>dd\<close>.\<close>

definition same_run :: "nat \<Rightarrow> nat \<Rightarrow> u64 \<Rightarrow> u64 \<Rightarrow> bool" where
  "same_run D dd va va' \<longleftrightarrow> (\<forall>l. 3 - D \<le> l \<and> l \<le> 3 - dd \<longrightarrow> table_index va' l = table_index va l)"

definition grown ::
  "leaf_set \<Rightarrow> phys \<Rightarrow> phys \<Rightarrow> u64 \<Rightarrow> nat \<Rightarrow> nat \<Rightarrow> frame \<Rightarrow> frame set \<Rightarrow> u64 \<Rightarrow> bool" where
  "grown leaf p p' va dd D t N v \<longleftrightarrow>
     agree p p' (- (table_frames leaf p D t \<union> N)) \<and>
     table_frames leaf p' D t = table_frames leaf p D t \<union> N \<union> leaf dd v \<and> tidy leaf p' D t \<and>
     (\<forall>va'. leaf_at p' va' D t = (if same_run D dd va va' then Some (dd, v) else leaf_at p va' D t))"

lemma same_run_Suc:
  assumes "dd \<le> d" "d < 3"
  shows "same_run (Suc d) dd va va' \<longleftrightarrow> table_index va' (2 - d) = table_index va (2 - d) \<and> same_run d dd va va'"
proof -
  have "3 - Suc d \<le> l \<and> l \<le> 3 - dd \<longleftrightarrow> l = 2 - d \<or> 3 - d \<le> l \<and> l \<le> 3 - dd" for l
    using assms by linarith
  then show ?thesis unfolding same_run_def by (simp only:) auto
qed

lemma tidy_aligned: "frames_wf (mframes m) \<Longrightarrow> t \<in> held m \<Longrightarrow> frame_aligned t"
  by (rule ram_frame_aligned) (auto simp: held_def)

text \<open>Writing a leaf at the end of the way.\<close>

lemma grown_here:
  assumes "frame_aligned t" "tidy leaf p D t" "frames_below leaf p D (read_entry p t (table_index va (3 - D))) = {}"
    and "valid v" "0 < D \<longrightarrow> \<not> is_table v" "leaf D v \<inter> table_frames leaf p D t = {}" "D \<le> 3"
  shows "grown leaf p (write_entry p t (table_index va (3 - D)) v) va D D t {} v"
proof -
  let ?i = "table_index va (3 - D)"
  let ?p = "write_entry p t (table_index va (3 - D)) v"
  have i: "?i < 512" by (rule table_index_less)
  have e: "read_entry ?p t j = (if j = ?i then v else read_entry p t j)" if "j < 512" for j
    using read_entry_write_entry [OF assms(1,1) i that] by simp
  have ag: "agree p ?p (- {t})" by (rule agree_write_entry [OF assms(1) i])
  have sc: "slot_change leaf p ?p D t ?i"
    using agree_mono [OF ag] e by (auto simp: slot_change_def)
  have new: "frames_below leaf ?p D (read_entry ?p t ?i) = leaf D v"
    using assms(4,5) e [OF i] by (cases D) auto
  have old: "table_frames leaf p D t = others leaf p D t ?i"
    using table_frames_others [OF i] assms(3) by simp
  have disj: "frames_below leaf ?p D (read_entry ?p t ?i) \<inter> others leaf p D t ?i = {}"
    using assms(6) new old by simp
  note frames = slot_change_frames [OF sc tidy_node [OF assms(2)] i disj]
  have "tidy leaf ?p D t"
  proof (cases D)
    case 0
    then show ?thesis using frames(2) by simp
  next
    case (Suc d)
    have "\<not> is_table (read_entry ?p t ?i)" using assms(5) e [OF i] Suc by simp
    then show ?thesis
      unfolding Suc using slot_change_tidy [OF sc [unfolded Suc] assms(2) [unfolded Suc] i [unfolded Suc] disj [unfolded Suc]] Suc by blast
  qed
  moreover have "leaf_at ?p va' D t = (if same_run D D va va' then Some (D, v) else leaf_at p va' D t)" for va'
  proof -
    have run: "same_run D D va va' \<longleftrightarrow> table_index va' (3 - D) = ?i"
      using assms(7) by (auto simp: same_run_def)
    show ?thesis
    proof (cases "table_index va' (3 - D) = ?i")
      case True
      then show ?thesis using e [OF i] assms(4,5) run by (cases D) (simp_all add: Let_def)
    next
      case False
      then show ?thesis using slot_change_leaf_at [OF sc tidy_node [OF assms(2)] False] run by simp
    qed
  qed
  moreover have "t \<in> table_frames leaf p D t" by (simp add: table_frames_def)
  ultimately show ?thesis
    using frames(1) new old agree_mono [OF ag, of "- table_frames leaf p D t"] by (simp add: grown_def)
qed

text \<open>One step down: what is grown below entry \<open>i\<close> is grown in the whole table.\<close>

lemma grown_above:
  assumes "frame_aligned t0" "tidy leaf p (Suc d) t0" "dd \<le> d" "d < 3"
    and ag: "agree p p1 (- insert t0 N1)" "\<forall>j < 512. j \<noteq> i \<longrightarrow> read_entry p1 t0 j = read_entry p t0 j"
    and e1: "is_table (read_entry p1 t0 i)" "entry_frame (read_entry p1 t0 i) = t1" and i: "i = table_index va (2 - d)"
    and sub: "table_frames leaf p1 d t1 = frames_below leaf p (Suc d) (read_entry p t0 i) \<union> N1"
    and fresh: "(N1 \<union> N2) \<inter> table_frames leaf p (Suc d) t0 = {}"
    and look: "\<forall>va'. table_index va' (2 - d) = i \<longrightarrow> leaf_at p1 va' d t1 = leaf_at p va' (Suc d) t0"
    and g: "grown leaf p1 p2 va dd d t1 N2 v"
    and L: "leaf dd v \<inter> (table_frames leaf p (Suc d) t0 \<union> N1 \<union> N2) = {}" and v: "valid v"
  shows "grown leaf p p2 va dd (Suc d) t0 (N1 \<union> N2) v"
proof -
  let ?U = "frames_below leaf p (Suc d) (read_entry p t0 i)" and ?O = "others leaf p (Suc d) t0 i"
  have i512: "i < 512" using i table_index_less by simp
  have all: "table_frames leaf p (Suc d) t0 = ?O \<union> ?U" by (rule table_frames_others [OF i512])
  have disj: "?O \<inter> ?U = {}" by (rule node_apart_others [OF tidy_node [OF assms(2)] i512])
  have t0: "t0 \<in> ?O" by (simp add: others_def)
  have g1: "agree p1 p2 (- (?U \<union> N1 \<union> N2))" "table_frames leaf p2 d t1 = ?U \<union> N1 \<union> N2 \<union> leaf dd v"
    "tidy leaf p2 d t1"
    "\<And>va'. leaf_at p2 va' d t1 = (if same_run d dd va va' then Some (dd, v) else leaf_at p1 va' d t1)"
    using g by (simp_all add: grown_def sub)
  have t0_out: "t0 \<in> - (?U \<union> N1 \<union> N2)" using t0 disj fresh all by blast
  have e2: "read_entry p2 t0 j = read_entry p1 t0 j" if "j < 512" for j
    using agree_read_entry [OF g1(1) t0_out assms(1) that] .
  have sc: "slot_change leaf p p2 (Suc d) t0 i"
  proof -
    have "?O - {t0} \<subseteq> - insert t0 N1 \<inter> - (?U \<union> N1 \<union> N2)" using disj fresh all by blast
    then have "agree p p2 (?O - {t0})" by (rule agree_trans [OF ag(1) g1(1)])
    then show ?thesis using e2 ag(2) by (simp add: slot_change_def)
  qed
  have new: "frames_below leaf p2 (Suc d) (read_entry p2 t0 i) = ?U \<union> N1 \<union> N2 \<union> leaf dd v"
    using e2 [OF i512] e1 g1(2) by (simp only: under_table)
  have new_disj: "frames_below leaf p2 (Suc d) (read_entry p2 t0 i) \<inter> ?O = {}"
    using new disj fresh L all by blast
  have some: "d = 0 \<longrightarrow> some_entry p2 t1"
  proof
    assume d: "d = 0"
    then have "leaf_at p2 va 0 t1 = Some (dd, v)" using g1(4) [of va] by (simp add: same_run_def)
    then have "valid (read_entry p2 t1 (table_index va 3))" by (simp add: Let_def split: if_splits)
    then show "some_entry p2 t1" using table_index_less unfolding some_entry_def by blast
  qed
  have "tidy leaf p2 (Suc d) t0"
    using slot_change_tidy [OF sc assms(2) i512 new_disj] e2 [OF i512] e1 g1(3) some by simp
  moreover have "table_frames leaf p2 (Suc d) t0 = table_frames leaf p (Suc d) t0 \<union> (N1 \<union> N2) \<union> leaf dd v"
    using slot_change_frames(1) [OF sc tidy_node [OF assms(2)] i512 new_disj] new all by auto
  moreover have "leaf_at p2 va' (Suc d) t0 =
      (if same_run (Suc d) dd va va' then Some (dd, v) else leaf_at p va' (Suc d) t0)" for va'
  proof (cases "table_index va' (2 - d) = i")
    case True
    then have "leaf_at p2 va' (Suc d) t0 = leaf_at p2 va' d t1"
      using e2 [OF i512] e1 by (simp add: Let_def is_table_def)
    then show ?thesis using g1(4) [of va'] look True i same_run_Suc [OF assms(3,4)] by simp
  next
    case False
    then have "leaf_at p2 va' (Suc d) t0 = leaf_at p va' (Suc d) t0"
      by (intro slot_change_leaf_at [OF sc tidy_node [OF assms(2)]]) simp
    then show ?thesis using False i same_run_Suc [OF assms(3,4)] by simp
  qed
  moreover have "agree p p2 (- (table_frames leaf p (Suc d) t0 \<union> (N1 \<union> N2)))"
    by (rule agree_trans [OF ag(1) g1(1)]) (use all t0 in blast)
  ultimately show ?thesis by (simp add: grown_def)
qed

lemma next_table_found:
  "valid (read_entry (mphys m) t i) \<Longrightarrow> is_table (read_entry (mphys m) t i) \<Longrightarrow>
     next_table m t i = Some (entry_frame (read_entry (mphys m) t i), m)"
  by (simp add: next_table_def is_table_def valid_def Let_def)

text \<open>A new table: zeroed, linked from entry \<open>i\<close>, taken from the free frames.\<close>

lemma next_table_new:
  assumes "frames_wf (mframes m)" "ram_addressable m" "t \<in> held m" "i < 512"
    and "\<not> valid (read_entry (mphys m) t i)" "idle_frames m \<noteq> {}"
  shows "\<exists>f m'. next_table m t i = Some (f, m') \<and> f \<in> idle_frames m \<and> idle_frames m' = idle_frames m - {f} \<and>
    held m' = insert f (held m) \<and> frames_wf (mframes m') \<and> same_ram (mframes m) (mframes m') \<and>
    agree (mphys m) (mphys m') (- {t, f}) \<and>
    (\<forall>j < 512. j \<noteq> i \<longrightarrow> read_entry (mphys m') t j = read_entry (mphys m) t j) \<and>
    is_table (read_entry (mphys m') t i) \<and> entry_frame (read_entry (mphys m') t i) = f \<and>
    (\<forall>j < 512. read_entry (mphys m') f j = 0)"
proof -
  note wf = assms(1)
  obtain f m1 where f: "alloc m = Some (Some f, m1)" "f \<in> idle_frames m"
    "idle_frames m1 = idle_frames m - {f}" "ram_frames m1 = ram_frames m"
    "frames_wf (mframes m1)" "same_ram (mframes m) (mframes m1)" "mphys m1 = zero_frames (mphys m) f 1"
    using alloc_table [OF wf assms(6)] by blast
  let ?v = "addr f OR VALID OR TABLE_OR_PAGE"
  let ?m = "m1\<lparr>mphys := write_entry (mphys m1) t i ?v\<rparr>"
  have ram: "f \<in> ram_frames m" using f(2) pool.idle_universe [OF wf] by blast
  have al: "frame_aligned f" "frame_aligned t"
    using ram_frame_aligned [OF wf ram] tidy_aligned [OF wf assms(3)] by simp_all
  have ne: "t \<noteq> f" using assms(3) f(2) by (auto simp: held_def)
  note entry = entry_frame_table [OF wf assms(2) ram]
  have rw: "read_entry (mphys ?m) s j = (if s = t \<and> j = i then ?v else if s = f then 0 else read_entry (mphys m) s j)"
    if "frame_aligned s" "j < 512" for s j
    using that al assms(4) by (auto simp: read_entry_write_entry f(7) read_entry_zero_frames [unfolded One_nat_def])
  have "next_table m t i = Some (f, ?m)"
    using assms(5) f(1) by (simp add: next_table_def valid_def Let_def)
  moreover have "held ?m = insert f (held m)"
    using f(2-4) ram by (auto simp: held_def idle_frames_def ram_frames_def)
  moreover have "agree (mphys m) (mphys ?m) (- {t, f})"
    using agree_trans [OF agree_zero_frames [OF al(1)] agree_write_entry [OF al(2) assms(4)]] f(7) by simp
  moreover have "is_table (read_entry (mphys ?m) t i)" "entry_frame (read_entry (mphys ?m) t i) = f"
    using rw [OF al(2) assms(4)] entry by (simp_all add: is_table_def valid_def)
  moreover have "idle_frames ?m = idle_frames m - {f}" using f(3) by (simp add: idle_frames_def)
  ultimately show ?thesis
    using f(2,5,6) rw al ne by (intro exI [of _ f] exI [of _ ?m]) simp
qed

lemma not_valid_0 [simp]: "\<not> valid 0" "\<not> is_table 0"
  by (simp_all add: valid_def is_table_def)

lemma below_not_valid: "\<not> valid e \<Longrightarrow> frames_below leaf p d e = {}"
  by (cases d) (simp_all add: is_table_def)

lemma blank_table:
  assumes "\<forall>j < 512. read_entry p f j = 0"
  shows "table_frames leaf p d f = {f}" "tidy leaf p d f" "open_way leaf p va dd d f" "leaf_at p va d f = None"
proof -
  have below: "frames_below leaf p d (read_entry p f j) = {}" if "j < 512" for j
    using assms that by (simp add: below_not_valid)
  then show "table_frames leaf p d f = {f}" by (simp add: table_frames_def)
  have "node_apart leaf p d f" using below by (simp add: node_apart_def)
  then show "tidy leaf p d f" using assms by (cases d) simp_all
  show "open_way leaf p va dd d f" "leaf_at p va d f = None"
    using assms table_index_less by (cases d; simp add: Let_def below_not_valid)+
qed

lemma grow:
  assumes "frames_wf (mframes m)" "ram_addressable m" "tidy leaf (mphys m) D t0"
    "table_frames leaf (mphys m) D t0 \<subseteq> held m" "open_way leaf (mphys m) va dd D t0"
    "dd \<le> D" "D \<le> 3" "D - dd \<le> card (idle_frames m)"
  shows "\<exists>t m' N. next_tables m t0 va [3 - D..<3 - dd] = Some (t, m') \<and> frames_wf (mframes m') \<and>
    same_ram (mframes m) (mframes m') \<and> N \<subseteq> idle_frames m \<and> idle_frames m' = idle_frames m - N \<and>
    card N \<le> D - dd \<and>
    (\<forall>v. valid v \<and> (0 < dd \<longrightarrow> \<not> is_table v) \<and>
         leaf dd v \<inter> (table_frames leaf (mphys m) D t0 \<union> N) = {} \<longrightarrow>
       grown leaf (mphys m) (write_entry (mphys m') t (table_index va (3 - dd)) v) va dd D t0 N v)"
  using assms
proof (induction "D - dd" arbitrary: D m t0)
  case 0
  then have D: "D = dd" by simp
  have "t0 \<in> held m" using 0(5) by (auto simp: table_frames_def)
  then have al: "frame_aligned t0" by (rule tidy_aligned [OF 0(2)])
  have "frames_below leaf (mphys m) D (read_entry (mphys m) t0 (table_index va (3 - D))) = {}"
    using 0(6) unfolding D by (cases dd) (simp_all add: Let_def)
  from grown_here [OF al 0(4) this] show ?case
    using 0(2,8) D by (intro exI [of _ t0] exI [of _ m] exI [of _ "{}"]) simp
next
  case (Suc k)
  then obtain d where D: "D = Suc d" "dd \<le> d" "k = d - dd" "d < 3" by (cases D) auto
  note wf = Suc.prems(1)
  let ?p = "mphys m" and ?i = "table_index va (2 - d)"
  let ?e = "read_entry ?p t0 ?i"
  have i: "?i < 512" by (rule table_index_less)
  have t0: "t0 \<in> held m" using Suc.prems(4) by (auto simp: table_frames_def)
  have al: "frame_aligned t0" by (rule tidy_aligned [OF wf t0])
  have below: "frames_below leaf ?p (Suc d) ?e \<subseteq> held m"
    using Suc.prems(4) i by (auto simp: table_frames_def D)
  have "\<exists>t1 m1 N1. next_table m t0 ?i = Some (t1, m1) \<and> frames_wf (mframes m1) \<and>
    same_ram (mframes m) (mframes m1) \<and> N1 \<subseteq> idle_frames m \<and> card N1 \<le> 1 \<and>
    idle_frames m1 = idle_frames m - N1 \<and> held m1 = held m \<union> N1 \<and>
    agree ?p (mphys m1) (- insert t0 N1) \<and>
    (\<forall>j < 512. j \<noteq> ?i \<longrightarrow> read_entry (mphys m1) t0 j = read_entry ?p t0 j) \<and>
    is_table (read_entry (mphys m1) t0 ?i) \<and> entry_frame (read_entry (mphys m1) t0 ?i) = t1 \<and>
    table_frames leaf (mphys m1) d t1 = frames_below leaf ?p (Suc d) ?e \<union> N1 \<and>
    tidy leaf (mphys m1) d t1 \<and> open_way leaf (mphys m1) va dd d t1 \<and>
    (\<forall>va'. table_index va' (2 - d) = ?i \<longrightarrow> leaf_at (mphys m1) va' d t1 = leaf_at ?p va' (Suc d) t0)"
  proof (cases "valid ?e")
    case True
    then have e: "is_table ?e" "open_way leaf ?p va dd d (entry_frame ?e)"
      using Suc.prems(5) D by (auto simp: Let_def)
    moreover have "tidy leaf ?p d (entry_frame ?e)" using Suc.prems(3) e(1) i by (simp add: D)
    ultimately show ?thesis
      using next_table_found [OF True] wf True
      by (intro exI [of _ "entry_frame ?e"] exI [of _ m] exI [of _ "{}"]) (simp add: under_table Let_def del: frames_below.simps)
  next
    case False
    have "idle_frames m \<noteq> {}" using Suc.prems(8) D by auto
    from next_table_new [OF wf Suc.prems(2) t0 i False this] obtain f m1 where f:
      "next_table m t0 ?i = Some (f, m1)" "f \<in> idle_frames m" "idle_frames m1 = idle_frames m - {f}"
      "held m1 = insert f (held m)" "frames_wf (mframes m1)" "same_ram (mframes m) (mframes m1)"
      "agree ?p (mphys m1) (- {t0, f})"
      "\<forall>j < 512. j \<noteq> ?i \<longrightarrow> read_entry (mphys m1) t0 j = read_entry ?p t0 j"
      "is_table (read_entry (mphys m1) t0 ?i)" "entry_frame (read_entry (mphys m1) t0 ?i) = f"
      "\<forall>j < 512. read_entry (mphys m1) f j = 0"
      by blast
    then show ?thesis
      using blank_table [OF f(11)] False below_not_valid [OF False]
      by (intro exI [of _ f] exI [of _ m1] exI [of _ "{f}"]) (simp add: Let_def)
  qed
  then obtain t1 m1 N1 where s: "next_table m t0 ?i = Some (t1, m1)" "frames_wf (mframes m1)"
    "same_ram (mframes m) (mframes m1)" "N1 \<subseteq> idle_frames m" "card N1 \<le> 1"
    "idle_frames m1 = idle_frames m - N1" "held m1 = held m \<union> N1" "agree ?p (mphys m1) (- insert t0 N1)"
    "\<forall>j < 512. j \<noteq> ?i \<longrightarrow> read_entry (mphys m1) t0 j = read_entry ?p t0 j"
    "is_table (read_entry (mphys m1) t0 ?i)" "entry_frame (read_entry (mphys m1) t0 ?i) = t1"
    "table_frames leaf (mphys m1) d t1 = frames_below leaf ?p (Suc d) ?e \<union> N1"
    "tidy leaf (mphys m1) d t1" "open_way leaf (mphys m1) va dd d t1"
    "\<forall>va'. table_index va' (2 - d) = ?i \<longrightarrow> leaf_at (mphys m1) va' d t1 = leaf_at ?p va' (Suc d) t0"
    by blast
  have fin: "finite (idle_frames m)" by (rule pool.finite_idle [OF wf])
  have addressable: "ram_addressable m1"
    using Suc.prems(2) same_ramD [OF s(3)] by (simp add: ram_addressable_def)
  have room: "d - dd \<le> card (idle_frames m1)"
    using Suc.prems(8) s(4-6) fin D by (simp add: card_Diff_subset finite_subset)
  have "table_frames leaf (mphys m1) d t1 \<subseteq> held m1" unfolding s(7,12) using below by blast
  from Suc.hyps(1) [OF D(3) s(2) addressable s(13) this s(14) D(2) _ room] obtain t m' N2 where t:
    "next_tables m1 t1 va [3 - d..<3 - dd] = Some (t, m')" "frames_wf (mframes m')"
    "same_ram (mframes m1) (mframes m')" "N2 \<subseteq> idle_frames m1" "idle_frames m' = idle_frames m1 - N2"
    "card N2 \<le> d - dd"
    "\<And>v. valid v \<and> (0 < dd \<longrightarrow> \<not> is_table v) \<and> leaf dd v \<inter> (table_frames leaf (mphys m1) d t1 \<union> N2) = {} \<Longrightarrow>
       grown leaf (mphys m1) (write_entry (mphys m') t (table_index va (3 - dd)) v) va dd d t1 N2 v"
    using D(4) by auto
  have levels: "[3 - D..<3 - dd] = (2 - d) # [3 - d..<3 - dd]"
  proof -
    have "3 - D < 3 - dd" "Suc (3 - D) = 3 - d" "3 - D = 2 - d" using D by linarith+
    then show ?thesis using upt_conv_Cons [of "3 - D" "3 - dd"] by simp
  qed
  have "next_tables m t0 va [3 - D..<3 - dd] = Some (t, m')"
    unfolding levels using s(1) t(1) by simp
  moreover have "card (N1 \<union> N2) \<le> D - dd" using card_Un_le [of N1 N2] s(5) t(6) D by simp
  moreover have "grown leaf ?p (write_entry (mphys m') t (table_index va (3 - dd)) v) va dd D t0 (N1 \<union> N2) v"
    if v: "valid v" "0 < dd \<longrightarrow> \<not> is_table v" "leaf dd v \<inter> (table_frames leaf ?p D t0 \<union> (N1 \<union> N2)) = {}" for v
  proof -
    have sub: "frames_below leaf ?p (Suc d) ?e \<subseteq> table_frames leaf ?p D t0"
      using i by (auto simp: table_frames_def D)
    have "(N1 \<union> N2) \<inter> table_frames leaf ?p (Suc d) t0 = {}"
      using Suc.prems(4) s(4,6) t(4) by (auto simp: held_def D)
    moreover have "grown leaf (mphys m1) (write_entry (mphys m') t (table_index va (3 - dd)) v) va dd d t1 N2 v"
      using v s(12) sub by (intro t(7)) blast
    moreover have "leaf dd v \<inter> (table_frames leaf ?p (Suc d) t0 \<union> N1 \<union> N2) = {}" using v(3) D by blast
    ultimately show ?thesis
      using grown_above [OF al Suc.prems(3) [unfolded D(1)] D(2,4) s(8,9,10,11) refl s(12) _ s(15)] v(1) D(1)
      by blast
  qed
  ultimately show ?case
    using s(4,6) t(2,4,5) same_ram_trans [OF s(3) t(3)]
    by (intro exI [of _ t] exI [of _ m'] exI [of _ "N1 \<union> N2"]) blast
qed

section \<open>Addresses as numbers\<close>

text \<open>A walk uses bits 12 to 47, so an address counts as a number below \<open>2 ^ 48\<close>.\<close>

definition low48 :: "u64 \<Rightarrow> nat" where
  "low48 va = unat va mod 2 ^ 48"

lemma table_index_div: "table_index va l = unat va div 2 ^ (39 - 9 * l) mod 512"
proof -
  have m: "(0x1ff :: u64) = mask 9" by (simp add: mask_eq_exp_minus_1)
  have "unat va mod 2 ^ 64 = unat va" using unsigned_less [of va, where 'a = nat] by simp
  then show ?thesis
    by (simp add: table_index_def m unsigned_take_bit_eq take_bit_eq_mask [symmetric] take_bit_nat_def
        unsigned_drop_bit_eq drop_bit_nat_def)
qed

lemma mod_div_mod: "x mod (2 ^ (a + 9 + b)) div 2 ^ a mod 512 = (x :: nat) div 2 ^ a mod 512"
proof -
  have "x mod (2 ^ a * (2 ^ 9 * 2 ^ b)) div 2 ^ a = x div 2 ^ a mod (2 ^ 9 * 2 ^ b)"
    by (simp add: mod_mult2_eq [of _ "2 ^ a"])
  then show ?thesis by (simp add: power_add mult.assoc mod_mod_cancel)
qed

lemma table_index_low48:
  "table_index va 0 = low48 va div 2 ^ 39 mod 512" "table_index va 1 = low48 va div 2 ^ 30 mod 512"
  "table_index va 2 = low48 va div 2 ^ 21 mod 512" "table_index va 3 = low48 va div 2 ^ 12 mod 512"
proof -
  have *: "table_index va l = low48 va div 2 ^ k mod 512" if "39 - 9 * l = k" "k + 9 + b = 48" for l k b
    using mod_div_mod [of "unat va" k b] that by (simp only: table_index_div low48_def)
  show "table_index va 0 = low48 va div 2 ^ 39 mod 512" "table_index va 1 = low48 va div 2 ^ 30 mod 512"
    "table_index va 2 = low48 va div 2 ^ 21 mod 512" "table_index va 3 = low48 va div 2 ^ 12 mod 512"
    by ((rule * [of 0 39 0]; simp), (rule * [of 1 30 9]; simp), (rule * [of 2 21 18]; simp), (rule * [of 3 12 27]; simp))
qed

lemma low48_less: "low48 va < 2 ^ 48"
  by (simp add: low48_def)

lemma low48_of_nat [simp]: "a < 2 ^ 48 \<Longrightarrow> low48 (of_nat a) = a"
  by (simp add: low48_def unat_of_nat)

text \<open>The indexes of an address are the digits of its number.\<close>

lemma digits:
  fixes x y :: nat
  assumes "x < 2 ^ 48" "y < 2 ^ 48" "x div 2 ^ 39 mod 512 = y div 2 ^ 39 mod 512"
    "x div 2 ^ 30 mod 512 = y div 2 ^ 30 mod 512" "x div 2 ^ 21 mod 512 = y div 2 ^ 21 mod 512"
  shows "x div 2 ^ 21 = y div 2 ^ 21"
proof -
  have split: "z div 2 ^ 21 = z div 2 ^ 39 * 2 ^ 18 + z div 2 ^ 30 mod 512 * 2 ^ 9 + z div 2 ^ 21 mod 512"
    for z :: nat
  proof -
    define w where "w = z div 2 ^ 21"
    have "z div 2 ^ 30 = w div 512" "z div 2 ^ 39 = w div 512 div 512"
      by (simp_all add: w_def div_mult2_eq [symmetric])
    then show ?thesis
      using div_mult_mod_eq [of w 512] div_mult_mod_eq [of "w div 512" 512]
      unfolding w_def [symmetric] by (simp only: power_numeral pow.simps sqr.simps semiring_norm)
  qed
  have "z div 2 ^ 39 mod 512 = z div 2 ^ 39" if "z < 2 ^ 48" for z :: nat
  proof -
    have "z div 2 ^ 39 < 512" using that by (simp add: less_mult_imp_div_less)
    then show ?thesis by simp
  qed
  then have "x div 2 ^ 39 = y div 2 ^ 39" using assms(1-3) by metis
  then have "x div 2 ^ 21 = y div 2 ^ 39 * 2 ^ 18 + y div 2 ^ 30 mod 512 * 2 ^ 9 + y div 2 ^ 21 mod 512" 
    using assms(4,5) by (intro trans [OF split [of x]]) (simp only:)
  also have "\<dots> = y div 2 ^ 21" by (rule split [symmetric])
  finally show ?thesis .
qed

lemma same_run_block: "same_run 3 1 va va' \<longleftrightarrow> low48 va' div 2 ^ 21 = low48 va div 2 ^ 21"
proof
  assume "same_run 3 1 va va'"
  then have "table_index va' 0 = table_index va 0" "table_index va' 1 = table_index va 1"
    "table_index va' 2 = table_index va 2"
    by (simp_all add: same_run_def)
  then show "low48 va' div 2 ^ 21 = low48 va div 2 ^ 21"
    unfolding table_index_low48 by (intro digits low48_less)
next
  assume e: "low48 va' div 2 ^ 21 = low48 va div 2 ^ 21"
  have "z div 2 ^ 30 = z div 2 ^ 21 div 512" "z div 2 ^ 39 = z div 2 ^ 21 div 2 ^ 18" for z :: nat
    by (simp_all add: div_mult2_eq [symmetric])
  then have "table_index va' 0 = table_index va 0" "table_index va' 1 = table_index va 1"
    "table_index va' 2 = table_index va 2"
    unfolding table_index_low48 using e by simp_all
  moreover have "l = 0 \<or> l = 1 \<or> l = 2" if "l \<le> 2" for l :: nat using that by auto
  ultimately show "same_run 3 1 va va'" by (auto simp: same_run_def)
qed

lemma same_run_page: "same_run 3 0 va va' \<longleftrightarrow> low48 va' div 4096 = low48 va div 4096"
proof -
  have "same_run 3 0 va va' \<longleftrightarrow> same_run 3 1 va va' \<and> table_index va' 3 = table_index va 3"
  proof -
    have "l \<le> 3 \<longleftrightarrow> l \<le> 2 \<or> l = 3" for l :: nat by auto
    then show ?thesis by (auto simp: same_run_def)
  qed
  moreover have "x div 4096 = y div 4096 \<longleftrightarrow> x div 2 ^ 21 = y div 2 ^ 21 \<and> x div 2 ^ 12 mod 512 = y div 2 ^ 12 mod 512"
    for x y :: nat
  proof -
    have "z div 2 ^ 21 = z div 4096 div 512" for z :: nat by (simp add: div_mult2_eq [symmetric])
    then show ?thesis by (auto simp del: div_mult2_eq) (metis div_mult_mod_eq)
  qed
  ultimately show ?thesis by (simp only: same_run_block table_index_low48)
qed

section \<open>Mapping\<close>

definition tree_ok :: "leaf_set \<Rightarrow> mach \<Rightarrow> frame \<Rightarrow> bool" where
  "tree_ok leaf m root \<longleftrightarrow> frames_wf (mframes m) \<and> ram_addressable m \<and> tidy leaf (mphys m) 3 root \<and>
     table_frames leaf (mphys m) 3 root \<subseteq> held m"

text \<open>What mapping a leaf \<open>v\<close> at depth \<open>dd\<close> does, with \<open>N\<close> the new tables.\<close>

definition mapped :: "leaf_set \<Rightarrow> mach \<Rightarrow> mach \<Rightarrow> frame \<Rightarrow> u64 \<Rightarrow> nat \<Rightarrow> u64 \<Rightarrow> frame set \<Rightarrow> bool" where
  "mapped leaf m m' root va dd v N \<longleftrightarrow>
     N \<subseteq> idle_frames m \<and> card N \<le> 3 \<and> idle_frames m' = idle_frames m - N \<and> held m' = held m \<union> N \<and>
     frames_wf (mframes m') \<and> same_ram (mframes m) (mframes m') \<and>
     grown leaf (mphys m) (mphys m') va dd 3 root N v"

lemma held_after:
  assumes "frames_wf (mframes m)" "same_ram (mframes m) (mframes m')" "N \<subseteq> idle_frames m"
    "idle_frames m' = idle_frames m - N"
  shows "held m' = held m \<union> N"
proof -
  have "ram_frames m' = ram_frames m" using same_ramD [OF assms(2)] by (simp add: ram_frames_def)
  moreover have "N \<subseteq> ram_frames m" using assms(3) pool.idle_universe [OF assms(1)] by blast
  ultimately show ?thesis using assms(3,4) by (auto simp: held_def)
qed

lemma next_tables_mapped:
  assumes "tree_ok leaf m root" "open_way leaf (mphys m) va dd 3 root" "3 \<le> card (idle_frames m)" "dd \<le> 1"
    "valid v" "0 < dd \<longrightarrow> \<not> is_table v" "leaf dd v \<inter> (table_frames leaf (mphys m) 3 root \<union> idle_frames m) = {}"
  shows "\<exists>t m1 N. next_tables m root va [0..<3 - dd] = Some (t, m1) \<and>
    mapped leaf m (m1\<lparr>mphys := write_entry (mphys m1) t (table_index va (3 - dd)) v\<rparr>) root va dd v N"
proof -
  have ok: "frames_wf (mframes m)" "ram_addressable m" "tidy leaf (mphys m) 3 root"
    "table_frames leaf (mphys m) 3 root \<subseteq> held m"
    using assms(1) by (simp_all add: tree_ok_def)
  have "dd \<le> 3" "3 - dd \<le> card (idle_frames m)" using assms(3,4) by simp_all
  from grow [OF ok assms(2) this(1) le_refl this(2)]
  obtain t m1 N where t: "next_tables m root va [0..<3 - dd] = Some (t, m1)" "frames_wf (mframes m1)"
    "same_ram (mframes m) (mframes m1)" "N \<subseteq> idle_frames m" "idle_frames m1 = idle_frames m - N" "card N \<le> 3 - dd"
    "\<And>v. valid v \<and> (0 < dd \<longrightarrow> \<not> is_table v) \<and> leaf dd v \<inter> (table_frames leaf (mphys m) 3 root \<union> N) = {} \<Longrightarrow>
       grown leaf (mphys m) (write_entry (mphys m1) t (table_index va (3 - dd)) v) va dd 3 root N v"
    unfolding diff_self_eq_0 by blast
  let ?m = "m1\<lparr>mphys := write_entry (mphys m1) t (table_index va (3 - dd)) v\<rparr>"
  have "grown leaf (mphys m) (mphys ?m) va dd 3 root N v"
    using t(4,7) assms(5-7) by (simp, blast)
  moreover have i: "idle_frames ?m = idle_frames m - N" using t(5) by (simp add: idle_frames_def)
  moreover have "held ?m = held m \<union> N" using held_after [OF ok(1) _ t(4) i] t(3) by simp
  moreover have "card N \<le> 3" using t(6) by simp
  ultimately show ?thesis
    using t(1-4) by (intro exI [of _ t] exI [of _ m1] exI [of _ N]) (simp add: mapped_def)
qed

lemma valid_bit: "valid e \<longleftrightarrow> bit e 0"
proof -
  have "e AND VALID = (if bit e 0 then VALID else 0)"
    by (rule bit_word_eqI) (auto simp: bit_desc bit_and_iff intro!: gr0I)
  moreover have "VALID \<noteq> 0" by (simp add: VALID_def)
  ultimately show ?thesis by (simp add: valid_def)
qed

lemma table_bit: "e AND TABLE_OR_PAGE \<noteq> 0 \<longleftrightarrow> bit e 1"
proof -
  have "e AND TABLE_OR_PAGE = (if bit e 1 then TABLE_OR_PAGE else 0)"
    by (rule bit_word_eqI) (auto simp: bit_desc bit_and_iff)
  moreover have "TABLE_OR_PAGE \<noteq> 0" by (simp add: TABLE_OR_PAGE_def)
  ultimately show ?thesis by simp
qed

lemma valid_or [simp]: "valid (x OR y) \<longleftrightarrow> valid x \<or> valid y" "valid VALID"
  by (simp_all add: valid_bit bit_or_iff bit_desc)

lemma map_page_mapped:
  assumes "tree_ok leaf m root" "open_way leaf (mphys m) va 0 3 root" "3 \<le> card (idle_frames m)"
    and "v = pa OR attr_bits attrs OR VALID OR TABLE_OR_PAGE"
    and "leaf 0 v \<inter> (table_frames leaf (mphys m) 3 root \<union> idle_frames m) = {}"
  shows "\<exists>m' N. map_page m root va pa attrs = Some m' \<and> mapped leaf m m' root va 0 v N"
proof -
  have "[0..<3 - 0] = [0, 1, 2 :: nat]" by code_simp
  moreover have "valid v" unfolding assms(4) by simp
  ultimately show ?thesis
    using next_tables_mapped [OF assms(1-3), of v] assms(4,5)
    by (fastforce simp: map_page_def simp del: next_tables.simps)
qed

lemma map_block_mapped:
  assumes "tree_ok leaf m root" "open_way leaf (mphys m) va 1 3 root" "3 \<le> card (idle_frames m)"
    and "v = pa OR attr_bits attrs OR VALID" "\<not> is_table v"
    and "leaf 1 v \<inter> (table_frames leaf (mphys m) 3 root \<union> idle_frames m) = {}"
  shows "\<exists>m' N. map_block m root va pa attrs = Some m' \<and> mapped leaf m m' root va 1 v N"
proof -
  have "[0..<3 - 1] = [0, 1 :: nat]" by code_simp
  moreover have "valid v" unfolding assms(4) by simp
  ultimately show ?thesis
    using next_tables_mapped [OF assms(1-3), of v] assms(4-6)
    by (fastforce simp: map_block_def simp del: next_tables.simps)
qed

lemma mapped_tree_ok:
  assumes "mapped leaf m m' root va dd v N" "tree_ok leaf m root" "leaf dd v \<subseteq> held m"
  shows "tree_ok leaf m' root"
  using assms same_ramD [of "mframes m" "mframes m'"]
  by (auto simp: mapped_def tree_ok_def grown_def ram_addressable_def)

section \<open>Where the way is open\<close>

lemma unmapped_open: "leaf_at p va D t = None \<Longrightarrow> D \<le> 3 \<Longrightarrow> open_way leaf p va 0 D t"
proof (induction D arbitrary: t)
  case 0
  then show ?case by (simp add: Let_def split: if_splits)
next
  case (Suc d)
  then show ?case by (auto simp: Let_def split: if_splits)
qed

text \<open>
  A block can only go where nothing is mapped in its two megabytes: a table that were in the way
  would have an entry.
\<close>

lemma unmapped_block_open:
  assumes "tidy leaf p 3 root" "\<forall>va'. same_run 3 1 va va' \<longrightarrow> leaf_at p va' 3 root = None"
  shows "open_way leaf p va 1 3 root"
proof -
  let ?e0 = "read_entry p root (table_index va 0)"
  let ?e1 = "read_entry p (entry_frame ?e0) (table_index va 1)"
  let ?e2 = "read_entry p (entry_frame ?e1) (table_index va 2)"
  note walk = numeral_3_eq_3 numeral_2_eq_2 Let_def
  have ix: "table_index va l < 512" for l by (rule table_index_less)
  have none: "leaf_at p va 3 root = None" using assms(2) by (simp add: same_run_def)
  show ?thesis
  proof (cases "valid ?e0 \<and> valid ?e1")
    case False
    then show ?thesis using none by (auto simp: walk split: if_splits)
  next
    case True
    then have t: "is_table ?e0" "is_table ?e1" using none by (auto simp: walk split: if_splits)
    have "\<not> valid ?e2"
    proof
      assume "valid ?e2"
      then have e2: "is_table ?e2" using none True t by (auto simp: walk split: if_splits)
      then have "some_entry p (entry_frame ?e2)"
        using assms(1) t ix by (simp add: numeral_3_eq_3 numeral_2_eq_2)
      then obtain j where j: "j < 512" "valid (read_entry p (entry_frame ?e2) j)"
        by (auto simp: some_entry_def)
      let ?a = "low48 va div 2 ^ 21 * 2 ^ 21 + j * 4096"
      have a: "?a < 2 ^ 48" "?a div 2 ^ 21 = low48 va div 2 ^ 21" "?a div 2 ^ 12 mod 512 = j"
      proof -
        have "low48 va div 2 ^ 21 < 2 ^ 27" using low48_less [of va] by (simp add: less_mult_imp_div_less)
        then have "Suc (low48 va div 2 ^ 21) * 2 ^ 21 \<le> 2 ^ 27 * 2 ^ 21" by (intro mult_le_mono1 Suc_leI)
        then show "?a < 2 ^ 48" using j(1) by simp
        show "?a div 2 ^ 21 = low48 va div 2 ^ 21" using j(1) by simp
        have "?a div 2 ^ 12 = low48 va div 2 ^ 21 * 512 + j" by simp
        then show "?a div 2 ^ 12 mod 512 = j" using j(1) by simp
      qed
      have run: "same_run 3 1 va (of_nat ?a)"
        unfolding same_run_block using a(1,2) by (simp only: low48_of_nat)
      then have "leaf_at p (of_nat ?a) 3 root = None" using assms(2) by blast
      moreover have "table_index (of_nat ?a) 3 = j"
        unfolding table_index_low48 using a(1,3) by (simp only: low48_of_nat)
      moreover have "table_index (of_nat ?a) 0 = table_index va 0" "table_index (of_nat ?a) 1 = table_index va 1"
        "table_index (of_nat ?a) 2 = table_index va 2"
        using run by (simp_all add: same_run_def)
      ultimately show False using True t \<open>valid ?e2\<close> e2 j(2) by (simp add: walk split: if_splits)
    qed
    moreover from this have "\<not> is_table ?e2" by (simp add: is_table_def)
    ultimately show ?thesis using t by (simp add: walk below_not_valid)
  qed
qed

section \<open>The map that the tables stand for\<close>

text \<open>
  \<open>view p root\<close> maps a number below \<open>2 ^ 48\<close> to the physical address that the walk gives and
  the attributes of the leaf: what the hardware does with the address.
\<close>

definition view :: "phys \<Rightarrow> frame \<Rightarrow> nat \<Rightarrow> (u64 \<times> u64) option" where
  "view p root a = do {
     pa \<leftarrow> translate p root (of_nat a);
     e \<leftarrow> lookup p root (of_nat a);
     Some (pa, e AND NOT (ADDR_MASK OR VALID OR TABLE_OR_PAGE))
   }"

definition attr_ok :: "attributes \<Rightarrow> bool" where
  "attr_ok attrs \<longleftrightarrow> attr_bits attrs AND (ADDR_MASK OR VALID OR TABLE_OR_PAGE) = 0"

lemma attrs_ok [simp]:
  "attr_ok kernel_text" "attr_ok kernel_rodata" "attr_ok kernel_data" "attr_ok device"
  "attr_ok user_data" "attr_ok user_text"
  by (simp_all add: attr_ok_def attrs_of_def kernel_text_def kernel_rodata_def kernel_data_def device_def
      user_data_def user_text_def desc_consts)

lemma view_leaf_at:
  "view p root a = do {
     l \<leftarrow> leaf_at p (of_nat a) 3 root;
     pa \<leftarrow> leaf_pa (of_nat a) l;
     Some (pa, snd l AND NOT (ADDR_MASK OR VALID OR TABLE_OR_PAGE))
   }"
  by (cases "leaf_at p (of_nat a) 3 root") (simp_all add: view_def lookup_leaf_at translate_leaf_at)

lemma small_bits: "unat (x :: u64) < 2 ^ k \<Longrightarrow> k \<le> n \<Longrightarrow> \<not> bit x n"
proof -
  assume "unat x < 2 ^ k" "k \<le> n"
  then have "take_bit k (unat x) = unat x" by (simp add: take_bit_nat_eq_self)
  then have "unat (take_bit k x) = unat x" by (simp add: unsigned_take_bit_eq)
  then have "take_bit k x = x" by (simp only: word_unat_eq_iff)
  then have "bit x n \<longleftrightarrow> bit (take_bit k x) n" by simp
  with \<open>k \<le> n\<close> show "\<not> bit x n" by (simp add: bit_take_bit_iff)
qed

lemma aligned_bits: "take_bit k x = (0 :: u64) \<Longrightarrow> n < k \<Longrightarrow> \<not> bit x n"
  by (metis bit_0 bit_0_eq bit_take_bit_iff bot_apply bot_bool_def)

text \<open>The fields of a leaf, with \<open>kind\<close> the type bits.\<close>

lemma leaf_fields:
  assumes "take_bit 12 pa = 0" "unat pa < 2 ^ 48" "attr_ok attrs" "kind = VALID \<or> kind = VALID OR TABLE_OR_PAGE"
  shows "(pa OR attr_bits attrs OR kind) AND ADDR_MASK = pa"
    "(pa OR attr_bits attrs OR kind) AND NOT (ADDR_MASK OR VALID OR TABLE_OR_PAGE) = attr_bits attrs"
    "kind = VALID \<Longrightarrow> \<not> is_table (pa OR attr_bits attrs OR kind)"
proof -
  have attr: "\<not> bit (attr_bits attrs) n" if "12 \<le> n \<and> n < 48 \<or> n = 0 \<or> n = 1" for n
  proof -
    have "\<not> bit (attr_bits attrs AND (ADDR_MASK OR VALID OR TABLE_OR_PAGE)) n"
      using assms(3) by (simp add: attr_ok_def)
    with that show ?thesis by (auto simp: bit_and_iff bit_or_iff bit_desc bit_ADDR_MASK)
  qed
  have pa: "\<not> bit pa n" if "n < 12 \<or> 48 \<le> n" for n
    using that aligned_bits [OF assms(1)] small_bits [OF assms(2)] by blast
  have kind: "bit kind n \<Longrightarrow> n = 0 \<or> n = 1" "kind = VALID \<Longrightarrow> \<not> bit kind 1" for n
    using assms(4) by (auto simp: bit_or_iff bit_desc)
  show "(pa OR attr_bits attrs OR kind) AND ADDR_MASK = pa"
  proof (rule bit_word_eqI)
    fix n
    show "bit ((pa OR attr_bits attrs OR kind) AND ADDR_MASK) n \<longleftrightarrow> bit pa n"
      using attr [of n] pa [of n] kind(1) [of n]
      by (cases "12 \<le> n \<and> n < 48") (auto simp: bit_and_iff bit_or_iff bit_ADDR_MASK not_less not_le)
  qed
  show "(pa OR attr_bits attrs OR kind) AND NOT (ADDR_MASK OR VALID OR TABLE_OR_PAGE) = attr_bits attrs"
  proof (rule bit_word_eqI)
    fix n assume "n < LENGTH(64)"
    then show "bit ((pa OR attr_bits attrs OR kind) AND NOT (ADDR_MASK OR VALID OR TABLE_OR_PAGE)) n \<longleftrightarrow>
        bit (attr_bits attrs) n"
      using attr [of n] pa [of n] kind(1) [of n]
      by (cases "12 \<le> n \<and> n < 48"; cases "n = 0")
        (auto simp: bit_and_iff bit_or_iff bit_not_iff bit_ADDR_MASK bit_desc not_less not_le)
  qed
  show "\<not> is_table (pa OR attr_bits attrs OR kind)" if "kind = VALID"
    unfolding is_table_def table_bit using attr [of 1] pa [of 1] kind(2) [OF that] by (simp add: bit_or_iff)
qed

lemma or_low: "take_bit k pa = (0 :: u64) \<Longrightarrow> pa OR take_bit k x = pa + take_bit k x"
proof (rule disjunctive_add_eq_or [symmetric])
  assume "take_bit k pa = 0"
  then show "pa AND take_bit k x = 0"
    by (intro bit_word_eqI) (auto simp: bit_and_iff bit_take_bit_iff dest: aligned_bits)
qed

lemma leaf_pa_at:
  assumes "v AND ADDR_MASK = pa" "dd \<le> 1" "take_bit (12 + 9 * dd) pa = 0"
  shows "leaf_pa (of_nat a) (dd, v) = Some (pa + of_nat (a mod 2 ^ (12 + 9 * dd)))"
proof -
  have low: "pa OR ((of_nat a :: u64) AND mask (12 + 9 * dd)) = pa + of_nat (a mod 2 ^ (12 + 9 * dd))"
    using or_low [OF assms(3), of "of_nat a"] assms(2)
    by (simp add: take_bit_eq_mask [symmetric] take_bit_of_nat take_bit_nat_def)
  consider "dd = 0" | "dd = 1" using assms(2) by linarith
  then show ?thesis
  proof cases
    case 1
    then show ?thesis using low assms(1) by (simp add: leaf_pa_def block_masks(1))
  next
    case 2
    have "pa AND NOT (mask 21) = pa"
      using assms(3) 2 by (intro bit_word_eqI) (auto simp: bit_and_iff bit_not_iff bit_mask_iff dest: aligned_bits)
    then have "v AND ADDR_MASK AND NOT (mask 21) = pa" using assms(1) by (metis and.assoc)
    then show ?thesis
      using low 2 by (simp add: leaf_pa_def block_size_def block_masks(2))
  qed
qed

section \<open>Mapping a range\<close>

text \<open>Only the tables count here: what is mapped may be anything, devices included.\<close>

abbreviation tables_ok :: "mach \<Rightarrow> frame \<Rightarrow> bool" where "tables_ok \<equiv> tree_ok no_leaf"
abbreviation tables_of :: "phys \<Rightarrow> frame \<Rightarrow> frame set" where "tables_of p \<equiv> table_frames no_leaf p 3"

text \<open>
  From \<open>m\<close> to \<open>m'\<close> the \<open>n\<close> bytes at the number \<open>b\<close> have been mapped to \<open>pa\<close>, with at
  most \<open>k\<close> new tables, and nothing else has changed.
\<close>

definition range_mapped ::
  "mach \<Rightarrow> mach \<Rightarrow> frame \<Rightarrow> nat \<Rightarrow> nat \<Rightarrow> u64 \<Rightarrow> attributes \<Rightarrow> nat \<Rightarrow> bool" where
  "range_mapped m m' root b n pa attrs k \<longleftrightarrow>
     tables_ok m' root \<and> same_ram (mframes m) (mframes m') \<and> idle_frames m' \<subseteq> idle_frames m \<and>
     card (idle_frames m) \<le> card (idle_frames m') + k \<and>
     agree (mphys m) (mphys m') (- (tables_of (mphys m) root \<union> (idle_frames m - idle_frames m'))) \<and>
     tables_of (mphys m') root = tables_of (mphys m) root \<union> (idle_frames m - idle_frames m') \<and>
     (\<forall>a < 2 ^ 48.
        view (mphys m') root a =
          (if b \<le> a \<and> a < b + n then Some (pa + of_nat (a - b), attr_bits attrs) else view (mphys m) root a) \<and>
        (lookup (mphys m') root (of_nat a) = None \<longleftrightarrow>
          \<not> (b \<le> a \<and> a < b + n) \<and> lookup (mphys m) root (of_nat a) = None))"

lemma range_mapped_refl: "tables_ok m root \<Longrightarrow> range_mapped m m root b 0 pa attrs 0"
  by (auto simp: range_mapped_def)

lemma range_mapped_trans:
  assumes "range_mapped m m1 root b n pa attrs k" "range_mapped m1 m2 root (b + n) n' (pa + of_nat n) attrs k'"
  shows "range_mapped m m2 root b (n + n') pa attrs (k + k')"
proof -
  let ?new = "idle_frames m - idle_frames m1" and ?new' = "idle_frames m1 - idle_frames m2"
  have sub: "idle_frames m1 \<subseteq> idle_frames m" "idle_frames m2 \<subseteq> idle_frames m1"
    using assms by (simp_all add: range_mapped_def)
  then have new: "idle_frames m - idle_frames m2 = ?new \<union> ?new'" by blast
  have t: "tables_of (mphys m1) root = tables_of (mphys m) root \<union> ?new"
    "tables_of (mphys m2) root = tables_of (mphys m) root \<union> (idle_frames m - idle_frames m2)"
    using assms unfolding range_mapped_def new by auto
  have ag: "agree (mphys m) (mphys m2) (- (tables_of (mphys m) root \<union> (idle_frames m - idle_frames m2)))"
    by (rule agree_trans [of "mphys m" "mphys m1" "- (tables_of (mphys m) root \<union> ?new)"
          "mphys m2" "- (tables_of (mphys m1) root \<union> ?new')"])
      (use assms in \<open>simp_all add: range_mapped_def t(1) new, blast\<close>)
  have "view (mphys m2) root a =
      (if b \<le> a \<and> a < b + (n + n') then Some (pa + of_nat (a - b), attr_bits attrs) else view (mphys m) root a) \<and>
     (lookup (mphys m2) root (of_nat a) = None \<longleftrightarrow>
        \<not> (b \<le> a \<and> a < b + (n + n')) \<and> lookup (mphys m) root (of_nat a) = None)" if a: "a < 2 ^ 48" for a
  proof (cases "b + n \<le> a")
    case True
    then have "of_nat (a - b) = (of_nat n + of_nat (a - (b + n)) :: u64)"
      by (simp only: of_nat_add [symmetric]) simp
    with True a assms show ?thesis by (simp add: range_mapped_def add.assoc)
  next
    case False
    with a assms show ?thesis by (simp add: range_mapped_def)
  qed
  moreover have "tables_ok m2 root" "same_ram (mframes m) (mframes m2)"
    "card (idle_frames m) \<le> card (idle_frames m2) + (k + k')"
    using assms same_ram_trans [of "mframes m" "mframes m1" "mframes m2"] by (simp_all add: range_mapped_def)
  moreover have "idle_frames m2 \<subseteq> idle_frames m" using sub by blast
  ultimately show ?thesis unfolding range_mapped_def using ag t(2) by blast
qed

lemma div_eq_iff_range:
  fixes x n q :: nat
  assumes "0 < n"
  shows "x div n = q \<longleftrightarrow> q * n \<le> x \<and> x < q * n + n"
proof
  assume "x div n = q"
  then have "q * n + x mod n = x" using div_mult_mod_eq [of x n] by simp
  then show "q * n \<le> x \<and> x < q * n + n" using mod_less_divisor [OF assms, of x] by linarith
next
  assume "q * n \<le> x \<and> x < q * n + n"
  then show "x div n = q" by (intro div_nat_eqI) (simp_all add: mult.commute)
qed

text \<open>One page or block is a range.\<close>

lemma mapped_view:
  assumes "grown leaf p p' va dd 3 root N v" "dd \<le> 1"
    and v: "v AND ADDR_MASK = pa" "v AND NOT (ADDR_MASK OR VALID OR TABLE_OR_PAGE) = attr_bits attrs"
    and "take_bit (12 + 9 * dd) pa = 0" "low48 va mod 2 ^ (12 + 9 * dd) = 0" and a: "a < 2 ^ 48"
  shows "view p' root a = (if low48 va \<le> a \<and> a < low48 va + 2 ^ (12 + 9 * dd)
        then Some (pa + of_nat (a - low48 va), attr_bits attrs) else view p root a)"
    "lookup p' root (of_nat a) = None \<longleftrightarrow>
        \<not> (low48 va \<le> a \<and> a < low48 va + 2 ^ (12 + 9 * dd)) \<and> lookup p root (of_nat a) = None"
proof -
  have dd: "dd = 0 \<or> dd = 1" using assms(2) by linarith
  let ?k = "12 + 9 * dd"
  have run: "same_run 3 dd va (of_nat a) \<longleftrightarrow> low48 va \<le> a \<and> a < low48 va + 2 ^ ?k"
    "same_run 3 dd va (of_nat a) \<Longrightarrow> a mod 2 ^ ?k = a - low48 va"
  proof -
    have same: "same_run 3 dd va (of_nat a) \<longleftrightarrow> a div 2 ^ ?k = low48 va div 2 ^ ?k"
      using dd a same_run_page [of va "of_nat a"] same_run_block [of va "of_nat a"] by auto
    define q where "q = low48 va div 2 ^ ?k"
    have b: "low48 va = q * 2 ^ ?k" using assms(6) by (simp add: q_def mod_0_imp_dvd)
    have pos: "(0 :: nat) < 2 ^ ?k" by simp
    have sq: "same_run 3 dd va (of_nat a) \<longleftrightarrow> a div 2 ^ ?k = q" by (simp only: same q_def)
    show "same_run 3 dd va (of_nat a) \<longleftrightarrow> low48 va \<le> a \<and> a < low48 va + 2 ^ ?k"
      by (simp only: sq div_eq_iff_range [OF pos] b)
    show "a mod 2 ^ ?k = a - low48 va" if "same_run 3 dd va (of_nat a)"
      using that by (simp only: sq b) (simp only: minus_div_mult_eq_mod [symmetric])
  qed
  have leaf: "leaf_at p' (of_nat a) 3 root =
      (if same_run 3 dd va (of_nat a) then Some (dd, v) else leaf_at p (of_nat a) 3 root)"
    using assms(1) by (simp add: grown_def)
  show "view p' root a = (if low48 va \<le> a \<and> a < low48 va + 2 ^ ?k
        then Some (pa + of_nat (a - low48 va), attr_bits attrs) else view p root a)"
    using leaf leaf_pa_at [OF v(1) assms(2,5), of a] run v(2) by (auto simp: view_leaf_at)
  show "lookup p' root (of_nat a) = None \<longleftrightarrow>
      \<not> (low48 va \<le> a \<and> a < low48 va + 2 ^ ?k) \<and> lookup p root (of_nat a) = None"
    using leaf run(1) by (auto simp: lookup_leaf_at)
qed

lemma mapped_range:
  assumes "mapped no_leaf m m' root va dd v N" "tables_ok m root" "dd \<le> 1"
    and v: "v AND ADDR_MASK = pa" "v AND NOT (ADDR_MASK OR VALID OR TABLE_OR_PAGE) = attr_bits attrs"
    and "take_bit (12 + 9 * dd) pa = 0" "low48 va mod 2 ^ (12 + 9 * dd) = 0"
  shows "range_mapped m m' root (low48 va) (2 ^ (12 + 9 * dd)) pa attrs 3"
proof -
  have g: "grown no_leaf (mphys m) (mphys m') va dd 3 root N v" and N: "N \<subseteq> idle_frames m" "card N \<le> 3"
    "idle_frames m' = idle_frames m - N" "same_ram (mframes m) (mframes m')"
    using assms(1) by (simp_all add: mapped_def)
  have wf: "frames_wf (mframes m)" using assms(2) by (simp add: tree_ok_def)
  have new: "idle_frames m - idle_frames m' = N" using N by blast
  have fin: "finite (idle_frames m)" by (rule pool.finite_idle [OF wf])
  have count: "card (idle_frames m) \<le> card (idle_frames m') + 3"
    using N fin by (simp add: card_Diff_subset finite_subset)
  have ok: "tables_ok m' root" by (rule mapped_tree_ok [OF assms(1,2)]) (simp add: no_leaf_def)
  show ?thesis
    using ok N(3,4) count g mapped_view [OF g assms(3) v assms(6,7)] unfolding range_mapped_def new
    by (auto simp: grown_def no_leaf_def)
qed

lemma of_nat_low48: "of_nat (low48 va) = take_bit 48 va"
proof -
  have "low48 va = unat (take_bit 48 va)" by (simp add: low48_def unsigned_take_bit_eq take_bit_nat_def)
  then show ?thesis by simp
qed

lemma lookup_low48: "lookup p root (of_nat (low48 va)) = lookup p root va"
  by (rule lookup_cong) (auto simp: of_nat_low48 page_bits_eq_iff bit_take_bit_iff)

lemma low48_mod: "n \<le> 48 \<Longrightarrow> unat va mod 2 ^ n = 0 \<Longrightarrow> low48 va mod 2 ^ n = 0"
proof -
  assume n: "n \<le> 48" "unat va mod 2 ^ n = 0"
  then have "(2 :: nat) ^ n dvd 2 ^ 48" by (intro le_imp_power_dvd)
  with n(2) show ?thesis by (simp only: low48_def mod_mod_cancel)
qed

lemma take_bit_iff_mod: "take_bit n (x :: u64) = 0 \<longleftrightarrow> unat x mod 2 ^ n = 0"
proof -
  have "take_bit n x = 0 \<longleftrightarrow> unat (take_bit n x) = 0" by (simp add: unat_eq_0)
  then show ?thesis by (simp only: unsigned_take_bit_eq take_bit_nat_def)
qed

lemma page_step:
  assumes "tables_ok m root" "3 \<le> card (idle_frames m)" "unat va mod 4096 = 0" "unat pa mod 4096 = 0"
    "unat pa < 2 ^ 48" "attr_ok attrs" "lookup (mphys m) root (of_nat (low48 va)) = None"
  shows "\<exists>m'. map_page m root va pa attrs = Some m' \<and> range_mapped m m' root (low48 va) 4096 pa attrs 3"
proof -
  let ?v = "pa OR attr_bits attrs OR VALID OR TABLE_OR_PAGE"
  have pa: "take_bit 12 pa = 0" using assms(4) by (simp add: take_bit_12_iff)
  note f = leaf_fields(1,2) [OF pa assms(5,6), of "VALID OR TABLE_OR_PAGE"]
  have "leaf_at (mphys m) va 3 root = None" using assms(7) unfolding lookup_low48 by (simp add: lookup_leaf_at)
  then have way: "open_way no_leaf (mphys m) va 0 3 root" by (rule unmapped_open) simp
  have "no_leaf 0 ?v \<inter> X = {}" for X by (simp add: no_leaf_def)
  from map_page_mapped [OF assms(1) way assms(2) refl this]
  obtain m' N where m': "map_page m root va pa attrs = Some m'" "mapped no_leaf m m' root va 0 ?v N"
    by blast
  have "range_mapped m m' root (low48 va) (2 ^ (12 + 9 * 0)) pa attrs 3"
    using f pa assms(3) low48_mod [of 12 va] by (intro mapped_range [OF m'(2) assms(1)]) simp_all
  then show ?thesis using m'(1) by simp
qed

lemma block_step:
  assumes "tables_ok m root" "3 \<le> card (idle_frames m)" "unat va mod 2 ^ 21 = 0" "unat pa mod 2 ^ 21 = 0"
    "unat pa < 2 ^ 48" "attr_ok attrs"
    "\<And>a. low48 va \<le> a \<Longrightarrow> a < low48 va + 2 ^ 21 \<Longrightarrow> lookup (mphys m) root (of_nat a) = None"
  shows "\<exists>m'. map_block m root va pa attrs = Some m' \<and> range_mapped m m' root (low48 va) (2 ^ 21) pa attrs 3"
proof -
  let ?v = "pa OR attr_bits attrs OR VALID"
  have pa21: "take_bit 21 pa = 0" using assms(4) by (simp only: take_bit_iff_mod)
  then have pa: "take_bit 12 pa = 0"
    using aligned_bits [of 21 pa] by (intro bit_word_eqI) (auto simp: bit_take_bit_iff)
  note f = leaf_fields [OF pa assms(5,6), of VALID]
  have "leaf_at (mphys m) va' 3 root = None" if run: "same_run 3 1 va va'" for va'
  proof -
    have low: "low48 va mod 2 ^ 21 = 0" by (rule low48_mod [OF _ assms(3)]) simp
    have "low48 va' div 2 ^ 21 = low48 va div 2 ^ 21" using run by (simp only: same_run_block)
    then have "low48 va div 2 ^ 21 * 2 ^ 21 \<le> low48 va' \<and> low48 va' < low48 va div 2 ^ 21 * 2 ^ 21 + 2 ^ 21"
      using div_eq_iff_range [of "2 ^ 21" "low48 va'", OF zero_less_power [OF zero_less_numeral]] by blast
    moreover have "low48 va div 2 ^ 21 * 2 ^ 21 = low48 va"
      using low by (simp only: mod_0_imp_dvd dvd_div_mult_self)
    ultimately have "lookup (mphys m) root (of_nat (low48 va')) = None" by (intro assms(7)) simp_all
    then show ?thesis unfolding lookup_low48 by (simp add: lookup_leaf_at)
  qed
  then have open_at: "open_way no_leaf (mphys m) va 1 3 root"
    using assms(1) by (intro unmapped_block_open) (simp_all add: tree_ok_def)
  have "no_leaf 1 ?v \<inter> X = {}" for X by (simp add: no_leaf_def)
  from map_block_mapped [OF assms(1) open_at assms(2) refl _ this] f(3)
  obtain m' N where m': "map_block m root va pa attrs = Some m'" "mapped no_leaf m m' root va 1 ?v N"
    by blast
  have "range_mapped m m' root (low48 va) (2 ^ (12 + 9 * 1)) pa attrs 3"
    using f pa21 low48_mod [OF _ assms(3)] by (intro mapped_range [OF m'(2) assms(1)]) simp_all
  then show ?thesis using m'(1) by simp
qed

text \<open>The number of pages and blocks that \<open>map_range\<close> writes for \<open>n\<close> bytes.\<close>

function map_steps :: "nat \<Rightarrow> nat \<Rightarrow> nat \<Rightarrow> nat" where
  "map_steps v a n =
     (if n = 0 then 0
      else if 2 ^ 21 \<le> n \<and> v mod 2 ^ 21 = 0 \<and> a mod 2 ^ 21 = 0
      then Suc (map_steps (v + 2 ^ 21) (a + 2 ^ 21) (n - 2 ^ 21))
      else Suc (map_steps (v + 4096) (a + 4096) (n - 4096)))"
  by pat_completeness auto

termination
  by (relation "measure (\<lambda>(v, a, n). n)") auto

declare map_steps.simps [simp del]

definition whole_pages :: "nat \<Rightarrow> nat" where
  "whole_pages n = (n + 4095) div 4096 * 4096"

lemma le_whole_pages: "n \<le> whole_pages n"
  unfolding whole_pages_def by linarith

lemma whole_pages_beyond: "o' < n \<Longrightarrow> o' mod 4096 = 0 \<Longrightarrow> o' + 4096 \<le> whole_pages n"
proof -
  assume "o' < n" "o' mod 4096 = 0"
  then obtain k where k: "o' = k * 4096" by (metis mod_0_imp_dvd dvd_def mult.commute)
  have "(k * 4096 + 4096) div 4096 \<le> (n + 4095) div 4096" using k \<open>o' < n\<close> by (intro div_le_mono) simp
  then have "k + 1 \<le> (n + 4095) div 4096" by simp
  then have "(k + 1) * 4096 \<le> (n + 4095) div 4096 * 4096" by (rule mult_le_mono1)
  then show ?thesis by (simp add: whole_pages_def k)
qed

lemma BLOCK_2MIB_unat: "unat BLOCK_2MIB = 2097152"
  by (simp add: BLOCK_2MIB_def)

lemma is_multiple_block: "is_multiple_of x BLOCK_2MIB \<longleftrightarrow> unat x mod 2097152 = 0"
proof -
  have "is_multiple_of x BLOCK_2MIB \<longleftrightarrow> unat (x mod BLOCK_2MIB) = 0" by (simp add: is_multiple_of_def unat_eq_0)
  then show ?thesis by (simp only: unat_div_mod BLOCK_2MIB_unat)
qed

lemma map_from_range:
  assumes "tables_ok m root" "attr_ok attrs" "unat va mod 4096 = 0" "unat pa mod 4096 = 0" "unat offset mod 4096 = 0"
    and "unat va + unat len \<le> 2 ^ 64" "unat pa + unat len \<le> 2 ^ 48" "low48 va + whole_pages (unat len) \<le> 2 ^ 48"
    and "\<And>a. low48 va + unat offset \<le> a \<Longrightarrow> a < low48 va + whole_pages (unat len) \<Longrightarrow>
      lookup (mphys m) root (of_nat a) = None"
    and "3 * map_steps (unat va + unat offset) (unat pa + unat offset) (unat len - unat offset) \<le> card (idle_frames m)"
  shows "\<exists>m'. map_from root va pa len attrs offset m = Some m' \<and>
    range_mapped m m' root (low48 va + unat offset) (whole_pages (unat len) - unat offset) (pa + offset) attrs
      (3 * map_steps (unat va + unat offset) (unat pa + unat offset) (unat len - unat offset))"
  using assms
proof (induction "unat len - unat offset" arbitrary: m offset rule: less_induct)
  case less
  let ?o = "unat offset" and ?L = "unat len"
  show ?case
  proof (cases "offset < len")
    case False
    then have "?L \<le> ?o" by (simp add: word_less_nat_alt not_less)
    moreover have "whole_pages ?L \<le> ?o"
    proof -
      obtain k where k: "?o = k * 4096" using less.prems(5) by (metis mod_0_imp_dvd dvd_def mult.commute)
      with \<open>?L \<le> ?o\<close> have "(?L + 4095) div 4096 \<le> (k * 4096 + 4095) div 4096" by (intro div_le_mono) simp
      also have "\<dots> = k" by simp
      finally show ?thesis using k by (simp add: whole_pages_def)
    qed
    ultimately show ?thesis
      using False range_mapped_refl [OF less.prems(1)] by (simp add: map_from.simps map_steps.simps)
  next
    case True
    then have lt: "?o < ?L" by (simp add: word_less_nat_alt)
    let ?steps = "\<lambda>o'. map_steps (unat va + o') (unat pa + o') (?L - o')"
    have sums: "unat (va + offset) = unat va + ?o" "unat (pa + offset) = unat pa + ?o"
      "checked_add va offset = Some (va + offset)" "checked_add pa offset = Some (pa + offset)"
      using lt less.prems(6,7) by (simp_all add: checked_add_def unat_add_no_overflow)
    have E: "?o + 4096 \<le> whole_pages ?L" "whole_pages ?L \<le> 2 ^ 48"
      using whole_pages_beyond [OF lt less.prems(5)] less.prems(8) by simp_all
    have low: "low48 (va + offset) = low48 va + ?o"
    proof -
      have "low48 (va + offset) = (low48 va + ?o) mod 2 ^ 48"
        by (simp only: low48_def sums(1) mod_add_left_eq)
      then show ?thesis using E(1) less.prems(8) by simp
    qed
    have none: "lookup (mphys m) root (of_nat a) = None"
      if "low48 va + ?o \<le> a" "a < low48 va + whole_pages ?L" for a
      using less.prems(9) that by simp
    have rest: "\<exists>m'. (checked_add offset s \<bind> (\<lambda>offset'. map_from root va pa len attrs offset' m1)) = Some m' \<and>
        range_mapped m m' root (low48 va + ?o) (whole_pages ?L - ?o) (pa + offset) attrs (3 * ?steps ?o)"
      if m1: "range_mapped m m1 root (low48 va + ?o) (unat s) (pa + offset) attrs 3"
        and s: "0 < unat s" "unat s mod 4096 = 0" "?o + unat s \<le> whole_pages ?L"
          "?steps ?o = Suc (?steps (?o + unat s))" for m1 s
    proof -
      have off: "unat (offset + s) = ?o + unat s" "checked_add offset s = Some (offset + s)"
        using s(3) E(2) by (simp_all add: checked_add_def unat_add_no_overflow)
      have "lookup (mphys m1) root (of_nat a) = None"
        if "low48 va + (?o + unat s) \<le> a" "a < low48 va + whole_pages ?L" for a
        using m1 none [of a] that less.prems(8) by (simp add: range_mapped_def)
      moreover have "3 * ?steps (?o + unat s) \<le> card (idle_frames m1)"
        using m1 less.prems(10) s(4) by (simp add: range_mapped_def)
      moreover have "tables_ok m1 root" using m1 by (simp add: range_mapped_def)
      moreover have "?L - (?o + unat s) < ?L - ?o" using lt s(1) by linarith
      moreover have "(?o + unat s) mod 4096 = 0" by (rule mod_0_add [OF less.prems(5) s(2)])
      ultimately obtain m' where m': "map_from root va pa len attrs (offset + s) m1 = Some m'"
        "range_mapped m1 m' root (low48 va + (?o + unat s)) (whole_pages ?L - (?o + unat s)) (pa + (offset + s)) attrs
          (3 * ?steps (?o + unat s))"
        using less.hyps [of "offset + s" m1, unfolded off(1)] less.prems(2-4,6-8) lt s(1) by auto
      have "range_mapped m1 m' root (low48 va + ?o + unat s) (whole_pages ?L - (?o + unat s))
          (pa + offset + of_nat (unat s)) attrs (3 * ?steps (?o + unat s))"
        using m'(2) by (simp add: add.assoc)
      from range_mapped_trans [OF m1 this] s(3,4)
      have "range_mapped m m' root (low48 va + ?o) (whole_pages ?L - ?o) (pa + offset) attrs (3 * ?steps ?o)" by simp
      then show ?thesis using m'(1) off(2) by simp
    qed
    have room: "3 \<le> card (idle_frames m)"
      using less.prems(10) lt by (subst (asm) map_steps.simps) (simp split: if_splits)
    have block: "BLOCK_2MIB \<le> len - offset \<and> is_multiple_of (va + offset) BLOCK_2MIB \<and> is_multiple_of (pa + offset) BLOCK_2MIB \<longleftrightarrow>
        2 ^ 21 \<le> ?L - ?o \<and> (unat va + ?o) mod 2 ^ 21 = 0 \<and> (unat pa + ?o) mod 2 ^ 21 = 0"
      using True sums
      by (simp add: word_le_nat_alt unat_sub_no_underflow [OF less_imp_le [OF True]] is_multiple_block BLOCK_2MIB_unat)
    have step: "map_from root va pa len attrs offset m =
        (if 2 ^ 21 \<le> ?L - ?o \<and> (unat va + ?o) mod 2 ^ 21 = 0 \<and> (unat pa + ?o) mod 2 ^ 21 = 0
         then map_block m root (va + offset) (pa + offset) attrs \<bind>
           (\<lambda>m. checked_add offset BLOCK_2MIB \<bind> (\<lambda>offset'. map_from root va pa len attrs offset' m))
         else map_page m root (va + offset) (pa + offset) attrs \<bind>
           (\<lambda>m. checked_add offset PAGE_SIZE \<bind> (\<lambda>offset'. map_from root va pa len attrs offset' m)))"
      using True by (subst map_from.simps) (simp only: sums(3,4) block Let_def bind.bind_lunit not_True_eq_False if_False)
    show ?thesis
    proof (cases "2 ^ 21 \<le> ?L - ?o \<and> (unat va + ?o) mod 2 ^ 21 = 0 \<and> (unat pa + ?o) mod 2 ^ 21 = 0")
      case B: True
      have o21: "?o + 2 ^ 21 \<le> whole_pages ?L" using B le_whole_pages [of ?L] lt by linarith
      have al: "unat (va + offset) mod 2 ^ 21 = 0" "unat (pa + offset) mod 2 ^ 21 = 0" "unat (pa + offset) < 2 ^ 48"
        using B sums lt less.prems(7) by (simp_all only:)
      have "lookup (mphys m) root (of_nat a) = None" if "low48 (va + offset) \<le> a" "a < low48 (va + offset) + 2 ^ 21" for a
        using none [of a] that o21 by (simp add: low)
      from block_step [OF less.prems(1) room al less.prems(2) this]
      obtain m1 where m1: "map_block m root (va + offset) (pa + offset) attrs = Some m1"
        "range_mapped m m1 root (low48 va + ?o) (2 ^ 21) (pa + offset) attrs 3"
        by (auto simp: low)
      have "?steps ?o = Suc (?steps (?o + unat BLOCK_2MIB))"
        using B lt by (subst map_steps.simps) (simp add: BLOCK_2MIB_unat add.assoc)
      with rest [of m1 BLOCK_2MIB] m1 o21 show ?thesis
        unfolding step if_P [OF B] by (simp add: BLOCK_2MIB_unat)
    next
      case B: False
      have "lookup (mphys m) root (of_nat (low48 (va + offset))) = None"
        using none [of "low48 va + ?o"] E(1) by (simp add: low)
      moreover have "unat (va + offset) mod 4096 = 0" "unat (pa + offset) mod 4096 = 0"
        unfolding sums by (rule mod_0_add [OF less.prems(3,5)], rule mod_0_add [OF less.prems(4,5)])
      ultimately obtain m1 where m1: "map_page m root (va + offset) (pa + offset) attrs = Some m1"
        "range_mapped m m1 root (low48 va + ?o) 4096 (pa + offset) attrs 3"
        using page_step [OF less.prems(1) room, of "va + offset" "pa + offset" attrs] sums lt less.prems(2,7)
        by (auto simp: low)
      have page: "unat PAGE_SIZE = 4096" by (simp add: PAGE_SIZE_def FRAME_SIZE_def)
      have "?steps ?o = Suc (?steps (?o + unat PAGE_SIZE))"
        using B lt by (subst map_steps.simps) (auto simp: page add.assoc)
      with rest [of m1 PAGE_SIZE] m1 E(1) show ?thesis
        unfolding step if_not_P [OF B] by (simp add: page)
    qed
  qed
qed

lemma view_agree:
  assumes "agree p p' S" "table_frames leaf p 3 root \<subseteq> S" "frame_aligned root"
  shows "view p' root = view p root" "lookup p' root va = lookup p root va"
proof -
  have "leaf_at p' va 3 root = leaf_at p va 3 root" for va by (rule leaf_at_agree [OF assms])
  then show "view p' root = view p root" "lookup p' root va = lookup p root va"
    by (simp_all add: view_leaf_at lookup_leaf_at fun_eq_iff)
qed

text \<open>A root keeps its tables and its map while memory elsewhere changes.\<close>

lemma other_root:
  assumes "tree_ok leaf m root" "agree (mphys m) (mphys m') S" "table_frames leaf (mphys m) 3 root \<subseteq> S"
    and "frames_wf (mframes m')" "same_ram (mframes m) (mframes m')" "idle_frames m' \<subseteq> idle_frames m"
  shows "tree_ok leaf m' root" "table_frames leaf (mphys m') 3 root = table_frames leaf (mphys m) 3 root"
    "view (mphys m') root = view (mphys m) root" "lookup (mphys m') root va = lookup (mphys m) root va"
proof -
  have "root \<in> held m" using assms(1) by (auto simp: tree_ok_def table_frames_def)
  then have al: "frame_aligned root" using assms(1) tidy_aligned by (auto simp: tree_ok_def)
  note same = assms(2,3) al
  show t: "table_frames leaf (mphys m') 3 root = table_frames leaf (mphys m) 3 root" by (rule table_frames_agree(1) [OF same])
  show "view (mphys m') root = view (mphys m) root" "lookup (mphys m') root va = lookup (mphys m) root va"
    by (rule view_agree [OF same])+
  have "ram_frames m' = ram_frames m" using same_ramD [OF assms(5)] by (simp add: ram_frames_def)
  then have "held m \<subseteq> held m'" using assms(6) by (auto simp: held_def)
  then show "tree_ok leaf m' root"
    using assms(1,4) t tidy_agree [OF same] same_ramD [OF assms(5)]
    by (auto simp: tree_ok_def ram_addressable_def)
qed

text \<open>The bound on the work: with both sides aligned alike, blocks are used wherever they fit.\<close>

lemma ceil_step:
  fixes n s :: nat
  assumes "n \<noteq> 0" "4096 \<le> s"
  shows "(n - s + 4095) div 4096 + 1 \<le> (n + 4095) div 4096"
proof (cases "s \<le> n")
  case True
  have "(n - s + 4095) div 4096 + 1 = (n - s + 4095 + 4096) div 4096" by simp
  also have "\<dots> \<le> (n + 4095) div 4096" using True assms(2) by (intro div_le_mono) simp
  finally show ?thesis .
next
  case False
  have "4096 div 4096 \<le> (n + 4095) div 4096" using assms(1) by (intro div_le_mono) simp
  with False show ?thesis by simp
qed

lemma map_steps_pages: "map_steps v a n \<le> (n + 4095) div 4096"
proof (induction v a n rule: map_steps.induct)
  case (1 v a n)
  have page: "(n - 4096 + 4095) div 4096 + 1 \<le> (n + 4095) div 4096" if "n \<noteq> 0"
    by (rule ceil_step) (use that in simp_all)
  have block: "(n - 2 ^ 21 + 4095) div 4096 + 1 \<le> (n + 4095) div 4096" if "n \<noteq> 0"
    by (rule ceil_step) (use that in simp_all)
  consider "n = 0" | "n \<noteq> 0" "2 ^ 21 \<le> n \<and> v mod 2 ^ 21 = 0 \<and> a mod 2 ^ 21 = 0"
    | "n \<noteq> 0" "\<not> (2 ^ 21 \<le> n \<and> v mod 2 ^ 21 = 0 \<and> a mod 2 ^ 21 = 0)" by blast
  then show ?case
  proof cases
    case 2
    show ?thesis
      using 1(1) [OF 2] block [OF 2(1)] unfolding map_steps.simps [of v a n] if_not_P [OF 2(1)] if_P [OF 2(2)] by linarith
  next
    case 3
    show ?thesis
      using 1(2) [OF 3] page [OF 3(1)] unfolding map_steps.simps [of v a n] if_not_P [OF 3(1)] if_not_P [OF 3(2)] by linarith
  qed (simp add: map_steps.simps)
qed

lemma map_steps_bound:
  assumes "v mod 4096 = 0" "v mod 2 ^ 21 = a mod 2 ^ 21"
  shows "map_steps v a n \<le> n div 2 ^ 21 + 512 + (if v mod 2 ^ 21 = 0 then 0 else (2 ^ 21 - v mod 2 ^ 21) div 4096)"
  using assms
proof (induction v a n rule: map_steps.induct)
  case (1 v a n)
  show ?case
  proof (cases "n < 2 ^ 21")
    case True
    then have "(n + 4095) div 4096 \<le> 512" by simp
    then show ?thesis using map_steps_pages [of v a n] by linarith
  next
    case n: False
    show ?thesis
    proof (cases "v mod 2 ^ 21 = 0")
      case True
      have "(v + 2097152) mod 4096 = 0" by (rule mod_0_add [OF 1(3)]) simp
      then have "map_steps (v + 2 ^ 21) (a + 2 ^ 21) (n - 2 ^ 21) \<le> (n - 2 ^ 21) div 2 ^ 21 + 512"
        using 1(1) True n 1(3,4) by simp
      moreover have "(n - 2 ^ 21) div 2 ^ 21 + 1 = n div 2 ^ 21" using n by (simp add: le_div_geq)
      moreover have "map_steps v a n = Suc (map_steps (v + 2 ^ 21) (a + 2 ^ 21) (n - 2 ^ 21))"
        using True n 1(4) by (subst map_steps.simps) simp
      ultimately show ?thesis using True by simp
    next
      case False
      have step: "map_steps v a n = Suc (map_steps (v + 4096) (a + 4096) (n - 4096))"
        using False n by (subst map_steps.simps) auto
      have al: "(v + 4096) mod 4096 = 0" "(v + 4096) mod 2 ^ 21 = (a + 4096) mod 2 ^ 21"
        using 1(3,4) by (simp_all only: mod_add_self2) (metis mod_add_left_eq)
      have ih: "map_steps (v + 4096) (a + 4096) (n - 4096) \<le> (n - 4096) div 2 ^ 21 + 512 +
          (if (v + 4096) mod 2 ^ 21 = 0 then 0 else (2 ^ 21 - (v + 4096) mod 2 ^ 21) div 4096)"
        using 1(2) [OF _ _ al] False n by auto
      define r where "r = v mod 2 ^ 21 div 4096"
      have r: "v mod 2 ^ 21 = r * 4096" "0 < r" "r < 512"
      proof -
        have "v mod 2 ^ 21 mod 4096 = 0" using 1(3) by (simp add: mod_mod_cancel)
        then show "v mod 2 ^ 21 = r * 4096" unfolding r_def by (simp only: mod_0_imp_dvd dvd_div_mult_self)
        then show "0 < r" using False by (cases r) simp_all
        have "v mod 2 ^ 21 < 2 ^ 21" by simp
        then show "r < 512" using \<open>v mod 2 ^ 21 = r * 4096\<close> by simp
      qed
      have "(v + 4096) mod 2 ^ 21 = (r * 4096 + 4096) mod 2 ^ 21" by (metis mod_add_left_eq r(1))
      also have "\<dots> = (if r = 511 then 0 else (r + 1) * 4096)" using r by auto
      finally have "(if (v + 4096) mod 2 ^ 21 = 0 then 0 else (2 ^ 21 - (v + 4096) mod 2 ^ 21) div 4096) = 511 - r"
        using r by auto
      moreover have "(2 ^ 21 - v mod 2 ^ 21) div 4096 = 512 - r" using r by simp
      moreover have "(n - 4096) div 2 ^ 21 \<le> n div 2 ^ 21" by (intro div_le_mono) simp
      ultimately show ?thesis unfolding if_not_P [OF False] using ih step r(2,3) by linarith
    qed
  qed
qed

text \<open>A new root is an empty map.\<close>

lemma new_root:
  assumes "frames_wf (mframes m)" "ram_addressable m" "idle_frames m \<noteq> {}"
  shows "\<exists>f m'. alloc m = Some (Some f, m') \<and> f \<in> idle_frames m \<and> idle_frames m' = idle_frames m - {f} \<and>
    held m' = insert f (held m) \<and> same_ram (mframes m) (mframes m') \<and> agree (mphys m) (mphys m') (- {f}) \<and>
    frames_wf (mframes m') \<and> ram_addressable m' \<and> frame_aligned f \<and>
    (\<forall>leaf. tree_ok leaf m' f \<and> table_frames leaf (mphys m') 3 f = {f}) \<and>
    (\<forall>va. lookup (mphys m') f va = None) \<and> view (mphys m') f = (\<lambda>a. None)"
proof -
  obtain f m' where f: "alloc m = Some (Some f, m')" "f \<in> idle_frames m" "f \<in> held m'"
    "idle_frames m' = idle_frames m - {f}" "frames_wf (mframes m')" "same_ram (mframes m) (mframes m')"
    "mphys m' = zero_frames (mphys m) f 1"
    using alloc_table [OF assms(1,3)] by blast
  have al: "frame_aligned f" by (rule tidy_aligned [OF f(5,3)])
  have "\<forall>j < 512. read_entry (mphys m') f j = 0"
    using al by (simp add: f(7) read_entry_zero_frames [unfolded One_nat_def])
  note blank = blank_table [OF this]
  have addressable: "ram_addressable m'"
    using assms(2) same_ramD [OF f(6)] by (simp add: ram_addressable_def)
  have "held m' = held m \<union> {f}" using f by (intro held_after [OF assms(1)]) auto
  then show ?thesis
    using f al addressable blank agree_zero_frames [OF al, of "mphys m"]
    by (intro exI [of _ f] exI [of _ m']) (auto simp: tree_ok_def lookup_leaf_at view_leaf_at)
qed

section \<open>Properties\<close>

text \<open>
  C3. Mapping a range is an update of the map that the tables stand for. From tidy tables, a range of
  whole pages that is free in the map and enough frames for the tables, \<open>map_range\<close> succeeds,
  whatever mixture of pages and two-megabyte blocks it chooses: every address of the range, rounded up
  to whole pages, translates to its offset in the physical range with exactly the attributes asked
  for, every other address keeps its translation and attributes, the tables stay tidy, and the only
  memory written is that of the tables of this root and of frames that were free.
\<close>

theorem map_range_refines:
  assumes "tables_ok m root" "attr_ok attrs" "unat va mod 4096 = 0" "unat pa mod 4096 = 0"
    and "unat va + unat len \<le> 2 ^ 64" "unat pa + unat len \<le> 2 ^ 48" "low48 va + whole_pages (unat len) \<le> 2 ^ 48"
    and "\<And>a. low48 va \<le> a \<Longrightarrow> a < low48 va + whole_pages (unat len) \<Longrightarrow> lookup (mphys m) root (of_nat a) = None"
    and "3 * map_steps (unat va) (unat pa) (unat len) \<le> free_frames (mframes m)"
  shows "\<exists>m'. map_range m root va pa len attrs = Some m' \<and> tables_ok m' root \<and>
    (\<forall>a < 2 ^ 48. view (mphys m') root a =
      (if low48 va \<le> a \<and> a < low48 va + whole_pages (unat len)
       then Some (pa + of_nat (a - low48 va), attr_bits attrs) else view (mphys m) root a)) \<and>
    agree (mphys m) (mphys m') (- (tables_of (mphys m) root \<union> idle_frames m))"
proof -
  have "frames_wf (mframes m)" using assms(1) by (simp add: tree_ok_def)
  then have "3 * map_steps (unat va + unat (0 :: u64)) (unat pa + unat (0 :: u64)) (unat len - unat (0 :: u64))
      \<le> card (idle_frames m)"
    using assms(9) card_idle_frames by simp
  from map_from_range [OF assms(1-4) _ assms(5-8) this] obtain m' where
    "map_from root va pa len attrs 0 m = Some m'"
    "range_mapped m m' root (low48 va) (whole_pages (unat len)) pa attrs (3 * map_steps (unat va) (unat pa) (unat len))"
    by auto
  then show ?thesis
    using agree_mono [of "mphys m" "mphys m'" _ "- (tables_of (mphys m) root \<union> idle_frames m)"]
    by (auto simp: map_range_def range_mapped_def)
qed

theorem map_range_refines_witness:
  "\<exists>root m m'. alloc boot_mach = Some (Some root, m) \<and>
     map_range m root 0x5ff000 0x407ff000 0x201800 kernel_data = Some m' \<and>
     view (mphys m') root 0x5ff123 = Some (0x407ff123, attr_bits kernel_data) \<and>
     view (mphys m') root 0x654321 = Some (0x40854321, attr_bits kernel_data) \<and>
     view (mphys m') root 0x801000 = None"
proof -
  have wf: "frames_wf (mframes boot_mach)" using boot_frames_init by simp
  have card: "card (idle_frames boot_mach) = 65280"
    using card_idle_frames [OF wf] wf_free [OF wf] boot_frames_init by (simp add: free_frames_def)
  then have "idle_frames boot_mach \<noteq> {}" by auto
  from new_root [OF wf boot_addressable this] obtain f m where f: "alloc boot_mach = Some (Some f, m)"
    "f \<in> idle_frames boot_mach" "idle_frames m = idle_frames boot_mach - {f}" "tables_ok m f"
    "\<forall>va. lookup (mphys m) f va = None" "view (mphys m) f = (\<lambda>a. None)" "frames_wf (mframes m)"
    by blast
  have "free_frames (mframes m) = 65279"
    using card_idle_frames [OF f(7)] card f(2,3) by (simp add: card_Diff_singleton)
  moreover have "map_steps 0x5ff000 0x407ff000 0x201800 = 3"
    by (simp add: map_steps.simps)
  ultimately show ?thesis
    using map_range_refines [OF f(4) attrs_ok(3), of "0x5ff000" "0x407ff000" "0x201800"] f(1,5,6)
    by (auto simp: low48_def whole_pages_def)
qed

end
