(* ===== verification/Kernel_Map.thy ===== *)
theory Kernel_Map
  imports Spaces
begin

text \<open>
  The kernel's own map (\<open>build_tables\<close> of \<open>paging.rs\<close>): what the two roots stand for after
  boot. The map is given section by section; the theorem says that both roots, the identity map and
  the high half, stand for exactly that map.
\<close>

section \<open>A list of ranges\<close>

type_synonym mem_range = "u64 \<times> u64 \<times> attributes"

definition addresses :: "mem_range \<Rightarrow> nat set" where
  "addresses r = {unat (fst r)..<unat (fst r) + unat (fst (snd r))}"

definition range_ok :: "mem_range \<Rightarrow> bool" where
  "range_ok r \<longleftrightarrow> attr_ok (snd (snd r)) \<and> unat (fst r) mod 4096 = 0 \<and> unat (fst (snd r)) mod 4096 = 0 \<and>
     unat (fst r) + unat (fst (snd r)) < 2 ^ 48"

primrec ranges_apart :: "mem_range list \<Rightarrow> bool" where
  "ranges_apart [] = True"
| "ranges_apart (r # rs) \<longleftrightarrow> (\<forall>r' \<in> set rs. addresses r \<inter> addresses r' = {}) \<and> ranges_apart rs"

text \<open>Mapping each range at its own address plus \<open>off\<close>.\<close>

definition map_ranges :: "frame \<Rightarrow> u64 \<Rightarrow> mem_range list \<Rightarrow> mach \<Rightarrow> mach option" where
  "map_ranges root off rs m = for_each (\<lambda>(pa, n, attrs) m. map_range m root (pa + off) pa n attrs) rs m"

definition ranges_view :: "mem_range list \<Rightarrow> nat \<Rightarrow> (u64 \<times> u64) option" where
  "ranges_view rs a = map_option (\<lambda>r. (of_nat a, attr_bits (snd (snd r)))) (List.find (\<lambda>r. a \<in> addresses r) rs)"

definition range_steps :: "mem_range \<Rightarrow> nat" where
  "range_steps r = unat (fst (snd r)) div 2 ^ 21 + 1024"

lemma whole_pages_exact: "n mod 4096 = 0 \<Longrightarrow> whole_pages n = n"
proof -
  assume "n mod 4096 = 0"
  then obtain k where "n = k * 4096" by (metis mod_0_imp_dvd dvd_def mult.commute)
  then show ?thesis by (simp add: whole_pages_def)
qed

text \<open>Both halves: the address itself, and the address in the high half.\<close>

definition half :: "u64 \<Rightarrow> bool" where
  "half off \<longleftrightarrow> off = 0 \<or> off = KERNEL_BASE"

lemma half_address:
  assumes "half off" "unat pa < 2 ^ 48"
  shows "unat (pa + off) = unat pa + unat off" "low48 (pa + off) = unat pa" "unat off mod 2 ^ 21 = 0"
    "unat off \<le> 2 ^ 64 - 2 ^ 48"
proof -
  have off: "unat off = 0 \<or> unat off = 0xffff000000000000"
    using assms(1) by (auto simp: half_def KERNEL_BASE_def)
  then show sum: "unat (pa + off) = unat pa + unat off"
    using assms(2) by (intro unat_add_no_overflow) auto
  have "unat off mod 2 ^ 48 = 0" using off by auto
  then have "unat (pa + off) mod 2 ^ 48 = unat pa mod 2 ^ 48"
    unfolding sum by (metis add.right_neutral mod_add_right_eq)
  then show "low48 (pa + off) = unat pa" using assms(2) by (simp add: low48_def)
  show "unat off mod 2 ^ 21 = 0" "unat off \<le> 2 ^ 64 - 2 ^ 48" using off by auto
qed

lemma half_steps:
  assumes "half off" "unat pa < 2 ^ 48" "unat pa mod 4096 = 0"
  shows "map_steps (unat (pa + off)) (unat pa) n \<le> n div 2 ^ 21 + 1024"
proof -
  note h = half_address [OF assms(1,2)]
  have "unat (pa + off) mod 4096 = 0"
  proof -
    have "unat off mod 4096 = 0" using assms(1) by (auto simp: half_def KERNEL_BASE_def)
    then show ?thesis unfolding h(1) by (rule mod_0_add [OF assms(3)])
  qed
  moreover have "unat (pa + off) mod 2 ^ 21 = unat pa mod 2 ^ 21"
    unfolding h(1) using h(3) by (metis add.right_neutral mod_add_right_eq)
  ultimately have "map_steps (unat (pa + off)) (unat pa) n \<le> n div 2 ^ 21 + 512 +
      (if unat (pa + off) mod 2 ^ 21 = 0 then 0 else (2 ^ 21 - unat (pa + off) mod 2 ^ 21) div 4096)"
    by (rule map_steps_bound)
  also have "(if unat (pa + off) mod 2 ^ 21 = 0 then 0 else (2 ^ 21 - unat (pa + off) mod 2 ^ 21) div 4096) \<le> 512"
    using div_le_mono [of "2 ^ 21 - unat (pa + off) mod 2 ^ 21" "2 ^ 21" 4096] by simp
  finally show ?thesis by simp
qed

lemma map_ranges_view:
  assumes "tables_ok m root" "half off" "\<forall>r \<in> set rs. range_ok r" "ranges_apart rs"
    and "\<And>r a. r \<in> set rs \<Longrightarrow> a \<in> addresses r \<Longrightarrow> lookup (mphys m) root (of_nat a) = None"
    and "3 * sum_list (map range_steps rs) \<le> card (idle_frames m)"
  shows "\<exists>m'. map_ranges root off rs m = Some m' \<and> tables_ok m' root \<and> same_ram (mframes m) (mframes m') \<and>
    idle_frames m' \<subseteq> idle_frames m \<and>
    card (idle_frames m) \<le> card (idle_frames m') + 3 * sum_list (map range_steps rs) \<and>
    agree (mphys m) (mphys m') (- (tables_of (mphys m) root \<union> (idle_frames m - idle_frames m'))) \<and>
    tables_of (mphys m') root = tables_of (mphys m) root \<union> (idle_frames m - idle_frames m') \<and>
    (\<forall>a < 2 ^ 48. view (mphys m') root a =
       (case ranges_view rs a of None \<Rightarrow> view (mphys m) root a | Some x \<Rightarrow> Some x))"
  using assms
proof (induction rs arbitrary: m)
  case Nil
  then show ?case by (simp add: map_ranges_def ranges_view_def)
next
  case (Cons r rs)
  obtain pa n attrs where r: "r = (pa, n, attrs)" by (cases r) auto
  have ok: "attr_ok attrs" "unat pa mod 4096 = 0" "unat n mod 4096 = 0" "unat pa + unat n < 2 ^ 48"
    using Cons.prems(3) by (simp_all add: r range_ok_def)
  note h = half_address [OF Cons.prems(2), of pa]
  have pa: "unat pa < 2 ^ 48" using ok(4) by linarith
  have va: "unat (pa + off) mod 4096 = 0"
  proof -
    have "unat off mod 4096 = 0" using Cons.prems(2) by (auto simp: half_def KERNEL_BASE_def)
    then show ?thesis unfolding h(1) [OF pa] by (rule mod_0_add [OF ok(2)])
  qed
  have steps: "map_steps (unat (pa + off)) (unat pa) (unat n) \<le> range_steps r"
    using half_steps [OF Cons.prems(2) pa ok(2)] by (simp add: r range_steps_def)
  have none: "lookup (mphys m) root (of_nat a) = None"
    if "low48 (pa + off) + unat (0 :: u64) \<le> a" "a < low48 (pa + off) + whole_pages (unat n)" for a
    using Cons.prems(5) [of r a] that h(2) [OF pa] by (simp add: r addresses_def whole_pages_exact [OF ok(3)])
  have fits: "unat (pa + off) + unat n \<le> 2 ^ 64" "unat pa + unat n \<le> 2 ^ 48"
    "low48 (pa + off) + whole_pages (unat n) \<le> 2 ^ 48"
    using h [OF pa] ok(4) by (simp_all add: whole_pages_exact [OF ok(3)])
  have room: "3 * map_steps (unat (pa + off) + unat (0 :: u64)) (unat pa + unat (0 :: u64)) (unat n - unat (0 :: u64))
      \<le> card (idle_frames m)"
    using Cons.prems(6) steps by simp
  obtain m1 where m1: "map_range m root (pa + off) pa n attrs = Some m1"
    "range_mapped m m1 root (unat pa) (unat n) pa attrs (3 * map_steps (unat (pa + off)) (unat pa) (unat n))"
    using map_from_range [OF Cons.prems(1) ok(1) va ok(2) _ fits none room] h(2) [OF pa]
    by (auto simp: map_range_def whole_pages_exact [OF ok(3)])
  have s1: "tables_ok m1 root" "same_ram (mframes m) (mframes m1)" "idle_frames m1 \<subseteq> idle_frames m"
    "card (idle_frames m) \<le> card (idle_frames m1) + 3 * range_steps r"
    "agree (mphys m) (mphys m1) (- (tables_of (mphys m) root \<union> (idle_frames m - idle_frames m1)))"
    "tables_of (mphys m1) root = tables_of (mphys m) root \<union> (idle_frames m - idle_frames m1)"
    "\<And>a. a < 2 ^ 48 \<Longrightarrow> view (mphys m1) root a =
       (if a \<in> addresses r then Some (of_nat a, attr_bits attrs) else view (mphys m) root a)"
    "\<And>a. a < 2 ^ 48 \<Longrightarrow> a \<notin> addresses r \<Longrightarrow> lookup (mphys m) root (of_nat a) = None \<Longrightarrow>
       lookup (mphys m1) root (of_nat a) = None"
    using m1(2) steps by (auto simp: range_mapped_def r addresses_def)
  have "lookup (mphys m1) root (of_nat a) = None" if "r' \<in> set rs" "a \<in> addresses r'" for r' a
  proof -
    have "a < 2 ^ 48" using Cons.prems(3) that by (auto simp: range_ok_def addresses_def)
    moreover have "a \<notin> addresses r" using Cons.prems(4) that by auto
    moreover have "lookup (mphys m) root (of_nat a) = None" using that by (intro Cons.prems(5) [of r']) simp_all
    ultimately show ?thesis by (rule s1(8))
  qed
  moreover have "3 * sum_list (map range_steps rs) \<le> card (idle_frames m1)" using Cons.prems(6) s1(4) by simp
  ultimately obtain m' where m': "map_ranges root off rs m1 = Some m'" "tables_ok m' root"
    "same_ram (mframes m1) (mframes m')" "idle_frames m' \<subseteq> idle_frames m1"
    "card (idle_frames m1) \<le> card (idle_frames m') + 3 * sum_list (map range_steps rs)"
    "agree (mphys m1) (mphys m') (- (tables_of (mphys m1) root \<union> (idle_frames m1 - idle_frames m')))"
    "tables_of (mphys m') root = tables_of (mphys m1) root \<union> (idle_frames m1 - idle_frames m')"
    "\<forall>a < 2 ^ 48. view (mphys m') root a =
       (case ranges_view rs a of None \<Rightarrow> view (mphys m1) root a | Some x \<Rightarrow> Some x)"
    using Cons.IH [OF s1(1) Cons.prems(2)] Cons.prems(3,4) by auto
  have "map_ranges root off (r # rs) m = Some m'"
    using m1(1) m'(1) by (simp add: map_ranges_def r)
  moreover have new: "(idle_frames m - idle_frames m1) \<union> (idle_frames m1 - idle_frames m') = idle_frames m - idle_frames m'"
    using s1(3) m'(4) by blast
  moreover have "agree (mphys m) (mphys m') (- (tables_of (mphys m) root \<union> (idle_frames m - idle_frames m')))"
    by (rule agree_trans [OF s1(5) m'(6)]) (use s1(6) new in blast)
  moreover have "view (mphys m') root a =
      (case ranges_view (r # rs) a of None \<Rightarrow> view (mphys m) root a | Some x \<Rightarrow> Some x)" if a: "a < 2 ^ 48" for a
  proof -
    have "ranges_view rs a = None" if "a \<in> addresses r"
    proof -
      have "a \<notin> addresses r'" if "r' \<in> set rs" for r' using Cons.prems(4) that \<open>a \<in> addresses r\<close> by auto
      then show ?thesis by (simp add: ranges_view_def find_None_iff)
    qed
    then show ?thesis
      using m'(8) a s1(7) [OF a] by (auto simp: ranges_view_def r split: option.splits)
  qed
  ultimately show ?case
    using m' s1 same_ram_trans [OF s1(2) m'(3)] by auto
qed

section \<open>The sections of the kernel\<close>

text \<open>
  What the linker script and the machine promise: the sections lie in this order in RAM, every
  boundary is a page boundary, and RAM lies above the device window.
\<close>

definition layout_ok :: "layout \<Rightarrow> frame_state \<Rightarrow> bool" where
  "layout_ok l fs \<longleftrightarrow>
     0x0a000000 \<le> unat (ram_base fs) \<and> unat (ram_base fs) \<le> unat (text_start l) \<and>
     unat (text_start l) \<le> unat (text_end l) \<and> unat (text_end l) \<le> unat (rodata_start l) \<and>
     unat (rodata_start l) \<le> unat (rodata_end l) \<and> unat (rodata_end l) \<le> unat (data_start l) \<and>
     unat (data_start l) \<le> unat (kernel_end l) \<and>
     unat (kernel_end l) \<le> unat (ram_base fs) + unat (ram_size fs) \<and>
     unat (ram_base fs) + unat (ram_size fs) < 2 ^ 48 \<and>
     (\<forall>x \<in> {text_start l, text_end l, rodata_start l, rodata_end l, data_start l, kernel_end l}. unat x mod 4096 = 0)"

definition kernel_ranges :: "layout \<Rightarrow> frame_state \<Rightarrow> mem_range list" where
  "kernel_ranges l fs =
     [(ram_base fs, text_start l - ram_base fs, kernel_data),
      (text_start l, text_end l - text_start l, kernel_text),
      (rodata_start l, rodata_end l - rodata_start l, kernel_rodata),
      (data_start l, kernel_end l - data_start l, kernel_data),
      (kernel_end l, ram_base fs + ram_size fs - kernel_end l, kernel_data),
      (DEVICE_BASE, DEVICE_SIZE, device)]"

text \<open>The attributes of each address.\<close>

definition kernel_section :: "layout \<Rightarrow> frame_state \<Rightarrow> nat \<Rightarrow> attributes option" where
  "kernel_section l fs a =
     (if unat (text_start l) \<le> a \<and> a < unat (text_end l) then Some kernel_text
      else if unat (rodata_start l) \<le> a \<and> a < unat (rodata_end l) then Some kernel_rodata
      else if unat (ram_base fs) \<le> a \<and> a < unat (text_start l) \<or>
              unat (data_start l) \<le> a \<and> a < unat (ram_base fs) + unat (ram_size fs) then Some kernel_data
      else if 0x08000000 \<le> a \<and> a < 0x0a000000 then Some device
      else None)"

lemma device_window: "unat DEVICE_BASE = 0x08000000" "unat DEVICE_SIZE = 0x02000000"
  by (simp_all add: DEVICE_BASE_def DEVICE_SIZE_def)

lemma layout_sizes:
  assumes "layout_ok l fs" "frames_wf fs"
  shows "unat (text_start l - ram_base fs) = unat (text_start l) - unat (ram_base fs)"
    "unat (text_end l - text_start l) = unat (text_end l) - unat (text_start l)"
    "unat (rodata_end l - rodata_start l) = unat (rodata_end l) - unat (rodata_start l)"
    "unat (kernel_end l - data_start l) = unat (kernel_end l) - unat (data_start l)"
    "unat (ram_base fs + ram_size fs) = unat (ram_base fs) + unat (ram_size fs)"
    "unat (ram_base fs + ram_size fs - kernel_end l) = unat (ram_base fs) + unat (ram_size fs) - unat (kernel_end l)"
proof -
  show top: "unat (ram_base fs + ram_size fs) = unat (ram_base fs) + unat (ram_size fs)"
    using wf_end(2) [OF assms(2)] wf_count(1) [OF assms(2)] by simp
  show "unat (text_start l - ram_base fs) = unat (text_start l) - unat (ram_base fs)"
    "unat (text_end l - text_start l) = unat (text_end l) - unat (text_start l)"
    "unat (rodata_end l - rodata_start l) = unat (rodata_end l) - unat (rodata_start l)"
    "unat (kernel_end l - data_start l) = unat (kernel_end l) - unat (data_start l)"
    "unat (ram_base fs + ram_size fs - kernel_end l) = unat (ram_base fs) + unat (ram_size fs) - unat (kernel_end l)"
    using assms(1) top by (simp_all add: layout_ok_def unat_sub_no_underflow word_le_nat_alt)
qed

lemma mod_0_diff: "x mod k = 0 \<Longrightarrow> y mod k = 0 \<Longrightarrow> (x - y) mod k = (0 :: nat)"
  by (simp add: mod_eq_0_iff_dvd dvd_diff_nat)

lemma kernel_ranges_ok:
  assumes "layout_ok l fs" "frames_wf fs"
  shows "\<forall>r \<in> set (kernel_ranges l fs). range_ok r" "ranges_apart (kernel_ranges l fs)"
    "ranges_view (kernel_ranges l fs) a = map_option (\<lambda>at. (of_nat a, attr_bits at)) (kernel_section l fs a)"
proof -
  note sz = layout_sizes [OF assms]
  have al: "unat x mod 4096 = 0"
    if "x \<in> {text_start l, text_end l, rodata_start l, rodata_end l, data_start l, kernel_end l}" for x
    using assms(1) that by (auto simp: layout_ok_def)
  have base: "unat (ram_base fs) mod 4096 = 0" using assms(2) by (simp add: frames_wf_def ram_base_def)
  moreover have "unat (ram_size fs) mod 4096 = 0"
    using wf_count(1) [OF assms(2)] by (metis mod_mult_self1_is_0)
  ultimately have top: "(unat (ram_base fs) + unat (ram_size fs)) mod 4096 = 0" by (rule mod_0_add)
  show "\<forall>r \<in> set (kernel_ranges l fs). range_ok r"
    using assms(1) base top al
    by (simp add: kernel_ranges_def range_ok_def sz device_window mod_0_diff layout_ok_def)
  show "ranges_apart (kernel_ranges l fs)"
    using assms(1) by (auto simp: kernel_ranges_def addresses_def sz device_window layout_ok_def)
  show "ranges_view (kernel_ranges l fs) a = map_option (\<lambda>at. (of_nat a, attr_bits at)) (kernel_section l fs a)"
    using assms(1)
    by (simp add: ranges_view_def kernel_ranges_def addresses_def sz device_window layout_ok_def kernel_section_def)
qed

lemma build_map_ranges:
  assumes "layout_ok l (mframes m)" "frames_wf (mframes m)" "half off"
  shows "build_map l m root off = map_ranges root off (kernel_ranges l (mframes m)) m"
proof -
  let ?fs = "mframes m"
  have le: "ram_base ?fs \<le> text_start l" "text_start l \<le> text_end l" "rodata_start l \<le> rodata_end l"
    "data_start l \<le> kernel_end l" "kernel_end l \<le> ram_base ?fs + ram_size ?fs"
    using assms(1) layout_sizes(5) [OF assms(1,2)] by (simp_all add: layout_ok_def word_le_nat_alt)
  have sub: "checked_sub x y = Some (x - y)" if "y \<le> x" for x y :: u64
    using that by (simp add: checked_sub_def)
  have add: "checked_add x off = Some (x + off)" if "unat x < 2 ^ 48" for x
    using that half_address(4) [OF assms(3) that] by (simp add: checked_add_def)
  have small: "unat (ram_base ?fs) < 2 ^ 48" "unat (text_start l) < 2 ^ 48" "unat (rodata_start l) < 2 ^ 48"
    "unat (data_start l) < 2 ^ 48" "unat (kernel_end l) < 2 ^ 48" "unat DEVICE_BASE < 2 ^ 48"
    using assms(1) by (simp_all add: layout_ok_def device_window)
  note top = wf_end(1) [OF assms(2)]
  show ?thesis
    unfolding build_map_def map_ranges_def kernel_ranges_def Let_def
    by (simp add: sub [OF le(1)] sub [OF le(2)] sub [OF le(3)] sub [OF le(4)] sub [OF le(5)] top
        add [OF small(1)] add [OF small(2)] add [OF small(3)] add [OF small(4)] add [OF small(5)] add [OF small(6)]
        cong: Option.bind_cong)
qed

section \<open>Both roots\<close>

lemma same_ram_ranges:
  assumes "same_ram fs fs'"
  shows "kernel_ranges l fs' = kernel_ranges l fs" "layout_ok l fs' = layout_ok l fs"
    "kernel_section l fs' = kernel_section l fs"
  by (simp_all only: kernel_ranges_def layout_ok_def kernel_section_def [abs_def] same_ramD [OF assms])

text \<open>The frames the tables of one root may take, generously.\<close>

definition kernel_room :: "frame_state \<Rightarrow> nat" where
  "kernel_room fs = 3 * (unat (ram_size fs) div 2 ^ 21 + 16 + 6 * 1024)"

lemma kernel_ranges_steps:
  assumes "layout_ok l fs" "frames_wf fs"
  shows "3 * sum_list (map range_steps (kernel_ranges l fs)) \<le> kernel_room fs"
proof -
  note sz = layout_sizes [OF assms]
  let ?a = "unat (text_start l) - unat (ram_base fs)" and ?b = "unat (text_end l) - unat (text_start l)"
  let ?c = "unat (rodata_end l) - unat (rodata_start l)" and ?d = "unat (kernel_end l) - unat (data_start l)"
  let ?e = "unat (ram_base fs) + unat (ram_size fs) - unat (kernel_end l)"
  have div_add: "x div 2 ^ 21 + y div 2 ^ 21 \<le> (x + y) div 2 ^ 21" for x y :: nat
    using div_add1_eq [of x y "2 ^ 21"] by linarith
  have "?a div 2 ^ 21 + ?b div 2 ^ 21 + ?c div 2 ^ 21 + ?d div 2 ^ 21 + ?e div 2 ^ 21 \<le>
      (?a + ?b + ?c + ?d + ?e) div 2 ^ 21"
    using div_add [of ?a ?b] div_add [of "?a + ?b" ?c] div_add [of "?a + ?b + ?c" ?d]
      div_add [of "?a + ?b + ?c + ?d" ?e] by linarith
  also have "\<dots> \<le> unat (ram_size fs) div 2 ^ 21"
    using assms(1) unfolding layout_ok_def by (intro div_le_mono, elim conjE) linarith
  finally have "?a div 2 ^ 21 + ?b div 2 ^ 21 + ?c div 2 ^ 21 + ?d div 2 ^ 21 + ?e div 2 ^ 21 \<le>
      unat (ram_size fs) div 2 ^ 21" .
  moreover have "(0x02000000 :: nat) div 2 ^ 21 = 16" by simp
  moreover have "sum_list (map range_steps (kernel_ranges l fs)) =
      ?a div 2 ^ 21 + ?b div 2 ^ 21 + ?c div 2 ^ 21 + ?d div 2 ^ 21 + ?e div 2 ^ 21 + 0x02000000 div 2 ^ 21 + 6 * 1024"
    by (simp only: kernel_ranges_def list.map sum_list.Cons sum_list.Nil range_steps_def fst_conv snd_conv sz device_window)
  ultimately show ?thesis unfolding kernel_room_def by (intro mult_le_mono2) simp
qed

lemma kernel_map_built:
  assumes "tables_ok m root" "layout_ok l (mframes m)" "half off" "view (mphys m) root = (\<lambda>a. None)"
    "\<forall>va. lookup (mphys m) root va = None" "kernel_room (mframes m) \<le> card (idle_frames m)"
  shows "\<exists>m'. build_map l m root off = Some m' \<and> tables_ok m' root \<and> same_ram (mframes m) (mframes m') \<and>
    idle_frames m' \<subseteq> idle_frames m \<and> card (idle_frames m) \<le> card (idle_frames m') + kernel_room (mframes m) \<and>
    agree (mphys m) (mphys m') (- (tables_of (mphys m) root \<union> (idle_frames m - idle_frames m'))) \<and>
    tables_of (mphys m') root = tables_of (mphys m) root \<union> (idle_frames m - idle_frames m') \<and>
    (\<forall>a < 2 ^ 48. view (mphys m') root a =
       map_option (\<lambda>at. (of_nat a, attr_bits at)) (kernel_section l (mframes m) a))"
proof -
  have wf: "frames_wf (mframes m)" using assms(1) by (simp add: tree_ok_def)
  note ranges = kernel_ranges_ok [OF assms(2) wf]
  note steps = kernel_ranges_steps [OF assms(2) wf]
  have "3 * sum_list (map range_steps (kernel_ranges l (mframes m))) \<le> card (idle_frames m)"
    using steps assms(6) by linarith
  from map_ranges_view [OF assms(1,3) ranges(1,2) _ this] assms(5) obtain m' where m':
    "map_ranges root off (kernel_ranges l (mframes m)) m = Some m'" "tables_ok m' root"
    "same_ram (mframes m) (mframes m')" "idle_frames m' \<subseteq> idle_frames m"
    "card (idle_frames m) \<le> card (idle_frames m') + 3 * sum_list (map range_steps (kernel_ranges l (mframes m)))"
    "agree (mphys m) (mphys m') (- (tables_of (mphys m) root \<union> (idle_frames m - idle_frames m')))"
    "tables_of (mphys m') root = tables_of (mphys m) root \<union> (idle_frames m - idle_frames m')"
    "\<forall>a < 2 ^ 48. view (mphys m') root a =
       (case ranges_view (kernel_ranges l (mframes m)) a of None \<Rightarrow> view (mphys m) root a | Some x \<Rightarrow> Some x)"
    by blast
  have "view (mphys m') root a = map_option (\<lambda>at. (of_nat a, attr_bits at)) (kernel_section l (mframes m) a)"
    if "a < 2 ^ 48" for a
    using m'(8) that assms(4) ranges(3) [of a] by (auto split: option.splits)
  then show ?thesis
    using m'(2-7) steps build_map_ranges [OF assms(2) wf assms(3)] m'(1)
    by (intro exI [of _ m']) auto
qed

text \<open>A root that has just been taken: an empty tree of its own.\<close>

definition fresh_root :: "mach \<Rightarrow> frame \<Rightarrow> bool" where
  "fresh_root m root \<longleftrightarrow> tables_ok m root \<and> tables_of (mphys m) root = {root} \<and>
     view (mphys m) root = (\<lambda>a. None) \<and> (\<forall>va. lookup (mphys m) root va = None)"

lemma fresh_root_keep:
  assumes "fresh_root m root" "agree (mphys m) (mphys m') (- F)" "root \<notin> F" "frames_wf (mframes m')"
    "same_ram (mframes m) (mframes m')" "idle_frames m' \<subseteq> idle_frames m"
  shows "fresh_root m' root"
proof -
  have "tables_ok m root" "tables_of (mphys m) root \<subseteq> - F" using assms(1,3) by (simp_all add: fresh_root_def)
  from other_root [OF this(1) assms(2) this(2) assms(4-6)] show ?thesis
    using assms(1) by (auto simp: fresh_root_def)
qed

lemma two_roots:
  assumes "frames_wf (mframes m)" "ram_addressable m" "2 \<le> card (idle_frames m)"
  shows "\<exists>low high m1 m2. alloc m = Some (Some low, m1) \<and> alloc m1 = Some (Some high, m2) \<and> low \<noteq> high \<and>
    low \<notin> idle_frames m2 \<and> high \<notin> idle_frames m2 \<and> card (idle_frames m2) = card (idle_frames m) - 2 \<and>
    same_ram (mframes m) (mframes m2) \<and> fresh_root m2 low \<and> fresh_root m2 high"
proof -
  have "idle_frames m \<noteq> {}" using assms(3) by auto
  from new_root [OF assms(1,2) this] obtain low m1 where l: "alloc m = Some (Some low, m1)"
    "low \<in> idle_frames m" "idle_frames m1 = idle_frames m - {low}" "same_ram (mframes m) (mframes m1)"
    "frames_wf (mframes m1)" "ram_addressable m1" "fresh_root m1 low"
    unfolding fresh_root_def by blast
  have c1: "card (idle_frames m1) = card (idle_frames m) - 1" using l(2,3) by (simp add: card_Diff_singleton)
  then have "idle_frames m1 \<noteq> {}" using assms(3) by auto
  from new_root [OF l(5,6) this] obtain high m2 where h: "alloc m1 = Some (Some high, m2)"
    "high \<in> idle_frames m1" "idle_frames m2 = idle_frames m1 - {high}" "same_ram (mframes m1) (mframes m2)"
    "agree (mphys m1) (mphys m2) (- {high})" "frames_wf (mframes m2)" "fresh_root m2 high"
    unfolding fresh_root_def by blast
  have "low \<noteq> high" using h(2) l(3) by auto
  then have "fresh_root m2 low" using fresh_root_keep [OF l(7) h(5) _ h(6,4)] h(3) by auto
  moreover have "card (idle_frames m2) = card (idle_frames m) - 2" using h(2,3) c1 by (simp add: card_Diff_singleton)
  ultimately show ?thesis
    using l(1,3) h(1,3,7) \<open>low \<noteq> high\<close> same_ram_trans [OF l(4) h(4)] by auto
qed

lemma layout_kept:
  assumes "same_ram fs fs'" "layout_ok l fs"
  shows "layout_ok l fs'" "kernel_room fs' = kernel_room fs" "kernel_section l fs' = kernel_section l fs"
  using same_ram_ranges(2,3) [OF assms(1)] assms(2) same_ramD [OF assms(1)] by (simp_all add: kernel_room_def)

text \<open>One half of the kernel's map, built on a fresh root.\<close>

lemma half_built:
  assumes "fresh_root m root" "layout_ok l (mframes m)" "half off" "kernel_room (mframes m) \<le> card (idle_frames m)"
  shows "\<exists>m'. build_map l m root off = Some m' \<and> tables_ok m' root \<and> same_ram (mframes m) (mframes m') \<and>
    idle_frames m' \<subseteq> idle_frames m \<and> card (idle_frames m) \<le> card (idle_frames m') + kernel_room (mframes m) \<and>
    agree (mphys m) (mphys m') (- ({root} \<union> (idle_frames m - idle_frames m'))) \<and>
    tables_of (mphys m') root = {root} \<union> (idle_frames m - idle_frames m') \<and>
    (\<forall>a < 2 ^ 48. view (mphys m') root a =
       map_option (\<lambda>at. (of_nat a, attr_bits at)) (kernel_section l (mframes m) a))"
proof -
  have "tables_ok m root" "view (mphys m) root = (\<lambda>a. None)" "\<forall>va. lookup (mphys m) root va = None"
    and own: "tables_of (mphys m) root = {root}"
    using assms(1) by (simp_all add: fresh_root_def)
  from kernel_map_built [OF this(1) assms(2,3) this(2,3) assms(4)] show ?thesis unfolding own .
qed

text \<open>
  C4. The kernel's map is exactly its sections. From a well-formed allocator with enough free frames
  and a layout as the linker script makes it, \<open>build_tables\<close> succeeds, and both roots it makes stand
  for the same map of numbers below \<open>2 ^ 48\<close> (the low half as it is, the high half above
  \<open>KERNEL_BASE\<close>): every address of RAM and of the device window translates to itself with the
  attributes of its section, text read-only and executable at EL1, read-only data not executable,
  everything else writable and never executable, and no other address translates at all. The two
  trees of tables share no frame.
\<close>

theorem kernel_map_exact:
  assumes "frames_wf (mframes m)" "layout_ok l (mframes m)"
    and "2 * kernel_room (mframes m) + 2 \<le> free_frames (mframes m)"
  shows "\<exists>low high m'. build_tables l m = Some ((low, high), m') \<and> tables_ok m' low \<and> tables_ok m' high \<and>
    tables_of (mphys m') low \<inter> tables_of (mphys m') high = {} \<and>
    (\<forall>a < 2 ^ 48.
       view (mphys m') low a = map_option (\<lambda>at. (of_nat a, attr_bits at)) (kernel_section l (mframes m) a) \<and>
       view (mphys m') high a = map_option (\<lambda>at. (of_nat a, attr_bits at)) (kernel_section l (mframes m) a))"
proof -
  let ?R = "kernel_room (mframes m)"
  have addressable: "ram_addressable m" using assms(2) by (simp add: layout_ok_def ram_addressable_def)
  have free: "2 * ?R + 2 \<le> card (idle_frames m)" using assms(3) card_idle_frames [OF assms(1)] by simp
  obtain low high m1 m2 where r: "alloc m = Some (Some low, m1)" "alloc m1 = Some (Some high, m2)" "low \<noteq> high"
    "low \<notin> idle_frames m2" "high \<notin> idle_frames m2" "card (idle_frames m2) = card (idle_frames m) - 2"
    "same_ram (mframes m) (mframes m2)" "fresh_root m2 low" "fresh_root m2 high"
    using two_roots [OF assms(1) addressable] free by auto
  note lay2 = layout_kept [OF r(7) assms(2)]
  have halves: "half 0" "half KERNEL_BASE" by (simp_all add: half_def)
  have "?R \<le> card (idle_frames m2)" using free r(6) by linarith
  then obtain m3 where m3: "build_map l m2 low 0 = Some m3" "tables_ok m3 low" "same_ram (mframes m2) (mframes m3)"
    "idle_frames m3 \<subseteq> idle_frames m2" "card (idle_frames m2) \<le> card (idle_frames m3) + ?R"
    "agree (mphys m2) (mphys m3) (- ({low} \<union> (idle_frames m2 - idle_frames m3)))"
    "tables_of (mphys m3) low = {low} \<union> (idle_frames m2 - idle_frames m3)"
    "\<forall>a < 2 ^ 48. view (mphys m3) low a =
       map_option (\<lambda>at. (of_nat a, attr_bits at)) (kernel_section l (mframes m) a)"
    using half_built [OF r(8) lay2(1) halves(1)] lay2(2,3) by auto
  note lay3 = layout_kept [OF m3(3) lay2(1), unfolded lay2]
  have "frames_wf (mframes m3)" using m3(2) by (simp add: tree_ok_def)
  then have high3: "fresh_root m3 high" using fresh_root_keep [OF r(9) m3(6) _ _ m3(3,4)] r(3,5) by auto
  have "?R \<le> card (idle_frames m3)" using free r(6) m3(5) by linarith
  then obtain m4 where m4: "build_map l m3 high KERNEL_BASE = Some m4" "tables_ok m4 high"
    "same_ram (mframes m3) (mframes m4)" "idle_frames m4 \<subseteq> idle_frames m3"
    "agree (mphys m3) (mphys m4) (- ({high} \<union> (idle_frames m3 - idle_frames m4)))"
    "tables_of (mphys m4) high = {high} \<union> (idle_frames m3 - idle_frames m4)"
    "\<forall>a < 2 ^ 48. view (mphys m4) high a =
       map_option (\<lambda>at. (of_nat a, attr_bits at)) (kernel_section l (mframes m) a)"
    using half_built [OF high3 lay3(1) halves(2)] lay3(2,3) by auto
  have apart: "tables_of (mphys m3) low \<inter> ({high} \<union> (idle_frames m3 - idle_frames m4)) = {}"
    using m3(4,7) r(3-5) by auto
  then have sub: "tables_of (mphys m3) low \<subseteq> - ({high} \<union> (idle_frames m3 - idle_frames m4))" by blast
  have "frames_wf (mframes m4)" using m4(2) by (simp add: tree_ok_def)
  note low4 = other_root [OF m3(2) m4(5) sub this m4(3,4)]
  have "build_tables l m = Some ((low, high), m4)"
    using r(1,2) m3(1) m4(1) by (simp add: build_tables_def)
  then show ?thesis using low4 m4(2,6,7) m3(8) apart by auto
qed

text \<open>A kernel image of half a megabyte on the default machine.\<close>

definition boot_layout :: layout where
  "boot_layout = \<lparr>text_start = 0x40080000, text_end = 0x40098000, rodata_start = 0x40098000,
     rodata_end = 0x400a0000, data_start = 0x400a0000, kernel_end = 0x40100000\<rparr>"

lemma boot_size: "unat (ram_size boot_frames) = 0x10000000"
  using wf_count(1) [OF boot_frames_init(2)] boot_frames_init(4) by simp

lemma boot_layout_ok: "layout_ok boot_layout boot_frames"
  by (simp add: layout_ok_def boot_layout_def boot_frames_init(3) boot_size)

theorem kernel_map_exact_witness:
  "\<exists>low high m'. build_tables boot_layout boot_mach = Some ((low, high), m') \<and>
     view (mphys m') high 0x40080004 = Some (0x40080004, attr_bits kernel_text) \<and>
     view (mphys m') low 0x40099000 = Some (0x40099000, attr_bits kernel_rodata) \<and>
     view (mphys m') low 0x09000000 = Some (0x09000000, attr_bits device) \<and>
     view (mphys m') high 0x50000000 = None"
proof -
  have "free_frames boot_frames = 65280"
    using wf_free [OF boot_frames_init(2)] boot_frames_init(5) by (simp add: free_frames_def)
  moreover have "kernel_room boot_frames = 18864" by (simp add: kernel_room_def boot_size)
  ultimately obtain low high m' where m': "build_tables boot_layout boot_mach = Some ((low, high), m')"
    "\<And>a. a < 2 ^ 48 \<Longrightarrow>
       view (mphys m') low a = map_option (\<lambda>at. (of_nat a, attr_bits at)) (kernel_section boot_layout boot_frames a) \<and>
       view (mphys m') high a = map_option (\<lambda>at. (of_nat a, attr_bits at)) (kernel_section boot_layout boot_frames a)"
    using kernel_map_exact [of boot_mach boot_layout] boot_frames_init(2) boot_layout_ok by auto
  show ?thesis
    using m'(1) m'(2) [of "0x40080004"] m'(2) [of "0x40099000"]
      m'(2) [of "0x09000000"] m'(2) [of "0x50000000"]
    by (simp add: kernel_section_def boot_layout_def boot_frames_init(3) boot_size)
qed

end
