(* ===== verification/User_Spaces.thy ===== *)
theory User_Spaces
  imports Spaces Guards
begin

text \<open>
  User address spaces (\<open>AddressSpace\<close> in \<open>paging.rs\<close>, \<open>build_user_space\<close> in
  \<open>tasks.rs\<close>): what a new one maps, and that destroying one gives back every frame it owns.

  An address space owns its tables and the memory it maps: \<open>own\<close> counts the frames of a leaf, so
  \<open>table_frames own\<close> is everything that \<open>free_table\<close> must free, each frame once.
\<close>

section \<open>Frames given back\<close>

definition run :: "frame \<Rightarrow> nat \<Rightarrow> frame set" where
  "run f n = (\<lambda>k. Frame (addr f + of_nat (4096 * k))) ` {..<n}"

lemma run_1 [simp]: "run f (Suc 0) = {f}"
  by (simp add: run_def lessThan_Suc)

lemma idle_frames_simp: "mframes m' = fs \<Longrightarrow> idle_frames m' = frame_of fs ` avail fs"
  by (simp add: idle_frames_def)

lemma held_index:
  assumes "f \<in> held m"
  shows "\<exists>i < frame_count (mframes m). f = frame_of (mframes m) i \<and> i \<notin> avail (mframes m)"
  using assms by (auto simp: held_def ram_frames_def idle_frames_def)

lemma free_held:
  assumes "frames_wf (mframes m)" "f \<in> held m"
  shows "\<exists>fs. free (mframes m) f = Some fs \<and> frames_wf fs \<and> same_ram (mframes m) fs \<and>
    idle_frames (m\<lparr>mframes := fs\<rparr>) = insert f (idle_frames m)"
proof -
  obtain i where i: "i < frame_count (mframes m)" "f = frame_of (mframes m) i" "i \<notin> avail (mframes m)"
    using held_index [OF assms(2)] by blast
  obtain fs where fs: "free (mframes m) f = Some fs" "avail fs = insert i (avail (mframes m))" "frames_wf fs"
    "same_ram (mframes m) fs"
    using free_spec [OF assms(1) i(1,3)] i(2) by blast
  then show ?thesis
    using i(2) same_ramD [OF fs(4)] by (simp add: idle_frames_def)
qed

text \<open>Frames of RAM one after the other have indexes one after the other.\<close>

lemma run_index:
  assumes "frames_wf (mframes m)" "run f n \<subseteq> ram_frames m" "0 < n" "n \<le> 2 ^ 18"
  shows "\<exists>s. f = frame_of (mframes m) s \<and> s + n \<le> frame_count (mframes m) \<and>
    run f n = frame_of (mframes m) ` {s..<s + n}"
proof -
  let ?fs = "mframes m"
  have mem: "Frame (addr f + of_nat (4096 * k)) \<in> ram_frames m" if "k < n" for k
    using assms(2) that by (auto simp: run_def)
  have "f \<in> ram_frames m" using mem [OF assms(3)] by simp
  then obtain s where s: "s < frame_count ?fs" "f = frame_of ?fs s" by (auto simp: ram_frames_def)
  have at: "s + k < frame_count ?fs \<and> Frame (addr f + of_nat (4096 * k)) = frame_of ?fs (s + k)" if "k < n" for k
  proof -
    obtain j where j: "j < frame_count ?fs" "Frame (addr f + of_nat (4096 * k)) = frame_of ?fs j"
      using mem [OF \<open>k < n\<close>] by (auto simp: ram_frames_def)
    have "addr (frame_of ?fs j) = addr (frame_of ?fs s) + of_nat (4096 * k)"
      using j(2) s(2) by (metis frame.sel)
    moreover have "unat (of_nat (4096 * k) :: u64) = 4096 * k"
      using that assms(4) by (intro unat_of_nat_u64) simp
    moreover have "unat (addr (frame_of ?fs s)) = unat (ram_base ?fs) + 4096 * s"
      "unat (addr (frame_of ?fs j)) = unat (ram_base ?fs) + 4096 * j"
      using wf_frame(2) [OF assms(1)] s(1) j(1) by simp_all
    ultimately have "unat (ram_base ?fs) + 4096 * j =
        (if unat (ram_base ?fs) + 4096 * s + 4096 * k < 2 ^ 64 then unat (ram_base ?fs) + 4096 * s + 4096 * k
         else unat (ram_base ?fs) + 4096 * s + 4096 * k - 2 ^ 64)"
      using unat_plus_if' [of "addr (frame_of ?fs s)" "of_nat (4096 * k)"] by simp
    moreover have "4096 * s < 2 ^ 32" "4096 * k < 2 ^ 30"
      using s(1) wf_count(2) [OF assms(1)] that assms(4) by (simp_all add: frame_consts)
    ultimately have "j = s + k" by (simp split: if_splits)
    with j show ?thesis by simp
  qed
  have "s + n \<le> frame_count ?fs" using at [of "n - 1"] assms(3) by linarith
  moreover have "run f n = frame_of ?fs ` {s..<s + n}"
  proof -
    have "{s..<s + n} = (\<lambda>k. s + k) ` {..<n}" by (simp add: lessThan_atLeast0 image_add_atLeastLessThan add.commute)
    then show ?thesis using at by (auto simp: run_def image_image)
  qed
  ultimately show ?thesis using s(2) by blast
qed

lemma free_run_held:
  assumes "frames_wf (mframes m)" "run f n \<subseteq> held m" "0 < n" "n \<le> 2 ^ 18"
  shows "\<exists>fs. free_contiguous (mframes m) f n = Some fs \<and> frames_wf fs \<and> same_ram (mframes m) fs \<and>
    idle_frames (m\<lparr>mframes := fs\<rparr>) = idle_frames m \<union> run f n"
proof -
  have "run f n \<subseteq> ram_frames m" using assms(2) by (auto simp: held_def)
  from run_index [OF assms(1) this assms(3,4)] obtain s where s: "f = frame_of (mframes m) s"
    "s + n \<le> frame_count (mframes m)" "run f n = frame_of (mframes m) ` {s..<s + n}" by blast
  have "{s..<s + n} \<inter> avail (mframes m) = {}"
  proof (rule equals0I)
    fix i assume "i \<in> {s..<s + n} \<inter> avail (mframes m)"
    then have "frame_of (mframes m) i \<in> run f n" "frame_of (mframes m) i \<in> idle_frames m"
      using s(3) by (auto simp: idle_frames_def)
    then show False using assms(2) by (auto simp: held_def)
  qed
  from free_contiguous_spec [OF assms(1) s(2) this] obtain fs where fs:
    "free_contiguous (mframes m) f n = Some fs" "avail fs = avail (mframes m) \<union> {s..<s + n}" "frames_wf fs"
    "same_ram (mframes m) fs" using s(1) by blast
  then show ?thesis
    using s(3) same_ramD [OF fs(4)] by (simp add: idle_frames_def image_Un)
qed

section \<open>Destroying a tree\<close>

text \<open>The frames of a leaf; there are no leaves in a root.\<close>

definition own :: leaf_set where
  "own d e = (if d = 0 then run (entry_frame e) 1 else if d = 1 then run (entry_frame e) 512
     else if d = 2 then run (entry_frame e) (512 * 512) else {})"

definition no_root_leaf :: "phys \<Rightarrow> frame \<Rightarrow> bool" where
  "no_root_leaf p t \<longleftrightarrow> (\<forall>i < 512. valid (read_entry p t i) \<longrightarrow> is_table (read_entry p t i))"

lemma for_each_upt_rule:
  assumes "P 0 s" and "\<And>i s. i < n \<Longrightarrow> P i s \<Longrightarrow> \<exists>s'. f i s = Some s' \<and> P (Suc i) s'"
  shows "\<exists>s'. for_each f [0..<n] s = Some s' \<and> P n s'"
  using assms(2)
proof (induction n)
  case 0
  then show ?case using assms(1) by simp
next
  case (Suc n)
  then obtain s1 where s1: "for_each f [0..<n] s = Some s1" "P n s1" by fastforce
  with Suc.prems obtain s2 where "f n s1 = Some s2" "P (Suc n) s2" by blast
  with s1 show ?case by (simp add: for_each_append)
qed

text \<open>From \<open>m\<close> to \<open>m'\<close> the frames \<open>F\<close> have been freed and memory is as it was.\<close>

definition freed :: "mach \<Rightarrow> mach \<Rightarrow> frame set \<Rightarrow> bool" where
  "freed m m' F \<longleftrightarrow> mphys m' = mphys m \<and> frames_wf (mframes m') \<and> same_ram (mframes m) (mframes m') \<and>
     idle_frames m' = idle_frames m \<union> F"

lemma freed_held: "freed m m' F \<Longrightarrow> held m' = held m - F"
proof -
  assume f: "freed m m' F"
  then have "ram_frames m' = ram_frames m"
    using same_ramD [of "mframes m" "mframes m'"] by (simp add: ram_frames_def freed_def)
  with f show ?thesis by (auto simp: held_def freed_def)
qed

lemma freed_trans: "freed m m1 F \<Longrightarrow> freed m1 m2 G \<Longrightarrow> freed m m2 (F \<union> G)"
  by (auto simp: freed_def intro: same_ram_trans)

text \<open>The loop over the entries, given what it does with one of them.\<close>

lemma free_entries:
  assumes "frames_wf (mframes m)" "node_apart own (mphys m) d t" "table_frames own (mphys m) d t \<subseteq> held m"
    and step: "\<And>i m'. i < 512 \<Longrightarrow> mphys m' = mphys m \<Longrightarrow> frames_wf (mframes m') \<Longrightarrow>
      frames_below own (mphys m) d (read_entry (mphys m) t i) \<subseteq> held m' \<Longrightarrow>
      \<exists>m''. f i m' = Some m'' \<and> freed m' m'' (frames_below own (mphys m) d (read_entry (mphys m) t i))"
  shows "\<exists>m' m''. for_each f [0..<ENTRIES] m = Some m' \<and>
    (do { fs \<leftarrow> free (mframes m') t; Some (m'\<lparr>mframes := fs\<rparr>) }) = Some m'' \<and>
    freed m m'' (table_frames own (mphys m) d t)"
proof -
  let ?B = "\<lambda>i. frames_below own (mphys m) d (read_entry (mphys m) t i)"
  have "\<exists>m'. for_each f [0..<512] m = Some m' \<and> freed m m' (\<Union>i<512. ?B i)"
  proof (rule for_each_upt_rule [where P = "\<lambda>n m'. freed m m' (\<Union>i<n. ?B i)"])
    show "freed m m (\<Union>i<0. ?B i)" using assms(1) by (simp add: freed_def)
    fix i m' assume i: "i < 512" and m': "freed m m' (\<Union>i<i. ?B i)"
    have "?B i \<inter> ?B j = {}" if "j < i" for j using assms(2) i that by (simp add: node_apart_def)
    then have "?B i \<inter> (\<Union>j<i. ?B j) = {}" by blast
    then have "?B i \<subseteq> held m'" using assms(3) i freed_held [OF m'] by (auto simp: table_frames_def)
    with step [OF i _ _ this] m' obtain m'' where "f i m' = Some m''" "freed m' m'' (?B i)"
      by (auto simp: freed_def)
    then show "\<exists>m''. f i m' = Some m'' \<and> freed m m'' (\<Union>i<Suc i. ?B i)"
      using freed_trans [OF m'] by (auto simp: lessThan_Suc Un_commute)
  qed
  then obtain m' where m': "for_each f [0..<512] m = Some m'" "freed m m' (\<Union>i<512. ?B i)" by blast
  have "t \<notin> (\<Union>i<512. ?B i)" using assms(2) by (auto simp: node_apart_def)
  then have "t \<in> held m'" using assms(3) freed_held [OF m'(2)] by (auto simp: table_frames_def)
  moreover have "frames_wf (mframes m')" using m'(2) by (simp add: freed_def)
  ultimately obtain fs where fs: "free (mframes m') t = Some fs" "frames_wf fs" "same_ram (mframes m') fs"
    "idle_frames (m'\<lparr>mframes := fs\<rparr>) = insert t (idle_frames m')"
    using free_held by blast
  have "freed m' (m'\<lparr>mframes := fs\<rparr>) {t}" using fs by (simp add: freed_def)
  from freed_trans [OF m'(2) this]
  have "freed m (m'\<lparr>mframes := fs\<rparr>) (table_frames own (mphys m) d t)"
    by (simp add: table_frames_def Un_commute insert_is_Un [symmetric])
  then show ?thesis using m'(1) fs(1) by (simp add: ENTRIES_def)
qed

lemma free_leaf:
  assumes "frames_wf (mframes m)" "own d e \<subseteq> held m" "d \<le> 2"
  shows "\<exists>m'. (do { n \<leftarrow> leaf_frames (3 - d); fs \<leftarrow> free_contiguous (mframes m) (entry_frame e) n;
      Some (m\<lparr>mframes := fs\<rparr>) }) = Some m' \<and> freed m m' (own d e)"
proof -
  obtain n where n: "leaf_frames (3 - d) = Some n" "own d e = run (entry_frame e) n" "0 < n" "n \<le> 2 ^ 18"
  proof -
    consider "d = 0" | "d = 1" | "d = 2" using assms(3) by linarith
    then show thesis
      by cases (use that in \<open>simp_all add: leaf_frames_def own_def ENTRIES_def\<close>)
  qed
  from free_run_held [OF assms(1) assms(2) [unfolded n(2)] n(3,4)] n(1,2) show ?thesis
    by (auto simp: freed_def)
qed

lemma free_table_frees:
  assumes "frames_wf (mframes m)" "tidy own (mphys m) d t" "table_frames own (mphys m) d t \<subseteq> held m" "d \<le> 3"
    and "d = 3 \<Longrightarrow> no_root_leaf (mphys m) t"
  shows "\<exists>m'. free_table d t m = Some m' \<and> freed m m' (table_frames own (mphys m) d t)"
  using assms
proof (induction d arbitrary: t m)
  case 0
  let ?f = "\<lambda>index m. let entry = read_entry (mphys m) t index in
       if entry AND VALID = 0 then Some m
       else do {
         n \<leftarrow> leaf_frames 3;
         fs \<leftarrow> free_contiguous (mframes m) (entry_frame entry) n;
         Some (m\<lparr>mframes := fs\<rparr>)
       }"
  have "\<exists>m' m''. for_each ?f [0..<ENTRIES] m = Some m' \<and>
      (do { fs \<leftarrow> free (mframes m') t; Some (m'\<lparr>mframes := fs\<rparr>) }) = Some m'' \<and>
      freed m m'' (table_frames own (mphys m) 0 t)"
  proof (rule free_entries [OF 0(1) tidy_node [OF 0(2)] 0(3)])
    fix i m' assume h: "i < (512 :: nat)" "mphys m' = mphys m" "frames_wf (mframes m')"
      "frames_below own (mphys m) 0 (read_entry (mphys m) t i) \<subseteq> held m'"
    show "\<exists>m''. ?f i m' = Some m'' \<and> freed m' m'' (frames_below own (mphys m) 0 (read_entry (mphys m) t i))"
    proof (cases "valid (read_entry (mphys m) t i)")
      case True
      then show ?thesis
        using free_leaf [OF h(3), of 0 "read_entry (mphys m) t i"] h(2,4) by (simp add: valid_def Let_def)
    next
      case False
      then show ?thesis using h(2,3) by (simp add: valid_def Let_def freed_def)
    qed
  qed
  then show ?case by auto
next
  case (Suc d)
  let ?f = "\<lambda>index m. let entry = read_entry (mphys m) t index in
       if entry AND VALID = 0 then Some m
       else if entry AND TABLE_OR_PAGE \<noteq> 0 then free_table d (entry_frame entry) m
       else do {
         n \<leftarrow> leaf_frames (2 - d);
         fs \<leftarrow> free_contiguous (mframes m) (entry_frame entry) n;
         Some (m\<lparr>mframes := fs\<rparr>)
       }"
  have "\<exists>m' m''. for_each ?f [0..<ENTRIES] m = Some m' \<and>
      (do { fs \<leftarrow> free (mframes m') t; Some (m'\<lparr>mframes := fs\<rparr>) }) = Some m'' \<and>
      freed m m'' (table_frames own (mphys m) (Suc d) t)"
  proof (rule free_entries [OF Suc.prems(1) tidy_node [OF Suc.prems(2)] Suc.prems(3)])
    fix i m' assume h: "i < (512 :: nat)" "mphys m' = mphys m" "frames_wf (mframes m')"
      "frames_below own (mphys m) (Suc d) (read_entry (mphys m) t i) \<subseteq> held m'"
    let ?e = "read_entry (mphys m) t i"
    consider "\<not> valid ?e" | "is_table ?e" | "valid ?e" "\<not> is_table ?e" by blast
    then show "\<exists>m''. ?f i m' = Some m'' \<and> freed m' m'' (frames_below own (mphys m) (Suc d) ?e)"
    proof cases
      case 1
      then show ?thesis
        using h(2,3) below_not_valid [OF 1] by (simp add: valid_def Let_def freed_def del: frames_below.simps)
    next
      case 2
      then have "tidy own (mphys m') d (entry_frame ?e)"
        "table_frames own (mphys m') d (entry_frame ?e) \<subseteq> held m'"
        using Suc.prems(2) h(1,2,4) by (simp_all add: under_table del: frames_below.simps)
      with Suc.IH [OF h(3)] Suc.prems(4) 2 h(2) show ?thesis
        by (simp add: under_table is_table_def valid_def Let_def del: frames_below.simps)
    next
      case 3
      have "Suc d \<noteq> 3" using 3 Suc.prems(5) h(1) by (auto simp: no_root_leaf_def)
      then have "Suc d \<le> 2" using Suc.prems(4) by linarith
      moreover have "own (Suc d) ?e \<subseteq> held m'" using 3 h(4) by simp
      ultimately show ?thesis
        using free_leaf [OF h(3), of "Suc d" ?e] 3 h(2) by (simp add: is_table_def valid_def Let_def)
    qed
  qed
  then show ?case by auto
qed

section \<open>Mapping a page of a user space\<close>

lemma node_apart_no_leaf: "node_apart leaf p d t \<Longrightarrow> node_apart no_leaf p d t"
  unfolding node_apart_def
proof (intro conjI allI impI; elim conjE)
  fix i j assume h: "\<forall>i < 512. \<forall>j < 512. i \<noteq> j \<longrightarrow>
      frames_below leaf p d (read_entry p t i) \<inter> frames_below leaf p d (read_entry p t j) = {}"
    and ij: "i < 512" "j < 512" "i \<noteq> (j :: nat)"
  have "frames_below no_leaf p d (read_entry p t i) \<inter> frames_below no_leaf p d (read_entry p t j) \<subseteq>
      frames_below leaf p d (read_entry p t i) \<inter> frames_below leaf p d (read_entry p t j)"
    by (intro Int_mono below_no_leaf)
  also have "\<dots> = {}" using h ij by blast
  finally show "frames_below no_leaf p d (read_entry p t i) \<inter> frames_below no_leaf p d (read_entry p t j) = {}"
    by simp
qed (meson below_no_leaf subsetD)

lemma tidy_no_leaf: "tidy leaf p d t \<Longrightarrow> tidy no_leaf p d t"
  by (induction d arbitrary: t) (auto intro: node_apart_no_leaf)

lemma tree_ok_no_leaf: "tree_ok leaf m root \<Longrightarrow> tables_ok m root"
  using table_frames_no_leaf [of "mphys m" 3 root leaf] by (auto simp: tree_ok_def intro: tidy_no_leaf)

text \<open>A frame of RAM as the target of a leaf.\<close>

lemma held_small:
  assumes "frames_wf (mframes m)" "ram_addressable m" "f \<in> held m"
  shows "unat (addr f) < 2 ^ 48" "take_bit 12 (addr f) = 0"
proof -
  obtain i where i: "i < frame_count (mframes m)" "f = frame_of (mframes m) i"
    using held_index [OF assms(3)] by blast
  then show "unat (addr f) < 2 ^ 48"
    using wf_frame(2) [OF assms(1), of i] wf_count(1) [OF assms(1)] assms(2) by (simp add: ram_addressable_def)
  show "take_bit 12 (addr f) = 0" using tidy_aligned [OF assms(1,3)] by (simp add: frame_aligned_def)
qed

lemma map_range_page:
  "map_range m root va pa FRAME_SIZE attrs = map_page m root va pa attrs"
proof -
  have c: "\<not> BLOCK_2MIB \<le> FRAME_SIZE" "(0 :: u64) < FRAME_SIZE" "checked_add va 0 = Some va" "checked_add pa 0 = Some pa"
    "checked_add 0 PAGE_SIZE = Some FRAME_SIZE" "\<not> FRAME_SIZE < FRAME_SIZE"
    using unsigned_less [of va, where 'a = nat] unsigned_less [of pa, where 'a = nat]
    by (simp_all add: BLOCK_2MIB_def FRAME_SIZE_def PAGE_SIZE_def checked_add_def)
  have "map_from root va pa FRAME_SIZE attrs FRAME_SIZE m' = Some m'" for m'
    by (simp add: map_from.simps c(6))
  then show ?thesis
    unfolding map_range_def by (subst map_from.simps) (simp add: c bind_option_cong_code)
qed

lemma no_root_leaf_at:
  assumes "\<forall>va e. leaf_at p va 3 root \<noteq> Some (3, e)"
  shows "no_root_leaf p root"
  unfolding no_root_leaf_def
proof (intro allI impI)
  fix i assume i: "i < (512 :: nat)" "valid (read_entry p root i)"
  let ?va = "of_nat (i * 2 ^ 39) :: u64"
  have "i * 2 ^ 39 < 2 ^ 48" using i(1) by simp
  then have "low48 ?va = i * 2 ^ 39" by (rule low48_of_nat)
  then have "table_index ?va 0 = i" using i(1) by (simp only: table_index_low48) simp
  moreover have "leaf_at p ?va 3 root \<noteq> Some (3, read_entry p root i)" using assms by blast
  ultimately show "is_table (read_entry p root i)"
    using i(2) by (simp add: numeral_3_eq_3 Let_def split: if_splits)
qed

text \<open>What a user address space is: its frames are its own, and no block lies in the root.\<close>

definition space_ok :: "mach \<Rightarrow> frame \<Rightarrow> bool" where
  "space_ok m root \<longleftrightarrow> tree_ok own m root \<and> (\<forall>va e. leaf_at (mphys m) va 3 root \<noteq> Some (3, e))"

abbreviation space_frames :: "mach \<Rightarrow> frame \<Rightarrow> frame set" where
  "space_frames m root \<equiv> table_frames own (mphys m) 3 root"

definition page_added :: "mach \<Rightarrow> mach \<Rightarrow> frame \<Rightarrow> u64 \<Rightarrow> frame \<Rightarrow> attributes \<Rightarrow> bool" where
  "page_added m m' root va f attrs \<longleftrightarrow> space_ok m' root \<and> same_ram (mframes m) (mframes m') \<and>
     idle_frames m' \<subseteq> idle_frames m \<and> card (idle_frames m) \<le> card (idle_frames m') + 3 \<and>
     space_frames m' root = space_frames m root \<union> (idle_frames m - idle_frames m') \<union> {f} \<and>
     tables_of (mphys m') root = tables_of (mphys m) root \<union> (idle_frames m - idle_frames m') \<and>
     agree (mphys m) (mphys m') (- (tables_of (mphys m) root \<union> (idle_frames m - idle_frames m'))) \<and>
     (\<forall>a < 2 ^ 48. view (mphys m') root a =
       (if low48 va \<le> a \<and> a < low48 va + 4096 then Some (addr f + of_nat (a - low48 va), attr_bits attrs)
        else view (mphys m) root a) \<and>
       (lookup (mphys m') root (of_nat a) = None \<longleftrightarrow>
         \<not> (low48 va \<le> a \<and> a < low48 va + 4096) \<and> lookup (mphys m) root (of_nat a) = None))"

lemma space_map_page:
  assumes "space_ok m root" "f \<in> held m" "f \<notin> space_frames m root" "attr_ok attrs" "unat va mod 4096 = 0"
    "va < KERNEL_BASE" "lookup (mphys m) root (of_nat (low48 va)) = None" "3 \<le> card (idle_frames m)"
  shows "\<exists>m'. space_map m (AddressSpace root) va (addr f) FRAME_SIZE attrs = Some m' \<and>
    page_added m m' root va f attrs"
proof -
  let ?v = "addr f OR attr_bits attrs OR VALID OR TABLE_OR_PAGE"
  have ok: "tree_ok own m root" "frames_wf (mframes m)" "ram_addressable m"
    using assms(1) by (simp_all add: space_ok_def tree_ok_def)
  note small = held_small [OF ok(2,3) assms(2)]
  note fields = leaf_fields(1,2) [OF small(2,1) assms(4), of "VALID OR TABLE_OR_PAGE"]
  have leaf: "own 0 ?v = {f}" using fields(1) by (simp add: own_def entry_frame_def)
  have "leaf_at (mphys m) va 3 root = None"
    using assms(7) unfolding lookup_low48 by (simp add: lookup_leaf_at)
  then have way: "open_way leaf (mphys m) va 0 3 root" for leaf by (rule unmapped_open) simp
  have "own 0 ?v \<inter> (space_frames m root \<union> idle_frames m) = {}"
    using leaf assms(2,3) by (auto simp: held_def)
  from map_page_mapped [OF ok(1) way assms(8) refl this] obtain m' N where
    m': "map_page m root va (addr f) attrs = Some m'" "mapped own m m' root va 0 ?v N" by blast
  have "no_leaf 0 ?v \<inter> X = {}" for X by (simp add: no_leaf_def)
  from map_page_mapped [OF tree_ok_no_leaf [OF ok(1)] way assms(8) refl this] m'(1) obtain N' where
    N': "mapped no_leaf m m' root va 0 ?v N'" by auto
  have g: "grown own (mphys m) (mphys m') va 0 3 root N ?v" "N \<subseteq> idle_frames m" "card N \<le> 3"
    "idle_frames m' = idle_frames m - N" "same_ram (mframes m) (mframes m')"
    using m'(2) by (simp_all add: mapped_def)
  have fin: "finite (idle_frames m)" by (rule pool.finite_idle [OF ok(2)])
  have "range_mapped m m' root (low48 va) (2 ^ (12 + 9 * 0)) (addr f) attrs 3"
    using fields small(2) assms(5) low48_mod [of 12 va]
    by (intro mapped_range [OF N' tree_ok_no_leaf [OF ok(1)]]) simp_all
  then have r: "range_mapped m m' root (low48 va) 4096 (addr f) attrs 3" by simp
  have "tree_ok own m' root" using leaf assms(2) by (intro mapped_tree_ok [OF m'(2) ok(1)]) simp
  moreover have "leaf_at (mphys m') va' 3 root \<noteq> Some (3, e)" for va' e
    using g(1) assms(1) by (simp add: grown_def space_ok_def)
  moreover have "space_frames m' root = space_frames m root \<union> (idle_frames m - idle_frames m') \<union> {f}"
    using g leaf by (auto simp: grown_def)
  ultimately have "page_added m m' root va f attrs"
    using r by (simp add: page_added_def space_ok_def range_mapped_def)
  moreover have "space_map m (AddressSpace root) va (addr f) FRAME_SIZE attrs = Some m'"
    using assms(6) m'(1) by (simp add: space_map_def map_range_page)
  ultimately show ?thesis by blast
qed

section \<open>Building a space\<close>

lemma agree_one_frame:
  assumes "phys_offset p' = phys_offset p" "frame_aligned f"
    and "\<And>a. (\<forall>k < 4096. a \<noteq> addr f + of_nat k) \<Longrightarrow> pmem p' a = pmem p a"
  shows "agree p p' (- {f})"
  unfolding agree_def
proof (intro conjI ballI impI allI assms(1))
  fix s k assume "s \<in> - {f}" "frame_aligned s" "k < (4096 :: nat)"
  then show "pmem p' (addr s + of_nat k) = pmem p (addr s + of_nat k)"
    using other_frame [of s f k] assms(2) by (intro assms(3)) blast
qed

lemma agree_copy:
  assumes "frame_aligned f" "n \<le> 4096"
  shows "agree p (copy_nonoverlapping p src (phys_to_virt p (addr f)) n) (- {f})"
proof (rule agree_one_frame [OF _ assms(1)])
  fix a assume a: "\<forall>k < 4096. a \<noteq> addr f + of_nat k"
  have "\<not> unat (a - addr f) < n"
    using a in_frame_offset [of a f] assms(2) by auto
  then show "pmem (copy_nonoverlapping p src (phys_to_virt p (addr f)) n) a = pmem p a"
    by (simp add: copy_nonoverlapping_def)
qed simp

lemma agree_write64:
  assumes "frame_aligned f" "k + 8 \<le> 4096"
  shows "agree p (write_u64 p (phys_to_virt p (addr f + of_nat k)) v) (- {f})"
proof (rule agree_one_frame [OF _ assms(1)])
  fix a assume a: "\<forall>k < 4096. a \<noteq> addr f + of_nat k"
  have "\<not> unat (a - (addr f + of_nat k)) < 8"
  proof
    assume "unat (a - (addr f + of_nat k)) < 8"
    then have "k + unat (a - (addr f + of_nat k)) < 4096" using assms(2) by simp
    then have "a \<noteq> addr f + of_nat (k + unat (a - (addr f + of_nat k)))" using a by blast
    then show False by simp
  qed
  then show "pmem (write_u64 p (phys_to_virt p (addr f + of_nat k)) v) a = pmem p a"
    by (simp add: write_u64_def pmem_store_bytes)
qed simp

text \<open>A space is as it was when memory changes outside its tables.\<close>

lemma space_keep:
  assumes "space_ok m root" "agree (mphys m) (mphys m') S" "tables_of (mphys m) root \<subseteq> S"
    and "frames_wf (mframes m')" "same_ram (mframes m) (mframes m')" "idle_frames m' \<subseteq> idle_frames m"
  shows "space_ok m' root" "space_frames m' root = space_frames m root"
    "tables_of (mphys m') root = tables_of (mphys m) root"
    "view (mphys m') root = view (mphys m) root" "lookup (mphys m') root va = lookup (mphys m) root va"
proof -
  have ok: "tree_ok own m root" using assms(1) by (simp add: space_ok_def)
  have "root \<in> held m" using ok by (auto simp: tree_ok_def table_frames_def)
  then have al: "frame_aligned root" using ok tidy_aligned by (auto simp: tree_ok_def)
  note same = assms(2,3) al
  show frames: "space_frames m' root = space_frames m root"
    "tables_of (mphys m') root = tables_of (mphys m) root"
    by (rule table_frames_keep(1) [OF same])+
  show "view (mphys m') root = view (mphys m) root" "lookup (mphys m') root va = lookup (mphys m) root va"
    using leaf_at_keep [OF same] by (simp_all add: view_leaf_at lookup_leaf_at fun_eq_iff)
  have "ram_frames m' = ram_frames m" using same_ramD [OF assms(5)] by (simp add: ram_frames_def)
  then have "held m \<subseteq> held m'" using assms(6) by (auto simp: held_def)
  then show "space_ok m' root"
    using assms(1,4) frames tidy_keep [OF same] leaf_at_keep [OF same] same_ramD [OF assms(5)]
    by (auto simp: space_ok_def tree_ok_def ram_addressable_def)
qed

text \<open>A frame for the space, not yet part of it.\<close>

lemma alloc_beside:
  assumes "space_ok m root" "idle_frames m \<noteq> {}"
  shows "\<exists>f m'. alloc m = Some (Some f, m') \<and> f \<in> idle_frames m \<and> idle_frames m' = idle_frames m - {f} \<and>
    same_ram (mframes m) (mframes m') \<and> frames_wf (mframes m') \<and> f \<in> held m' \<and> frame_aligned f \<and>
    mphys m' = zero_frames (mphys m) f 1 \<and> agree (mphys m) (mphys m') (- {f}) \<and> f \<notin> space_frames m root"
proof -
  have ok: "frames_wf (mframes m)" "space_frames m root \<subseteq> held m"
    using assms(1) by (simp_all add: space_ok_def tree_ok_def)
  obtain f m' where f: "alloc m = Some (Some f, m')" "f \<in> idle_frames m" "f \<in> held m'"
    "idle_frames m' = idle_frames m - {f}" "frames_wf (mframes m')" "same_ram (mframes m) (mframes m')"
    "mphys m' = zero_frames (mphys m) f 1"
    using alloc_table [OF ok(1) assms(2)] by blast
  have "frame_aligned f" by (rule tidy_aligned [OF f(5,3)])
  then show ?thesis
    using f ok(2) agree_zero_frames [of f "mphys m"] by (intro exI [of _ f] exI [of _ m']) (auto simp: held_def)
qed

lemma space_remap: "mframes m' = mframes m \<Longrightarrow> idle_frames m' = idle_frames m \<and> held m' = held m"
  by (simp add: idle_frames_def held_def ram_frames_def)

text \<open>The bytes of a frame, and the frame of a byte.\<close>

definition page :: "phys \<Rightarrow> frame \<Rightarrow> u8 list" where
  "page p f = map (\<lambda>k. pmem p (addr f + of_nat k)) [0..<4096]"

definition frame_at :: "u64 \<Rightarrow> frame" where
  "frame_at a = Frame (push_bit 12 (drop_bit 12 a))"

lemma page_agree: "agree p p' S \<Longrightarrow> f \<in> S \<Longrightarrow> frame_aligned f \<Longrightarrow> page p' f = page p f"
  by (simp add: page_def agree_def del: upt.simps)

lemma agree_byte: "agree p p' S \<Longrightarrow> frame_at a \<in> S \<Longrightarrow> pmem p' a = pmem p a"
proof -
  assume h: "agree p p' S" "frame_at a \<in> S"
  have "frame_aligned (frame_at a)" by (simp add: frame_at_def frame_aligned_def take_bit_push_bit)
  moreover have "a = addr (frame_at a) + of_nat (unat (take_bit 12 a))"
    by (simp add: frame_at_def bits_ident)
  moreover have "unat (take_bit 12 a) < 4096" by (simp add: unsigned_take_bit_eq take_bit_nat_def)
  ultimately show "pmem p' a = pmem p a" using h unfolding agree_def by metis
qed

lemma source_bytes:
  assumes "agree p p' (- {f})" "f \<in> I" "\<And>k. k < n \<Longrightarrow> frame_at (kernel_pa p (start + of_nat k)) \<notin> I"
  shows "read_bytes p' start n = read_bytes p start n"
proof (rule read_bytes_cong)
  show "phys_offset p' = phys_offset p" using assms(1) by (simp add: agree_def)
  fix k assume "k < n"
  from assms(3) [OF this] have "frame_at (kernel_pa p start + of_nat k) \<notin> I"
    by (simp add: kernel_pa_def algebra_simps)
  then show "pmem p' (kernel_pa p start + of_nat k) = pmem p (kernel_pa p start + of_nat k)"
    using assms(2) by (intro agree_byte [OF assms(1)]) auto
qed

lemma frame_offset: "k < 4096 \<Longrightarrow> unat (addr f + of_nat k - addr f) = k"
  by (simp add: unat_of_nat_u64)

lemma page_zero: "page (zero_frames p f 1) f = replicate 4096 0"
  by (rule nth_equalityI) (simp_all add: page_def pmem_zero_frames frame_offset [simplified])

lemma page_copy:
  assumes "n \<le> 4096"
  shows "page (copy_nonoverlapping p src (phys_to_virt p (addr f)) n) f = read_bytes p src n @ drop n (page p f)"
proof (rule nth_equalityI)
  fix k assume "k < length (page (copy_nonoverlapping p src (phys_to_virt p (addr f)) n) f)"
  then have k: "k < 4096" by (simp add: page_def)
  have "kernel_pa p src + of_nat k = kernel_pa p (src + of_nat k)" by (simp add: kernel_pa_def)
  then show "page (copy_nonoverlapping p src (phys_to_virt p (addr f)) n) f ! k =
      (read_bytes p src n @ drop n (page p f)) ! k"
    using k assms frame_offset [OF k, of f]
    by (simp add: page_def copy_nonoverlapping_def nth_append read_bytes_def load_def del: upt.simps)
qed (use assms in \<open>simp add: page_def\<close>)

lemma page_write64:
  "page (write_u64 p (phys_to_virt p (addr f + 4088)) v) f = take 4088 (page p f) @ le_split 8 v"
proof (rule nth_equalityI)
  fix k assume "k < length (page (write_u64 p (phys_to_virt p (addr f + 4088)) v) f)"
  then have k: "k < 4096" by (simp add: page_def)
  have off: "unat (of_nat k - 4088 :: u64) = (if 4088 \<le> k then k - 4088 else 2 ^ 64 + k - 4088)"
    using k unat_sub_if_size [of "of_nat k :: u64" 4088] by (simp add: unat_of_nat_u64 word_size split: if_splits)
  show "page (write_u64 p (phys_to_virt p (addr f + 4088)) v) f ! k =
      (take 4088 (page p f) @ le_split 8 v) ! k"
    using k off by (auto simp: page_def write_u64_def pmem_store_bytes nth_append simp del: upt.simps)
qed (simp add: page_def)

text \<open>The program's page: allocated, filled and mapped, in a space that is empty so far.\<close>

lemma text_page_built:
  assumes "space_ok m root" "space_frames m root = {root}" "\<And>va. lookup (mphys m) root va = None"
    and "view (mphys m) root = (\<lambda>a. None)" "4 \<le> card (idle_frames m)" "n \<le> 4096"
    and "\<And>k. k < n \<Longrightarrow> frame_at (kernel_pa (mphys m) (start + of_nat k)) \<notin> idle_frames m"
  shows "\<exists>f m1 m'. alloc m = Some (Some f, m1) \<and>
    space_map (m1\<lparr>mphys := copy_nonoverlapping (mphys m1) start (phys_to_virt (mphys m1) (addr f)) n\<rparr>)
      (AddressSpace root) USER_TEXT_VA (addr f) FRAME_SIZE user_text = Some m' \<and>
    space_ok m' root \<and> same_ram (mframes m) (mframes m') \<and> idle_frames m' \<subseteq> idle_frames m \<and>
    card (idle_frames m) \<le> card (idle_frames m') + 4 \<and>
    space_frames m' root = {root} \<union> (idle_frames m - idle_frames m') \<and>
    f \<in> idle_frames m - idle_frames m' \<and> f \<notin> tables_of (mphys m') root \<and> frame_aligned f \<and>
    page (mphys m') f = read_bytes (mphys m) start n @ replicate (4096 - n) 0 \<and>
    agree (mphys m) (mphys m') (- ({root} \<union> idle_frames m)) \<and>
    (\<forall>a < 2 ^ 48. view (mphys m') root a =
       (if 0x400000 \<le> a \<and> a < 0x401000 then Some (addr f + of_nat (a - 0x400000), attr_bits user_text) else None) \<and>
     (lookup (mphys m') root (of_nat a) = None \<longleftrightarrow> \<not> (0x400000 \<le> a \<and> a < 0x401000)))"
proof -
  have fin: "finite (idle_frames m)" using assms(5) by (intro card_ge_0_finite) linarith
  have "idle_frames m \<noteq> {}" using assms(5) by auto
  from alloc_beside [OF assms(1) this] obtain f m1 where f: "alloc m = Some (Some f, m1)" "f \<in> idle_frames m"
    "idle_frames m1 = idle_frames m - {f}" "same_ram (mframes m) (mframes m1)" "frames_wf (mframes m1)"
    "f \<in> held m1" "frame_aligned f" "mphys m1 = zero_frames (mphys m) f 1" "agree (mphys m) (mphys m1) (- {f})"
    "f \<notin> space_frames m root" by blast
  define m2 where "m2 = m1\<lparr>mphys := copy_nonoverlapping (mphys m1) start (phys_to_virt (mphys m1) (addr f)) n\<rparr>"
  have m2: "mphys m2 = copy_nonoverlapping (mphys m1) start (phys_to_virt (mphys m1) (addr f)) n"
    "mframes m2 = mframes m1" by (simp_all add: m2_def)
  have agr: "agree (mphys m) (mphys m2) (- {f})"
    using agree_trans [OF f(9) agree_copy [OF f(7) assms(6)], of "- {f}"] m2(1) by simp
  have same: "idle_frames m2 = idle_frames m - {f}" "held m2 = held m1" using f(3) space_remap [of m2 m1] m2(2) by simp_all
  have tab: "tables_of (mphys m) root = {root}"
    using table_frames_no_leaf [of "mphys m" 3 root own] assms(2) by (auto simp: table_frames_def)
  have "tables_of (mphys m) root \<subseteq> - {f}" using f(10) assms(2) tab by simp
  note kept = space_keep [OF assms(1) agr this]
  have kept: "space_ok m2 root" "space_frames m2 root = {root}" "tables_of (mphys m2) root = {root}"
    "view (mphys m2) root = (\<lambda>a. None)" "lookup (mphys m2) root va = None" for va
    using kept f(4,5) same(1) assms(2-4) tab m2(2) by auto
  have card: "card (idle_frames m2) = card (idle_frames m) - 1" using f(2) same(1) by simp
  have va: "low48 USER_TEXT_VA = 0x400000" "unat USER_TEXT_VA mod 4096 = 0" "USER_TEXT_VA < KERNEL_BASE"
    by (simp_all add: low48_def USER_TEXT_VA_def KERNEL_BASE_def)
  have "f \<in> held m2" "f \<notin> space_frames m2 root" "3 \<le> card (idle_frames m2)"
    using f(6,10) same(2) kept(2) card assms(2,5) by simp_all
  from space_map_page [OF kept(1) this(1,2) attrs_ok(6) va(2,3) kept(5) this(3)] obtain m' where
    m': "space_map m2 (AddressSpace root) USER_TEXT_VA (addr f) FRAME_SIZE user_text = Some m'"
    "page_added m2 m' root USER_TEXT_VA f user_text" by blast
  note added = m'(2) [unfolded page_added_def kept(2-4) same(1) va(1)]
  have sub: "idle_frames m' \<subseteq> idle_frames m - {f}" "{root} \<union> (idle_frames m - {f} - idle_frames m') \<subseteq> {root} \<union> idle_frames m - {f}"
    using added f(10) assms(2) by auto
  have agr': "agree (mphys m2) (mphys m') (- ({root} \<union> (idle_frames m - {f} - idle_frames m')))"
    using added by blast
  have "page (mphys m') f = page (mphys m2) f"
    using sub(2) by (intro page_agree [OF agr' _ f(7)]) blast
  also have "\<dots> = read_bytes (mphys m1) start n @ replicate (4096 - n) 0"
    using page_copy [OF assms(6), of "mphys m1" start f] f(8) m2(1) page_zero [of "mphys m" f] by simp
  also have "read_bytes (mphys m1) start n = read_bytes (mphys m) start n"
    using f(9,2) assms(7) by (rule source_bytes)
  finally have page: "page (mphys m') f = read_bytes (mphys m) start n @ replicate (4096 - n) 0" .
  have "agree (mphys m) (mphys m') (- ({root} \<union> idle_frames m))"
    using f(2) by (intro agree_trans [OF agr agr']) auto
  moreover have "space_frames m' root = {root} \<union> (idle_frames m - idle_frames m')"
    using added f(2) sub(1) by blast
  moreover have "f \<notin> tables_of (mphys m') root"
    using added sub(2) by blast
  moreover have "card (idle_frames m - {f}) \<le> card (idle_frames m') + 3" using added by blast
  then have "card (idle_frames m) \<le> card (idle_frames m') + 4" using card same(1) by simp
  moreover have "space_ok m' root" "same_ram (mframes m) (mframes m')"
    using added f(4) m2(2) by (auto intro: same_ram_trans)
  moreover have "view (mphys m') root a =
      (if 0x400000 \<le> a \<and> a < 0x401000 then Some (addr f + of_nat (a - 0x400000), attr_bits user_text) else None) \<and>
      (lookup (mphys m') root (of_nat a) = None \<longleftrightarrow> \<not> (0x400000 \<le> a \<and> a < 0x401000))" if "a < 2 ^ 48" for a
    using added that kept(5) by simp
  ultimately show ?thesis using f(1,2,7) m'(1) [unfolded m2_def] page sub(1) by blast
qed

text \<open>The stack: mapped while it is zero, then the argument planted at its top.\<close>

lemma top_of_frame:
  assumes "frames_wf (mframes m)" "f \<in> held m"
    and "unat (phys_offset p) + unat (ram_base (mframes m)) + unat (ram_size (mframes m)) < 2 ^ 64"
  shows "checked_add (phys_to_virt p (addr f)) FRAME_SIZE = Some (phys_to_virt p (addr f) + FRAME_SIZE)"
proof -
  obtain i where i: "i < frame_count (mframes m)" "f = frame_of (mframes m) i"
    using held_index [OF assms(2)] by blast
  then have "unat (addr f) + 4096 \<le> unat (ram_base (mframes m)) + unat (ram_size (mframes m))"
    using wf_frame(2) [OF assms(1), of i] wf_count(1) [OF assms(1)] by simp
  moreover have "unat (phys_to_virt p (addr f)) \<le> unat (addr f) + unat (phys_offset p)"
    by (simp add: phys_to_virt_def unat_word_ariths(1))
  ultimately show ?thesis using assms(3) by (simp add: checked_add_def FRAME_SIZE_def)
qed

lemma stack_page_built:
  assumes "space_ok m root" "\<And>a. 0x7ff000 \<le> a \<Longrightarrow> a < 0x800000 \<Longrightarrow> lookup (mphys m) root (of_nat a) = None"
    and "4 \<le> card (idle_frames m)"
    and "unat (phys_offset (mphys m)) + unat (ram_base (mframes m)) + unat (ram_size (mframes m)) < 2 ^ 64"
  shows "\<exists>f m1 m2 m'. alloc m = Some (Some f, m1) \<and>
    space_map m1 (AddressSpace root) (USER_STACK_TOP - FRAME_SIZE) (addr f) FRAME_SIZE user_data = Some m2 \<and>
    checked_add (phys_to_virt (mphys m2) (addr f)) FRAME_SIZE = Some (phys_to_virt (mphys m2) (addr f) + FRAME_SIZE) \<and>
    m' = m2\<lparr>mphys := write_u64 (mphys m2) (phys_to_virt (mphys m2) (addr f) + FRAME_SIZE - USER_ARG_OFFSET) arg\<rparr> \<and>
    space_ok m' root \<and> same_ram (mframes m) (mframes m') \<and> idle_frames m' \<subseteq> idle_frames m \<and>
    card (idle_frames m) \<le> card (idle_frames m') + 4 \<and>
    space_frames m' root = space_frames m root \<union> (idle_frames m - idle_frames m') \<and>
    f \<in> idle_frames m - idle_frames m' \<and>
    page (mphys m') f = replicate 4088 0 @ le_split 8 arg \<and>
    agree (mphys m) (mphys m') (- (tables_of (mphys m) root \<union> idle_frames m)) \<and>
    (\<forall>a < 2 ^ 48. view (mphys m') root a =
       (if 0x7ff000 \<le> a \<and> a < 0x800000 then Some (addr f + of_nat (a - 0x7ff000), attr_bits user_data)
        else view (mphys m) root a))"
proof -
  have "idle_frames m \<noteq> {}" using assms(3) by auto
  from alloc_beside [OF assms(1) this] obtain f m1 where f: "alloc m = Some (Some f, m1)" "f \<in> idle_frames m"
    "idle_frames m1 = idle_frames m - {f}" "same_ram (mframes m) (mframes m1)" "frames_wf (mframes m1)"
    "f \<in> held m1" "frame_aligned f" "mphys m1 = zero_frames (mphys m) f 1" "agree (mphys m) (mphys m1) (- {f})"
    "f \<notin> space_frames m root" by blast
  have tab: "f \<notin> tables_of (mphys m) root" using f(10) table_frames_no_leaf by blast
  then have "tables_of (mphys m) root \<subseteq> - {f}" by simp
  note kept = space_keep [OF assms(1) f(9) this f(5,4)]
  have kept: "space_ok m1 root" "space_frames m1 root = space_frames m root"
    "tables_of (mphys m1) root = tables_of (mphys m) root"
    "view (mphys m1) root = view (mphys m) root" "lookup (mphys m1) root va = lookup (mphys m) root va" for va
    using kept f(3) by auto
  have card: "card (idle_frames m1) = card (idle_frames m) - 1" using f(2,3) by simp
  have va: "low48 (USER_STACK_TOP - FRAME_SIZE) = 0x7ff000" "unat (USER_STACK_TOP - FRAME_SIZE) mod 4096 = 0"
    "USER_STACK_TOP - FRAME_SIZE < KERNEL_BASE"
    by (simp_all add: low48_def USER_STACK_TOP_def FRAME_SIZE_def KERNEL_BASE_def)
  have "lookup (mphys m1) root (of_nat (low48 (USER_STACK_TOP - FRAME_SIZE))) = None"
    using assms(2) [of "0x7ff000"] kept(5) va(1) by simp
  moreover have "f \<notin> space_frames m1 root" "3 \<le> card (idle_frames m1)" using f(10) kept(2) card assms(3) by simp_all
  ultimately obtain m2 where
    m2: "space_map m1 (AddressSpace root) (USER_STACK_TOP - FRAME_SIZE) (addr f) FRAME_SIZE user_data = Some m2"
    "page_added m1 m2 root (USER_STACK_TOP - FRAME_SIZE) f user_data"
    using space_map_page [OF kept(1) f(6) _ attrs_ok(5) va(2,3)] by blast
  note added = m2(2) [unfolded page_added_def kept(2-4) f(3) va(1)]
  have fresh: "f \<notin> idle_frames m2" "f \<notin> tables_of (mphys m2) root" "idle_frames m2 \<subseteq> idle_frames m"
    using added tab by auto
  define m' where "m' = m2\<lparr>mphys := write_u64 (mphys m2)
    (phys_to_virt (mphys m2) (addr f) + FRAME_SIZE - USER_ARG_OFFSET) arg\<rparr>"
  have top: "phys_to_virt (mphys m2) (addr f) + FRAME_SIZE - USER_ARG_OFFSET = phys_to_virt (mphys m2) (addr f + 4088)"
    by (simp add: phys_to_virt_def FRAME_SIZE_def USER_ARG_OFFSET_def)
  have m': "mphys m' = write_u64 (mphys m2) (phys_to_virt (mphys m2) (addr f + 4088)) arg"
    "mframes m' = mframes m2" unfolding m'_def top by simp_all
  have idle: "idle_frames m' = idle_frames m2" by (rule space_remap [OF m'(2), THEN conjunct1])
  have agr': "agree (mphys m2) (mphys m') (- {f})"
    using agree_write64 [OF f(7), of 4088 "mphys m2" arg] m'(1) by simp
  have ok: "space_ok m2 root" using added by blast
  have "tables_of (mphys m2) root \<subseteq> - {f}" using fresh(2) by simp
  note kept' = space_keep [OF ok agr' this]
  have wf2: "frames_wf (mframes m2)" using ok by (simp add: space_ok_def tree_ok_def)
  have kept': "space_ok m' root" "space_frames m' root = space_frames m2 root" "view (mphys m') root = view (mphys m2) root"
    using kept' wf2 idle m'(2) by auto
  have agr: "agree (mphys m1) (mphys m2) (- (tables_of (mphys m) root \<union> (idle_frames m - {f} - idle_frames m2)))"
    using added by blast
  have "page (mphys m2) f = page (mphys m1) f" using tab by (intro page_agree [OF agr _ f(7)]) simp
  then have page: "page (mphys m') f = replicate 4088 0 @ le_split 8 arg"
    using page_write64 [of "mphys m2" f arg] m'(1) f(8) page_zero [of "mphys m" f] by simp
  have "agree (mphys m) (mphys m2) (- (tables_of (mphys m) root \<union> idle_frames m))"
    using f(2) by (intro agree_trans [OF f(9) agr]) auto
  then have "agree (mphys m) (mphys m') (- (tables_of (mphys m) root \<union> idle_frames m))"
    using f(2) by (intro agree_trans [OF _ agr', of "mphys m"]) auto
  moreover have "card (idle_frames m - {f}) \<le> card (idle_frames m2) + 3" using added by blast
  then have "card (idle_frames m) \<le> card (idle_frames m') + 4" using card f(3) idle by simp
  moreover have "space_frames m' root = space_frames m root \<union> (idle_frames m - idle_frames m')"
    using added f(2) fresh(1) unfolding kept'(2) idle by blast
  moreover have ram: "same_ram (mframes m) (mframes m2)" using added f(4) by (auto intro: same_ram_trans)
  then have "same_ram (mframes m) (mframes m')" using m'(2) by simp
  moreover have "f \<in> held m2"
    using held_after [OF _ ram _, of "idle_frames m - idle_frames m2"] assms(1) f(2) fresh(1,3)
    by (auto simp: space_ok_def tree_ok_def)
  then have "checked_add (phys_to_virt (mphys m2) (addr f)) FRAME_SIZE = Some (phys_to_virt (mphys m2) (addr f) + FRAME_SIZE)"
    using assms(4) same_ramD [OF ram] f(9) agr by (intro top_of_frame [OF wf2]) (simp_all add: agree_def)
  moreover have "f \<in> idle_frames m - idle_frames m'" "idle_frames m' \<subseteq> idle_frames m"
    using f(2) fresh idle by simp_all
  moreover have "view (mphys m') root a =
      (if 0x7ff000 \<le> a \<and> a < 0x800000 then Some (addr f + of_nat (a - 0x7ff000), attr_bits user_data)
       else view (mphys m) root a)" if "a < 2 ^ 48" for a
    using added that unfolding kept'(3) by simp
  ultimately show ?thesis using f(1) m2(1) m'_def page kept'(1) by blast
qed

text \<open>What EL0 sees of a new space: two pages, and nothing else.\<close>

definition user_view :: "frame \<Rightarrow> frame \<Rightarrow> nat \<Rightarrow> (u64 \<times> u64) option" where
  "user_view code stack a =
     (if 0x400000 \<le> a \<and> a < 0x401000 then Some (addr code + of_nat (a - 0x400000), attr_bits user_text)
      else if 0x7ff000 \<le> a \<and> a < 0x800000 then Some (addr stack + of_nat (a - 0x7ff000), attr_bits user_data)
      else None)"

text \<open>When a program can be loaded: it fits, there are frames, and it is not in one of them.\<close>

definition loadable :: "mach \<Rightarrow> u64 \<Rightarrow> u64 \<Rightarrow> bool" where
  "loadable m start fin \<longleftrightarrow> frames_wf (mframes m) \<and> ram_addressable m \<and> 9 \<le> free_frames (mframes m) \<and>
     start \<le> fin \<and> unat (fin - start) \<le> 4096 \<and>
     (\<forall>k < unat (fin - start). frame_at (kernel_pa (mphys m) (start + of_nat k)) \<notin> idle_frames m) \<and>
     unat (phys_offset (mphys m)) + unat (ram_base (mframes m)) + unat (ram_size (mframes m)) < 2 ^ 64"

lemma user_space_built:
  assumes "loadable m start fin"
  shows "\<exists>root code stack m'. build_user_space start fin arg m = Some (AddressSpace root, m') \<and>
    space_ok m' root \<and> same_ram (mframes m) (mframes m') \<and> idle_frames m' \<subseteq> idle_frames m \<and>
    space_frames m' root = idle_frames m - idle_frames m' \<and>
    card (idle_frames m) \<le> card (idle_frames m') + 9 \<and>
    agree (mphys m) (mphys m') (- idle_frames m) \<and>
    (\<forall>a < 2 ^ 48. view (mphys m') root a = user_view code stack a) \<and>
    page (mphys m') code =
      read_bytes (mphys m) start (unat (fin - start)) @ replicate (4096 - unat (fin - start)) 0 \<and>
    page (mphys m') stack = replicate 4088 0 @ le_split 8 arg"
proof -
  let ?n = "unat (fin - start)"
  have h: "frames_wf (mframes m)" "ram_addressable m" "9 \<le> card (idle_frames m)" "start \<le> fin" "?n \<le> 4096"
    "\<And>k. k < ?n \<Longrightarrow> frame_at (kernel_pa (mphys m) (start + of_nat k)) \<notin> idle_frames m"
    "unat (phys_offset (mphys m)) + unat (ram_base (mframes m)) + unat (ram_size (mframes m)) < 2 ^ 64"
    using assms card_idle_frames [of m] by (simp_all add: loadable_def)
  have "idle_frames m \<noteq> {}" using h(3) by auto
  from new_root [OF h(1,2) this] obtain root m1 where r: "alloc m = Some (Some root, m1)" "root \<in> idle_frames m"
    "idle_frames m1 = idle_frames m - {root}" "same_ram (mframes m) (mframes m1)"
    "agree (mphys m) (mphys m1) (- {root})" "tree_ok own m1 root" "space_frames m1 root = {root}"
    "\<And>va. lookup (mphys m1) root va = None" "view (mphys m1) root = (\<lambda>a. None)" by blast
  have "leaf_at (mphys m1) va 3 root = None" for va using r(8) [of va] by (simp add: lookup_leaf_at)
  then have ok: "space_ok m1 root" using r(6) by (simp add: space_ok_def)
  have card: "card (idle_frames m1) = card (idle_frames m) - 1" using r(2,3) by simp
  then have "4 \<le> card (idle_frames m1)" using h(3) by simp
  moreover have off: "phys_offset (mphys m1) = phys_offset (mphys m)" using r(5) by (simp add: agree_def)
  then have src: "frame_at (kernel_pa (mphys m1) (start + of_nat k)) \<notin> idle_frames m1" if "k < ?n" for k
    using h(6) [OF that] r(3) by (simp add: kernel_pa_def)
  ultimately obtain code m2 m3 where
    c: "alloc m1 = Some (Some code, m2)"
    "space_map (m2\<lparr>mphys := copy_nonoverlapping (mphys m2) start (phys_to_virt (mphys m2) (addr code)) ?n\<rparr>)
      (AddressSpace root) USER_TEXT_VA (addr code) FRAME_SIZE user_text = Some m3"
    "space_ok m3 root" "same_ram (mframes m1) (mframes m3)" "idle_frames m3 \<subseteq> idle_frames m1"
    "card (idle_frames m1) \<le> card (idle_frames m3) + 4"
    "space_frames m3 root = {root} \<union> (idle_frames m1 - idle_frames m3)"
    "code \<in> idle_frames m1 - idle_frames m3" "code \<notin> tables_of (mphys m3) root" "frame_aligned code"
    "page (mphys m3) code = read_bytes (mphys m1) start ?n @ replicate (4096 - ?n) 0"
    "agree (mphys m1) (mphys m3) (- ({root} \<union> idle_frames m1))"
    "\<And>a. a < 2 ^ 48 \<Longrightarrow> view (mphys m3) root a =
       (if 0x400000 \<le> a \<and> a < 0x401000 then Some (addr code + of_nat (a - 0x400000), attr_bits user_text) else None)"
    "\<And>a. a < 2 ^ 48 \<Longrightarrow> (lookup (mphys m3) root (of_nat a) = None \<longleftrightarrow> \<not> (0x400000 \<le> a \<and> a < 0x401000))"
    using text_page_built [OF ok r(7,8,9) _ h(5) src] by metis
  have ram3: "same_ram (mframes m) (mframes m3)" using r(4) c(4) by (rule same_ram_trans)
  have "phys_offset (mphys m3) = phys_offset (mphys m)" using c(12) off by (simp add: agree_def)
  then have fits: "unat (phys_offset (mphys m3)) + unat (ram_base (mframes m3)) + unat (ram_size (mframes m3)) < 2 ^ 64"
    using h(7) same_ramD [OF ram3] by simp
  have free: "lookup (mphys m3) root (of_nat a) = None" if "0x7ff000 \<le> a" "a < 0x800000" for a
    using c(14) [of a] that by simp
  have "4 \<le> card (idle_frames m3)" using c(6) card h(3) by simp
  from stack_page_built [OF c(3) free this fits, where arg = arg] obtain stack m4 m5 m6 where
    d: "alloc m3 = Some (Some stack, m4)"
    "space_map m4 (AddressSpace root) (USER_STACK_TOP - FRAME_SIZE) (addr stack) FRAME_SIZE user_data = Some m5"
    "checked_add (phys_to_virt (mphys m5) (addr stack)) FRAME_SIZE = Some (phys_to_virt (mphys m5) (addr stack) + FRAME_SIZE)"
    "m6 = m5\<lparr>mphys := write_u64 (mphys m5) (phys_to_virt (mphys m5) (addr stack) + FRAME_SIZE - USER_ARG_OFFSET) arg\<rparr>"
    "space_ok m6 root" "same_ram (mframes m3) (mframes m6)" "idle_frames m6 \<subseteq> idle_frames m3"
    "card (idle_frames m3) \<le> card (idle_frames m6) + 4"
    "space_frames m6 root = space_frames m3 root \<union> (idle_frames m3 - idle_frames m6)"
    "page (mphys m6) stack = replicate 4088 0 @ le_split 8 arg"
    "agree (mphys m3) (mphys m6) (- (tables_of (mphys m3) root \<union> idle_frames m3))"
    "\<And>a. a < 2 ^ 48 \<Longrightarrow> view (mphys m6) root a =
       (if 0x7ff000 \<le> a \<and> a < 0x800000 then Some (addr stack + of_nat (a - 0x7ff000), attr_bits user_data)
        else view (mphys m3) root a)"
    by blast
  have "checked_sub fin start = Some (fin - start)" "fin - start \<le> FRAME_SIZE"
    using h(4,5) by (simp_all add: checked_sub_def word_le_nat_alt FRAME_SIZE_def)
  then have "build_user_space start fin arg m = Some (AddressSpace root, m6)"
    using r(1) c(1,2) d(1-4) by (simp add: build_user_space_def address_space_new_def)
  moreover have "space_frames m6 root = idle_frames m - idle_frames m6"
    using d(7,9) c(5,7) r(2,3) by auto
  moreover have "agree (mphys m) (mphys m6) (- idle_frames m)"
  proof -
    have tab: "tables_of (mphys m3) root \<subseteq> idle_frames m"
      using r(2,3) by (intro order_trans [OF table_frames_no_leaf [of "mphys m3" 3 root own]]) (auto simp: c(7))
    have "agree (mphys m) (mphys m3) (- idle_frames m)"
      using r(2,3) by (intro agree_trans [OF r(5) c(12)]) auto
    then show ?thesis using tab c(5) r(3) by (intro agree_trans [OF _ d(11)]) auto
  qed
  moreover have "page (mphys m6) code = read_bytes (mphys m) start ?n @ replicate (4096 - ?n) 0"
  proof -
    have "page (mphys m6) code = page (mphys m3) code" using c(8,9) by (intro page_agree [OF d(11) _ c(10)]) simp
    moreover have "read_bytes (mphys m1) start ?n = read_bytes (mphys m) start ?n"
      using r(5,2) h(6) by (rule source_bytes)
    ultimately show ?thesis using c(11) by simp
  qed
  moreover have "view (mphys m6) root a = user_view code stack a" if "a < 2 ^ 48" for a
    using c(13) [OF that] d(12) [OF that] by (simp add: user_view_def)
  moreover have "same_ram (mframes m) (mframes m6)" using ram3 d(6) by (rule same_ram_trans)
  moreover have "card (idle_frames m) \<le> card (idle_frames m6) + 9" using card c(6) d(8) by simp
  moreover have "idle_frames m6 \<subseteq> idle_frames m" using d(7) c(5) r(3) by blast
  ultimately show ?thesis using d(5,10) by blast
qed

section \<open>Properties\<close>

text \<open>
  C10. What \<open>build_user_space\<close> gives EL0. For a program of at most a page, of which no byte lies in a
  frame that is still free, and with nine frames to spare, a new address space comes back: its map is
  exactly two pages, the program read-only and executable at \<open>USER_TEXT_VA\<close> and a stack below
  \<open>USER_STACK_TOP\<close>; the first holds the bytes of the program and then zeros, the second zeros up to the
  argument in its last word, so no byte of an earlier owner shows through. Every frame taken from the
  allocator is a frame of this space, and nothing outside the frames it took was written.
\<close>

theorem build_user_space_exact:
  assumes "loadable m start fin"
  shows "\<exists>root code stack m'. build_user_space start fin arg m = Some (AddressSpace root, m') \<and>
    (\<forall>a < 2 ^ 48. view (mphys m') root a = user_view code stack a) \<and>
    page (mphys m') code =
      read_bytes (mphys m) start (unat (fin - start)) @ replicate (4096 - unat (fin - start)) 0 \<and>
    page (mphys m') stack = replicate 4088 0 @ le_split 8 arg \<and>
    space_frames m' root = idle_frames m - idle_frames m' \<and>
    card (idle_frames m) \<le> card (idle_frames m') + 9 \<and>
    agree (mphys m) (mphys m') (- idle_frames m)"
  using user_space_built [OF assms, of arg] by blast

text \<open>
  C11. Nothing leaks: building an address space for a program and destroying it gives back exactly the
  frames it took. Neither panics, the allocator is well formed and has the same frames free as before,
  and the memory of every frame that was in use is as it was.
\<close>

theorem build_then_destroy:
  assumes "loadable m start fin"
  shows "\<exists>space m1 m2. build_user_space start fin arg m = Some (space, m1) \<and>
    space_destroy m1 space = Some m2 \<and> frames_wf (mframes m2) \<and> same_ram (mframes m) (mframes m2) \<and>
    idle_frames m2 = idle_frames m \<and> free_frames (mframes m2) = free_frames (mframes m) \<and>
    agree (mphys m) (mphys m2) (- idle_frames m)"
proof -
  obtain root m1 where b: "build_user_space start fin arg m = Some (AddressSpace root, m1)" "space_ok m1 root"
    "same_ram (mframes m) (mframes m1)" "idle_frames m1 \<subseteq> idle_frames m"
    "space_frames m1 root = idle_frames m - idle_frames m1" "agree (mphys m) (mphys m1) (- idle_frames m)"
    using user_space_built [OF assms, of arg] by blast
  have wf: "frames_wf (mframes m)" using assms by (simp add: loadable_def)
  have ok: "frames_wf (mframes m1)" "tidy own (mphys m1) 3 root" "space_frames m1 root \<subseteq> held m1"
    "no_root_leaf (mphys m1) root"
    using b(2) by (auto simp: space_ok_def tree_ok_def intro: no_root_leaf_at)
  then obtain m2 where m2: "free_table 3 root m1 = Some m2" "freed m1 m2 (space_frames m1 root)"
    using free_table_frees [OF ok(1-3)] by auto
  then have "idle_frames m2 = idle_frames m" "frames_wf (mframes m2)" "same_ram (mframes m1) (mframes m2)"
    "mphys m2 = mphys m1"
    using b(4,5) by (auto simp: freed_def)
  moreover from this have "free_frames (mframes m2) = free_frames (mframes m)"
    using card_idle_frames [OF wf] card_idle_frames [of m2] by simp
  ultimately show ?thesis
    using b(1,3,6) m2(1) by (auto simp: space_destroy_def intro: same_ram_trans)
qed

section \<open>Witnesses\<close>

text \<open>A program of sixteen bytes inside the kernel image of the boot machine.\<close>

lemma boot_loadable: "loadable boot_mach 0xffff000040080000 0xffff000040080010"
proof -
  have wf: "frames_wf (mframes boot_mach)" using boot_frames_init by simp
  have "free_frames boot_frames = 65280"
    using card_idle_frames [OF wf] wf_free [OF wf] boot_frames_init by (simp add: free_frames_def)
  moreover have "frame_at (kernel_pa (mphys boot_mach) (0xffff000040080000 + of_nat k)) \<notin> idle_frames boot_mach"
    if "k < 16" for k
  proof -
    have "kernel_pa (mphys boot_mach) (0xffff000040080000 + of_nat k) = 0x40080000 + of_nat k"
      by (simp add: kernel_pa_def)
    moreover have "drop_bit 12 (0x40080000 + of_nat k :: u64) = drop_bit 12 0x40080000"
      by (rule drop_bit_add_offset) (use that in simp_all)
    ultimately have at: "frame_at (kernel_pa (mphys boot_mach) (0xffff000040080000 + of_nat k)) = Frame 0x40080000"
      by (simp add: frame_at_def)
    have other: "addr (frame_of boot_frames i) \<noteq> 0x40080000" if "256 \<le> i" "i < 65536" for i
    proof
      assume "addr (frame_of boot_frames i) = 0x40080000"
      then have "unat (addr (frame_of boot_frames i)) = 0x40080000" by simp
      then show False using wf_frame(2) [OF wf, of i] boot_frames_init that by simp
    qed
    have "Frame 0x40080000 \<notin> frame_of boot_frames ` {256..<65536}"
    proof
      assume "Frame 0x40080000 \<in> frame_of boot_frames ` {256..<65536}"
      then show False
      proof (rule imageE)
        fix i assume "Frame 0x40080000 = frame_of boot_frames i" "i \<in> {256..<65536}"
        then show False using other [of i] by (metis atLeastLessThan_iff frame.sel)
      qed
    qed
    then show ?thesis unfolding at idle_frames_def boot_mach_simps(1) boot_frames_init(5) .
  qed
  moreover have "unat (ram_size boot_frames) = 4096 * 65536"
    using wf_count(1) [OF wf] boot_frames_init(4) by simp
  ultimately show ?thesis
    using wf boot_addressable boot_frames_init(3) by (simp add: loadable_def)
qed

theorem build_user_space_exact_witness:
  "\<exists>root code stack m'.
     build_user_space 0xffff000040080000 0xffff000040080010 7 boot_mach = Some (AddressSpace root, m') \<and>
     view (mphys m') root 0x400123 = Some (addr code + 0x123, attr_bits user_text) \<and>
     view (mphys m') root 0x401000 = None \<and>
     view (mphys m') root 0x7ffff8 = Some (addr stack + 0xff8, attr_bits user_data) \<and>
     length (page (mphys m') code) = 4096 \<and> drop 4088 (page (mphys m') stack) = [7, 0, 0, 0, 0, 0, 0, 0]"
proof -
  obtain root code stack m' where b:
    "build_user_space 0xffff000040080000 0xffff000040080010 7 boot_mach = Some (AddressSpace root, m')"
    "\<forall>a < 2 ^ 48. view (mphys m') root a = user_view code stack a"
    "page (mphys m') stack = replicate 4088 0 @ le_split 8 (7 :: u64)"
    using build_user_space_exact [OF boot_loadable, of 7] by blast
  have "le_split 8 (7 :: u64) = [7, 0, 0, 0, 0, 0, 0, 0]" by code_simp
  then have "drop 4088 (page (mphys m') stack) = [7, 0, 0, 0, 0, 0, 0, 0]" using b(3) by simp
  moreover have "length (page (mphys m') code) = 4096" by (simp add: page_def)
  moreover have "view (mphys m') root 0x400123 = Some (addr code + 0x123, attr_bits user_text)"
    "view (mphys m') root 0x401000 = None"
    "view (mphys m') root 0x7ffff8 = Some (addr stack + 0xff8, attr_bits user_data)"
    using b(2) [rule_format, of "0x400123"] b(2) [rule_format, of "0x401000"] b(2) [rule_format, of "0x7ffff8"]
    by (simp_all add: user_view_def)
  ultimately show ?thesis using b(1) by blast
qed

theorem build_then_destroy_witness:
  "\<exists>space m1 m2. build_user_space 0xffff000040080000 0xffff000040080010 7 boot_mach = Some (space, m1) \<and>
     space_destroy m1 space = Some m2 \<and> free_frames (mframes m2) = free_frames boot_frames"
  using build_then_destroy [OF boot_loadable, of 7] by auto

end
