(* ===== verification/Handshake.thy ===== *)
theory Handshake
  imports Queue_Rings
begin

text \<open>
  The feature handshake of a virtio device (\<open>Transport::negotiate\<close>): the accesses it makes, in their
  order, whatever the device answers. Nothing is assumed about the device except that it leaves
  reset, which the standard requires of it and without which the driver spins for ever.
\<close>

section \<open>A poll that ends\<close>

text \<open>A device that gives in does so as well while its accesses are recorded.\<close>

lemma poll_traced:
  assumes "poll hw p va ok d = Some d'"
  shows "\<exists>busy v. poll (traced hw) p va ok (d, t) = Some (d', t @ map (Read (kernel_pa p va)) (busy @ [v])) \<and>
    (\<forall>u \<in> set busy. \<not> ok u) \<and> ok v"
  using assms
proof (induction arbitrary: t rule: poll.raw_induct [rotated, consumes 1, case_names again])
  case (again f hw p va ok d d')
  obtain v d1 where r: "mmio_read hw p va d = (v, d1)" by fastforce
  show ?case
  proof (cases "ok v")
    case True
    with again(2) r show ?thesis
      by (subst poll.simps) (intro exI [of _ "[]"] exI [of _ v], simp)
  next
    case False
    with again(2) r have "f hw p va ok d1 = Some d'" by simp
    from again(1) [OF this, of "t @ [Read (kernel_pa p va) v]"] obtain busy u where
      "poll (traced hw) p va ok (d1, t @ [Read (kernel_pa p va) v]) =
        Some (d', t @ map (Read (kernel_pa p va)) ((v # busy) @ [u]))"
      "\<forall>u \<in> set busy. \<not> ok u" "ok u" by auto
    with False r show ?thesis
      by (subst poll.simps) (intro exI [of _ "v # busy"] exI [of _ u], simp)
  qed
qed

section \<open>The parts of the handshake\<close>

definition status_at :: "transport \<Rightarrow> u64" where "status_at t = tr_base t + 0x70"

definition reset_trace :: "transport \<Rightarrow> u32 list \<Rightarrow> access list" where
  "reset_trace t busy = Write (status_at t) 0 # map (Read (status_at t)) (busy @ [0])"

definition features_trace :: "transport \<Rightarrow> u32 \<Rightarrow> u32 \<Rightarrow> access list" where
  "features_trace t high low =
     [Write (tr_base t + 0x14) 1, Read (tr_base t + 0x10) high,
      Write (tr_base t + 0x14) 0, Read (tr_base t + 0x10) low]"

definition accept_trace :: "transport \<Rightarrow> u64 \<Rightarrow> u32 \<Rightarrow> access list" where
  "accept_trace t agreed status =
     [Write (tr_base t + 0x24) 1, Write (tr_base t + 0x20) (ucast (drop_bit 32 agreed)),
      Write (tr_base t + 0x24) 0, Write (tr_base t + 0x20) (ucast agreed),
      Write (status_at t) 11, Read (status_at t) status]"

lemmas transport_traced = transport_write_traced transport_read_traced

lemma reset_traced:
  assumes "unat (tr_base t) + 256 < 2 ^ 64"
    and "poll hw p (phys_to_virt p (status_at t)) (\<lambda>v. v = 0) (hw_write hw (status_at t) 0 d) = Some d0"
  shows "\<exists>busy. transport_reset (traced hw) p t (d, xs) = Some (d0, xs @ reset_trace t busy) \<and> 0 \<notin> set busy"
proof -
  obtain busy where "0 \<notin> set busy"
    "poll (traced hw) p (phys_to_virt p (status_at t)) (\<lambda>v. v = 0)
      (hw_write hw (status_at t) 0 d, xs @ [Write (status_at t) 0]) =
       Some (d0, (xs @ [Write (status_at t) 0]) @ map (Read (status_at t)) (busy @ [0]))"
    using poll_traced [OF assms(2), of "xs @ [Write (status_at t) 0]"] by auto
  moreover have "checked_add (tr_base t) STATUS = Some (status_at t)"
    using assms(1) by (simp add: checked_add_def STATUS_def status_at_def)
  ultimately show ?thesis
    using assms(1)
    by (intro exI [of _ busy])
      (simp add: transport_reset_def transport_write_traced STATUS_def reset_trace_def status_at_def [symmetric])
qed

lemma device_features_traced:
  assumes "unat (tr_base t) + 256 < 2 ^ 64"
  shows "\<exists>high low d'. device_features (traced hw) p t (d, xs) =
    Some (push_bit 32 (ucast high) OR ucast low, d', xs @ features_trace t high low)"
proof -
  let ?d1 = "hw_write hw (tr_base t + 0x14) 1 d"
  obtain high d2 where h: "hw_read hw (tr_base t + 0x10) ?d1 = (high, d2)" by fastforce
  let ?d3 = "hw_write hw (tr_base t + 0x14) 0 d2"
  obtain low d4 where l: "hw_read hw (tr_base t + 0x10) ?d3 = (low, d4)" by fastforce
  show ?thesis
    by (rule exI [where x = high], rule exI [where x = low], rule exI [where x = d4])
      (simp add: device_features_def transport_write_traced [OF assms] transport_read_traced [OF assms _ h]
        transport_read_traced [OF assms _ l] DEVICE_FEATURES_SEL_def
        DEVICE_FEATURES_def features_trace_def)
qed

lemma set_driver_features_traced:
  assumes "unat (tr_base t) + 256 < 2 ^ 64"
  shows "\<exists>d'. set_driver_features (traced hw) p t f (d, xs) =
    Some (d', xs @ take 4 (accept_trace t f status))"
  by (simp add: set_driver_features_def transport_write_traced [OF assms] DRIVER_FEATURES_SEL_def DRIVER_FEATURES_def
      accept_trace_def)

lemma version_1_offered:
  "(push_bit 32 (ucast (high :: u32)) OR ucast (low :: u32) :: u64) AND VIRTIO_F_VERSION_1 = 0 \<longleftrightarrow> \<not> bit high 0"
proof -
  have "(x :: u64) AND VIRTIO_F_VERSION_1 = 0 \<longleftrightarrow> \<not> bit x 32" for x
    unfolding VIRTIO_F_VERSION_1_def push_bit_eq_mult mult_1_left by (rule and_exp_eq_0_iff_not_bit)
  moreover have "\<not> bit low 32" by (auto dest: bit_imp_le_length)
  ultimately show ?thesis by (simp add: bit_simps)
qed

text \<open>The second half of the handshake, once version 1 is known to be offered.\<close>

lemma accept_traced:
  assumes "unat (tr_base t) + 256 < 2 ^ 64"
  shows "\<exists>status d'. do {
       d \<leftarrow> set_driver_features (traced hw) p t agreed (d, xs);
       d \<leftarrow> transport_write (traced hw) p t STATUS 11 d;
       (status, d) \<leftarrow> transport_read (traced hw) p t STATUS d;
       if status AND STATUS_FEATURES_OK = 0 then do {
         d \<leftarrow> transport_write (traced hw) p t STATUS STATUS_FAILED d;
         Some (Inl FeaturesRefused, d)
       }
       else Some (Inr agreed, d)
     } = Some (if status AND STATUS_FEATURES_OK = 0 then Inl FeaturesRefused else Inr agreed, d',
       xs @ accept_trace t agreed status @
         (if status AND STATUS_FEATURES_OK = 0 then [Write (status_at t) 128] else []))"
proof -
  note tw = transport_write_traced [OF assms]
  have st: "tr_base t + STATUS = status_at t" "unat STATUS \<le> 256" by (simp_all add: STATUS_def status_at_def)
  obtain d4 where g: "\<And>status. set_driver_features (traced hw) p t agreed (d, xs) =
      Some (d4, xs @ take 4 (accept_trace t agreed status))"
    using set_driver_features_traced [OF assms, of hw p agreed d xs] by (auto simp: accept_trace_def)
  obtain status d5 where r: "hw_read hw (status_at t) (hw_write hw (status_at t) 11 d4) = (status, d5)"
    by fastforce
  have acc: "accept_trace t agreed status = take 4 (accept_trace t agreed status) @
      [Write (status_at t) 11, Read (status_at t) status]" by (simp add: accept_trace_def)
  have "transport_read (traced hw) p t STATUS
      (hw_write hw (status_at t) 11 d4, xs @ take 4 (accept_trace t agreed status) @ [Write (status_at t) 11]) =
    Some (status, d5, xs @ accept_trace t agreed status)"
    using transport_read_traced [OF assms st(2), of hw] r by (subst acc) (simp add: st)
  then show ?thesis
    by (intro exI [where x = status] exI [where x = "if status AND STATUS_FEATURES_OK = 0
          then hw_write hw (status_at t) 128 d5 else d5"])
      (simp add: g [of status] tw st STATUS_FAILED_def)
qed

section \<open>Properties\<close>

text \<open>
  C21. The handshake with a device, access by access. If the device leaves reset, \<open>negotiate\<close> returns,
  whatever else the device answers: it resets the device and waits for the status to read zero,
  acknowledges it, reads both halves of the features offered, and then either marks the device failed
  because it does not offer version 1, or writes both halves of exactly the features that are offered and
  wanted (version 1 always among them), sets \<open>FEATURES_OK\<close> and reads it back; a device that cleared
  it is marked failed. The answer is the features agreed on just when the device kept the bit.
\<close>

theorem negotiate_handshake:
  assumes "unat (tr_base t) + 256 < 2 ^ 64"
    and "poll hw p (phys_to_virt p (status_at t)) (\<lambda>v. v = 0) (hw_write hw (status_at t) 0 d) = Some d0"
  shows "\<exists>busy high low status agreed d'.
    agreed = (push_bit 32 (ucast high) OR ucast low) AND (wanted OR VIRTIO_F_VERSION_1) \<and> 0 \<notin> set busy \<and>
    negotiate (traced hw) p t wanted (d, []) = Some
      (if \<not> bit high 0 then Inl Legacy
       else if status AND STATUS_FEATURES_OK = 0 then Inl FeaturesRefused else Inr agreed,
       d', reset_trace t busy @ [Write (status_at t) 1, Write (status_at t) 3] @ features_trace t high low @
         (if \<not> bit high 0 then [Write (status_at t) 128]
          else accept_trace t agreed status @
            (if status AND STATUS_FEATURES_OK = 0 then [Write (status_at t) 128] else [])))"
proof -
  note tw = transport_write_traced [OF assms(1)]
  have st: "tr_base t + STATUS = status_at t" "unat STATUS \<le> 256" by (simp_all add: STATUS_def status_at_def)
  obtain busy where busy: "0 \<notin> set busy"
    "transport_reset (traced hw) p t (d, []) = Some (d0, reset_trace t busy)"
    using reset_traced [OF assms, of "[]"] by auto
  let ?d2 = "hw_write hw (status_at t) 3 (hw_write hw (status_at t) 1 d0)"
  let ?x2 = "reset_trace t busy @ [Write (status_at t) 1, Write (status_at t) 3]"
  obtain high low d3 where f: "device_features (traced hw) p t (?d2, ?x2) =
      Some (push_bit 32 (ucast high) OR ucast low, d3, ?x2 @ features_trace t high low)"
    using device_features_traced [OF assms(1), of hw p ?d2 ?x2] by blast
  define x3 where "x3 = reset_trace t busy @ [Write (status_at t) 1, Write (status_at t) 3] @ features_trace t high low"
  have f: "device_features (traced hw) p t (?d2, reset_trace t busy @ [Write (status_at t) 1, Write (status_at t) 3]) =
      Some (push_bit 32 (ucast high) OR ucast low, d3, x3)"
    using f by (simp add: x3_def)
  define agreed :: u64 where "agreed = (push_bit 32 (ucast high) OR ucast low) AND (wanted OR VIRTIO_F_VERSION_1)"
  have bits: "STATUS_ACKNOWLEDGE = 1" "1 OR STATUS_DRIVER = 3"
    "1 OR STATUS_DRIVER OR STATUS_FEATURES_OK = 11" "STATUS_FAILED = 128"
    by (simp_all add: STATUS_ACKNOWLEDGE_def STATUS_DRIVER_def STATUS_FEATURES_OK_def STATUS_FAILED_def)
  note halves = busy(2) f tw st bits version_1_offered agreed_def [symmetric]
  obtain status d5 where accept: "bit high 0 \<Longrightarrow> negotiate (traced hw) p t wanted (d, []) = Some
      (if status AND STATUS_FEATURES_OK = 0 then Inl FeaturesRefused else Inr agreed, d5,
       x3 @ accept_trace t agreed status @
         (if status AND STATUS_FEATURES_OK = 0 then [Write (status_at t) 128] else []))"
    using accept_traced [OF assms(1), of hw p agreed d3 x3] by (auto simp: negotiate_def halves)
  show ?thesis
  proof (cases "bit high 0")
    case True
    then show ?thesis
      using accept busy(1) by (intro exI conjI) (rule agreed_def, assumption, simp add: x3_def)
  next
    case False
    then have "negotiate (traced hw) p t wanted (d, []) =
        Some (Inl Legacy, hw_write hw (status_at t) 128 d3, x3 @ [Write (status_at t) 128])"
      by (simp add: negotiate_def halves)
    then show ?thesis
      using False busy(1) by (intro exI conjI) (rule agreed_def, assumption, simp add: x3_def)
  qed
qed

text \<open>A device that keeps what is written to its status, and offers version 1 and the low feature bits.\<close>

definition plain_device :: "u32 hw" where
  "plain_device = \<lparr>hw_read = (\<lambda>a s. (if a = 0xa000070 then s else 0x21, s)),
     hw_write = (\<lambda>a v s. if a = 0xa000070 then v else s)\<rparr>"

theorem negotiate_handshake_witness:
  "\<exists>busy r d' xs. negotiate (traced plain_device) (mphys boot_mach) dull_transport 1 (15, []) = Some (r, d',
     [Write 0xa000070 0] @ map (Read 0xa000070) (busy @ [0]) @ [Write 0xa000070 1, Write 0xa000070 3] @ xs) \<and>
     0 \<notin> set busy \<and> length xs \<ge> 5"
proof -
  have at: "status_at dull_transport = 0xa000070" by (simp add: status_at_def dull_transport_def)
  have base: "unat (tr_base dull_transport) + 256 < 2 ^ 64" by (simp add: dull_transport_def)
  have "poll plain_device (mphys boot_mach) (phys_to_virt (mphys boot_mach) 0xa000070) (\<lambda>v. v = 0)
      (hw_write plain_device 0xa000070 0 15) = Some 0"
    by (subst poll.simps) (simp add: plain_device_def mmio_read_def)
  from negotiate_handshake [OF base this [folded at], of 1] obtain busy r d' xs where
    "negotiate (traced plain_device) (mphys boot_mach) dull_transport 1 (15, []) =
      Some (r, d', reset_trace dull_transport busy @ [Write (status_at dull_transport) 1, Write (status_at dull_transport) 3] @ xs)"
    "0 \<notin> set busy" "length xs \<ge> 5"
    by (elim exE conjE) (rule that, assumption, assumption, simp add: features_trace_def accept_trace_def)
  then show ?thesis by (auto simp: reset_trace_def at)
qed

end
