(* ===== verification/Fdt_Roundtrip.thy ===== *)
theory Fdt_Roundtrip
  imports Fdt_Safety
begin

text \<open>
  Device trees written by hand and read back. \<open>fdt.rs\<close> assembles trees a token at a time to test its
  parser on; \<open>tree\<close> is that writer. The parser is its inverse: walking a tree that was written gives
  the tokens that were written, with the offsets, depths and cell counts they should have.

  \<open>image\<close> says which bytes a blob holds; the lemmas under it read what lies at an offset.
\<close>

section \<open>The writer\<close>

text \<open>\<open>bytes[at..at + xs.len()].copy_from_slice(xs)\<close>\<close>

definition put_slice :: "nat \<Rightarrow> u8 list \<Rightarrow> u8 list \<Rightarrow> u8 list option" where
  "put_slice at xs bytes =
     (if at + length xs \<le> length bytes then Some (take at bytes @ xs @ drop (at + length xs) bytes) else None)"

definition TEST_STRINGS :: "u8 list" where
  "TEST_STRINGS = ascii ''compatible'' @ [0] @ ascii ''reg'' @ [0] @ ascii ''#address-cells'' @ [0] @
     ascii ''#size-cells'' @ [0]"

definition STR_COMPATIBLE :: u32 where "STR_COMPATIBLE = 0"
definition STR_REG :: u32 where "STR_REG = 11"
definition STR_ADDRESS_CELLS :: u32 where "STR_ADDRESS_CELLS = 15"
definition STR_SIZE_CELLS :: u32 where "STR_SIZE_CELLS = 30"

record tree =
  tree_bytes :: "u8 list"
  tree_len :: nat

definition tree_new :: tree where
  "tree_new = \<lparr>tree_bytes = replicate 512 0, tree_len = 40\<rparr>"

definition tree_u32 :: "u32 \<Rightarrow> tree \<Rightarrow> tree option" where
  "tree_u32 v t = do {
     bytes \<leftarrow> put_slice (tree_len t) (be_split 4 v) (tree_bytes t);
     Some (t\<lparr>tree_bytes := bytes, tree_len := tree_len t + 4\<rparr>)
   }"

definition tree_begin :: "u8 list \<Rightarrow> tree \<Rightarrow> tree option" where
  "tree_begin name t = do {
     t \<leftarrow> tree_u32 FDT_BEGIN_NODE t;
     bytes \<leftarrow> put_slice (tree_len t) name (tree_bytes t);
     Some (t\<lparr>tree_bytes := bytes, tree_len := next_multiple_of (tree_len t + (length name + 1)) 4\<rparr>)
   }"

definition tree_end_node :: "tree \<Rightarrow> tree option" where
  "tree_end_node t = tree_u32 FDT_END_NODE t"

definition tree_prop :: "u32 \<Rightarrow> u8 list \<Rightarrow> tree \<Rightarrow> tree option" where
  "tree_prop name_offset v t = do {
     t \<leftarrow> tree_u32 FDT_PROP t;
     t \<leftarrow> tree_u32 (of_nat (length v)) t;
     t \<leftarrow> tree_u32 name_offset t;
     bytes \<leftarrow> put_slice (tree_len t) v (tree_bytes t);
     Some (t\<lparr>tree_bytes := bytes, tree_len := next_multiple_of (tree_len t + length v) 4\<rparr>)
   }"

definition tree_cells :: "u32 \<Rightarrow> u32 \<Rightarrow> tree \<Rightarrow> tree option" where
  "tree_cells address sz t = do {
     t \<leftarrow> tree_prop STR_ADDRESS_CELLS (be_split 4 address) t;
     tree_prop STR_SIZE_CELLS (be_split 4 sz) t
   }"

definition lying_prop :: "u32 \<Rightarrow> u32 \<Rightarrow> tree \<Rightarrow> tree option" where
  "lying_prop name_offset claimed t = do {
     t \<leftarrow> tree_u32 FDT_PROP t;
     t \<leftarrow> tree_u32 claimed t;
     tree_u32 name_offset t
   }"

text \<open>
  \<open>finish\<close>: the end token, the strings, the header. The array lies at \<open>va\<close>, where \<open>probe\<close> then
  reads it; a header that \<open>probe\<close> refuses is a panic (\<open>expect\<close>).
\<close>

definition tree_close :: "tree \<Rightarrow> tree option" where
  "tree_close t = do {
     t \<leftarrow> tree_u32 FDT_END t;
     struct_size \<leftarrow> checked_sub (of_nat (tree_len t)) 40;
     let strings_start = of_nat (tree_len t);
     bytes \<leftarrow> put_slice (tree_len t) TEST_STRINGS (tree_bytes t);
     let len = tree_len t + length TEST_STRINGS;
     bytes \<leftarrow> for_each (\<lambda>(i, field). put_slice (i * 4) (be_split 4 field))
       (zip [0..<10] [MAGIC, of_nat len, 40, strings_start, 40, 17, 16, 0, of_nat (length TEST_STRINGS), struct_size])
       bytes;
     Some \<lparr>tree_bytes = bytes, tree_len = len\<rparr>
   }"

definition tree_finish :: "phys \<Rightarrow> u64 \<Rightarrow> tree \<Rightarrow> (blob \<times> phys) option" where
  "tree_finish p va t = do {
     t \<leftarrow> tree_close t;
     let p = store_bytes p va (tree_bytes t);
     r \<leftarrow> probe_blob p va;
     case r of
       Inl e \<Rightarrow> None
     | Inr h \<Rightarrow> Some (\<lparr>blob_pa = 0, blob_va = va, blob_header = h\<rparr>, p)
   }"

definition test_tree :: "u32 \<Rightarrow> u32 \<Rightarrow> tree option" where
  "test_tree acells scells = do {
     t \<leftarrow> tree_begin [] tree_new;
     t \<leftarrow> tree_cells acells scells t;
     t \<leftarrow> tree_prop STR_COMPATIBLE (ascii ''test,root'' @ [0]) t;
     t \<leftarrow> tree_begin (ascii ''memory@1000'') t;
     t \<leftarrow> tree_prop STR_COMPATIBLE (ascii ''test,memory'' @ [0] @ ascii ''test,thing'' @ [0]) t;
     t \<leftarrow> tree_prop STR_REG [0, 0, 0, 0, 0, 0, 0x10, 0, 0, 0, 0, 0, 0, 0, 0x20, 0] t;
     t \<leftarrow> tree_end_node t;
     tree_end_node t
   }"

section \<open>The bytes of a blob\<close>

definition image :: "phys \<Rightarrow> blob \<Rightarrow> u8 list \<Rightarrow> bool" where
  "image p b bytes \<longleftrightarrow> (\<forall>i < length bytes. load p (blob_va b + of_nat i) = bytes ! i) \<and>
     unat (blob_size b) = length bytes \<and> unat (blob_va b) + length bytes < 2 ^ 64 \<and> length bytes \<le> 2 ^ 20"

lemma checked_add_nats: "i + j < 2 ^ 32 \<Longrightarrow> checked_add (of_nat i :: u32) (of_nat j) = Some (of_nat (i + j))"
  by (simp add: checked_add_def unat_of_nat)

lemma checked_add_numeral:
  "i + 1 < 2 ^ 32 \<Longrightarrow> checked_add (of_nat i :: u32) 1 = Some (of_nat (i + 1))"
  "i + 4 < 2 ^ 32 \<Longrightarrow> checked_add (of_nat i :: u32) 4 = Some (of_nat (i + 4))"
  "i + 8 < 2 ^ 32 \<Longrightarrow> checked_add (of_nat i :: u32) 8 = Some (of_nat (i + 8))"
  "i + 12 < 2 ^ 32 \<Longrightarrow> checked_add (of_nat i :: u32) 12 = Some (of_nat (i + 12))"
  using checked_add_nats [of i 1] checked_add_nats [of i 4] checked_add_nats [of i 8] checked_add_nats [of i 12]
  by simp_all

lemma unat_small [simp]: "i < 2 ^ 32 \<Longrightarrow> unat (of_nat i :: u32) = i"
  by (simp add: unat_of_nat)

lemma checked_sub_nats:
  "j \<le> i \<Longrightarrow> i < 2 ^ 32 \<Longrightarrow> checked_sub (of_nat i :: u32) (of_nat j) = Some (of_nat (i - j))"
  by (simp add: checked_sub_def word_le_nat_alt of_nat_diff)

lemma ucast_nat: "i < 2 ^ 32 \<Longrightarrow> ucast (of_nat i :: u32) = (of_nat i :: u64)"
  by (simp add: word_eq_iff_unsigned unsigned_of_nat unsigned_ucast_eq take_bit_nat_eq_self)

lemma image_ptr:
  assumes "image p b bytes" "i \<le> length bytes"
  shows "checked_add (blob_va b) (ucast (of_nat i :: u32)) = Some (blob_va b + of_nat i)"
proof -
  have "i < 2 ^ 32" "unat (blob_va b) + i < 2 ^ 64" using assms by (simp_all add: image_def)
  then show ?thesis by (simp add: ucast_nat checked_add_def unat_of_nat)
qed

lemma image_read:
  assumes "image p b bytes" "i + n \<le> length bytes"
  shows "read_bytes p (blob_va b + of_nat i) n = take n (drop i bytes)"
proof (rule nth_equalityI)
  fix k assume "k < length (read_bytes p (blob_va b + of_nat i) n)"
  then have k: "k < n" by simp
  then have "load p (blob_va b + of_nat (i + k)) = bytes ! (i + k)"
    using assms unfolding image_def by (meson add_less_cancel_left less_le_trans)
  then show "read_bytes p (blob_va b + of_nat i) n ! k = take n (drop i bytes) ! k"
    using k assms(2) by (simp add: read_bytes_def add.assoc)
qed (use assms(2) in simp)

lemma image_small: "image p b bytes \<Longrightarrow> i \<le> length bytes \<Longrightarrow> i < 2 ^ 30"
  by (simp add: image_def)

lemma image_outside: "image p b bytes \<Longrightarrow> i < 2 ^ 32 \<Longrightarrow> blob_size b < of_nat i \<longleftrightarrow> length bytes < i"
  by (simp add: word_less_nat_alt image_def)

text \<open>What a read gives when the bytes at its offset are known.\<close>

lemma image_u32:
  assumes "image p b bytes" "drop i bytes = be_split 4 v @ rest"
  shows "u32_at p b (of_nat i) = Some (Some v)"
proof -
  have n: "i + 4 \<le> length bytes" using arg_cong [OF assms(2), of length] by simp
  then have "be32 p (blob_va b) (of_nat i) = Some v"
    using image_ptr [OF assms(1), of i] image_read [OF assms(1) n] assms(2)
    by (simp add: be32_def be_join_split)
  then show ?thesis
    using image_small [OF assms(1) n] image_outside [OF assms(1), of "i + 4"] n
    by (simp add: u32_at_def checked_add_numeral add.commute)
qed

lemma image_bytes:
  assumes "image p b bytes" "drop i bytes = xs @ rest" "i \<le> length bytes"
  shows "bytes_at p b (of_nat i) (of_nat (length xs)) = Some (Some xs)"
proof -
  have n: "i + length xs \<le> length bytes" using arg_cong [OF assms(2), of length] assms(3) by simp
  then have "length xs < 2 ^ 30" "i + length xs < 2 ^ 30" using image_small [OF assms(1)] by auto
  then show ?thesis
    using n image_ptr [OF assms(1), of i] image_read [OF assms(1) n] assms(2)
      image_outside [OF assms(1), of "i + length xs"]
    by (simp add: bytes_at_def checked_add_nats del: of_nat_add)
qed

lemma image_nul:
  assumes "image p b bytes" "drop i bytes = s @ 0 # rest" "0 \<notin> set s" "i + length s < limit" "limit \<le> length bytes"
  shows "find_nul p (blob_va b) (of_nat i) (of_nat limit) = Some (Some (of_nat (i + length s)))"
  using assms(2-4)
proof (induction s arbitrary: i)
  case Nil
  have i: "i < length bytes" using Nil(3) assms(5) by simp
  have small: "limit < 2 ^ 30" using image_small [OF assms(1,5)] .
  have "load p (blob_va b + of_nat i) = 0"
    using assms(1) i Nil(1) unfolding image_def by (metis append_Nil hd_drop_conv_nth list.sel(1))
  then show ?case
    using image_ptr [OF assms(1), of i] i Nil(3) small by (subst find_nul.simps) (simp add: word_less_nat_alt)
next
  case (Cons c s)
  have i: "i < length bytes" using Cons.prems(3) assms(5) by simp
  have small: "limit < 2 ^ 30" using image_small [OF assms(1,5)] .
  have "load p (blob_va b + of_nat i) = c"
    using assms(1) i Cons.prems(1) unfolding image_def by (metis append_Cons hd_drop_conv_nth list.sel(1))
  then have "load p (blob_va b + of_nat i) \<noteq> 0" using Cons.prems(2) by auto
  moreover have "drop (Suc i) bytes = s @ 0 # rest"
    using Cons.prems(1) by (metis append_Cons drop_Suc list.sel(3) tl_drop)
  then have "find_nul p (blob_va b) (of_nat (Suc i)) (of_nat limit) = Some (Some (of_nat (Suc i + length s)))"
    using Cons.prems(2,3) by (intro Cons.IH) simp_all
  ultimately show ?case
    using image_ptr [OF assms(1), of i] i Cons.prems(3) small
    by (subst find_nul.simps) (simp add: word_less_nat_alt checked_add_numeral add.commute)
qed

lemma image_str:
  assumes "image p b bytes" "drop i bytes = s @ 0 # rest" "0 \<notin> set s" "from_utf8 s"
    and "i + length s < limit" "limit \<le> length bytes"
  shows "str_at p b (of_nat i) (of_nat limit) = Some (Some s)"
proof -
  have small: "limit < 2 ^ 30" using image_small [OF assms(1,6)] .
  then have "min (of_nat limit) (blob_size b) = of_nat limit"
    using image_outside [OF assms(1), of limit] assms(6) by (simp add: min_def not_less)
  moreover have "\<not> (of_nat limit :: u32) \<le> of_nat i"
    using small assms(5) by (simp add: word_le_nat_alt)
  moreover have "checked_sub (of_nat (i + length s) :: u32) (of_nat i) = Some (of_nat (length s))"
    using small assms(5) checked_sub_nats [of i "i + length s"] by (simp del: of_nat_add)
  moreover have "bytes_at p b (of_nat i) (of_nat (length s)) = Some (Some s)"
    using assms(5,6) by (intro image_bytes [OF assms(1,2)]) simp
  ultimately show ?thesis
    using image_nul [OF assms(1,2,3,5,6)] assms(4) by (simp add: str_at_def attempt_def del: of_nat_add)
qed

section \<open>Tokens and their bytes\<close>

abbreviation round4 :: "nat \<Rightarrow> nat" where "round4 n \<equiv> next_multiple_of n 4"

definition pad4 :: "u8 list \<Rightarrow> u8 list" where
  "pad4 xs = xs @ replicate (round4 (length xs) - length xs) 0"

text \<open>\<open>Lying\<close> is a property whose declared length runs past everything.\<close>

datatype token = Begin "u8 list" | Finish | Value u32 "u8 list" | Lying u32 u32

primrec write_token :: "token \<Rightarrow> tree \<Rightarrow> tree option" where
  "write_token (Begin name) t = tree_begin name t"
| "write_token Finish t = tree_end_node t"
| "write_token (Value name_offset v) t = tree_prop name_offset v t"
| "write_token (Lying name_offset claimed) t = lying_prop name_offset claimed t"

primrec enc :: "token \<Rightarrow> u8 list" where
  "enc (Begin name) = be_split 4 FDT_BEGIN_NODE @ pad4 (name @ [0])"
| "enc Finish = be_split 4 FDT_END_NODE"
| "enc (Value name_offset v) =
     be_split 4 FDT_PROP @ be_split 4 (of_nat (length v) :: u32) @ be_split 4 name_offset @ pad4 v"
| "enc (Lying name_offset claimed) = be_split 4 FDT_PROP @ be_split 4 claimed @ be_split 4 name_offset"

lemma round4_ge: "n \<le> round4 n" and round4_less: "round4 n < n + 4" and round4_mod: "round4 n mod 4 = 0"
  using next_multiple_of_bounds [of 4 n] by simp_all

lemma round4_unique: "n \<le> m \<Longrightarrow> m < n + 4 \<Longrightarrow> m mod 4 = 0 \<Longrightarrow> round4 n = m"
  using round4_ge [of n] round4_less [of n] round4_mod [of n] by presburger

lemma round4_add: "k mod 4 = 0 \<Longrightarrow> round4 (k + n) = k + round4 n"
  using round4_ge [of n] round4_less [of n] round4_mod [of n] by (intro round4_unique) (auto simp: mod_0_imp_dvd)

lemma length_pad4 [simp]: "length (pad4 xs) = round4 (length xs)"
  using round4_ge [of "length xs"] by (simp add: pad4_def)

lemma length_enc: "length (enc k) mod 4 = 0"
  by (cases k) (simp_all add: round4_mod mod_add_eq [symmetric] round4_mod [THEN mod_0_imp_dvd])

lemma align4_nat: "n < 2 ^ 30 \<Longrightarrow> align4 (of_nat n) = of_nat (round4 n)"
proof -
  assume n: "n < 2 ^ 30"
  have "saturating_add (of_nat n) (3 :: u32) = of_nat (n + 3)"
    using n checked_add_nats [of n 3] by (simp add: saturating_add_def unat_of_nat)
  then have "unat (align4 (of_nat n)) = n + 3 - (n + 3) mod 4"
    using n unat_clear_low_bits [of "of_nat (n + 3)"] by (simp add: align4_def unat_of_nat del: of_nat_add)
  moreover have "n + 3 - (n + 3) mod 4 = round4 n"
  proof (rule sym, rule round4_unique)
    have lt: "(n + 3) mod 4 < 4" by simp
    then show "n \<le> n + 3 - (n + 3) mod 4" by linarith
    show "(n + 3 - (n + 3) mod 4) mod 4 = 0" unfolding minus_mod_eq_mult_div by simp
    have "n + 3 - (n + 3) mod 4 \<le> n + 3" by (rule diff_le_self)
    then show "n + 3 - (n + 3) mod 4 < n + 4" by linarith
  qed
  ultimately show ?thesis using n round4_less [of n] by (intro unsigned_word_eqI [where 'a = nat]) (simp add: unat_of_nat)
qed

section \<open>What the writer leaves\<close>

definition written :: "tree \<Rightarrow> u8 list \<Rightarrow> bool" where
  "written t bs \<longleftrightarrow> length bs \<le> 472 \<and> tree_len t = 40 + length bs \<and>
     tree_bytes t = replicate 40 0 @ bs @ replicate (472 - length bs) 0"

lemma written_new: "written tree_new []"
  by (simp add: written_def tree_new_def replicate_add [symmetric])

lemma put_written:
  assumes "written t bs" "length bs + length xs \<le> 472"
  shows "put_slice (tree_len t) xs (tree_bytes t) =
    Some (replicate 40 0 @ (bs @ xs) @ replicate (472 - length (bs @ xs)) 0)"
  using assms by (simp add: put_slice_def written_def)

lemma written_pad:
  assumes "length (bs @ xs) + k \<le> 472"
  shows "written \<lparr>tree_bytes = replicate 40 0 @ (bs @ xs) @ replicate (472 - length (bs @ xs)) 0,
    tree_len = 40 + length (bs @ xs) + k\<rparr> (bs @ xs @ replicate k 0)"
proof -
  have "replicate (472 - length (bs @ xs)) (0 :: u8) = replicate k 0 @ replicate (472 - length (bs @ xs) - k) 0"
    using assms by (simp add: replicate_add [symmetric] del: length_append)
  then show ?thesis using assms by (simp add: written_def)
qed

lemma written_u32:
  assumes "written t bs" "length bs + 4 \<le> 472"
  shows "\<exists>t'. tree_u32 v t = Some t' \<and> written t' (bs @ be_split 4 v)"
  using put_written [OF assms(1), of "be_split 4 v"] assms by (simp add: tree_u32_def written_def)

lemma written_padded:
  assumes "written t bs" "length bs mod 4 = 0" "length bs + round4 (length xs + k) \<le> 472"
  shows "\<exists>t'. (do {
      bytes \<leftarrow> put_slice (tree_len t) xs (tree_bytes t);
      Some (t\<lparr>tree_bytes := bytes, tree_len := round4 (tree_len t + (length xs + k))\<rparr>)
    }) = Some t' \<and> written t' (bs @ pad4 (xs @ replicate k 0))"
proof -
  have fits: "length xs + k \<le> round4 (length xs + k)" by (rule round4_ge)
  have len: "round4 (tree_len t + (length xs + k)) = 40 + length bs + round4 (length xs + k)"
    using assms(1,2) by (subst round4_add) (simp_all add: written_def mod_0_imp_dvd)
  have pad: "pad4 (xs @ replicate k 0) = xs @ replicate (round4 (length xs + k) - length xs) 0"
    using fits by (simp add: pad4_def replicate_add [symmetric])
  have "put_slice (tree_len t) xs (tree_bytes t) =
      Some (replicate 40 0 @ (bs @ xs) @ replicate (472 - length (bs @ xs)) 0)"
    using assms(3) fits by (intro put_written [OF assms(1)]) simp
  moreover have "40 + length bs + round4 (length xs + k) =
      40 + length (bs @ xs) + (round4 (length xs + k) - length xs)" using fits by simp
  moreover have "length (bs @ xs) + (round4 (length xs + k) - length xs) \<le> 472" using assms(3) fits by simp
  ultimately show ?thesis
    using written_pad [of bs xs "round4 (length xs + k) - length xs"] len pad
    by (simp add: written_def add.assoc)
qed

lemma written_token:
  assumes "written t bs" "length bs mod 4 = 0" "length bs + length (enc k) \<le> 472"
  shows "\<exists>t'. write_token k t = Some t' \<and> written t' (bs @ enc k)"
proof (cases k)
  case (Begin name)
  obtain t1 where t1: "tree_u32 FDT_BEGIN_NODE t = Some t1" "written t1 (bs @ be_split 4 FDT_BEGIN_NODE)"
    using written_u32 [OF assms(1), of FDT_BEGIN_NODE] assms(3) Begin by auto
  have "length (bs @ be_split 4 FDT_BEGIN_NODE) mod 4 = 0"
    "length (bs @ be_split 4 FDT_BEGIN_NODE) + round4 (length name + 1) \<le> 472"
    using assms(2,3) Begin by simp_all
  from written_padded [OF t1(2) this] t1(1) Begin show ?thesis by (simp add: tree_begin_def)
next
  case Finish
  then show ?thesis using written_u32 [OF assms(1), of FDT_END_NODE] assms(3) by (simp add: tree_end_node_def)
next
  case (Value name_offset v)
  obtain t1 where t1: "tree_u32 FDT_PROP t = Some t1" "written t1 (bs @ be_split 4 FDT_PROP)"
    using written_u32 [OF assms(1), of FDT_PROP] assms(3) Value by auto
  obtain t2 where t2: "tree_u32 (of_nat (length v)) t1 = Some t2"
    "written t2 (bs @ be_split 4 FDT_PROP @ be_split 4 (of_nat (length v) :: u32))"
    using written_u32 [OF t1(2), of "of_nat (length v)"] assms(3) Value by auto
  obtain t3 where t3: "tree_u32 name_offset t2 = Some t3"
    "written t3 (bs @ be_split 4 FDT_PROP @ be_split 4 (of_nat (length v) :: u32) @ be_split 4 name_offset)"
    using written_u32 [OF t2(2), of name_offset] assms(3) Value by auto
  have "length (bs @ be_split 4 FDT_PROP @ be_split 4 (of_nat (length v) :: u32) @ be_split 4 name_offset) mod 4 = 0"
    "length (bs @ be_split 4 FDT_PROP @ be_split 4 (of_nat (length v) :: u32) @ be_split 4 name_offset) +
      round4 (length v + 0) \<le> 472"
    using assms(2,3) Value by (simp_all add: mod_eq_0_iff_dvd dvd_add)
  from written_padded [OF t3(2) this] t1(1) t2(1) t3(1) Value show ?thesis by (simp add: tree_prop_def)
next
  case (Lying name_offset claimed)
  obtain t1 where t1: "tree_u32 FDT_PROP t = Some t1" "written t1 (bs @ be_split 4 FDT_PROP)"
    using written_u32 [OF assms(1), of FDT_PROP] assms(3) Lying by auto
  obtain t2 where t2: "tree_u32 claimed t1 = Some t2" "written t2 (bs @ be_split 4 FDT_PROP @ be_split 4 claimed)"
    using written_u32 [OF t1(2), of claimed] assms(3) Lying by auto
  show ?thesis
    using written_u32 [OF t2(2), of name_offset] assms(3) t1(1) t2(1) Lying by (simp add: lying_prop_def)
qed

lemma written_tokens:
  assumes "written t bs" "length bs mod 4 = 0" "length bs + length (concat (map enc ks)) \<le> 472"
  shows "\<exists>t'. for_each write_token ks t = Some t' \<and> written t' (bs @ concat (map enc ks))"
  using assms
proof (induction ks arbitrary: t bs)
  case (Cons k ks)
  obtain t1 where t1: "write_token k t = Some t1" "written t1 (bs @ enc k)"
    using written_token [OF Cons.prems(1,2), of k] Cons.prems(3) by auto
  have "length (bs @ enc k) mod 4 = 0" using Cons.prems(2) length_enc [of k] by (simp add: mod_add_eq [symmetric])
  from Cons.IH [OF t1(2) this] t1(1) Cons.prems(3) show ?case by simp
qed simp

text \<open>The header, field by field.\<close>

lemma put_fields:
  assumes "length pre = 4 * k"
  shows "for_each (\<lambda>(i, field). put_slice (i * 4) (be_split 4 field)) (zip [k..<k + length fs] fs)
      (pre @ replicate (4 * length fs) 0 @ post) = Some (pre @ concat (map (be_split 4) fs) @ post)"
  using assms
proof (induction fs arbitrary: k pre)
  case (Cons f fs)
  have "put_slice (k * 4) (be_split 4 f) (pre @ replicate (4 * length (f # fs)) 0 @ post) =
      Some ((pre @ be_split 4 f) @ replicate (4 * length fs) 0 @ post)"
    using Cons.prems by (simp add: put_slice_def mult.commute)
  moreover have "zip [k..<k + length (f # fs)] (f # fs) = (k, f) # zip [Suc k..<Suc k + length fs] fs"
    by (simp add: upt_conv_Cons del: upt_Suc)
  ultimately show ?case
    using Cons.IH [of "pre @ be_split 4 f" "Suc k"] Cons.prems by (simp del: upt_Suc)
qed simp

definition test_header :: "nat \<Rightarrow> u32 list" where
  "test_header n = [MAGIC, of_nat (40 + n + 42), 40, of_nat (40 + n), 40, 17, 16, 0, 42, of_nat n]"

lemma length_test_header: "length (test_header n) = 10"
  by (simp add: test_header_def)

lemma length_test_strings: "length TEST_STRINGS = 42"
  by (simp add: TEST_STRINGS_def ascii_def)

lemma closed:
  assumes "written t bs" "length bs + 46 \<le> 472"
  shows "tree_close t = Some \<lparr>tree_bytes = concat (map (be_split 4) (test_header (length bs + 4))) @
      (bs @ be_split 4 FDT_END) @ TEST_STRINGS @ replicate (426 - length bs) 0,
    tree_len = 40 + (length bs + 4) + 42\<rparr>"
proof -
  obtain t1 where t1: "tree_u32 FDT_END t = Some t1" "written t1 (bs @ be_split 4 FDT_END)"
    using written_u32 [OF assms(1), of FDT_END] assms(2) by auto
  have len: "tree_len t1 = 40 + (length bs + 4)" using t1(2) by (simp add: written_def)
  have put: "put_slice (tree_len t1) TEST_STRINGS (tree_bytes t1) = Some (replicate 40 0 @
      (bs @ be_split 4 FDT_END) @ TEST_STRINGS @ replicate (426 - length bs) 0)"
    using put_written [OF t1(2), of TEST_STRINGS] assms(2) by (simp add: length_test_strings)
  have sub: "checked_sub (of_nat (tree_len t1)) (40 :: u32) = Some (of_nat (length bs + 4))"
    using assms(2) checked_sub_nats [of 40 "40 + (length bs + 4)"]
    by (simp add: len add.commute del: of_nat_add)
  have "for_each (\<lambda>(i, field). put_slice (i * 4) (be_split 4 field)) (zip [0..<10] (test_header (length bs + 4)))
      (replicate 40 0 @ (bs @ be_split 4 FDT_END) @ TEST_STRINGS @ replicate (426 - length bs) 0) =
    Some (concat (map (be_split 4) (test_header (length bs + 4))) @
      (bs @ be_split 4 FDT_END) @ TEST_STRINGS @ replicate (426 - length bs) 0)"
    using put_fields [of "[]" 0 "test_header (length bs + 4)"
      "(bs @ be_split 4 FDT_END) @ TEST_STRINGS @ replicate (426 - length bs) 0"]
    by (simp add: length_test_header del: upt_Suc)
  then show ?thesis
    using t1(1) put sub len unfolding tree_close_def test_header_def
    by (simp add: Let_def length_test_strings del: upt_Suc of_nat_add)
qed

text \<open>Reading it back where it lies.\<close>

lemma load_stored:
  assumes "unat va + length bytes < 2 ^ 64" "i < length bytes"
  shows "load (store_bytes p va bytes) (va + of_nat i) = bytes ! i"
proof -
  have "unat (of_nat i :: u64) = i" using assms by (intro unat_of_nat_u64) simp
  then show ?thesis using assms(2) by (simp add: load_def kernel_pa_def pmem_store_bytes)
qed

lemma be32_stored:
  assumes "unat va + length bytes < 2 ^ 64" "length bytes \<le> 2 ^ 20" "drop i bytes = be_split 4 v @ rest"
  shows "be32 (store_bytes p va bytes) va (of_nat i) = Some v"
proof -
  have i: "i + 4 \<le> length bytes" using arg_cong [OF assms(3), of length] by simp
  have ptr: "checked_add va (ucast (of_nat i :: u32)) = Some (va + of_nat i)"
    using assms(1,2) i by (simp add: ucast_nat checked_add_def unat_of_nat)
  have "read_bytes (store_bytes p va bytes) (va + of_nat i) 4 = take 4 (drop i bytes)"
  proof (rule nth_equalityI)
    fix k assume "k < length (read_bytes (store_bytes p va bytes) (va + of_nat i) 4)"
    then have "k < 4" by simp
    then show "read_bytes (store_bytes p va bytes) (va + of_nat i) 4 ! k = take 4 (drop i bytes) ! k"
      using load_stored [OF assms(1), of "i + k" p] i by (simp add: read_bytes_def add.assoc)
  qed (use i in simp)
  then show ?thesis using ptr assms(3) by (simp add: be32_def be_join_split)
qed

definition test_blob :: "u64 \<Rightarrow> nat \<Rightarrow> blob" where
  "test_blob va n = \<lparr>blob_pa = 0, blob_va = va, blob_header = \<lparr>totalsize = of_nat (40 + n + 42),
     off_dt_struct = 40, off_dt_strings = of_nat (40 + n), off_mem_rsvmap = 40, version = 17,
     last_comp_version = 16, boot_cpuid_phys = 0, size_dt_strings = 42, size_dt_struct = of_nat n\<rparr>\<rparr>"

lemma finished:
  assumes "written t bs" "length bs + 46 \<le> 472" "va \<noteq> 0" "is_multiple_of va 8" "unat va + 512 < 2 ^ 64"
  shows "\<exists>p'. tree_finish p va t = Some (test_blob va (length bs + 4), p') \<and>
    image p' (test_blob va (length bs + 4))
      (concat (map (be_split 4) (test_header (length bs + 4))) @ (bs @ be_split 4 FDT_END) @ TEST_STRINGS)"
proof -
  let ?n = "length bs + 4"
  let ?pre = "concat (map (be_split 4) (test_header ?n)) @ (bs @ be_split 4 FDT_END) @ TEST_STRINGS"
  let ?bytes = "?pre @ replicate (426 - length bs) 0"
  have len: "length ?pre = 40 + ?n + 42" "length ?bytes = 512"
    using assms(2) by (simp_all add: test_header_def length_test_strings)
  have va: "unat va + length ?bytes < 2 ^ 64" "length ?bytes \<le> 2 ^ 20" using assms(5) unfolding len by simp_all
  let ?p = "store_bytes p va ?bytes"
  have field: "be32 ?p va (of_nat (4 * i)) = Some (test_header ?n ! i)" if "i < 10" for i
  proof -
    have "drop (4 * i) ?bytes = be_split 4 (test_header ?n ! i) @
        concat (map (be_split 4) (drop (Suc i) (test_header ?n))) @
        (bs @ be_split 4 FDT_END) @ TEST_STRINGS @ replicate (426 - length bs) 0"
    proof -
      have "i \<in> {0, 1, 2, 3, 4, 5, 6, 7, 8, 9}" using that by auto
      then show ?thesis by (auto simp: test_header_def)
    qed
    from be32_stored [OF va this] show ?thesis .
  qed
  have fields: "be32 ?p va 0 = Some MAGIC" "be32 ?p va 4 = Some (of_nat (40 + ?n + 42))" "be32 ?p va 8 = Some 40"
    "be32 ?p va 12 = Some (of_nat (40 + ?n))" "be32 ?p va 16 = Some 40" "be32 ?p va 20 = Some 17"
    "be32 ?p va 24 = Some 16" "be32 ?p va 28 = Some 0" "be32 ?p va 32 = Some 42" "be32 ?p va 36 = Some (of_nat ?n)"
    using field [of 0] field [of 1] field [of 2] field [of 3] field [of 4] field [of 5] field [of 6] field [of 7]
      field [of 8] field [of 9] by (simp_all add: test_header_def)
  have u: "unat (of_nat (40 + ?n + 42) :: u32) = 40 + ?n + 42" "unat (of_nat (40 + ?n) :: u32) = 40 + ?n"
    using assms(2) by (intro unat_small, simp)+
  have ends: "ends_inside (of_nat (40 + ?n + 42)) 40 (of_nat ?n)"
    "ends_inside (of_nat (40 + ?n + 42)) (of_nat (40 + ?n)) 42"
    "\<not> (of_nat (40 + ?n + 42) :: u32) \<le> 40" "\<not> (of_nat (40 + ?n + 42) :: u32) < 40"
    "\<not> (1024 * 1024 :: u32) < of_nat (40 + ?n + 42)"
    using assms(2) checked_add_nats [of 40 ?n] checked_add_nats [of "40 + ?n" 42] u
    by (simp_all add: ends_inside_def word_le_nat_alt word_less_nat_alt)
  have "probe_blob ?p va = Some (Inr (blob_header (test_blob va ?n)))"
    using assms(3,4) fields ends
    by (simp add: probe_blob_def read_header_def test_blob_def HEADER_SIZE_def MAX_BLOB_def SUPPORTED_VERSION_def
        del: of_nat_add)
  then have "tree_finish p va t = Some (test_blob va ?n, ?p)"
    using closed [OF assms(1,2)] by (simp add: tree_finish_def Let_def test_blob_def)
  moreover have "image ?p (test_blob va ?n) ?pre"
  proof -
    have "load ?p (va + of_nat i) = ?pre ! i" if "i < length ?pre" for i
    proof -
      have "i < length ?bytes" using that unfolding length_append by linarith
      from load_stored [OF va(1) this] show ?thesis unfolding nth_append_left [OF that] .
    qed
    moreover have "unat va + length ?pre < 2 ^ 64" "length ?pre \<le> 2 ^ 20" "unat (of_nat (40 + ?n + 42) :: u32) = length ?pre"
      using assms(2,5) u(1) unfolding len(1) by simp_all
    ultimately show ?thesis by (simp add: image_def test_blob_def)
  qed
  ultimately show ?thesis by blast
qed

section \<open>The walk over a written tree\<close>

text \<open>\<open>while let Some(step) = walker.next()\<close>, with the steps it saw.\<close>

function walk_all :: "phys \<Rightarrow> walker \<Rightarrow> fdt_step list option" where
  "walk_all p w = do {
     (got, w') \<leftarrow> walker_next p w;
     case got of
       None \<Rightarrow> Some []
     | Some step \<Rightarrow> do { steps \<leftarrow> walk_all p w'; Some (step # steps) }
   }"
  by pat_completeness auto

termination
  by (relation "measure (\<lambda>(p, w). w_left w)") (auto dest: walker_next_shrinks)

declare walk_all.simps [simp del]

text \<open>
  The steps expected of a list of tokens that begins at offset \<open>i\<close>, inside nodes whose cell counts are
  \<open>cs\<close>, the innermost first; the last element is the default that applies to the root.
\<close>

definition string_at :: "u32 \<Rightarrow> u8 list" where
  "string_at k = takeWhile (\<lambda>c. c \<noteq> 0) (drop (unat k) TEST_STRINGS)"

definition note_top :: "u8 list \<Rightarrow> u8 list \<Rightarrow> (u32 \<times> u32) list \<Rightarrow> (u32 \<times> u32) list" where
  "note_top name v cs =
     (if length cs \<le> 1 then cs
      else case read_cells v of
        None \<Rightarrow> cs
      | Some n \<Rightarrow>
          if name = ascii ''#address-cells'' then (n, snd (hd cs)) # tl cs
          else if name = ascii ''#size-cells'' then (fst (hd cs), n) # tl cs
          else cs)"

primrec expect :: "nat \<Rightarrow> (u32 \<times> u32) list \<Rightarrow> token list \<Rightarrow> fdt_step list" where
  "expect i cs [] = []"
| "expect i cs (k # ks) = (case k of
     Begin name \<Rightarrow>
       if MAX_DEPTH \<le> length cs then []
       else Node_Step \<lparr>node_offset = of_nat i, node_depth = length cs, address_cells = fst (hd cs),
           size_cells = snd (hd cs)\<rparr> name #
         expect (i + length (enc k)) ((DEFAULT_ADDRESS_CELLS, DEFAULT_SIZE_CELLS) # cs) ks
   | Finish \<Rightarrow> if length cs \<le> 1 then [] else expect (i + length (enc k)) (tl cs) ks
   | Value name_offset v \<Rightarrow>
       Property_Step (string_at name_offset) v #
       expect (i + length (enc k)) (note_top (string_at name_offset) v cs) ks
   | Lying name_offset claimed \<Rightarrow> [])"

text \<open>Names that are strings, and lies that are big enough.\<close>

definition token_ok :: "token \<Rightarrow> bool" where
  "token_ok k = (case k of
     Begin name \<Rightarrow> 0 \<notin> set name \<and> from_utf8 name
   | Finish \<Rightarrow> True
   | Value name_offset v \<Rightarrow> unat name_offset < 42
   | Lying name_offset claimed \<Rightarrow> 512 \<le> unat claimed)"

lemma string_at_ends:
  assumes "unat k < 42"
  obtains rest where "drop (unat k) TEST_STRINGS = string_at k @ 0 # rest"
    "0 \<notin> set (string_at k)" "from_utf8 (string_at k)"
proof -
  let ?d = "drop (unat k) TEST_STRINGS"
  have "last TEST_STRINGS = 0" by (simp add: TEST_STRINGS_def)
  then have "last ?d = 0" "?d \<noteq> []" using assms by (simp_all add: length_test_strings)
  then have zero: "0 \<in> set ?d" by (metis last_in_set)
  then obtain xs ys where xs: "?d = xs @ 0 # ys" "0 \<notin> set xs" by (meson split_list_first)
  have at: "string_at k = xs"
    unfolding string_at_def xs(1) using xs(2) by (subst takeWhile_append2) auto
  have "list_all (\<lambda>c. c < 0x80) TEST_STRINGS" by (simp add: TEST_STRINGS_def ascii_def)
  then have "\<forall>c \<in> set ?d. c < 0x80" by (auto simp: list_all_iff dest: in_set_dropD)
  then have "\<forall>c \<in> set xs. c < 0x80" unfolding xs(1) by simp
  moreover have "from_utf8 zs" if "\<forall>c \<in> set zs. c < 0x80" for zs
    using that by (induction zs) simp_all
  ultimately show thesis using that [of ys] xs at by simp
qed

text \<open>The walker between two tokens.\<close>

definition stands :: "walker \<Rightarrow> blob \<Rightarrow> nat \<Rightarrow> nat \<Rightarrow> (u32 \<times> u32) list \<Rightarrow> bool" where
  "stands w b i e cs \<longleftrightarrow> w_blob w = b \<and> w_offset w = of_nat i \<and> w_end w = of_nat e \<and> cs \<noteq> [] \<and>
     w_depth w = length cs - 1 \<and> length (w_cells w) = MAX_DEPTH \<and> length cs \<le> MAX_DEPTH \<and>
     take (length cs) (w_cells w) = rev cs"

lemma stands_cell:
  assumes "stands w b i e cs"
  shows "w_cells w ! w_depth w = hd cs" "w_depth w < length (w_cells w)"
proof -
  have cs: "cs \<noteq> []" "w_depth w = length cs - 1" "take (length cs) (w_cells w) = rev cs"
    "length cs \<le> length (w_cells w)"
    using assms by (simp_all add: stands_def)
  then have "w_cells w ! w_depth w = rev cs ! (length cs - 1)"
    by (metis diff_less length_greater_0_conv less_one nth_take)
  also have "\<dots> = hd cs" using cs(1) by (simp add: rev_nth hd_conv_nth)
  finally show "w_cells w ! w_depth w = hd cs" .
  show "w_depth w < length (w_cells w)" using cs by (cases cs) auto
qed

lemma stands_set:
  assumes "stands w b i e cs"
  shows "stands (w\<lparr>w_offset := of_nat j, w_cells := (w_cells w)[w_depth w := c]\<rparr>) b j e (c # tl cs)"
proof -
  have cs: "cs \<noteq> []" "w_depth w = length cs - 1" "take (length cs) (w_cells w) = rev cs"
    using assms by (simp_all add: stands_def)
  then obtain x xs where x: "cs = x # xs" by (cases cs) auto
  have "take (length cs) ((w_cells w)[w_depth w := c]) = (rev cs)[w_depth w := c]"
    using cs(3) by (metis take_update_swap)
  also have "\<dots> = rev (c # tl cs)" using cs(2) x by (simp add: list_update_append)
  finally show ?thesis using assms x by (simp add: stands_def)
qed

lemma stands_push:
  assumes "stands w b i e cs" "length cs < MAX_DEPTH"
  shows "stands (w\<lparr>w_depth := w_depth w + 1, w_cells := (w_cells w)[w_depth w + 1 := c], w_offset := of_nat j\<rparr>)
    b j e (c # cs)"
proof -
  have cs: "cs \<noteq> []" "w_depth w + 1 = length cs" "take (length cs) (w_cells w) = rev cs" "length (w_cells w) = MAX_DEPTH"
    using assms by (simp_all add: stands_def Suc_leI)
  have "take (Suc (length cs)) ((w_cells w)[length cs := c]) = rev cs @ [c]"
    using cs(3,4) assms(2) by (simp add: take_Suc_conv_app_nth)
  then show ?thesis using assms cs by (simp add: stands_def)
qed

lemma stands_pop:
  assumes "stands w b i e cs" "2 \<le> length cs"
  shows "stands (w\<lparr>w_depth := w_depth w - 1, w_offset := of_nat j\<rparr>) b j e (tl cs)"
proof -
  obtain x xs where x: "cs = x # xs" "xs \<noteq> []" using assms(2) by (cases cs; cases "tl cs") auto
  have "take (length xs) (w_cells w) = take (length xs) (take (length cs) (w_cells w))" by (simp add: x(1))
  also have "\<dots> = rev xs" using assms(1) by (simp add: stands_def x(1))
  finally show ?thesis using assms x by (auto simp: stands_def)
qed

lemma note_cells_stands:
  assumes "stands w b i e cs"
  shows "\<exists>w'. note_cells name v (w\<lparr>w_offset := of_nat j\<rparr>) = Some w' \<and> stands w' b j e (note_top name v cs)"
proof -
  let ?w = "w\<lparr>w_offset := of_nat j\<rparr>"
  have w: "stands ?w b j e cs" using assms by (simp add: stands_def)
  have cs: "cs \<noteq> []" "w_depth w = 0 \<longleftrightarrow> length cs \<le> 1" using assms by (cases cs; simp add: stands_def)+
  have at: "idx (w_cells w) (w_depth w) = Some (hd cs)"
    using stands_cell [OF assms] by (simp add: idx_Some_iff)
  show ?thesis
    using w cs at stands_set [OF assms, where j = j and c = "(a, snd (hd cs))" for a]
      stands_set [OF assms, where j = j and c = "(fst (hd cs), a)" for a]
    by (auto simp: note_cells_def note_top_def split: option.split)
qed

text \<open>A blob whose strings are the writer's, with its structure block ending at \<open>e\<close>.\<close>

definition test_image :: "phys \<Rightarrow> blob \<Rightarrow> u8 list \<Rightarrow> nat \<Rightarrow> bool" where
  "test_image p b bytes e \<longleftrightarrow> image p b bytes \<and> length bytes = e + 42 \<and> drop e bytes = TEST_STRINGS \<and>
     off_dt_strings (blob_header b) = of_nat e \<and> size_dt_strings (blob_header b) = 42"

lemmas token_consts = FDT_BEGIN_NODE_def FDT_END_NODE_def FDT_PROP_def FDT_NOP_def FDT_END_def

lemma stands_token:
  assumes "stands w b i e cs" "test_image p b bytes e" "drop i bytes = be_split 4 k @ rest" "i + 4 \<le> e"
  shows "\<not> w_end w \<le> w_offset w" "u32_at p (w_blob w) (w_offset w) = Some (Some k)"
    "checked_add (w_offset w) 4 = Some (of_nat (i + 4))" "e < 2 ^ 30"
proof -
  have img: "image p b bytes" "length bytes = e + 42" using assms(2) by (simp_all add: test_image_def)
  show e: "e < 2 ^ 30" using image_small [OF img(1), of e] img(2) by simp
  then show "\<not> w_end w \<le> w_offset w" "checked_add (w_offset w) 4 = Some (of_nat (i + 4))"
    using assms(1,4) checked_add_numeral(2) [of i] by (simp_all add: stands_def word_le_nat_alt)
  show "u32_at p (w_blob w) (w_offset w) = Some (Some k)"
    using assms(1) image_u32 [OF img(1) assms(3)] by (simp add: stands_def)
qed

lemma next_begin:
  assumes "stands w b i e cs" "test_image p b bytes e" "drop i bytes = enc (Begin name) @ rest"
    and "i + length (enc (Begin name)) \<le> e" "i mod 4 = 0" "0 \<notin> set name" "from_utf8 name"
  shows "MAX_DEPTH \<le> length cs \<Longrightarrow> \<exists>w'. walker_next p w = Some (None, w')"
    "length cs < MAX_DEPTH \<Longrightarrow> \<exists>w'. walker_next p w = Some (Some (Node_Step \<lparr>node_offset = of_nat i, node_depth = length cs,
      address_cells = fst (hd cs), size_cells = snd (hd cs)\<rparr> name), w') \<and>
    stands w' b (i + length (enc (Begin name))) e ((DEFAULT_ADDRESS_CELLS, DEFAULT_SIZE_CELLS) # cs)"
proof -
  have img: "image p b bytes" "length bytes = e + 42" using assms(2) by (simp_all add: test_image_def)
  have fits: "i + 4 + length name < e" "i + 4 + round4 (length name + 1) \<le> e"
    using assms(4) round4_ge [of "length name + 1"] by simp_all
  have "drop i bytes = be_split 4 FDT_BEGIN_NODE @ pad4 (name @ [0]) @ rest" using assms(3) by simp
  note tok = stands_token [OF assms(1,2) this]
  have tok: "\<not> w_end w \<le> w_offset w" "u32_at p (w_blob w) (w_offset w) = Some (Some FDT_BEGIN_NODE)"
    "checked_add (w_offset w) 4 = Some (of_nat (i + 4))" "e < 2 ^ 30"
    using tok fits by simp_all
  have "drop (i + 4) bytes = drop 4 (drop i bytes)" by (simp add: add.commute)
  also have "\<dots> = name @ 0 # (replicate (round4 (length name + 1) - (length name + 1)) 0 @ rest)"
    using assms(3) by (simp add: pad4_def)
  finally have "str_at p b (of_nat (i + 4)) (of_nat e) = Some (Some name)"
    using assms(6,7) fits(1) img(2) by (intro image_str [OF img(1)]) simp_all
  then have str: "str_at p (w_blob w) (of_nat (i + 4)) (w_end w) = Some (Some name)"
    using assms(1) by (simp add: stands_def del: of_nat_add)
  have past: "checked_add (of_nat (i + 4) :: u32) (of_nat (length name)) = Some (of_nat (i + 4 + length name))"
    "checked_add (of_nat (i + 4 + length name) :: u32) 1 = Some (of_nat (i + 4 + length name + 1))"
    using fits tok(4) by (intro checked_add_nats checked_add_numeral; simp)+
  have "align4 (of_nat (i + 4 + length name + 1)) = of_nat (round4 (i + 4 + length name + 1))"
    using fits tok(4) by (intro align4_nat) simp
  also have "round4 (i + 4 + length name + 1) = i + length (enc (Begin name))"
    using round4_add [of "i + 4" "length name + 1"] assms(5) by (simp add: mod_eq_0_iff_dvd dvd_add add.assoc)
  finally have align: "align4 (of_nat (i + 4 + length name + 1)) = of_nat (i + length (enc (Begin name)))" .
  have cell: "w_cells w ! (length cs - Suc 0) = hd cs"
    using stands_cell(1) [OF assms(1)] assms(1) by (simp add: stands_def)
  have w: "w_depth w + 1 = length cs" "length (w_cells w) = MAX_DEPTH" "w_offset w = of_nat i"
    using assms(1) by (cases cs; simp add: stands_def)+
  show "\<exists>w'. walker_next p w = Some (None, w')" if deep: "MAX_DEPTH \<le> length cs"
  proof -
    have "open_node p w = Some (Inl (None, w))"
      using tok(3) str w deep by (simp add: open_node_def Let_def del: of_nat_add)
    then show ?thesis
      using tok(1,2) by (subst walker_next.simps) (simp add: walker_turn_def token_consts)
  qed
  let ?w' = "w\<lparr>w_depth := w_depth w + 1,
      w_cells := (w_cells w)[w_depth w + 1 := (DEFAULT_ADDRESS_CELLS, DEFAULT_SIZE_CELLS)],
      w_offset := of_nat (i + length (enc (Begin name)))\<rparr>"
  assume room: "length cs < MAX_DEPTH"
  have "open_node p w = Some (Inl (Some (Node_Step \<lparr>node_offset = of_nat i, node_depth = length cs,
      address_cells = fst (hd cs), size_cells = snd (hd cs)\<rparr> name), ?w'))"
    using tok(3) str past align cell w room
    by (simp add: open_node_def Let_def del: of_nat_add enc.simps)
  then have "walker_next p w = Some (Some (Node_Step \<lparr>node_offset = of_nat i, node_depth = length cs,
      address_cells = fst (hd cs), size_cells = snd (hd cs)\<rparr> name), ?w')"
    using tok(1,2) by (subst walker_next.simps) (simp add: walker_turn_def token_consts)
  then show "\<exists>w'. walker_next p w = Some (Some (Node_Step \<lparr>node_offset = of_nat i, node_depth = length cs,
      address_cells = fst (hd cs), size_cells = snd (hd cs)\<rparr> name), w') \<and>
    stands w' b (i + length (enc (Begin name))) e ((DEFAULT_ADDRESS_CELLS, DEFAULT_SIZE_CELLS) # cs)"
    using stands_push [OF assms(1) room] by blast
qed

lemma next_end:
  assumes "stands w b i e cs" "test_image p b bytes e" "drop i bytes = enc Finish @ rest" "i + 4 \<le> e"
  shows "length cs \<le> 1 \<Longrightarrow> walker_next p w = Some (None, w)"
    "2 \<le> length cs \<Longrightarrow> \<exists>w'. walker_next p w = walker_next p w' \<and> stands w' b (i + 4) e (tl cs)"
proof -
  have "drop i bytes = be_split 4 FDT_END_NODE @ rest" using assms(3) by simp
  note tok = stands_token [OF assms(1,2) this assms(4)]
  have d: "w_depth w = length cs - 1" using assms(1) by (simp add: stands_def)
  then show "length cs \<le> 1 \<Longrightarrow> walker_next p w = Some (None, w)"
    using tok by (subst walker_next.simps) (simp add: walker_turn_def token_consts del: of_nat_add)
  assume two: "2 \<le> length cs"
  then have "walker_next p w = walker_next p (w\<lparr>w_depth := w_depth w - 1, w_offset := of_nat (i + 4)\<rparr>)"
    using tok d by (subst walker_next.simps) (simp add: walker_turn_def token_consts del: of_nat_add)
  then show "\<exists>w'. walker_next p w = walker_next p w' \<and> stands w' b (i + 4) e (tl cs)"
    using stands_pop [OF assms(1) two] by blast
qed

text \<open>A property as it lies in the structure block, and one that lies.\<close>

lemma test_prop_at:
  assumes "test_image p b bytes e" "drop i bytes = enc (Value k v) @ rest"
    and "i + length (enc (Value k v)) \<le> e" "i mod 4 = 0" "unat k < 42"
  shows "prop_at p b (of_nat i) = Some (Some (string_at k, v, of_nat (i + length (enc (Value k v)))))"
proof -
  have img: "image p b bytes" "length bytes = e + 42" "drop e bytes = TEST_STRINGS"
    "off_dt_strings (blob_header b) = of_nat e" "size_dt_strings (blob_header b) = 42"
    using assms(1) by (simp_all add: test_image_def)
  have fits: "i + 12 + length v \<le> e" "i + 12 + round4 (length v) \<le> e"
    using assms(3) round4_ge [of "length v"] by simp_all
  have at0: "drop i bytes = be_split 4 FDT_PROP @ be_split 4 (of_nat (length v) :: u32) @ be_split 4 k @ pad4 v @ rest"
    using assms(2) by simp
  have at4: "drop (i + 4) bytes = be_split 4 (of_nat (length v) :: u32) @ be_split 4 k @ pad4 v @ rest"
    using arg_cong [OF at0, of "drop 4"] by (simp add: add.commute)
  have at8: "drop (i + 8) bytes = be_split 4 k @ pad4 v @ rest"
    using arg_cong [OF at0, of "drop 8"] by (simp add: add.commute)
  have at12: "drop (i + 12) bytes = v @ (replicate (round4 (length v) - length v) 0 @ rest)"
    using arg_cong [OF at0, of "drop 12"] by (simp add: add.commute pad4_def)
  have small: "e < 2 ^ 30" using image_small [OF img(1), of e] img(2) by simp
  have sums: "checked_add (of_nat i :: u32) 4 = Some (of_nat (i + 4))" "checked_add (of_nat i :: u32) 8 = Some (of_nat (i + 8))"
    "checked_add (of_nat i :: u32) 12 = Some (of_nat (i + 12))"
    "checked_add (of_nat (i + 12) :: u32) (of_nat (length v)) = Some (of_nat (i + 12 + length v))"
    using fits small by (intro checked_add_nats checked_add_numeral; simp)+
  obtain r where r: "drop (unat k) TEST_STRINGS = string_at k @ 0 # r" "0 \<notin> set (string_at k)" "from_utf8 (string_at k)"
    using string_at_ends [OF assms(5)] .
  have "unat k + length (string_at k) < 42"
    using arg_cong [OF r(1), of length] assms(5) by (simp add: length_test_strings)
  moreover have "drop (e + unat k) bytes = string_at k @ 0 # r"
    using arg_cong [OF img(3), of "drop (unat k)"] r(1) by (simp add: add.commute)
  ultimately have "str_at p b (of_nat (e + unat k)) (of_nat (e + 42)) = Some (Some (string_at k))"
    using r(2,3) img(2) by (intro image_str [OF img(1)]) simp_all
  moreover have "checked_add (of_nat e :: u32) k = Some (of_nat (e + unat k))"
    "checked_add (of_nat e :: u32) 42 = Some (of_nat (e + 42))"
    using checked_add_nats [of e "unat k"] checked_add_nats [of e 42] small assms(5) by simp_all
  moreover have "\<not> (of_nat (e + 42) :: u32) \<le> of_nat (e + unat k)"
    using small assms(5) by (simp add: word_le_nat_alt del: of_nat_add)
  ultimately have name: "name_string p b k = Some (Some (string_at k))"
    using img(4,5) by (simp add: name_string_def del: of_nat_add)
  have "align4 (of_nat (i + 12 + length v)) = of_nat (round4 (i + 12 + length v))"
    using fits small by (intro align4_nat) simp
  also have "round4 (i + 12 + length v) = i + length (enc (Value k v))"
    using round4_add [of "i + 12" "length v"] assms(4) by (simp add: mod_eq_0_iff_dvd dvd_add add.assoc)
  finally have align: "align4 (of_nat (i + 12 + length v)) = of_nat (i + length (enc (Value k v)))" .
  have "bytes_at p b (of_nat (i + 12)) (of_nat (length v)) = Some (Some v)"
    using fits(1) img(2) by (intro image_bytes [OF img(1) at12]) simp
  then show ?thesis
    using sums image_u32 [OF img(1) at4] image_u32 [OF img(1) at8] name align
    by (simp add: prop_at_def attempt_def del: of_nat_add enc.simps)
qed

lemma next_prop:
  assumes "stands w b i e cs" "test_image p b bytes e" "drop i bytes = enc (Value k v) @ rest"
    and "i + length (enc (Value k v)) \<le> e" "i mod 4 = 0" "unat k < 42"
  shows "\<exists>w'. walker_next p w = Some (Some (Property_Step (string_at k) v), w') \<and>
    stands w' b (i + length (enc (Value k v))) e (note_top (string_at k) v cs)"
proof -
  have "drop i bytes = be_split 4 FDT_PROP @ be_split 4 (of_nat (length v) :: u32) @ be_split 4 k @ pad4 v @ rest"
    using assms(3) by simp
  note tok = stands_token [OF assms(1,2) this]
  have tok: "\<not> w_end w \<le> w_offset w" "u32_at p (w_blob w) (w_offset w) = Some (Some FDT_PROP)"
    using tok assms(4) by simp_all
  have w: "w_offset w = of_nat i" "w_blob w = b" using assms(1) by (simp_all add: stands_def)
  obtain w' where "note_cells (string_at k) v (w\<lparr>w_offset := of_nat (i + length (enc (Value k v)))\<rparr>) = Some w'"
    "stands w' b (i + length (enc (Value k v))) e (note_top (string_at k) v cs)"
    using note_cells_stands [OF assms(1)] by blast
  then show ?thesis
    using tok w test_prop_at [OF assms(2-6)] by (subst walker_next.simps)
      (simp add: walker_turn_def take_prop_def token_consts del: of_nat_add enc.simps)
qed

lemma lying_prop_at:
  assumes "test_image p b bytes e" "drop i bytes = enc (Lying k n) @ rest" "i + 12 \<le> e" "e \<le> 512 - 42" "512 \<le> unat n"
  shows "prop_at p b (of_nat i) = Some None"
proof -
  have img: "image p b bytes" "length bytes = e + 42" using assms(1) by (simp_all add: test_image_def)
  have at0: "drop i bytes = be_split 4 FDT_PROP @ be_split 4 n @ be_split 4 k @ rest" using assms(2) by simp
  have at4: "drop (i + 4) bytes = be_split 4 n @ be_split 4 k @ rest"
    using arg_cong [OF at0, of "drop 4"] by (simp add: add.commute)
  have at8: "drop (i + 8) bytes = be_split 4 k @ rest"
    using arg_cong [OF at0, of "drop 8"] by (simp add: add.commute)
  have "bytes_at p b (of_nat (i + 12)) n = Some None"
  proof (cases "checked_add (of_nat (i + 12)) n")
    case (Some s)
    then have "unat s = i + 12 + unat n" using assms(3,4) by (auto dest!: checked_addD simp del: of_nat_add)
    then have "blob_size b < s" using assms(4,5) img by (simp add: word_less_nat_alt image_def)
    with Some show ?thesis by (simp add: bytes_at_def)
  qed (simp add: bytes_at_def)
  then show ?thesis
    using assms(3,4) image_u32 [OF img(1) at4] image_u32 [OF img(1) at8]
    by (simp add: prop_at_def attempt_def checked_add_numeral del: of_nat_add)
qed

lemma walk_all_same_next: "walker_next p w = walker_next p w' \<Longrightarrow> walk_all p w = walk_all p w'"
  by (subst (1 2) walk_all.simps) simp

lemma walk_all_stop: "walker_next p w = Some (None, w') \<Longrightarrow> walk_all p w = Some []"
  by (subst walk_all.simps) simp

lemma walk_all_step:
  "walker_next p w = Some (Some step, w') \<Longrightarrow> walk_all p w' = Some steps \<Longrightarrow> walk_all p w = Some (step # steps)"
  by (subst walk_all.simps) simp

lemma drop_enc:
  "drop i bytes = enc k @ rest \<Longrightarrow> drop (i + length (enc k)) bytes = rest"
  by (metis add.commute append_eq_conv_conj drop_drop)

lemma walk_tokens:
  assumes "test_image p b bytes e" "e \<le> 512 - 42"
  shows "drop i bytes = concat (map enc ks) @ be_split 4 FDT_END @ TEST_STRINGS \<Longrightarrow>
    i + length (concat (map enc ks)) + 4 = e \<Longrightarrow> i mod 4 = 0 \<Longrightarrow> list_all token_ok ks \<Longrightarrow>
    stands w b i e cs \<Longrightarrow> walk_all p w = Some (expect i cs ks)"
proof (induction ks arbitrary: i w cs)
  case Nil
  have "drop i bytes = be_split 4 FDT_END @ TEST_STRINGS" using Nil.prems(1) by simp
  note tok = stands_token [OF Nil.prems(5) assms(1) this]
  then have "walker_next p w = Some (None, w)"
    using Nil.prems(2) by (subst walker_next.simps) (simp add: walker_turn_def token_consts)
  then show ?case by (simp add: walk_all_stop)
next
  case (Cons k ks)
  let ?rest = "concat (map enc ks) @ be_split 4 FDT_END @ TEST_STRINGS"
  have here: "drop i bytes = enc k @ ?rest" using Cons.prems(1) by simp
  have fits: "i + length (enc k) \<le> e" using Cons.prems(2) by simp
  have next_i: "drop (i + length (enc k)) bytes = ?rest"
    "i + length (enc k) + length (concat (map enc ks)) + 4 = e" "(i + length (enc k)) mod 4 = 0"
    "list_all token_ok ks"
    using drop_enc [OF here] Cons.prems(2-4) length_enc [of k] by (simp_all add: mod_eq_0_iff_dvd dvd_add)
  note IH = Cons.IH [OF next_i]
  have cs: "cs \<noteq> []" using Cons.prems(5) by (simp add: stands_def)
  show ?case
  proof (cases k)
    case (Begin name)
    have name: "0 \<notin> set name" "from_utf8 name" using Cons.prems(4) Begin by (simp_all add: token_ok_def)
    note step = next_begin [OF Cons.prems(5) assms(1) here [unfolded Begin] fits [unfolded Begin] Cons.prems(3) name]
    show ?thesis
    proof (cases "MAX_DEPTH \<le> length cs")
      case True
      then show ?thesis using step(1) Begin by (auto dest: walk_all_stop)
    next
      case False
      then obtain w' where w': "walker_next p w = Some (Some (Node_Step \<lparr>node_offset = of_nat i,
          node_depth = length cs, address_cells = fst (hd cs), size_cells = snd (hd cs)\<rparr> name), w')"
        "stands w' b (i + length (enc k)) e ((DEFAULT_ADDRESS_CELLS, DEFAULT_SIZE_CELLS) # cs)"
        using step(2) Begin by auto
      from walk_all_step [OF w'(1) IH [OF w'(2)]] False Begin show ?thesis by simp
    qed
  next
    case Finish
    note step = next_end [OF Cons.prems(5) assms(1) here [unfolded Finish]]
    show ?thesis
    proof (cases "length cs \<le> 1")
      case True
      then have "walker_next p w = Some (None, w)" using step(1) fits Finish by simp
      with True Finish show ?thesis by (simp add: walk_all_stop)
    next
      case False
      then obtain w' where w': "walker_next p w = walker_next p w'" "stands w' b (i + length (enc k)) e (tl cs)"
        using step(2) fits Finish by auto
      have "walk_all p w = walk_all p w'" by (rule walk_all_same_next [OF w'(1)])
      with IH [OF w'(2)] False Finish show ?thesis by simp
    qed
  next
    case (Value name_offset v)
    have "unat name_offset < 42" using Cons.prems(4) Value by (simp add: token_ok_def)
    then obtain w' where w': "walker_next p w = Some (Some (Property_Step (string_at name_offset) v), w')"
      "stands w' b (i + length (enc k)) e (note_top (string_at name_offset) v cs)"
      using next_prop [OF Cons.prems(5) assms(1) here [unfolded Value] fits [unfolded Value] Cons.prems(3)] Value by auto
    from walk_all_step [OF w'(1) IH [OF w'(2)]] Value show ?thesis by simp
  next
    case (Lying name_offset claimed)
    have "drop i bytes = be_split 4 FDT_PROP @ be_split 4 claimed @ be_split 4 name_offset @ ?rest"
      using here Lying by simp
    note tok = stands_token [OF Cons.prems(5) assms(1) this]
    have "prop_at p b (of_nat i) = Some None"
      using lying_prop_at [OF assms(1) here [unfolded Lying] _ assms(2)] fits Cons.prems(4) Lying
      by (simp add: token_ok_def)
    moreover have "w_blob w = b" "w_offset w = of_nat i" using Cons.prems(5) by (simp_all add: stands_def)
    ultimately have "walker_next p w = Some (None, w)"
      using tok fits Lying
      by (subst walker_next.simps) (simp add: walker_turn_def take_prop_def token_consts del: of_nat_add)
    then show ?thesis using Lying by (simp add: walk_all_stop)
  qed
qed

section \<open>Asking a node for its properties\<close>

primrec value_of :: "u8 list \<Rightarrow> token list \<Rightarrow> u8 list option" where
  "value_of name [] = None"
| "value_of name (k # ks) = (case k of
     Value name_offset v \<Rightarrow> if string_at name_offset = name then Some v else value_of name ks
   | _ \<Rightarrow> None)"

lemma prop_next_token:
  "u32_at p b i = Some (Some k) \<Longrightarrow> k \<noteq> FDT_NOP \<Longrightarrow>
     prop_next p b i = (if k = FDT_PROP then prop_at p b i else Some None)"
  by (subst prop_next.simps) simp

lemma find_prop_tokens:
  assumes "test_image p b bytes e" "e \<le> 512 - 42"
  shows "drop i bytes = concat (map enc ks) @ be_split 4 FDT_END @ TEST_STRINGS \<Longrightarrow>
    i + length (concat (map enc ks)) + 4 = e \<Longrightarrow> i mod 4 = 0 \<Longrightarrow> list_all token_ok ks \<Longrightarrow>
    find_prop p b (of_nat i) name = Some (value_of name ks)"
proof (induction ks arbitrary: i)
  case Nil
  have img: "image p b bytes" using assms(1) by (simp add: test_image_def)
  have "drop i bytes = be_split 4 FDT_END @ TEST_STRINGS" using Nil.prems(1) by simp
  from prop_next_token [OF image_u32 [OF img this]] have "prop_next p b (of_nat i) = Some None"
    by (simp add: token_consts)
  then show ?case by (subst find_prop.simps) simp
next
  case (Cons k ks)
  have img: "image p b bytes" using assms(1) by (simp add: test_image_def)
  let ?rest = "concat (map enc ks) @ be_split 4 FDT_END @ TEST_STRINGS"
  have here: "drop i bytes = enc k @ ?rest" using Cons.prems(1) by simp
  have fits: "i + length (enc k) \<le> e" using Cons.prems(2) by simp
  have next_i: "drop (i + length (enc k)) bytes = ?rest"
    "i + length (enc k) + length (concat (map enc ks)) + 4 = e" "(i + length (enc k)) mod 4 = 0"
    "list_all token_ok ks"
    using drop_enc [OF here] Cons.prems(2-4) length_enc [of k] by (simp_all add: mod_eq_0_iff_dvd dvd_add)
  note IH = Cons.IH [OF next_i]
  have none: "prop_next p b (of_nat i) = Some None \<Longrightarrow> find_prop p b (of_nat i) name = Some None"
    by (subst find_prop.simps) simp
  show ?case
  proof (cases k)
    case (Begin n)
    then have "drop i bytes = be_split 4 FDT_BEGIN_NODE @ pad4 (n @ [0]) @ ?rest" using here by simp
    from prop_next_token [OF image_u32 [OF img this]] Begin none show ?thesis by (simp add: token_consts)
  next
    case Finish
    then have "drop i bytes = be_split 4 FDT_END_NODE @ ?rest" using here by simp
    from prop_next_token [OF image_u32 [OF img this]] Finish none show ?thesis by (simp add: token_consts)
  next
    case (Value name_offset v)
    have "unat name_offset < 42" using Cons.prems(4) Value by (simp add: token_ok_def)
    from test_prop_at [OF assms(1) here [unfolded Value] fits [unfolded Value] Cons.prems(3) this] have
      at: "prop_at p b (of_nat i) = Some (Some (string_at name_offset, v, of_nat (i + length (enc k))))"
      by (simp add: Value)
    have "drop i bytes = be_split 4 FDT_PROP @
        (be_split 4 (of_nat (length v) :: u32) @ be_split 4 name_offset @ pad4 v) @ ?rest"
      using here Value by simp
    from prop_next_token [OF image_u32 [OF img this]] at have
      "prop_next p b (of_nat i) = Some (Some (string_at name_offset, v, of_nat (i + length (enc k))))"
      by (simp add: token_consts del: of_nat_add)
    then show ?thesis using IH Value by (subst find_prop.simps) (simp del: of_nat_add enc.simps)
  next
    case (Lying name_offset claimed)
    have "prop_at p b (of_nat i) = Some None"
      using lying_prop_at [OF assms(1) here [unfolded Lying] _ assms(2)] fits Cons.prems(4) Lying
      by (simp add: token_ok_def)
    moreover have "drop i bytes = be_split 4 FDT_PROP @ be_split 4 claimed @ be_split 4 name_offset @ ?rest"
      using here Lying by simp
    ultimately show ?thesis
      using prop_next_token [OF image_u32 [OF img]] Lying none by (simp add: token_consts)
  qed
qed

lemma property_tokens:
  assumes "test_image p b bytes e" "e \<le> 512 - 42" "node_offset n = of_nat i"
    and "drop i bytes = enc (Begin nm) @ concat (map enc ks) @ be_split 4 FDT_END @ TEST_STRINGS"
    and "i + length (enc (Begin nm)) + length (concat (map enc ks)) + 4 = e" "i mod 4 = 0"
    and "list_all token_ok ks" "token_ok (Begin nm)"
  shows "property p b n name = Some (value_of name ks)"
proof -
  have img: "image p b bytes" "length bytes = e + 42" using assms(1) by (simp_all add: test_image_def)
  have nm: "0 \<notin> set nm" "from_utf8 nm" using assms(8) by (simp_all add: token_ok_def)
  have fits: "i + 4 + length nm < e" "e < 2 ^ 30"
    using assms(2,5) round4_ge [of "length nm + 1"] by simp_all
  have "drop (i + 4) bytes = drop 4 (drop i bytes)" by (simp add: add.commute)
  also have "\<dots> = nm @ 0 # (replicate (round4 (length nm + 1) - (length nm + 1)) 0 @
      concat (map enc ks) @ be_split 4 FDT_END @ TEST_STRINGS)"
    using assms(4) by (simp add: pad4_def)
  finally have "str_at p b (of_nat (i + 4)) (of_nat (length bytes)) = Some (Some nm)"
    using nm fits img(2) by (intro image_str [OF img(1)]) simp_all
  moreover have "of_nat (length bytes) = blob_size b" using img(1) by (simp add: image_def word_unat_eq_iff)
  ultimately have str: "str_at p b (of_nat (i + 4)) (blob_size b) = Some (Some nm)" by simp
  have past: "checked_add (of_nat i :: u32) 4 = Some (of_nat (i + 4))"
    "checked_add (of_nat (i + 4) :: u32) (of_nat (length nm)) = Some (of_nat (i + 4 + length nm))"
    "checked_add (of_nat (i + 4 + length nm) :: u32) 1 = Some (of_nat (i + 4 + length nm + 1))"
    using fits by (intro checked_add_nats checked_add_numeral; simp)+
  have "align4 (of_nat (i + 4 + length nm + 1)) = of_nat (round4 (i + 4 + length nm + 1))"
    using fits by (intro align4_nat) simp
  also have "round4 (i + 4 + length nm + 1) = i + length (enc (Begin nm))"
    using round4_add [of "i + 4" "length nm + 1"] assms(6) by (simp add: mod_eq_0_iff_dvd dvd_add add.assoc)
  finally have "props_start p b n = Some (of_nat (i + length (enc (Begin nm))))"
    using past str assms(3) by (simp add: props_start_def del: of_nat_add enc.simps)
  moreover have "find_prop p b (of_nat (i + length (enc (Begin nm)))) name = Some (value_of name ks)"
    using drop_enc [OF assms(4)] assms(5-7) length_enc [of "Begin nm"]
    by (intro find_prop_tokens [OF assms(1,2)]) (simp_all add: mod_eq_0_iff_dvd dvd_add)
  ultimately show ?thesis by (simp add: property_def del: of_nat_add enc.simps)
qed

section \<open>Searches over the steps of a walk\<close>

text \<open>\<open>find_node\<close> and \<open>find_compatible\<close> see the tree only through the steps of the walker.\<close>

primrec find_steps :: "u8 list \<Rightarrow> nat \<Rightarrow> fdt_step list \<Rightarrow> bool list \<Rightarrow> node option option" where
  "find_steps path wanted [] on_path = Some None"
| "find_steps path wanted (s # ss) on_path = (case s of
     Property_Step _ _ \<Rightarrow> find_steps path wanted ss on_path
   | Node_Step n name \<Rightarrow> do {
       matched \<leftarrow> on_the_path path on_path n name;
       assert_that (node_depth n < length on_path);
       if matched \<and> node_depth n = wanted + 1 then Some (Some n)
       else find_steps path wanted ss (on_path[node_depth n := matched])
     })"

primrec compatible_steps ::
  "(node \<Rightarrow> u8 list option option) \<Rightarrow> u8 list \<Rightarrow> u32 \<Rightarrow> fdt_step list \<Rightarrow> node option option" where
  "compatible_steps f wanted offset [] = Some None"
| "compatible_steps f wanted offset (s # ss) = (case s of
     Property_Step _ _ \<Rightarrow> compatible_steps f wanted offset ss
   | Node_Step n _ \<Rightarrow>
       if node_offset n \<le> offset then compatible_steps f wanted offset ss
       else do {
         xs \<leftarrow> f n;
         if (case xs of Some xs \<Rightarrow> string_list_contains xs wanted | None \<Rightarrow> False) then Some (Some n)
         else compatible_steps f wanted offset ss
       })"

lemma walk_all_cases:
  assumes "walk_all p w = Some steps"
  obtains w' where "walker_next p w = Some (None, w')" "steps = []"
  | s ss w' where "walker_next p w = Some (Some s, w')" "walk_all p w' = Some ss" "steps = s # ss"
  using assms by (subst (asm) walk_all.simps) (auto simp: bind_eq_Some_conv split: option.splits)

lemma find_node_steps:
  "walk_all p w = Some steps \<Longrightarrow> find_node_loop p path wanted w on_path = find_steps path wanted steps on_path"
proof (induction steps arbitrary: w on_path)
  case Nil
  from Nil show ?case by (rule walk_all_cases) (subst find_node_loop.simps, simp)+
next
  case (Cons s ss)
  from Cons.prems obtain w' where w': "walker_next p w = Some (Some s, w')" "walk_all p w' = Some ss"
    by (rule walk_all_cases) auto
  then show ?case
    using Cons.IH [OF w'(2)] by (subst find_node_loop.simps) (simp split: fdt_step.split cong: if_cong)
qed

lemma find_compatible_steps:
  "walk_all p w = Some steps \<Longrightarrow>
     find_compatible_loop p b wanted offset w = compatible_steps (\<lambda>n. property p b n (ascii ''compatible'')) wanted offset steps"
proof (induction steps arbitrary: w)
  case Nil
  from Nil show ?case by (rule walk_all_cases) (subst find_compatible_loop.simps, simp)+
next
  case (Cons s ss)
  from Cons.prems obtain w' where w': "walker_next p w = Some (Some s, w')" "walk_all p w' = Some ss"
    by (rule walk_all_cases) auto
  then show ?case
    using Cons.IH [OF w'(2)] by (subst find_compatible_loop.simps) (simp split: fdt_step.split cong: if_cong)
qed

section \<open>Properties\<close>

definition write_tokens :: "token list \<Rightarrow> tree option" where
  "write_tokens ks = for_each write_token ks tree_new"

text \<open>Where a tree can lie.\<close>

definition place_ok :: "u64 \<Rightarrow> bool" where
  "place_ok va \<longleftrightarrow> va \<noteq> 0 \<and> is_multiple_of va 8 \<and> unat va + 512 < 2 ^ 64"

lemma test_image_written:
  assumes "image p b (concat (map (be_split 4) (test_header (length bs + 4))) @ (bs @ be_split 4 FDT_END) @ TEST_STRINGS)"
    and "b = test_blob va (length bs + 4)"
  shows "test_image p b (concat (map (be_split 4) (test_header (length bs + 4))) @ (bs @ be_split 4 FDT_END) @ TEST_STRINGS)
    (40 + (length bs + 4))"
proof -
  have "length (concat (map (be_split 4) (test_header (length bs + 4)))) = 40" by (simp add: test_header_def)
  then show ?thesis using assms by (simp add: test_image_def test_blob_def length_test_strings)
qed

lemma walk_stands:
  assumes "n \<le> 470"
  shows "stands (walk (test_blob va n)) (test_blob va n) 40 (40 + n) [(DEFAULT_ADDRESS_CELLS, DEFAULT_SIZE_CELLS)]"
proof -
  have "saturating_add 40 (of_nat n) = (of_nat (40 + n) :: u32)"
    using assms checked_add_nats [of 40 n] by (simp add: saturating_add_def checked_add_def split: if_splits)
  then show ?thesis by (simp add: stands_def walk_def walker_at_def test_blob_def MAX_DEPTH_def numeral_nat)
qed

lemma written_tree:
  assumes "list_all token_ok ks" "length (concat (map enc ks)) \<le> 426" "place_ok va"
  shows "\<exists>t b p' bytes e. write_tokens ks = Some t \<and> tree_finish p va t = Some (b, p') \<and>
    test_image p' b bytes e \<and> e = 40 + length (concat (map enc ks)) + 4 \<and>
    drop 40 bytes = concat (map enc ks) @ be_split 4 FDT_END @ TEST_STRINGS \<and>
    walk_all p' (walk b) = Some (expect 40 [(DEFAULT_ADDRESS_CELLS, DEFAULT_SIZE_CELLS)] ks)"
proof -
  let ?bs = "concat (map enc ks)"
  let ?bytes = "concat (map (be_split 4) (test_header (length ?bs + 4))) @ (?bs @ be_split 4 FDT_END) @ TEST_STRINGS"
  obtain t where t: "write_tokens ks = Some t" "written t ?bs"
    using written_tokens [OF written_new, of ks] assms(2) by (auto simp: write_tokens_def)
  obtain p' where p': "tree_finish p va t = Some (test_blob va (length ?bs + 4), p')"
    "image p' (test_blob va (length ?bs + 4)) ?bytes"
    using finished [OF t(2), of va p] assms(2,3) by (auto simp: place_ok_def)
  note img = test_image_written [OF p'(2) refl]
  have "length (concat (map (be_split 4) (test_header (length ?bs + 4)))) = 40" by (simp add: test_header_def)
  then have at: "drop 40 ?bytes = ?bs @ be_split 4 FDT_END @ TEST_STRINGS" by simp
  have "walk_all p' (walk (test_blob va (length ?bs + 4))) =
      Some (expect 40 [(DEFAULT_ADDRESS_CELLS, DEFAULT_SIZE_CELLS)] ks)"
    using assms(1,2) by (intro walk_tokens [OF img _ at _ _ _ walk_stands]) simp_all
  then show ?thesis using t(1) p'(1) img at by fastforce
qed

lemma parse_written:
  assumes "list_all token_ok ks" "length (concat (map enc ks)) \<le> 426" "place_ok va"
  shows "\<exists>t b p'. write_tokens ks = Some t \<and> tree_finish p va t = Some (b, p') \<and>
    walk_all p' (walk b) = Some (expect 40 [(DEFAULT_ADDRESS_CELLS, DEFAULT_SIZE_CELLS)] ks) \<and>
    (\<forall>ks1 nm ks2 n name. ks = ks1 @ Begin nm # ks2 \<longrightarrow>
       node_offset n = of_nat (40 + length (concat (map enc ks1))) \<longrightarrow>
       property p' b n name = Some (value_of name ks2))"
proof -
  obtain t b p' bytes e where w: "write_tokens ks = Some t" "tree_finish p va t = Some (b, p')"
    "test_image p' b bytes e" "e = 40 + length (concat (map enc ks)) + 4"
    "drop 40 bytes = concat (map enc ks) @ be_split 4 FDT_END @ TEST_STRINGS"
    "walk_all p' (walk b) = Some (expect 40 [(DEFAULT_ADDRESS_CELLS, DEFAULT_SIZE_CELLS)] ks)"
    using written_tree [OF assms, of p] by blast
  have "property p' b n name = Some (value_of name ks2)"
    if ks: "ks = ks1 @ Begin nm # ks2" and n: "node_offset n = of_nat (40 + length (concat (map enc ks1)))"
    for ks1 nm ks2 n name
  proof (rule property_tokens [OF w(3) _ n])
    have "drop (length (concat (map enc ks1))) (drop 40 bytes) =
        enc (Begin nm) @ concat (map enc ks2) @ be_split 4 FDT_END @ TEST_STRINGS"
      unfolding w(5) ks by simp
    then show "drop (40 + length (concat (map enc ks1))) bytes =
        enc (Begin nm) @ concat (map enc ks2) @ be_split 4 FDT_END @ TEST_STRINGS"
      by (simp add: add.commute)
    have "length (concat (map enc xs)) mod 4 = 0" for xs
      using length_enc by (induction xs) (simp_all add: mod_eq_0_iff_dvd dvd_add)
    then show "(40 + length (concat (map enc ks1))) mod 4 = 0" by (simp add: mod_eq_0_iff_dvd dvd_add)
  qed (use assms(1,2) w(4) ks in simp_all)
  then show ?thesis using w(1,2,6) by blast
qed

text \<open>
  C9. Parsing undoes writing. For every list of tokens that fits into the writer's array, with names
  that are strings and property names from its strings block, writing it and walking the tree that
  comes out yields exactly the tokens: every node with its offset, its depth and the cell counts its
  parent declared, every property with its name and value, up to the first thing that ends the walk,
  a node deeper than the walker's array, a closing token too many or a property whose length is a
  lie. A node asked for a property answers with the first of its own properties of that name.
\<close>

theorem write_then_parse:
  assumes "list_all token_ok ks" "length (concat (map enc ks)) \<le> 426" "place_ok va"
  shows "\<exists>t b p'. write_tokens ks = Some t \<and> tree_finish p va t = Some (b, p') \<and>
    walk_all p' (walk b) = Some (expect 40 [(DEFAULT_ADDRESS_CELLS, DEFAULT_SIZE_CELLS)] ks) \<and>
    (\<forall>ks1 nm ks2 n name. ks = ks1 @ Begin nm # ks2 \<longrightarrow>
       node_offset n = of_nat (40 + length (concat (map enc ks1))) \<longrightarrow>
       property p' b n name = Some (value_of name ks2))"
  by (rule parse_written [OF assms])

theorem write_then_parse_witness:
  "\<exists>t b p'. write_tokens [Begin [], Value STR_ADDRESS_CELLS [0, 0, 0, 1], Begin (ascii ''cpu''), Finish, Finish] = Some t \<and>
     tree_finish \<lparr>pmem = (\<lambda>_. 0xab), phys_offset = 0xffff000000000000\<rparr> 0xffff000041000000 t = Some (b, p') \<and>
     walk_all p' (walk b) = Some
       [Node_Step \<lparr>node_offset = 40, node_depth = 1, address_cells = 2, size_cells = 1\<rparr> [],
        Property_Step (ascii ''#address-cells'') [0, 0, 0, 1],
        Node_Step \<lparr>node_offset = 64, node_depth = 2, address_cells = 1, size_cells = 1\<rparr> (ascii ''cpu'')] \<and>
     property p' b \<lparr>node_offset = 40, node_depth = 1, address_cells = 2, size_cells = 1\<rparr> (ascii ''#address-cells'') =
       Some (Some [0, 0, 0, 1])"
proof -
  let ?ks = "[Begin [], Value STR_ADDRESS_CELLS [0, 0, 0, 1], Begin (ascii ''cpu''), Finish, Finish]"
  have name: "from_utf8 (ascii ''cpu'')" "0 \<notin> set (ascii ''cpu'')" "length (ascii ''cpu'') = 3"
    "string_at STR_ADDRESS_CELLS = ascii ''#address-cells''" by code_simp+
  have "(be_join [0, 0, 0, 1] :: u32) = 1" by (simp add: be_join_def le_join_def)
  then have steps: "expect 40 [(DEFAULT_ADDRESS_CELLS, DEFAULT_SIZE_CELLS)] ?ks =
      [Node_Step \<lparr>node_offset = 40, node_depth = 1, address_cells = 2, size_cells = 1\<rparr> [],
       Property_Step (ascii ''#address-cells'') [0, 0, 0, 1],
       Node_Step \<lparr>node_offset = 64, node_depth = 2, address_cells = 1, size_cells = 1\<rparr> (ascii ''cpu'')]"
    by (simp add: name note_top_def read_cells_def MAX_DEPTH_def DEFAULT_ADDRESS_CELLS_def DEFAULT_SIZE_CELLS_def
        next_multiple_of_def)
  have "list_all token_ok ?ks" by (simp add: token_ok_def name STR_ADDRESS_CELLS_def)
  moreover have "length (concat (map enc ?ks)) \<le> 426" by (simp add: name next_multiple_of_def)
  moreover have "place_ok 0xffff000041000000" by (simp add: place_ok_def is_multiple_of_def)
  ultimately obtain t b p' where w: "write_tokens ?ks = Some t"
    "tree_finish \<lparr>pmem = (\<lambda>_. 0xab), phys_offset = 0xffff000000000000\<rparr> 0xffff000041000000 t = Some (b, p')"
    "walk_all p' (walk b) = Some (expect 40 [(DEFAULT_ADDRESS_CELLS, DEFAULT_SIZE_CELLS)] ?ks)"
    "\<And>ks1 nm ks2 n name. ?ks = ks1 @ Begin nm # ks2 \<Longrightarrow>
      node_offset n = of_nat (40 + length (concat (map enc ks1))) \<Longrightarrow> property p' b n name = Some (value_of name ks2)"
    using write_then_parse [of ?ks "0xffff000041000000" "\<lparr>pmem = (\<lambda>_. 0xab), phys_offset = 0xffff000000000000\<rparr>"]
    by blast
  have "property p' b \<lparr>node_offset = 40, node_depth = 1, address_cells = 2, size_cells = 1\<rparr> (ascii ''#address-cells'') =
      Some (value_of (ascii ''#address-cells'') (tl ?ks))"
    by (rule w(4) [of "[]" "[]"]) simp_all
  then show ?thesis using w(1-3) steps name(4) by simp
qed

end
