(* ===== verification/Fdt_Self_Test.thy ===== *)
theory Fdt_Self_Test
  imports Fdt_Roundtrip
begin

text \<open>
  The boot-time tests of the device tree parser (\<open>self_test\<close> and \<open>tree_self_test\<close> of \<open>fdt.rs\<close>)
  as functions of the addresses their handmade blobs happen to lie at, and that they pass at all of
  them. What the walk over a handmade tree gives comes from \<open>Fdt_Roundtrip\<close>.
\<close>

section \<open>The self test of the walk\<close>

text \<open>
  \<open>tree_self_test\<close>. The array of the \<open>i\<close>th handmade tree lies at \<open>place i\<close>, and every question is
  asked in the memory as it is then. \<open>finish\<close> hands out a blob that points into the array, and the
  first two arrays are temporaries that are gone at the end of their statement: nothing keeps the
  second from being put where the first was, and the first tree is asked again after that. \<open>live\<close> is
  the blob of this boot, if there is one.
\<close>

definition unwrap :: "'a option option \<Rightarrow> 'a option" where
  "unwrap r = do { x \<leftarrow> r; x }"

definition live_tree_test :: "phys \<Rightarrow> blob \<Rightarrow> frame_state \<Rightarrow> unit option" where
  "live_tree_test p live fs = do {
     root \<leftarrow> unwrap (find_node p live (ascii ''/''));
     _ \<leftarrow> property_str p live root (ascii ''compatible'');
     memory \<leftarrow> unwrap (find_node p live (ascii ''/memory''));
     (base, sz) \<leftarrow> unwrap (reg p live memory 0);
     assert_that (base = ram_base fs);
     assert_that (sz = ram_size fs)
   }"

definition unterminated_tree :: "tree option" where
  "unterminated_tree = do {
     t \<leftarrow> tree_u32 FDT_BEGIN_NODE tree_new;
     bytes \<leftarrow> put_slice (tree_len t) (ascii ''aaaa'') (tree_bytes t);
     Some (t\<lparr>tree_bytes := bytes, tree_len := tree_len t + 4\<rparr>)
   }"

definition tree_self_test :: "phys \<Rightarrow> (nat \<Rightarrow> u64) \<Rightarrow> blob option \<Rightarrow> frame_state \<Rightarrow> unit option" where
  "tree_self_test p place live fs = do {
     t \<leftarrow> test_tree 2 2;
     (tree, p) \<leftarrow> tree_finish p (place 0) t;
     memory \<leftarrow> unwrap (find_node p tree (ascii ''/memory''));
     assert_that (node_depth memory = 2);
     r \<leftarrow> reg p tree memory 0;
     assert_that (r = Some (0x1000, 0x2000));
     n \<leftarrow> find_node p tree (ascii ''/memory@1000'');
     assert_that (n = Some memory);
     t \<leftarrow> test_tree 1 1;
     (narrow, p) \<leftarrow> tree_finish p (place 1) t;
     narrow_memory \<leftarrow> unwrap (find_node p narrow (ascii ''/memory''));
     r \<leftarrow> reg p narrow narrow_memory 0;
     assert_that (r = Some (0x0, 0x1000));
     r \<leftarrow> reg p narrow narrow_memory 1;
     assert_that (r = Some (0x0, 0x2000));
     root \<leftarrow> unwrap (find_node p tree (ascii ''/''));
     assert_that (node_depth root = 1);
     str \<leftarrow> property_str p tree root (ascii ''compatible'');
     assert_that (str = Some (ascii ''test,root''));
     n \<leftarrow> find_compatible p tree (ascii ''test,thing'');
     assert_that (n = Some memory);
     n \<leftarrow> find_compatible p tree (ascii ''test,memory'');
     assert_that (n = Some memory);
     n \<leftarrow> find_compatible p tree (ascii ''test,mem'');
     assert_that (n = None);
     n \<leftarrow> find_node p tree (ascii ''/nowhere'');
     assert_that (n = None);
     n \<leftarrow> find_node p tree (ascii ''/memory/deeper'');
     assert_that (n = None);
     v \<leftarrow> property p tree memory (ascii ''status'');
     assert_that (v = None);
     r \<leftarrow> reg p tree memory 9;
     assert_that (r = None);
     t \<leftarrow> tree_begin [] tree_new;
     t \<leftarrow> lying_prop STR_COMPATIBLE 0x10000 t;
     t \<leftarrow> tree_end_node t;
     (lying, p) \<leftarrow> tree_finish p (place 2) t;
     lying_root \<leftarrow> unwrap (find_node p lying (ascii ''/''));
     v \<leftarrow> property p lying lying_root (ascii ''compatible'');
     assert_that (v = None);
     t \<leftarrow> unterminated_tree;
     (unterminated, p) \<leftarrow> tree_finish p (place 3) t;
     n \<leftarrow> find_node p unterminated (ascii ''/'');
     assert_that (n = None);
     t \<leftarrow> for_each (\<lambda>_. tree_begin []) [0..<MAX_DEPTH + 2] tree_new;
     (deep, p) \<leftarrow> tree_finish p (place 4) t;
     steps \<leftarrow> walk_all p (walk deep);
     assert_that (length steps = MAX_DEPTH - 1);
     case live of
       Some live \<Rightarrow> live_tree_test p live fs
     | None \<Rightarrow> Some ()
   }"

text \<open>The trees of the test as tokens, and what the walk over them should be.\<close>

definition test_tokens :: "u32 \<Rightarrow> u32 \<Rightarrow> token list" where
  "test_tokens acells scells =
     [Begin [], Value STR_ADDRESS_CELLS (be_split 4 acells), Value STR_SIZE_CELLS (be_split 4 scells),
      Value STR_COMPATIBLE (ascii ''test,root'' @ [0]), Begin (ascii ''memory@1000''),
      Value STR_COMPATIBLE (ascii ''test,memory'' @ [0] @ ascii ''test,thing'' @ [0]),
      Value STR_REG [0, 0, 0, 0, 0, 0, 0x10, 0, 0, 0, 0, 0, 0, 0, 0x20, 0], Finish, Finish]"

lemma test_tree_tokens: "test_tree acells scells = write_tokens (test_tokens acells scells)"
  by (simp add: test_tree_def write_tokens_def test_tokens_def tree_cells_def)

definition root_node :: node where
  "root_node = \<lparr>node_offset = 40, node_depth = 1, address_cells = 2, size_cells = 1\<rparr>"

definition memory_node :: "u32 \<Rightarrow> u32 \<Rightarrow> node" where
  "memory_node acells scells = \<lparr>node_offset = 104, node_depth = 2, address_cells = acells, size_cells = scells\<rparr>"

lemma test_strings:
  "string_at STR_COMPATIBLE = ascii ''compatible''" "string_at STR_REG = ascii ''reg''"
  "string_at STR_ADDRESS_CELLS = ascii ''#address-cells''" "string_at STR_SIZE_CELLS = ascii ''#size-cells''"
  by code_simp+

lemma string_eqs:
  "ascii ''#size-cells'' \<noteq> ascii ''#address-cells''" "ascii ''compatible'' \<noteq> ascii ''#address-cells''"
  "ascii ''compatible'' \<noteq> ascii ''#size-cells''" "ascii ''reg'' \<noteq> ascii ''#address-cells''"
  "ascii ''reg'' \<noteq> ascii ''#size-cells''" "ascii ''compatible'' \<noteq> ascii ''reg''"
  "ascii ''compatible'' \<noteq> ascii ''status''" "ascii ''reg'' \<noteq> ascii ''status''"
  by code_simp+

lemma expect_simps:
  "length cs < MAX_DEPTH \<Longrightarrow> expect i cs (Begin name # ks) =
     Node_Step \<lparr>node_offset = of_nat i, node_depth = length cs, address_cells = fst (hd cs), size_cells = snd (hd cs)\<rparr> name #
     expect (i + 4 + round4 (length name + 1)) ((DEFAULT_ADDRESS_CELLS, DEFAULT_SIZE_CELLS) # cs) ks"
  "1 < length cs \<Longrightarrow> expect i cs (Finish # ks) = expect (i + 4) (tl cs) ks"
  "expect i cs (Value k v # ks) = Property_Step (string_at k) v #
     expect (i + 12 + round4 (length v)) (note_top (string_at k) v cs) ks"
  by (simp_all add: add.assoc)

lemma note_top_simps:
  "note_top (ascii ''#address-cells'') (be_split 4 (v :: u32)) (c # d # cs) = (v, snd c) # d # cs"
  "note_top (ascii ''#size-cells'') (be_split 4 (v :: u32)) (c # d # cs) = (fst c, v) # d # cs"
  "note_top (ascii ''compatible'') xs cs = cs" "note_top (ascii ''reg'') xs cs = cs"
  by (simp_all add: note_top_def read_cells_def be_join_split string_eqs split: option.split)

lemma test_lengths:
  "length (ascii ''test,root'' @ [0]) = 10" "length (ascii ''memory@1000'') = 11"
  "length (ascii ''test,memory'' @ [0] @ ascii ''test,thing'' @ [0]) = 23"
  "round4 (Suc 0) = 4" "round4 4 = 4" "round4 10 = 12" "round4 12 = 12" "round4 23 = 24" "round4 16 = 16"
  by code_simp+

lemma ascii_lengths:
  "length (ascii ''test,root'') = 9" "length (ascii ''memory@1000'') = 11"
  "length (ascii ''test,memory'') = 11" "length (ascii ''test,thing'') = 10"
  by code_simp+

lemma test_steps:
  "expect 40 [(DEFAULT_ADDRESS_CELLS, DEFAULT_SIZE_CELLS)] (test_tokens acells scells) =
    [Node_Step root_node [], Property_Step (ascii ''#address-cells'') (be_split 4 acells),
     Property_Step (ascii ''#size-cells'') (be_split 4 scells),
     Property_Step (ascii ''compatible'') (ascii ''test,root'' @ [0]),
     Node_Step (memory_node acells scells) (ascii ''memory@1000''),
     Property_Step (ascii ''compatible'') (ascii ''test,memory'' @ [0] @ ascii ''test,thing'' @ [0]),
     Property_Step (ascii ''reg'') [0, 0, 0, 0, 0, 0, 0x10, 0, 0, 0, 0, 0, 0, 0, 0x20, 0]]"
proof -
  let ?c = "(DEFAULT_ADDRESS_CELLS, DEFAULT_SIZE_CELLS)"
  have "expect 104 [(acells, scells), ?c] [Begin (ascii ''memory@1000''),
      Value STR_COMPATIBLE (ascii ''test,memory'' @ [0] @ ascii ''test,thing'' @ [0]),
      Value STR_REG [0, 0, 0, 0, 0, 0, 0x10, 0, 0, 0, 0, 0, 0, 0, 0x20, 0], Finish, Finish] =
    [Node_Step (memory_node acells scells) (ascii ''memory@1000''),
     Property_Step (ascii ''compatible'') (ascii ''test,memory'' @ [0] @ ascii ''test,thing'' @ [0]),
     Property_Step (ascii ''reg'') [0, 0, 0, 0, 0, 0, 0x10, 0, 0, 0, 0, 0, 0, 0, 0x20, 0]]"
    by (simp add: expect_simps note_top_simps test_strings MAX_DEPTH_def memory_node_def del: expect.simps(2))
  moreover have "expect 40 [?c] (test_tokens acells scells) =
    [Node_Step root_node [], Property_Step (ascii ''#address-cells'') (be_split 4 acells),
     Property_Step (ascii ''#size-cells'') (be_split 4 scells),
     Property_Step (ascii ''compatible'') (ascii ''test,root'' @ [0])] @
    expect 104 [(acells, scells), ?c] [Begin (ascii ''memory@1000''),
      Value STR_COMPATIBLE (ascii ''test,memory'' @ [0] @ ascii ''test,thing'' @ [0]),
      Value STR_REG [0, 0, 0, 0, 0, 0, 0x10, 0, 0, 0, 0, 0, 0, 0, 0x20, 0], Finish, Finish]"
    unfolding test_tokens_def
    by (simp add: expect_simps note_top_simps test_strings test_lengths MAX_DEPTH_def root_node_def
        DEFAULT_ADDRESS_CELLS_def DEFAULT_SIZE_CELLS_def del: expect.simps(2) length_append)
  ultimately show ?thesis by simp
qed

text \<open>What the test asks of the two well formed trees.\<close>

lemma find_steps_test:
  fixes acells scells
  defines "steps \<equiv> expect 40 [(DEFAULT_ADDRESS_CELLS, DEFAULT_SIZE_CELLS)] (test_tokens acells scells)"
  shows "find_steps (ascii ''/memory'') 1 steps ((replicate MAX_DEPTH False)[0 := True]) = Some (Some (memory_node acells scells))"
    "find_steps (ascii ''/memory@1000'') 1 steps ((replicate MAX_DEPTH False)[0 := True]) = Some (Some (memory_node acells scells))"
    "find_steps (ascii ''/'') 0 steps ((replicate MAX_DEPTH False)[0 := True]) = Some (Some root_node)"
    "find_steps (ascii ''/nowhere'') 1 steps ((replicate MAX_DEPTH False)[0 := True]) = Some None"
    "find_steps (ascii ''/memory/deeper'') 2 steps ((replicate MAX_DEPTH False)[0 := True]) = Some None"
proof -
  have path: "components (ascii ''/memory'') = [ascii ''memory'']" "components (ascii ''/memory@1000'') = [ascii ''memory@1000'']"
    "components (ascii ''/'') = []" "components (ascii ''/nowhere'') = [ascii ''nowhere'']"
    "components (ascii ''/memory/deeper'') = [ascii ''memory'', ascii ''deeper'']" by code_simp+
  have name: "name_matches (ascii ''memory@1000'') (ascii ''memory'')" "name_matches (ascii ''memory@1000'') (ascii ''memory@1000'')"
    "\<not> name_matches (ascii ''memory@1000'') (ascii ''nowhere'')" by code_simp+
  have len: "(replicate MAX_DEPTH False)[0 := True] = True # replicate 15 False"
    by (simp add: MAX_DEPTH_def numeral_nat)
  note defs = steps_def test_steps len on_the_path_def root_node_def memory_node_def path name nat_sub_def idx_def
  show "find_steps (ascii ''/memory'') 1 steps ((replicate MAX_DEPTH False)[0 := True]) = Some (Some (memory_node acells scells))"
    "find_steps (ascii ''/memory@1000'') 1 steps ((replicate MAX_DEPTH False)[0 := True]) = Some (Some (memory_node acells scells))"
    "find_steps (ascii ''/'') 0 steps ((replicate MAX_DEPTH False)[0 := True]) = Some (Some root_node)"
    "find_steps (ascii ''/nowhere'') 1 steps ((replicate MAX_DEPTH False)[0 := True]) = Some None"
    "find_steps (ascii ''/memory/deeper'') 2 steps ((replicate MAX_DEPTH False)[0 := True]) = Some None"
    by (simp_all add: defs)
qed

lemma compatible_steps_test:
  fixes acells scells
  defines "steps \<equiv> expect 40 [(DEFAULT_ADDRESS_CELLS, DEFAULT_SIZE_CELLS)] (test_tokens acells scells)"
  assumes "f root_node = Some (Some (ascii ''test,root'' @ [0]))"
    and "f (memory_node acells scells) = Some (Some (ascii ''test,memory'' @ [0] @ ascii ''test,thing'' @ [0]))"
  shows "compatible_steps f (ascii ''test,thing'') 0 steps = Some (Some (memory_node acells scells))"
    "compatible_steps f (ascii ''test,memory'') 0 steps = Some (Some (memory_node acells scells))"
    "compatible_steps f (ascii ''test,mem'') 0 steps = Some None"
proof -
  have xs: "string_list_contains (ascii ''test,memory'' @ [0] @ ascii ''test,thing'' @ [0]) (ascii ''test,thing'')"
    "string_list_contains (ascii ''test,memory'' @ [0] @ ascii ''test,thing'' @ [0]) (ascii ''test,memory'')"
    "\<not> string_list_contains (ascii ''test,memory'' @ [0] @ ascii ''test,thing'' @ [0]) (ascii ''test,mem'')"
    "\<not> string_list_contains (ascii ''test,root'' @ [0]) (ascii ''test,thing'')"
    "\<not> string_list_contains (ascii ''test,root'' @ [0]) (ascii ''test,memory'')"
    "\<not> string_list_contains (ascii ''test,root'' @ [0]) (ascii ''test,mem'')" by code_simp+
  have off: "node_offset root_node = 40" "node_offset (memory_node acells scells) = 104"
    by (simp_all add: root_node_def memory_node_def)
  show "compatible_steps f (ascii ''test,thing'') 0 steps = Some (Some (memory_node acells scells))"
    "compatible_steps f (ascii ''test,memory'') 0 steps = Some (Some (memory_node acells scells))"
    "compatible_steps f (ascii ''test,mem'') 0 steps = Some None"
    using assms(2,3) xs unfolding steps_def test_steps by (simp_all add: off)
qed

text \<open>A well formed tree of the test, built at any place.\<close>

lemma test_tree_built:
  assumes "place_ok va"
  shows "\<exists>t b q. test_tree acells scells = Some t \<and> tree_finish p va t = Some (b, q) \<and>
    walk_all q (walk b) =
      Some (expect 40 [(DEFAULT_ADDRESS_CELLS, DEFAULT_SIZE_CELLS)] (test_tokens acells scells)) \<and>
    property q b root_node (ascii ''compatible'') = Some (Some (ascii ''test,root'' @ [0])) \<and>
    property q b (memory_node acells scells) (ascii ''compatible'') =
      Some (Some (ascii ''test,memory'' @ [0] @ ascii ''test,thing'' @ [0])) \<and>
    property q b (memory_node acells scells) (ascii ''reg'') =
      Some (Some [0, 0, 0, 0, 0, 0, 0x10, 0, 0, 0, 0, 0, 0, 0, 0x20, 0]) \<and>
    property q b (memory_node acells scells) (ascii ''status'') = Some None"
proof -
  let ?ks = "test_tokens acells scells"
  have "from_utf8 (ascii ''memory@1000'')" "0 \<notin> set (ascii ''memory@1000'')" by code_simp+
  then have ok: "list_all token_ok ?ks"
    by (simp add: test_tokens_def token_ok_def STR_ADDRESS_CELLS_def STR_SIZE_CELLS_def STR_COMPATIBLE_def STR_REG_def)
  have "length (concat (map enc ?ks)) \<le> 426"
    by (simp add: test_tokens_def ascii_lengths next_multiple_of_def)
  from parse_written [OF ok this assms, of p] obtain t b q where w:
    "write_tokens ?ks = Some t" "tree_finish p va t = Some (b, q)"
    "walk_all q (walk b) = Some (expect 40 [(DEFAULT_ADDRESS_CELLS, DEFAULT_SIZE_CELLS)] ?ks)"
    "\<And>ks1 nm ks2 n name. ?ks = ks1 @ Begin nm # ks2 \<Longrightarrow>
      node_offset n = of_nat (40 + length (concat (map enc ks1))) \<Longrightarrow> property q b n name = Some (value_of name ks2)"
    by blast
  have root: "property q b root_node name = Some (value_of name (tl ?ks))" for name
    by (rule w(4) [of "[]" "[]"]) (simp_all add: test_tokens_def root_node_def)
  have memory: "property q b (memory_node acells scells) name = Some (value_of name (drop 5 ?ks))" for name
  proof (rule w(4) [of "take 4 ?ks" "ascii ''memory@1000''"])
    show "?ks = take 4 ?ks @ Begin (ascii ''memory@1000'') # drop 5 ?ks" by (simp add: test_tokens_def)
    show "node_offset (memory_node acells scells) = of_nat (40 + length (concat (map enc (take 4 ?ks))))"
      by (simp add: test_tokens_def memory_node_def ascii_lengths next_multiple_of_def)
  qed
  have "value_of (ascii ''compatible'') (tl ?ks) = Some (ascii ''test,root'' @ [0])"
    "value_of (ascii ''compatible'') (drop 5 ?ks) = Some (ascii ''test,memory'' @ [0] @ ascii ''test,thing'' @ [0])"
    "value_of (ascii ''reg'') (drop 5 ?ks) = Some [0, 0, 0, 0, 0, 0, 0x10, 0, 0, 0, 0, 0, 0, 0, 0x20, 0]"
    "value_of (ascii ''status'') (drop 5 ?ks) = None"
    by (simp_all add: test_tokens_def test_strings string_eqs string_eqs [symmetric])
  then show ?thesis using w(1-3) root memory by (auto simp: test_tree_tokens)
qed

lemma find_node_walked:
  "walk_all p (walk b) = Some steps \<Longrightarrow>
     find_node p b path = find_steps path (length (components path)) steps ((replicate MAX_DEPTH False)[0 := True])"
  by (simp add: find_node_def find_node_steps)

lemma find_compatible_walked:
  "walk_all p (walk b) = Some steps \<Longrightarrow>
     find_compatible p b wanted = compatible_steps (\<lambda>n. property p b n (ascii ''compatible'')) wanted 0 steps"
  by (simp add: find_compatible_def find_compatible_after_def find_compatible_steps)

lemma two_cells:
  "take_cells [a, b, c, d, e, f, g, h] 2 =
     Some (push_bit 32 (ucast (be_join [a, b, c, d] :: u32)) OR ucast (be_join [e, f, g, h] :: u32), [])"
  "take_cells (a # b # c # d # e # f # g # h # x # xs) 2 =
     Some (push_bit 32 (ucast (be_join [a, b, c, d] :: u32)) OR ucast (be_join [e, f, g, h] :: u32), x # xs)"
  "take_cells (a # b # c # d # xs) 1 = Some (ucast (be_join [a, b, c, d] :: u32), xs)"
proof -
  have two: "unat (2 :: u32) = Suc (Suc 0)" by simp
  show "take_cells [a, b, c, d, e, f, g, h] 2 =
     Some (push_bit 32 (ucast (be_join [a, b, c, d] :: u32)) OR ucast (be_join [e, f, g, h] :: u32), [])"
    "take_cells (a # b # c # d # e # f # g # h # x # xs) 2 =
       Some (push_bit 32 (ucast (be_join [a, b, c, d] :: u32)) OR ucast (be_join [e, f, g, h] :: u32), x # xs)"
    unfolding take_cells_def two by simp_all
qed (simp add: take_cells_def)

lemma test_cells:
  "be_join [0, 0, 0, 0] = (0 :: u32)" "be_join [0, 0, 0x10, 0] = (0x1000 :: u32)" "be_join [0, 0, 0x20, 0] = (0x2000 :: u32)"
  by (simp_all add: be_join_def le_join_def)

lemma test_entries:
  "entry_size (memory_node 2 2) = Some 16" "entry_size (memory_node 1 1) = Some 8"
  by (simp_all add: entry_size_def memory_node_def checked_add_def checked_mul_def)

lemma reg_test:
  assumes "property q b (memory_node acells scells) (ascii ''reg'') =
      Some (Some [0, 0, 0, 0, 0, 0, 0x10, 0, 0, 0, 0, 0, 0, 0, 0x20, 0])"
  shows "acells = 2 \<Longrightarrow> scells = 2 \<Longrightarrow> reg q b (memory_node acells scells) 0 = Some (Some (0x1000, 0x2000))"
    "acells = 2 \<Longrightarrow> scells = 2 \<Longrightarrow> reg q b (memory_node acells scells) 9 = Some None"
    "acells = 1 \<Longrightarrow> scells = 1 \<Longrightarrow> reg q b (memory_node acells scells) 0 = Some (Some (0, 0x1000))"
    "acells = 1 \<Longrightarrow> scells = 1 \<Longrightarrow> reg q b (memory_node acells scells) 1 = Some (Some (0, 0x2000))"
proof -
  have node: "address_cells (memory_node x y) = x" "size_cells (memory_node x y) = y" for x y
    by (simp_all add: memory_node_def)
  show "acells = 2 \<Longrightarrow> scells = 2 \<Longrightarrow> reg q b (memory_node acells scells) 0 = Some (Some (0x1000, 0x2000))"
    "acells = 2 \<Longrightarrow> scells = 2 \<Longrightarrow> reg q b (memory_node acells scells) 9 = Some None"
    "acells = 1 \<Longrightarrow> scells = 1 \<Longrightarrow> reg q b (memory_node acells scells) 0 = Some (Some (0, 0x1000))"
    "acells = 1 \<Longrightarrow> scells = 1 \<Longrightarrow> reg q b (memory_node acells scells) 1 = Some (Some (0, 0x2000))"
    using assms by (simp_all add: reg_def attempt_def node test_entries two_cells test_cells)
qed

section \<open>The malformed trees\<close>

text \<open>
  The tree whose node name is meant to have no terminator: the name is followed by the end token that
  \<open>finish\<close> appends, whose first byte is zero, so it does have one, and the walk opens a node.
\<close>

lemma unterminated_tree_walk:
  assumes "place_ok va"
  shows "\<exists>t b q. unterminated_tree = Some t \<and> tree_finish p va t = Some (b, q) \<and>
    walk_all q (walk b) = Some [Node_Step \<lparr>node_offset = 40, node_depth = 1, address_cells = 2, size_cells = 1\<rparr> (ascii ''aaaa'')]"
proof -
  obtain t1 where t1: "tree_u32 FDT_BEGIN_NODE tree_new = Some t1" "written t1 (be_split 4 FDT_BEGIN_NODE)"
    using written_u32 [OF written_new, of FDT_BEGIN_NODE] by auto
  have len: "length (ascii ''aaaa'') = 4" by code_simp
  let ?bs = "be_split 4 FDT_BEGIN_NODE @ ascii ''aaaa''"
  let ?t = "\<lparr>tree_bytes = replicate 40 0 @ ?bs @ replicate (472 - length ?bs) 0, tree_len = 48\<rparr>"
  have t: "unterminated_tree = Some ?t"
    using t1 put_written [OF t1(2), of "ascii ''aaaa''"] len
    by (simp add: unterminated_tree_def) (simp add: written_def)
  have w: "written ?t ?bs" using len by (simp add: written_def)
  define H where "H = concat (map (be_split 4) (test_header 12))"
  have hl: "length H = 40" by (simp add: H_def test_header_def)
  let ?bytes = "H @ (?bs @ be_split 4 FDT_END) @ TEST_STRINGS"
  obtain q where q: "tree_finish p va ?t = Some (test_blob va 12, q)" "image q (test_blob va 12) ?bytes"
    using finished [OF w, of va p] assms len by (auto simp: place_ok_def H_def)
  have img: "test_image q (test_blob va 12) ?bytes 52"
    using q(2) hl len by (simp add: test_image_def test_blob_def length_test_strings)
  have stands: "stands (walk (test_blob va 12)) (test_blob va 12) 40 52 [(DEFAULT_ADDRESS_CELLS, DEFAULT_SIZE_CELLS)]"
    using walk_stands [of 12 va] by simp
  have at: "drop 40 ?bytes = be_split 4 FDT_BEGIN_NODE @ ascii ''aaaa'' @ be_split 4 FDT_END @ TEST_STRINGS"
    using hl by simp
  note tok = stands_token [OF stands img at]
  have "be_split 4 FDT_END = [0, 0, 0, 9 :: u8]" by code_simp
  then have "drop 44 ?bytes = ascii ''aaaa'' @ 0 # [0, 0, 9] @ TEST_STRINGS"
    using hl by simp
  moreover have "from_utf8 (ascii ''aaaa'')" "0 \<notin> set (ascii ''aaaa'')" by code_simp+
  ultimately have str: "str_at q (test_blob va 12) 44 52 = Some (Some (ascii ''aaaa''))"
    using image_str [OF q(2), of 44 "ascii ''aaaa''" "[0, 0, 9] @ TEST_STRINGS" 52] len hl
    by (simp add: length_test_strings)
  let ?w = "walk (test_blob va 12)"
  have w: "w_blob ?w = test_blob va 12" "w_offset ?w = 40" "w_end ?w = 52" "w_depth ?w = 0"
    "length (w_cells ?w) = MAX_DEPTH" "w_cells ?w ! 0 = (2, 1)"
    using stands stands_cell(1) [OF stands] by (simp_all add: stands_def DEFAULT_ADDRESS_CELLS_def DEFAULT_SIZE_CELLS_def)
  have "align4 49 = 52" by (simp add: align4_def saturating_add_def)
  let ?w' = "?w\<lparr>w_depth := 1,
    w_cells := (w_cells ?w)[1 := (DEFAULT_ADDRESS_CELLS, DEFAULT_SIZE_CELLS)], w_offset := 52\<rparr>"
  let ?step = "Node_Step \<lparr>node_offset = 40, node_depth = 1, address_cells = 2, size_cells = 1\<rparr> (ascii ''aaaa'')"
  have "align4 49 = 52" by (simp add: align4_def saturating_add_def)
  then have "open_node q ?w = Some (Inl (Some ?step, ?w'))"
    using w str len by (simp add: open_node_def Let_def checked_add_def MAX_DEPTH_def)
  moreover have "u32_at q (test_blob va 12) 40 = Some (Some FDT_BEGIN_NODE)" using tok w by simp
  ultimately have w': "walker_next q ?w = Some (Some ?step, ?w')"
    by (subst walker_next.simps) (simp add: walker_turn_def token_consts w)
  have "walker_next q ?w' = Some (None, ?w')"
    using w(3) by (subst walker_next.simps) (simp add: walker_turn_def)
  from walk_all_step [OF w' walk_all_stop [OF this]] t q(1) show ?thesis by blast
qed

text \<open>Eighteen nodes inside one another: the walk goes as deep as its array.\<close>

lemma begin_tokens: "for_each (\<lambda>_. tree_begin []) xs t = for_each write_token (map (\<lambda>_. Begin []) xs) t"
proof (induction xs arbitrary: t)
  case (Cons x xs)
  then show ?case by (cases "tree_begin [] t") simp_all
qed simp

lemma expect_deep:
  "length cs \<le> MAX_DEPTH \<Longrightarrow> length (expect i cs (map (\<lambda>_. Begin []) xs)) = min (length xs) (MAX_DEPTH - length cs)"
proof (induction xs arbitrary: i cs)
  case (Cons x xs)
  show ?case
  proof (cases "MAX_DEPTH \<le> length cs")
    case False
    then have "length (expect j (c # cs) (map (\<lambda>_. Begin []) xs)) = min (length xs) (MAX_DEPTH - Suc (length cs))" for j c
      using Cons.IH [of "c # cs"] by simp
    then have "length (expect i cs (map (\<lambda>_. Begin []) (x # xs))) = Suc (min (length xs) (MAX_DEPTH - Suc (length cs)))"
      using False by simp
    then show ?thesis using False unfolding length_Cons by linarith
  qed simp
qed simp

lemma deep_tree_walk:
  assumes "place_ok va"
  shows "\<exists>t b q steps. for_each (\<lambda>_. tree_begin []) [0..<MAX_DEPTH + 2] tree_new = Some t \<and>
    tree_finish p va t = Some (b, q) \<and> walk_all q (walk b) = Some steps \<and> length steps = MAX_DEPTH - 1"
proof -
  let ?ks = "map (\<lambda>_. Begin []) [0..<MAX_DEPTH + 2]"
  have "list_all token_ok ?ks" by (simp add: list_all_iff token_ok_def)
  moreover have "length (concat (map enc (map (\<lambda>_. Begin []) xs))) = 8 * length xs" for xs :: "nat list"
    by (induction xs) (simp_all add: next_multiple_of_def)
  then have "length (concat (map enc ?ks)) \<le> 426" by (simp add: MAX_DEPTH_def del: upt_Suc map_map)
  ultimately obtain t b q where "write_tokens ?ks = Some t" "tree_finish p va t = Some (b, q)"
    "walk_all q (walk b) = Some (expect 40 [(DEFAULT_ADDRESS_CELLS, DEFAULT_SIZE_CELLS)] ?ks)"
    using parse_written [OF _ _ assms, of ?ks p] by blast
  moreover have "length (expect 40 [(DEFAULT_ADDRESS_CELLS, DEFAULT_SIZE_CELLS)] ?ks) = MAX_DEPTH - 1"
    using expect_deep [of "[(DEFAULT_ADDRESS_CELLS, DEFAULT_SIZE_CELLS)]" 40 "[0..<MAX_DEPTH + 2]"]
    by (simp add: MAX_DEPTH_def del: upt_Suc)
  ultimately show ?thesis unfolding begin_tokens write_tokens_def [symmetric] by blast
qed

lemma lying_tree_walk:
  assumes "place_ok va"
  shows "\<exists>t t' t'' b q. tree_begin [] tree_new = Some t \<and> lying_prop STR_COMPATIBLE 0x10000 t = Some t' \<and>
    tree_end_node t' = Some t'' \<and> tree_finish p va t'' = Some (b, q) \<and>
    walk_all q (walk b) = Some [Node_Step root_node []] \<and> (\<forall>name. property q b root_node name = Some None)"
proof -
  let ?ks = "[Begin [], Lying STR_COMPATIBLE 0x10000, Finish]"
  have "list_all token_ok ?ks" by (simp add: token_ok_def)
  moreover have "length (concat (map enc ?ks)) \<le> 426" by (simp add: next_multiple_of_def)
  ultimately obtain t b q where w: "write_tokens ?ks = Some t" "tree_finish p va t = Some (b, q)"
    "walk_all q (walk b) = Some (expect 40 [(DEFAULT_ADDRESS_CELLS, DEFAULT_SIZE_CELLS)] ?ks)"
    "\<And>ks1 nm ks2 n name. ?ks = ks1 @ Begin nm # ks2 \<Longrightarrow>
      node_offset n = of_nat (40 + length (concat (map enc ks1))) \<Longrightarrow> property q b n name = Some (value_of name ks2)"
    using parse_written [OF _ _ assms, of ?ks p] by blast
  have "property q b root_node name = Some (value_of name (tl ?ks))" for name
    by (rule w(4) [of "[]" "[]"]) (simp_all add: root_node_def)
  moreover have "expect 40 [(DEFAULT_ADDRESS_CELLS, DEFAULT_SIZE_CELLS)] ?ks = [Node_Step root_node []]"
    by (simp add: root_node_def MAX_DEPTH_def DEFAULT_ADDRESS_CELLS_def DEFAULT_SIZE_CELLS_def)
  ultimately show ?thesis using w(1-3) by (auto simp: write_tokens_def bind_eq_Some_conv)
qed

section \<open>The self test of the header\<close>

text \<open>\<open>Scratch\<close>: a header by hand in an otherwise empty blob of 64 bytes, at a place of its own.\<close>

definition scratch_put :: "nat \<Rightarrow> u32 \<Rightarrow> u8 list \<Rightarrow> u8 list option" where
  "scratch_put offset v bytes = put_slice offset (be_split 4 v) bytes"

definition scratch_good :: "u8 list option" where
  "scratch_good = for_each (\<lambda>(offset, v). scratch_put offset v)
     [(0, MAGIC), (4, 64), (8, 40), (12, 56), (16, 40), (20, 17), (24, 16), (28, 0), (32, 8), (36, 16)]
     (replicate 64 0)"

definition scratch_probe :: "phys \<Rightarrow> u64 \<Rightarrow> u8 list \<Rightarrow> (fdt_error + header) option" where
  "scratch_probe p va bytes = probe_blob (store_bytes p va bytes) va"

text \<open>One of the broken headers: a good one with some fields overwritten, and the error it must give.\<close>

definition refused :: "phys \<Rightarrow> u64 \<Rightarrow> (nat \<times> u32) list \<Rightarrow> fdt_error \<Rightarrow> unit option" where
  "refused p va puts e = do {
     bytes \<leftarrow> scratch_good;
     bytes \<leftarrow> for_each (\<lambda>(offset, v). scratch_put offset v) puts bytes;
     r \<leftarrow> scratch_probe p va bytes;
     assert_that (r = Inl e)
   }"

definition fdt_self_test :: "mach \<Rightarrow> (nat \<Rightarrow> u64) \<Rightarrow> blob option \<Rightarrow> unit option" where
  "fdt_self_test m place stored = do {
     let p = mphys m;
     good \<leftarrow> scratch_good;
     r \<leftarrow> scratch_probe p (place 0) good;
     header \<leftarrow> (case r of Inr h \<Rightarrow> Some h | Inl e \<Rightarrow> None);
     assert_that (totalsize header = 64);
     assert_that (version header = 17);
     assert_that (size_dt_struct header = 16);
     r \<leftarrow> probe_blob p 0;
     assert_that (r = Inl Null);
     address \<leftarrow> checked_add (place 0) 4;
     r \<leftarrow> probe_blob (store_bytes p (place 0) good) address;
     assert_that (r = Inl (Misaligned address));
     refused p (place 1) [(0, 0xdeadbeef)] (BadMagic 0xdeadbeef);
     refused p (place 2) [(4, HEADER_SIZE - 1)] (TooSmall (HEADER_SIZE - 1));
     refused p (place 3) [(4, MAX_BLOB + 1)] (TooLarge (MAX_BLOB + 1));
     refused p (place 4) [(24, SUPPORTED_VERSION + 1)] (Version 17);
     refused p (place 5) [(36, 4096)] BlockOutOfRange;
     refused p (place 6) [(8, - 1), (36, 64)] BlockOutOfRange;
     refused p (place 7) [(12, 60), (32, 8)] BlockOutOfRange;
     (r, _) \<leftarrow> fdt_init m stored 0x1000;
     assert_that (r = Inl (Blob_OutsideRam 0x1000))
   }"

text \<open>A header as the list of its ten fields.\<close>

definition fields :: "u32 list \<Rightarrow> u8 list" where
  "fields fs = concat (map (be_split 4) fs) @ replicate 24 0"

lemma put_field:
  assumes "i < length fs"
  shows "scratch_put (4 * i) v (fields fs) = Some (fields (fs[i := v]))"
proof -
  have len: "length (concat (map (be_split 4) xs)) = 4 * length xs" for xs :: "u32 list"
    by (induction xs) simp_all
  obtain xs y ys where fs: "fs = xs @ y # ys" "length xs = i" by (metis assms id_take_nth_drop length_take min.absorb4)
  then show ?thesis
    by (simp add: scratch_put_def put_slice_def fields_def len list_update_append)
qed

abbreviation good_fields :: "u32 list" where
  "good_fields \<equiv> [MAGIC, 64, 40, 56, 40, 17, 16, 0, 8, 16]"

lemma scratch_good_fields: "scratch_good = Some (fields good_fields)"
proof -
  have "replicate 64 0 = fields (replicate 10 0)" by code_simp
  then show ?thesis
    using put_field [of 0] put_field [of 1] put_field [of 2] put_field [of 3] put_field [of 4] put_field [of 5]
      put_field [of 6] put_field [of 7] put_field [of 8] put_field [of 9]
    by (simp add: scratch_good_def numeral_nat)
qed

lemma probe_fields:
  assumes "place_ok va" "length fs = 10"
  shows "scratch_probe p va (fields fs) = Some (
    if fs ! 0 \<noteq> MAGIC then Inl (BadMagic (fs ! 0))
    else if fs ! 1 < HEADER_SIZE then Inl (TooSmall (fs ! 1))
    else if MAX_BLOB < fs ! 1 then Inl (TooLarge (fs ! 1))
    else if SUPPORTED_VERSION < fs ! 6 \<or> fs ! 5 < fs ! 6 then Inl (Version (fs ! 5))
    else if \<not> ends_inside (fs ! 1) (fs ! 2) (fs ! 9) \<or> \<not> ends_inside (fs ! 1) (fs ! 3) (fs ! 8) \<or> fs ! 1 \<le> fs ! 4
    then Inl BlockOutOfRange
    else Inr \<lparr>totalsize = fs ! 1, off_dt_struct = fs ! 2, off_dt_strings = fs ! 3, off_mem_rsvmap = fs ! 4,
      version = fs ! 5, last_comp_version = fs ! 6, boot_cpuid_phys = fs ! 7, size_dt_strings = fs ! 8,
      size_dt_struct = fs ! 9\<rparr>)"
proof -
  have len: "length (concat (map (be_split 4) xs)) = 4 * length xs" for xs :: "u32 list"
    by (induction xs) simp_all
  have total: "length (fields fs) = 64" using assms(2) by (simp add: fields_def len)
  have field: "be32 (store_bytes p va (fields fs)) va (of_nat (4 * i)) = Some (fs ! i)" if "i < 10" for i
  proof -
    have "i < length fs" using that assms(2) by simp
    then obtain xs y ys where "fs = xs @ y # ys" "length xs = i"
      by (metis id_take_nth_drop length_take min.absorb4)
    then have split: "fs ! i = y" "drop (Suc i) fs = ys" by auto
    have "drop (4 * i) (fields fs) =
        be_split 4 (fs ! i) @ concat (map (be_split 4) (drop (Suc i) fs)) @ replicate 24 0"
      unfolding split unfolding \<open>fs = _\<close> \<open>length xs = i\<close> [symmetric] by (simp add: fields_def len)
    then show ?thesis
      using assms(1) by (intro be32_stored) (simp_all add: total place_ok_def)
  qed
  show ?thesis
    using assms(1) field [of 0] field [of 1] field [of 2] field [of 3] field [of 4] field [of 5] field [of 6]
      field [of 7] field [of 8] field [of 9]
    by (simp add: scratch_probe_def probe_blob_def read_header_def place_ok_def)
qed

lemma refused_fields:
  assumes "place_ok va"
  shows "refused p va [(0, 0xdeadbeef)] (BadMagic 0xdeadbeef) = Some ()"
    "refused p va [(4, HEADER_SIZE - 1)] (TooSmall (HEADER_SIZE - 1)) = Some ()"
    "refused p va [(4, MAX_BLOB + 1)] (TooLarge (MAX_BLOB + 1)) = Some ()"
    "refused p va [(24, SUPPORTED_VERSION + 1)] (Version 17) = Some ()"
    "refused p va [(36, 4096)] BlockOutOfRange = Some ()"
    "refused p va [(8, - 1), (36, 64)] BlockOutOfRange = Some ()"
    "refused p va [(12, 60), (32, 8)] BlockOutOfRange = Some ()"
proof -
  note put = put_field [of 0, simplified] put_field [of 1, simplified] put_field [of 2, simplified]
    put_field [of 3, simplified] put_field [of 6, simplified] put_field [of 8, simplified] put_field [of 9, simplified]
  note defs = refused_def scratch_good_fields put probe_fields [OF assms] MAGIC_def HEADER_SIZE_def MAX_BLOB_def
    SUPPORTED_VERSION_def ends_inside_def checked_add_def unsigned_minus_1_eq_mask mask_eq_exp_minus_1
  show "refused p va [(0, 0xdeadbeef)] (BadMagic 0xdeadbeef) = Some ()"
    "refused p va [(4, HEADER_SIZE - 1)] (TooSmall (HEADER_SIZE - 1)) = Some ()"
    "refused p va [(4, MAX_BLOB + 1)] (TooLarge (MAX_BLOB + 1)) = Some ()"
    "refused p va [(24, SUPPORTED_VERSION + 1)] (Version 17) = Some ()"
    "refused p va [(36, 4096)] BlockOutOfRange = Some ()"
    "refused p va [(8, - 1), (36, 64)] BlockOutOfRange = Some ()"
    "refused p va [(12, 60), (32, 8)] BlockOutOfRange = Some ()"
    by (simp_all add: defs)
qed

text \<open>The test of the header passes at every place, on a machine whose RAM does not begin at zero.\<close>

lemma fdt_self_test_passes:
  assumes "\<And>i. i < 8 \<Longrightarrow> place_ok (place i)" "0x1000 < ram_base (mframes m)"
  shows "fdt_self_test m place stored = Some ()"
proof -
  have good: "scratch_probe p (place 0) (fields good_fields) = Some (Inr \<lparr>totalsize = 64, off_dt_struct = 40,
      off_dt_strings = 56, off_mem_rsvmap = 40, version = 17, last_comp_version = 16, boot_cpuid_phys = 0,
      size_dt_strings = 8, size_dt_struct = 16\<rparr>)" for p
    using probe_fields [OF assms(1) [of 0], of good_fields p]
    by (simp add: HEADER_SIZE_def MAX_BLOB_def SUPPORTED_VERSION_def ends_inside_def checked_add_def)
  have ok: "place 0 \<noteq> 0" "place 0 mod 8 = 0" "unat (place 0) + 512 < 2 ^ 64"
    using assms(1) [of 0] by (simp_all add: place_ok_def is_multiple_of_def)
  have "unat (place 0) mod 8 = unat (place 0 mod 8)" by (simp add: unat_div_mod)
  then have p0: "unat (place 0) mod 8 = 0" using ok(2) by simp
  have sum: "checked_add (place 0) 4 = Some (place 0 + 4)" "unat (place 0 + 4) = unat (place 0) + 4"
    using ok(3) by (simp_all add: checked_add_def unat_add_no_overflow)
  have "\<not> is_multiple_of (place 0 + 4) 8"
  proof
    assume "is_multiple_of (place 0 + 4) 8"
    then have "unat ((place 0 + 4) mod 8) = 0" by (simp add: is_multiple_of_def)
    then have "(unat (place 0) + 4) mod 8 = 0" using sum(2) by (simp add: unat_div_mod)
    then show False using p0 by presburger
  qed
  moreover have "place 0 + 4 \<noteq> 0" using sum(2) by (metis add_is_0 unat_0 zero_neq_numeral)
  ultimately have mis: "probe_blob p (place 0 + 4) = Some (Inl (Misaligned (place 0 + 4)))" for p
    by (simp add: probe_blob_def)
  have out: "fdt_init m stored 0x1000 = Some (Inl (Blob_OutsideRam 0x1000), stored)"
    using assms(2) by (simp add: fdt_init_def)
  have null: "probe_blob p 0 = Some (Inl Null)" for p by (simp add: probe_blob_def)
  show ?thesis
    using assms(1) by (simp add: fdt_self_test_def scratch_good_fields good mis null out sum(1) refused_fields Let_def)
qed

section \<open>What the test asks\<close>

text \<open>The answers of a well formed tree, given what the walk and the properties of its nodes are.\<close>

lemma test_tree_answers:
  assumes "walk_all q (walk b) = Some (expect 40 [(DEFAULT_ADDRESS_CELLS, DEFAULT_SIZE_CELLS)] (test_tokens acells scells))"
  shows "find_node q b (ascii ''/memory'') = Some (Some (memory_node acells scells))"
    "find_node q b (ascii ''/memory@1000'') = Some (Some (memory_node acells scells))"
    "find_node q b (ascii ''/'') = Some (Some root_node)" "find_node q b (ascii ''/nowhere'') = Some None"
    "find_node q b (ascii ''/memory/deeper'') = Some None"
proof -
  have "length (components (ascii ''/memory'')) = 1" "length (components (ascii ''/memory@1000'')) = 1"
    "length (components (ascii ''/'')) = 0" "length (components (ascii ''/nowhere'')) = 1"
    "length (components (ascii ''/memory/deeper'')) = 2" by code_simp+
  note len = this
  show "find_node q b (ascii ''/memory'') = Some (Some (memory_node acells scells))"
    "find_node q b (ascii ''/memory@1000'') = Some (Some (memory_node acells scells))"
    "find_node q b (ascii ''/'') = Some (Some root_node)" "find_node q b (ascii ''/nowhere'') = Some None"
    "find_node q b (ascii ''/memory/deeper'') = Some None"
    using find_node_walked [OF assms] by (simp_all only: len find_steps_test)
qed

text \<open>A question about a blob is answered the same in every memory that holds it.\<close>

lemma parser_same:
  assumes "blob_ok b" "same_blob p q b"
  shows "find_node q b path = find_node p b path" "find_compatible q b wanted = find_compatible p b wanted"
    "property q b n name = property p b n name" "property_str q b n name = property_str p b n name"
    "reg q b n i = reg p b n i"
  using find_node_loop_same [OF assms walk_ok] find_compatible_loop_same [OF assms walk_ok] props_same [OF assms(2)]
  by (simp_all add: find_node_def find_compatible_def find_compatible_after_def property_str_def)

text \<open>What a tree's array holds: its 512 bytes, and no other byte of memory, change when it is finished.\<close>

definition off :: "blob \<Rightarrow> u64 \<Rightarrow> bool" where
  "off b va \<longleftrightarrow> unat (blob_va b) + unat (blob_size b) \<le> unat va \<or> unat va + 512 \<le> unat (blob_va b)"

lemma put_slice_length: "put_slice at xs bytes = Some ys \<Longrightarrow> length ys = length bytes"
  by (auto simp: put_slice_def split: if_splits)

lemma tree_lengths:
  "tree_u32 v t = Some t' \<Longrightarrow> length (tree_bytes t') = length (tree_bytes t)"
  "tree_begin name t = Some t' \<Longrightarrow> length (tree_bytes t') = length (tree_bytes t)"
  "tree_end_node t = Some t' \<Longrightarrow> length (tree_bytes t') = length (tree_bytes t)"
  "tree_prop offset xs t = Some t' \<Longrightarrow> length (tree_bytes t') = length (tree_bytes t)"
  "lying_prop offset v t = Some t' \<Longrightarrow> length (tree_bytes t') = length (tree_bytes t)"
proof -
  show u32: "length (tree_bytes t') = length (tree_bytes t)" if "tree_u32 v t = Some t'" for v t t'
    using that by (auto simp: tree_u32_def bind_eq_Some_conv dest: put_slice_length)
  show "tree_begin name t = Some t' \<Longrightarrow> length (tree_bytes t') = length (tree_bytes t)"
    "tree_end_node t = Some t' \<Longrightarrow> length (tree_bytes t') = length (tree_bytes t)"
    "tree_prop offset xs t = Some t' \<Longrightarrow> length (tree_bytes t') = length (tree_bytes t)"
    "lying_prop offset v t = Some t' \<Longrightarrow> length (tree_bytes t') = length (tree_bytes t)"
    by (auto simp: tree_begin_def tree_end_node_def tree_prop_def lying_prop_def bind_eq_Some_conv
        dest!: put_slice_length u32)
qed

lemma tree_new_length [simp]: "length (tree_bytes tree_new) = 512"
  by (simp add: tree_new_def)

lemma built_lengths:
  "test_tree acells scells = Some t \<Longrightarrow> length (tree_bytes t) = 512"
  "unterminated_tree = Some t \<Longrightarrow> length (tree_bytes t) = 512"
  "for_each (\<lambda>_. tree_begin []) xs t = Some t' \<Longrightarrow> length (tree_bytes t') = length (tree_bytes t)"
proof -
  show "test_tree acells scells = Some t \<Longrightarrow> length (tree_bytes t) = 512"
    by (auto simp: test_tree_def tree_cells_def bind_eq_Some_conv dest!: tree_lengths)
  show "unterminated_tree = Some t \<Longrightarrow> length (tree_bytes t) = 512"
    by (auto simp: unterminated_tree_def bind_eq_Some_conv dest!: tree_lengths put_slice_length)
  show "for_each (\<lambda>_. tree_begin []) xs t = Some t' \<Longrightarrow> length (tree_bytes t') = length (tree_bytes t)"
    by (induction xs arbitrary: t) (auto simp: bind_eq_Some_conv dest!: tree_lengths(2))
qed

lemma finish_stores:
  assumes "tree_finish p va t = Some (b, q)" "length (tree_bytes t) = 512"
  shows "\<exists>xs. length xs = 512 \<and> q = store_bytes p va xs"
proof -
  have slices: "for_each (\<lambda>(i, field). put_slice (i * 4) (be_split 4 field)) fs bytes = Some ys \<Longrightarrow> length ys = length bytes"
    for fs :: "(nat \<times> u32) list" and bytes ys
    by (induction fs arbitrary: bytes) (auto simp: bind_eq_Some_conv dest!: put_slice_length)
  have "length (tree_bytes t') = 512" if "tree_close t = Some t'" for t'
    using that assms(2) unfolding tree_close_def Let_def
    by (elim bind_eq_Some_conv [THEN iffD1, elim_format] exE conjE)
      (auto dest!: slices put_slice_length tree_lengths(1))
  moreover obtain t' where "tree_close t = Some t'" "q = store_bytes p va (tree_bytes t')"
    using assms(1) unfolding tree_finish_def Let_def
    by (elim bind_eq_Some_conv [THEN iffD1, elim_format] exE conjE) (auto split: sum.splits)
  ultimately show ?thesis by blast
qed

lemma stored_elsewhere:
  assumes "length xs = 512" "unat va + 512 < 2 ^ 64" "blob_ok b" "off b va"
  shows "same_blob p (store_bytes p va xs) b"
proof -
  have "\<not> unat (blob_va b + (of_nat i - va)) < 512" if i: "i < unat (blob_size b)" for i
  proof -
    have "unat (blob_va b) + unat (blob_size b) < 2 ^ 64" using assms(3) by (simp add: blob_ok_def)
    then have "unat (blob_va b + of_nat i) = unat (blob_va b) + i"
      using i by (simp add: unat_add_no_overflow unat_of_nat_u64)
    then have "\<not> unat (blob_va b + of_nat i - va) < 512" using assms(2,4) i by (auto simp: off_def unat_sub_if')
    then show ?thesis unfolding add_diff_eq .
  qed
  then show ?thesis
    using assms(1) by (simp add: same_blob_def load_def pmem_store_bytes kernel_pa_def store_bytes_def Let_def)
qed

lemma finish_elsewhere:
  assumes "tree_finish p va t = Some (b', q)" "length (tree_bytes t) = 512" "place_ok va" "blob_ok b" "off b va"
  shows "same_blob p q b"
  using finish_stores [OF assms(1,2)] stored_elsewhere [OF _ _ assms(4,5)] assms(3) by (auto simp: place_ok_def)

lemma same_blob_trans: "same_blob p q b \<Longrightarrow> same_blob q r b \<Longrightarrow> same_blob p r b"
  by (simp add: same_blob_def)

text \<open>Both well formed trees have the same size, so at the same place they are the same blob.\<close>

lemma test_tree_blob:
  assumes "place_ok va" "test_tree acells scells = Some t" "tree_finish p va t = Some (b, q)"
  shows "b = test_blob va 156"
proof -
  let ?ks = "test_tokens acells scells"
  have len: "length (concat (map enc ?ks)) = 152"
    by (simp add: test_tokens_def ascii_lengths next_multiple_of_def)
  obtain t' where t': "write_tokens ?ks = Some t'" "written t' (concat (map enc ?ks))"
    using written_tokens [OF written_new, of ?ks] len by (auto simp: write_tokens_def)
  then have "t' = t" using assms(2) by (simp add: test_tree_tokens)
  then obtain q' where "tree_finish p va t = Some (test_blob va (length (concat (map enc ?ks)) + 4), q')"
    using finished [OF t'(2), of va p] len assms(1) by (auto simp: place_ok_def)
  then show ?thesis using assms(3) len by simp
qed

lemma test_blob_ok: "place_ok va \<Longrightarrow> blob_ok (test_blob va 156)" "unat (blob_size (test_blob va 156)) = 238"
  "blob_va (test_blob va 156) = va"
  by (simp_all add: blob_ok_def test_blob_def place_ok_def MAX_BLOB_def)

lemma root_compatible:
  assumes "property q b root_node (ascii ''compatible'') = Some (Some (ascii ''test,root'' @ [0]))"
  shows "property_str q b root_node (ascii ''compatible'') = Some (Some (ascii ''test,root''))"
proof -
  have "takeWhile (\<lambda>c. c \<noteq> 0) (ascii ''test,root'' @ [0]) = ascii ''test,root''" "from_utf8 (ascii ''test,root'')"
    by code_simp+
  then show ?thesis using assms by (simp add: property_str_def attempt_def Let_def)
qed

lemma top_node_answers:
  assumes "walk_all q (walk b) = Some [Node_Step root_node name]"
  shows "find_node q b (ascii ''/'') = Some (if name = [] then Some root_node else None)"
proof -
  have "length (components (ascii ''/'')) = 0" "components (ascii ''/'') = []" by code_simp+
  then show ?thesis using find_node_walked [OF assms] by (simp add: on_the_path_def root_node_def MAX_DEPTH_def)
qed

section \<open>The whole test\<close>

text \<open>The first tree, asked in a memory in which it still is what it was.\<close>

lemma tree_answers:
  assumes "walk_all q (walk b) = Some (expect 40 [(DEFAULT_ADDRESS_CELLS, DEFAULT_SIZE_CELLS)] (test_tokens acells scells))"
    and "property q b root_node (ascii ''compatible'') = Some (Some (ascii ''test,root'' @ [0]))"
    and "property q b (memory_node acells scells) (ascii ''compatible'') =
      Some (Some (ascii ''test,memory'' @ [0] @ ascii ''test,thing'' @ [0]))"
  shows "property_str q b root_node (ascii ''compatible'') = Some (Some (ascii ''test,root''))"
    "find_compatible q b (ascii ''test,thing'') = Some (Some (memory_node acells scells))"
    "find_compatible q b (ascii ''test,memory'') = Some (Some (memory_node acells scells))"
    "find_compatible q b (ascii ''test,mem'') = Some None"
  using root_compatible [OF assms(2)] find_compatible_walked [OF assms(1)] assms(2,3)
  by (simp_all only: compatible_steps_test)

lemma node_depths: "node_depth (memory_node acells scells) = 2" "node_depth root_node = 1"
  by (simp_all add: memory_node_def root_node_def)

text \<open>Where the second tree does not touch the first, everything holds, and the live tree is left to ask.\<close>

lemma tree_self_test_runs:
  assumes places: "\<And>i. i < 5 \<Longrightarrow> place_ok (place i)"
    and apart: "unat (place 0) + 512 \<le> unat (place 1) \<or> unat (place 1) + 512 \<le> unat (place 0)"
  shows "\<exists>q. (\<forall>b. blob_ok b \<and> (\<forall>i < 5. off b (place i)) \<longrightarrow> same_blob p q b) \<and>
    tree_self_test p place live fs = (case live of Some b \<Rightarrow> live_tree_test q b fs | None \<Rightarrow> Some ())"
proof -
  obtain t0 tree q where tree: "test_tree 2 2 = Some t0" "tree_finish p (place 0) t0 = Some (tree, q)"
    "walk_all q (walk tree) = Some (expect 40 [(DEFAULT_ADDRESS_CELLS, DEFAULT_SIZE_CELLS)] (test_tokens 2 2))"
    "property q tree root_node (ascii ''compatible'') = Some (Some (ascii ''test,root'' @ [0]))"
    "property q tree (memory_node 2 2) (ascii ''compatible'') =
      Some (Some (ascii ''test,memory'' @ [0] @ ascii ''test,thing'' @ [0]))"
    "property q tree (memory_node 2 2) (ascii ''reg'') =
      Some (Some [0, 0, 0, 0, 0, 0, 0x10, 0, 0, 0, 0, 0, 0, 0, 0x20, 0])"
    "property q tree (memory_node 2 2) (ascii ''status'') = Some None"
    using test_tree_built [OF places, of 0 2 2 p] by auto
  obtain t1 narrow q1 where narrow: "test_tree 1 1 = Some t1" "tree_finish q (place 1) t1 = Some (narrow, q1)"
    "walk_all q1 (walk narrow) = Some (expect 40 [(DEFAULT_ADDRESS_CELLS, DEFAULT_SIZE_CELLS)] (test_tokens 1 1))"
    "property q1 narrow (memory_node 1 1) (ascii ''reg'') =
      Some (Some [0, 0, 0, 0, 0, 0, 0x10, 0, 0, 0, 0, 0, 0, 0, 0x20, 0])"
    using test_tree_built [OF places, of 1 1 1 q] by auto
  obtain t2 t2' t2'' lying q2 where lying: "tree_begin [] tree_new = Some t2"
    "lying_prop STR_COMPATIBLE 0x10000 t2 = Some t2'" "tree_end_node t2' = Some t2''"
    "tree_finish q1 (place 2) t2'' = Some (lying, q2)" "walk_all q2 (walk lying) = Some [Node_Step root_node []]"
    "\<And>name. property q2 lying root_node name = Some None"
    using lying_tree_walk [OF places, of 2 q1] by auto
  obtain t3 unended q3 where unended: "unterminated_tree = Some t3" "tree_finish q2 (place 3) t3 = Some (unended, q3)"
    "walk_all q3 (walk unended) = Some [Node_Step \<lparr>node_offset = 40, node_depth = 1, address_cells = 2, size_cells = 1\<rparr> (ascii ''aaaa'')]"
    using unterminated_tree_walk [OF places, of 3 q2] by auto
  obtain t4 deep q4 steps where deep: "for_each (\<lambda>_. tree_begin []) [0..<MAX_DEPTH + 2] tree_new = Some t4"
    "tree_finish q3 (place 4) t4 = Some (deep, q4)" "walk_all q4 (walk deep) = Some steps" "length steps = MAX_DEPTH - 1"
    using deep_tree_walk [OF places, of 4 q3] by auto
  have lens: "length (tree_bytes t0) = 512" "length (tree_bytes t1) = 512" "length (tree_bytes t2'') = 512"
    "length (tree_bytes t3) = 512" "length (tree_bytes t4) = 512"
    using built_lengths(1) [OF tree(1)] built_lengths(1) [OF narrow(1)] built_lengths(2) [OF unended(1)]
      built_lengths(3) [OF deep(1)] tree_lengths(2) [OF lying(1)] tree_lengths(5) [OF lying(2)] tree_lengths(3) [OF lying(3)]
    by simp_all
  have "tree = test_blob (place 0) 156" using test_tree_blob [OF _ tree(1,2)] places by simp
  then have first: "blob_ok tree" "off tree (place 1)"
    using apart test_blob_ok [of "place 0"] places [of 0] by (auto simp: off_def)
  then have "same_blob q q1 tree" using finish_elsewhere [OF narrow(2) lens(2)] places by simp
  note kept = parser_same [OF first(1) this]
  have "ascii ''aaaa'' \<noteq> []" by code_simp
  then have root: "find_node q2 lying (ascii ''/'') = Some (Some root_node)" "find_node q3 unended (ascii ''/'') = Some None"
    using top_node_answers [OF lying(5)] top_node_answers [OF unended(3) [folded root_node_def]] by simp_all
  have "tree_self_test p place live fs = (case live of Some b \<Rightarrow> live_tree_test q4 b fs | None \<Rightarrow> Some ())"
    unfolding tree_self_test_def
    by (simp add: tree(1,2,7) narrow(1,2) lying(1-4,6) unended(1,2) deep kept test_tree_answers [OF tree(3)]
        test_tree_answers [OF narrow(3)] tree_answers [OF tree(3-5)] node_depths root unwrap_def
        reg_test [OF tree(6)] reg_test [OF narrow(4)] del: upt_Suc One_nat_def add_2_eq_Suc')
  moreover have "same_blob p q4 b" if b: "blob_ok b \<and> (\<forall>i < 5. off b (place i))" for b
  proof -
    have "off b (place i)" if "i < 5" for i using b that by blast
    then have same: "same_blob p q b" "same_blob q q1 b" "same_blob q1 q2 b" "same_blob q2 q3 b" "same_blob q3 q4 b"
      using finish_elsewhere [OF tree(2) lens(1), of b] finish_elsewhere [OF narrow(2) lens(2), of b]
        finish_elsewhere [OF lying(4) lens(3), of b] finish_elsewhere [OF unended(2) lens(4), of b]
        finish_elsewhere [OF deep(2) lens(5), of b] places b by simp_all
    show ?thesis
      by (rule same_blob_trans [OF same_blob_trans [OF same_blob_trans [OF same_blob_trans [OF same(1,2)] same(3)] same(4)] same(5)])
  qed
  ultimately show ?thesis by blast
qed

text \<open>Where the second array is put in the place of the first, the first blob has become the second.\<close>

lemma tree_self_test_dangles:
  assumes place: "place_ok (place 0)" "place 1 = place 0"
  shows "tree_self_test p place live fs = None"
proof -
  obtain t0 tree q where tree: "test_tree 2 2 = Some t0" "tree_finish p (place 0) t0 = Some (tree, q)"
    "walk_all q (walk tree) = Some (expect 40 [(DEFAULT_ADDRESS_CELLS, DEFAULT_SIZE_CELLS)] (test_tokens 2 2))"
    "property q tree (memory_node 2 2) (ascii ''reg'') =
      Some (Some [0, 0, 0, 0, 0, 0, 0x10, 0, 0, 0, 0, 0, 0, 0, 0x20, 0])"
    using test_tree_built [OF place(1), of 2 2 p] by auto
  obtain t1 narrow q1 where narrow: "test_tree 1 1 = Some t1" "tree_finish q (place 0) t1 = Some (narrow, q1)"
    "walk_all q1 (walk narrow) = Some (expect 40 [(DEFAULT_ADDRESS_CELLS, DEFAULT_SIZE_CELLS)] (test_tokens 1 1))"
    "property q1 narrow root_node (ascii ''compatible'') = Some (Some (ascii ''test,root'' @ [0]))"
    "property q1 narrow (memory_node 1 1) (ascii ''compatible'') =
      Some (Some (ascii ''test,memory'' @ [0] @ ascii ''test,thing'' @ [0]))"
    "property q1 narrow (memory_node 1 1) (ascii ''reg'') =
      Some (Some [0, 0, 0, 0, 0, 0, 0x10, 0, 0, 0, 0, 0, 0, 0, 0x20, 0])"
    using test_tree_built [OF place(1), of 1 1 q] by auto
  have same: "tree = narrow"
    using test_tree_blob [OF place(1) tree(1,2)] test_tree_blob [OF place(1) narrow(1,2)] by simp
  have "memory_node 1 1 \<noteq> memory_node 2 2" by (simp add: memory_node_def)
  then show ?thesis
    unfolding tree_self_test_def
    by (simp add: tree(1,2) narrow(1,2) place(2) test_tree_answers [OF tree(3)] test_tree_answers [OF narrow(3)]
        test_tree_answers [OF tree(3), unfolded same] tree_answers [OF narrow(3-5)] node_depths unwrap_def
        reg_test [OF tree(4)] reg_test [OF tree(4), unfolded same] reg_test [OF narrow(6)] same
        del: upt_Suc One_nat_def add_2_eq_Suc')
qed

section \<open>Properties\<close>

text \<open>
  C39. What the boot-time test of the walk does. Wherever the arrays of the handmade trees lie, as long
  as the second is not put over the first, every assertion on them holds and nothing panics: paths
  resolve with and without the unit address, \<open>reg\<close> is decoded with the cells the parent declared,
  \<open>compatible\<close> is matched entry by entry, absent things are absent, a length that lies is refused, and
  a tree that is too deep is cut off at the depth of the walker's array. What is left is to ask the
  live tree, whose answers the handmade ones have not changed, if it lies elsewhere. If the second
  array is put in the place of the first, whose temporary is gone by then, the test panics.
\<close>

theorem tree_self_test_passes:
  assumes "\<And>i. i < 5 \<Longrightarrow> place_ok (place i)"
  shows "(unat (place 0) + 512 \<le> unat (place 1) \<or> unat (place 1) + 512 \<le> unat (place 0) \<longrightarrow>
      tree_self_test p place None fs = Some () \<and>
      (\<forall>b. blob_ok b \<and> (\<forall>i < 5. off b (place i)) \<longrightarrow> tree_self_test p place (Some b) fs = live_tree_test p b fs)) \<and>
    (place 1 = place 0 \<longrightarrow> tree_self_test p place live fs = None)"
proof (intro conjI impI allI)
  assume apart: "unat (place 0) + 512 \<le> unat (place 1) \<or> unat (place 1) + 512 \<le> unat (place 0)"
  show "tree_self_test p place None fs = Some ()"
    using tree_self_test_runs [OF assms apart, of p None fs] by auto
  show "tree_self_test p place (Some b) fs = live_tree_test p b fs" if "blob_ok b \<and> (\<forall>i < 5. off b (place i))" for b
  proof -
    obtain q where q: "\<forall>b. blob_ok b \<and> (\<forall>i < 5. off b (place i)) \<longrightarrow> same_blob p q b"
      "tree_self_test p place (Some b) fs = live_tree_test q b fs"
      using tree_self_test_runs [OF assms apart, of p "Some b" fs] by auto
    have "same_blob p q b" using q(1) that by blast
    note same = parser_same [OF conjunct1 [OF that] this]
    show ?thesis unfolding q(2) live_tree_test_def same ..
  qed
next
  assume "place 1 = place 0"
  then show "tree_self_test p place live fs = None" using tree_self_test_dangles assms by simp
qed

theorem tree_self_test_passes_witness:
  "tree_self_test \<lparr>pmem = (\<lambda>_. 0xab), phys_offset = 0xffff000000000000\<rparr>
     (\<lambda>i. 0xffff000041000000 + 512 * of_nat i) None frames_boot = Some () \<and>
   tree_self_test \<lparr>pmem = (\<lambda>_. 0xab), phys_offset = 0xffff000000000000\<rparr>
     (\<lambda>i. 0xffff000041000000) None frames_boot = None"
proof -
  have "place_ok (0xffff000041000000 + 512 * of_nat i)" if "i < 5" for i :: nat
  proof -
    have "i = 0 \<or> i = 1 \<or> i = 2 \<or> i = 3 \<or> i = 4" using that by auto
    then show ?thesis by (auto simp: place_ok_def is_multiple_of_def)
  qed
  moreover have "place_ok 0xffff000041000000" by (simp add: place_ok_def is_multiple_of_def)
  ultimately show ?thesis
    using tree_self_test_passes [of "\<lambda>i. 0xffff000041000000 + 512 * of_nat i"]
      tree_self_test_passes [of "\<lambda>i. 0xffff000041000000"] by simp
qed

end
