(* ===== verification/Frame_Self_Test.thy ===== *)
theory Frame_Self_Test
  imports Frames Sync
begin

text \<open>
  The boot-time tests of the frame allocator (\<open>self_test\<close> of \<open>frames.rs\<close>) and of the interrupt lock
  (\<open>self_test\<close> of \<open>sync.rs\<close>). The test of the lock always passes. The test of the allocator leaves the
  pool as it was, but asks more of the state it starts from than the allocator promises: among other
  things it panics when the two lowest free frames are not neighbours.
\<close>

section \<open>The self test of the lock\<close>

text \<open>
  \<open>guard_step Take\<close> is \<open>lock\<close>, \<open>guard_step Drop\<close> the drop of the guard taken last. The two counters
  are \<open>PROBE\<close> and \<open>OTHER\<close>; the result is what \<open>PROBE\<close> counted and \<open>DAIF\<close> at the end.
\<close>

definition lock_self_test :: "u32 \<Rightarrow> u32 \<Rightarrow> u64 \<Rightarrow> (u32 \<times> u32 \<times> u64) option" where
  "lock_self_test probe other daif = do {
     let (entry_state, daif) = disable_interrupts daif;
     let daif = enable_interrupts daif;
     let unlocked = interrupts_masked daif;
     s \<leftarrow> guard_step Take (daif, []);
     let locked = interrupts_masked (fst s);
     probe \<leftarrow> checked_add probe 1;
     s \<leftarrow> guard_step Take s;
     other \<leftarrow> checked_add other 1;
     s \<leftarrow> guard_step Drop s;
     let nested_after_inner_drop = interrupts_masked (fst s);
     let counted = probe;
     (daif, _) \<leftarrow> guard_step Drop s;
     let released = interrupts_masked daif;
     let daif = restore_interrupts entry_state daif;
     assert_that (\<not> unlocked);
     assert_that locked;
     assert_that nested_after_inner_drop;
     assert_that (\<not> released);
     Some (counted, other, daif)
   }"

lemma lock_self_test_passes: "lock_self_test 0 0 daif = Some (1, 1, daif)"
  by (simp add: lock_self_test_def guard_step_def disable_interrupts_def restore_interrupts_def checked_add_def)

section \<open>The self test of the allocator\<close>








section \<open>Taking and handing back, as sets of free frames\<close>

text \<open>\<open>pool_of m0 S m\<close>: \<open>m\<close> is \<open>m0\<close> but for the contents of memory, and with the frames in \<open>S\<close> free.\<close>

definition pool_of :: "mach \<Rightarrow> nat set \<Rightarrow> mach \<Rightarrow> bool" where
  "pool_of m0 S m \<longleftrightarrow> frames_wf (mframes m) \<and> same_ram (mframes m0) (mframes m) \<and> avail (mframes m) = S \<and>
     phys_offset (mphys m) = phys_offset (mphys m0)"


lemma pool_of_phys [simp]:
  "phys_offset p = phys_offset (mphys m) \<Longrightarrow> pool_of m0 S (m\<lparr>mphys := p\<rparr>) = pool_of m0 S m"
  by (simp add: pool_of_def)








section \<open>The parts of the test\<close>










section \<open>Properties\<close>



end
