(* ===== verification/Spec2Isabelle.thy ===== *)
theory Spec2Isabelle
  imports Guards Fdt_Safety Boot Queue_Rings Kernel_Map User_Spaces Handshake Fdt_Self_Test
    Frame_Self_Test
begin

text \<open>
  The Rack: a verification library for the kernel under \<open>kernel/src/\<close>, a small AArch64
  microkernel for one core of QEMU's \<open>virt\<close> machine.

  \<^bold>\<open>How the code is modelled.\<close> An operation is a function on an explicit state. A panic (a failed
  assertion, an overflow in a checked build, an index out of bounds, \<open>expect\<close>) is \<open>None\<close>; a Rust
  \<open>Result\<close> is a sum with the error on the left; a Rust \<open>Option\<close> is an option. Integers are words of
  their width, and \<open>checked_add\<close> and its like are written out wherever the build checks overflow.
  Memory is the map \<open>pmem\<close> from physical addresses to bytes, reached through \<open>phys_offset\<close> as the
  kernel does; a raw access touches exactly the bytes it names. Device registers are functions of an
  arbitrary device state (\<open>hw\<close> in \<open>Mmio\<close>), so nothing is assumed about devices beyond what a theorem
  says. A static is a field of a state record.

  \<^bold>\<open>The parts and where they are.\<close>

  \<^item> \<open>Prelude\<close>, \<open>Memory\<close>: checked arithmetic, indexing, loops in the option monad; bytes, words and
    physical memory.
  \<^item> \<open>Bitmap\<close>, \<open>Frames\<close> (\<open>frames.rs\<close>): the bitmap and the allocator on it. \<open>avail\<close> is the set of
    free indexes that the bitmap stands for and \<open>frames_wf\<close> the invariant that every operation
    keeps; the locale \<open>frame_pool\<close> is the contract that the page tables and queues rely on.
    \<open>Frame_Self_Test\<close> has the boot-time tests of the allocator and of the lock, and when they pass;
    which addresses the kernel's tables map is a parameter of the former, \<open>mapped\<close>.
  \<^item> \<open>Paging\<close> (\<open>paging.rs\<close>): descriptors, the walks, the builders, checks of user pointers, copies
    between address spaces, translation registers. \<open>Spaces\<close> reads tables in memory as a tree:
    \<open>view\<close> is the map they stand for, \<open>tree_ok\<close> their well-formedness, \<open>agree\<close> says which frames kept
    their bytes. \<open>Kernel_Map\<close> applies it to \<open>build_tables\<close>, \<open>User_Spaces\<close> to \<open>build_user_space\<close>
    and \<open>AddressSpace::destroy\<close>.
  \<^item> \<open>Sync\<close> (\<open>sync.rs\<close>), \<open>Gic\<close> (\<open>gic.rs\<close>), \<open>Timer\<close> (\<open>timer.rs\<close>): the interrupt lock, the
    interrupt controller's registers, the deadline of the tick.
  \<^item> \<open>Tasks\<close>, \<open>Kernel\<close>, \<open>Lifecycle\<close> (\<open>tasks.rs\<close>), \<open>Ipc_Table\<close>, \<open>Ipc\<close> (\<open>ipc.rs\<close>, \<open>notify.rs\<close>),
    \<open>Text\<close>, \<open>Syscall\<close> (\<open>syscall.rs\<close>), \<open>Exceptions\<close> (\<open>exceptions.rs\<close>): the record \<open>kernel\<close> holds
    the machine, the scheduler, the message table, the notifications and what each task that is off
    the CPU will do when it is switched to (\<open>ksaved\<close>). A call that blocks ends in a switch; the
    rest of its body is the continuation saved there and is run by \<open>resume\<close>.
  \<^item> \<open>Views\<close>, \<open>Invariant\<close>: what each primitive does to each task slot, and the invariant over
    scheduler, messages, notifications and fault waiters, kept by every handler. \<open>Machine\<close> is the
    step relation of the whole kernel and what holds in every state it reaches; \<open>Calls\<close> and
    \<open>Guards\<close> are about single calls; \<open>Scenario\<close> is the system the properties are tried on.
  \<^item> \<open>Fdt\<close>, \<open>Fdt_Safety\<close> (\<open>fdt.rs\<close>): the device tree parser, and that no blob that its header check
    accepts makes it panic or read outside itself. \<open>Fdt_Roundtrip\<close> has the writer of the module's tests and
    that walking undoes writing; \<open>Fdt_Self_Test\<close> the two boot-time tests and where their arrays have
    to lie for them to pass.
  \<^item> \<open>Mmio\<close>, \<open>Uart\<close> (\<open>uart.rs\<close>), \<open>Virtio\<close> (\<open>virtio.rs\<close>), \<open>Virtqueue\<close> (\<open>virtqueue.rs\<close>): the drivers.
    \<open>Queue_Rings\<close> refines the queue to an ownership specification of its descriptors.
  \<^item> \<open>Boot\<close> (\<open>main.rs\<close>): the order in which all of it is brought up.

  \<^bold>\<open>What the groups of lemmas show.\<close> Frames: functional behaviour of every operation through
  \<open>avail\<close>, all-or-nothing refusals, the exact conditions of the panics. Tables: the builders update
  the map they stand for at the range asked for and nowhere else, the kernel's roots and a user
  space map exactly what they should, and destroying a space returns every frame it took. Tasks and
  messages: the invariant in every reachable state, and from it that no task waits for one that is
  gone, that a notification is never slept through, that a switch always finds a runnable task, that
  \<open>recv\<close> ends. Guards: who may reply and what a lease allows. Parser: no panic, progress, bounds.
  Queue: every descriptor has one owner, and the device finds the buffers in order.

  \<^bold>\<open>Fuel and bounds.\<close> \<open>recv_fuel\<close> is one turn more than there are task slots: each turn that goes
  round consumes a waiting sender (\<open>Calls\<close>). Loops over a device or over a blob that may not end
  are partial functions whose value is \<open>None\<close> then, and the theorems say when it is not.
  \<open>map_steps\<close> bounds the leaves a range needs and \<open>kernel_room\<close> the frames of the kernel's map; a
  user space needs at most nine frames.

  \<^bold>\<open>Not modelled.\<close> Console output of reports and tables (\<open>print_*\<close>, \<open>report\<close>); the boot-time
  self tests of paging and exceptions, which jump and fault, of the virtio devices, which want a
  device that answers, and of tasks, which drive user programs; assembly (\<open>boot.S\<close>,
  \<open>vectors.S\<close>, \<open>switch.S\<close> are taken by their contract: they save and restore a frame;
  \<open>user.S\<close> holds test programs, the kernel's
  clients); \<open>semihosting.rs\<close>, which leaves the emulator; \<open>build.rs\<close>. Caches, barriers and the TLB
  have no state here: on one core they order accesses that the model already orders.
\<close>

end
